(* ===== verification/Redis_Prelude.thy ===== *)
theory Redis_Prelude
  imports Main "HOL-Library.Word" "HOL-Library.Monad_Syntax"
begin

text \<open>
  Shared vocabulary of the development: C memory blocks as byte lists with
  bounds-checked reads and writes, the fault monad, nullable pointers, and
  little-endian integers.

  A computation that may fault (an out-of-bounds access or a failed
  \<open>assert\<close>) has type \<open>'a option\<close>, and \<open>None\<close> is the fault; the
  \<open>do\<close> notation of \<open>Monad_Syntax\<close> sequences such computations the way C
  sequences statements. A pointer that may be NULL is \<open>'a nullable\<close>; a pointer
  into a block is its offset from the start of the block.
\<close>

unbundle bit_operations_syntax

type_synonym byte = "8 word"
type_synonym buf = "byte list"

datatype 'a nullable = NULL | Ptr 'a

named_theorems mem_simps \<open>evaluation of block reads and writes on concatenations\<close>
named_theorems width_simps \<open>unsigned values of bytes and small arithmetic on them\<close>


subsection \<open>Limits of the integer types\<close>

abbreviation INT16_MIN :: int where "INT16_MIN \<equiv> - 32768"
abbreviation INT16_MAX :: int where "INT16_MAX \<equiv> 32767"
abbreviation INT32_MIN :: int where "INT32_MIN \<equiv> - 2147483648"
abbreviation INT32_MAX :: int where "INT32_MAX \<equiv> 2147483647"
abbreviation INT64_MIN :: int where "INT64_MIN \<equiv> - 9223372036854775808"
abbreviation INT64_MAX :: int where "INT64_MAX \<equiv> 9223372036854775807"
abbreviation UINT16_MAX :: nat where "UINT16_MAX \<equiv> 65535"
abbreviation UINT32_MAX :: nat where "UINT32_MAX \<equiv> 4294967295"
abbreviation UINT64_MAX :: nat where "UINT64_MAX \<equiv> 18446744073709551615"

definition is_int64 :: "int \<Rightarrow> bool" where
  "is_int64 v \<longleftrightarrow> INT64_MIN \<le> v \<and> v \<le> INT64_MAX"

text \<open>Unsigned subtraction wraps at the width of the type.\<close>

definition sub32 :: "nat \<Rightarrow> nat \<Rightarrow> nat" where
  "sub32 a b = (a + (4294967296 - b mod 4294967296)) mod 4294967296"

definition sub64 :: "nat \<Rightarrow> nat \<Rightarrow> nat" where
  "sub64 a b = (a + (18446744073709551616 - b mod 18446744073709551616)) mod 18446744073709551616"

lemma sub32_le [simp]: "b \<le> a \<Longrightarrow> a < 4294967296 \<Longrightarrow> sub32 a b = a - b"
  by (simp add: sub32_def le_mod_geq flip: add_diff_assoc2)

lemma sub64_le [simp]: "b \<le> a \<Longrightarrow> a < 18446744073709551616 \<Longrightarrow> sub64 a b = a - b"
  by (simp add: sub64_def le_mod_geq flip: add_diff_assoc2)


subsection \<open>Memory blocks\<close>

definition assertC :: "bool \<Rightarrow> unit option" where
  "assertC b = (if b then Some () else None)"

definition rd :: "'a list \<Rightarrow> nat \<Rightarrow> 'a option" where
  "rd b i = (if i < length b then Some (b ! i) else None)"

definition wr :: "'a list \<Rightarrow> nat \<Rightarrow> 'a \<Rightarrow> 'a list option" where
  "wr b i x = (if i < length b then Some (b[i := x]) else None)"

text \<open>\<open>rd_range b i n\<close> reads the \<open>n\<close> bytes at \<open>i\<close> (the source of a \<open>memcpy\<close>).\<close>

definition rd_range :: "'a list \<Rightarrow> nat \<Rightarrow> nat \<Rightarrow> 'a list option" where
  "rd_range b i n = (if i + n \<le> length b then Some (take n (drop i b)) else None)"

text \<open>\<open>wr_range b i xs\<close> overwrites \<open>length xs\<close> bytes at \<open>i\<close> (the target of a \<open>memcpy\<close>).\<close>

definition wr_range :: "'a list \<Rightarrow> nat \<Rightarrow> 'a list \<Rightarrow> 'a list option" where
  "wr_range b i xs =
     (if i + length xs \<le> length b
      then Some (take i b @ xs @ drop (i + length xs) b) else None)"

text \<open>\<open>memmove\<close> within one block: overlapping ranges are allowed.\<close>

definition memmove :: "'a list \<Rightarrow> nat \<Rightarrow> nat \<Rightarrow> nat \<Rightarrow> 'a list option" where
  "memmove b dst src n = Option.bind (rd_range b src n) (\<lambda>xs. wr_range b dst xs)"

text \<open>
  \<open>realloc_buf b n\<close> keeps the first \<open>min n (length b)\<close> bytes. The bytes a growing block
  gains are indeterminate in C; they read as 0 here.
\<close>

definition realloc_buf :: "buf \<Rightarrow> nat \<Rightarrow> buf" where
  "realloc_buf b n = take n b @ replicate (n - length b) 0"

lemma assertC_simps [simp]:
  "assertC True = Some ()"
  "assertC False = None"
  by (simp_all add: assertC_def)

lemma assertC_Some_iff [simp]: "assertC b = Some u \<longleftrightarrow> b"
  by (simp add: assertC_def)

lemma rd_nth [mem_simps]: "i < length b \<Longrightarrow> rd b i = Some (b ! i)"
  by (simp add: rd_def)

lemma rd_Some_iff: "rd b i = Some x \<longleftrightarrow> i < length b \<and> b ! i = x"
  by (auto simp: rd_def)

lemma rd_append_left [mem_simps]: "i < length xs \<Longrightarrow> rd (xs @ ys) i = Some (xs ! i)"
  by (simp add: rd_def nth_append)

lemma rd_append_right [mem_simps]: "length xs \<le> i \<Longrightarrow> rd (xs @ ys) i = rd ys (i - length xs)"
  by (auto simp: rd_def nth_append)

lemma rd_append_at [mem_simps]: "rd (xs @ y # ys) (length xs) = Some y"
  by (simp add: rd_def)

lemma rd_Cons_0 [simp]: "rd (x # xs) 0 = Some x"
  by (simp add: rd_def)

lemma rd_Cons_Suc [simp]: "rd (x # xs) (Suc i) = rd xs i"
  by (simp add: rd_def)

lemma rd_Cons_numeral [simp]: "rd (x # xs) (numeral k) = rd xs (pred_numeral k)"
  by (simp add: numeral_eq_Suc)

lemma rd_Nil [simp]: "rd [] i = None"
  by (simp add: rd_def)

lemma rd_take: "i < n \<Longrightarrow> rd (take n b) i = rd b i"
  by (auto simp: rd_def)

lemma rd_range_append [mem_simps]:
  "i = length xs \<Longrightarrow> n = length ys \<Longrightarrow> rd_range (xs @ ys @ zs) i n = Some ys"
  by (simp add: rd_range_def)

lemma wr_range_append [mem_simps]:
  "i = length xs \<Longrightarrow> length ys' = length ys \<Longrightarrow>
   wr_range (xs @ ys @ zs) i ys' = Some (xs @ ys' @ zs)"
  by (simp add: wr_range_def)

lemma wr_range_append0 [mem_simps]:
  "length ys' = length ys \<Longrightarrow> wr_range (ys @ zs) 0 ys' = Some (ys' @ zs)"
  using wr_range_append [of 0 "[]"] by simp

lemma length_wr_range: "wr_range b i xs = Some b' \<Longrightarrow> length b' = length b"
  by (auto simp: wr_range_def split: if_splits)

lemma length_wr: "wr b i x = Some b' \<Longrightarrow> length b' = length b"
  by (auto simp: wr_def split: if_splits)

lemma length_memmove: "memmove b d s n = Some b' \<Longrightarrow> length b' = length b"
  by (auto simp: memmove_def bind_eq_Some_conv dest: length_wr_range)

lemma memmove_Some:
  "src + n \<le> length b \<Longrightarrow> dst + n \<le> length b \<Longrightarrow>
   memmove b dst src n = Some (take dst b @ take n (drop src b) @ drop (dst + n) b)"
  by (simp add: memmove_def rd_range_def wr_range_def)

lemma length_realloc_buf [simp]: "length (realloc_buf b n) = n"
  by (simp add: realloc_buf_def)

lemma bind_SomeE:
  assumes "Option.bind m f = Some y"
  obtains x where "m = Some x" and "f x = Some y"
  using assms by (auto simp: bind_eq_Some_conv)


subsection \<open>Bytes and little-endian integers\<close>

lemma unat_byte_less [simp]: "unat (b :: byte) < 256"
  using unsigned_less [of b, where ?'a = nat] by simp

lemma unat_byte_le [simp]: "unat (b :: byte) \<le> 255"
  using unat_byte_less [of b] by linarith

lemma unat_of_nat_byte [width_simps]: "unat (of_nat n :: byte) = n mod 256"
  by (simp add: unat_of_nat)

lemma of_nat_byte_eq_iff: "(of_nat m :: byte) = of_nat n \<longleftrightarrow> m mod 256 = n mod 256"
  by (metis unat_of_nat_byte word_unat_eq_iff)

lemma of_nat_unat_byte [simp]: "(of_nat (unat b) :: byte) = b"
  by simp

text \<open>A signed \<open>char\<close>.\<close>

lemma sint_byte: "sint (c :: byte) = (if unat c < 128 then int (unat c) else int (unat c) - 256)"
proof -
  have r: "uint c < 256" "0 \<le> uint c" using uint_lt2p [of c] by simp_all
  have "sint c = take_bit 8 (uint c) - 256 * of_bool (bit (uint c) 7)"
    by (simp add: sint_uint signed_take_bit_eq_take_bit_minus)
  moreover have "take_bit 8 (uint c) = uint c" using r by (simp add: take_bit_int_eq_self_iff)
  moreover have "bit (uint c) 7 \<longleftrightarrow> \<not> uint c < 128"
  proof (cases "uint c < 128")
    case True
    then have "uint c div 128 = 0" using r by simp
    then show ?thesis using True by (simp add: bit_iff_odd)
  next
    case False
    then have "uint c div 128 = 1" using r by (intro int_div_pos_eq [of _ _ _ "uint c - 128"]) simp_all
    then show ?thesis using False by (simp add: bit_iff_odd)
  qed
  moreover have u: "int (unat c) = uint c" by simp
  moreover have "unat c < 128 \<longleftrightarrow> uint c < 128" unfolding u [symmetric] by linarith
  ultimately show ?thesis by (simp only: u if_distrib of_bool_def) auto
qed

text \<open>\<open>tolower\<close> of the C locale.\<close>

definition tolower :: "byte \<Rightarrow> byte" where
  "tolower c = (if 65 \<le> c \<and> c \<le> 90 then c + 32 else c)"

text \<open>Bitwise OR of disjoint bit ranges is addition.\<close>

lemma nat_or_push_bit:
  fixes a b :: nat
  assumes "a < 2 ^ n"
  shows "a OR push_bit n b = a + 2 ^ n * b"
proof -
  have "a AND push_bit n b = 0"
  proof (rule bit_eqI)
    fix k
    show "bit (a AND push_bit n b) k \<longleftrightarrow> bit (0 :: nat) k"
    proof (cases "k < n")
      case True
      then show ?thesis by (simp add: bit_and_iff bit_push_bit_iff)
    next
      case False
      with assms have "a < 2 ^ k"
        by (meson less_le_trans not_less one_le_numeral power_increasing)
      then have "\<not> bit a k" by (simp add: bit_iff_odd)
      then show ?thesis by (simp add: bit_and_iff)
    qed
  qed
  then have "a + push_bit n b = a OR push_bit n b"
    by (rule disjunctive_add_eq_or)
  then show ?thesis by (simp add: push_bit_eq_mult mult.commute)
qed

fun le_bytes :: "nat \<Rightarrow> nat \<Rightarrow> byte list" where
  "le_bytes 0 v = []"
| "le_bytes (Suc n) v = of_nat v # le_bytes n (v div 256)"

fun le_val :: "byte list \<Rightarrow> nat" where
  "le_val [] = 0"
| "le_val (b # bs) = unat b + 256 * le_val bs"

lemma length_le_bytes [simp]: "length (le_bytes n v) = n"
  by (induction n arbitrary: v) auto

lemma le_val_bound: "le_val bs < 256 ^ length bs"
proof (induction bs)
  case Nil
  then show ?case by simp
next
  case (Cons b bs)
  have "unat b + 256 * le_val bs < 256 * (le_val bs + 1)"
    using unat_byte_less [of b] by simp
  also have "\<dots> \<le> 256 * 256 ^ length bs"
    using Cons.IH by (simp del: add_Suc_right)
  finally show ?case by simp
qed

lemma le_val_le_bytes [simp]: "le_val (le_bytes n v) = v mod 256 ^ n"
proof (induction n arbitrary: v)
  case 0
  then show ?case by simp
next
  case (Suc n)
  have "v mod 256 + 256 * (v div 256 mod 256 ^ n) = v mod (256 * 256 ^ n)"
    by (simp add: mod_mult2_eq add.commute)
  then show ?case by (simp add: Suc unat_of_nat_byte)
qed

lemma le_bytes_le_val [simp]: "le_bytes (length bs) (le_val bs) = bs"
proof (induction bs)
  case Nil
  then show ?case by simp
next
  case (Cons b bs)
  have "(of_nat (unat b + 256 * le_val bs) :: byte) = b"
  proof -
    have "unat (of_nat (unat b + 256 * le_val bs) :: byte) = unat b"
      by (subst unat_of_nat_byte) simp
    then show ?thesis by (simp only: word_unat_eq_iff)
  qed
  then show ?case using Cons.IH by simp
qed

lemma le_bytes_inj:
  assumes "le_bytes n u = le_bytes n v" "u < 256 ^ n" "v < 256 ^ n"
  shows "u = v"
  by (metis assms le_val_le_bytes mod_less)

text \<open>Two's complement reading of an \<open>n\<close>-byte unsigned value, and its inverse.\<close>

definition to_signed :: "nat \<Rightarrow> nat \<Rightarrow> int" where
  "to_signed n u = (if 2 * u < 256 ^ n then int u else int u - 256 ^ n)"

definition of_signed :: "nat \<Rightarrow> int \<Rightarrow> nat" where
  "of_signed n v = nat (v mod 256 ^ n)"

lemma of_signed_bound [simp]: "of_signed n v < 256 ^ n"
proof -
  have "v mod 256 ^ n < 256 ^ n" by simp
  then show ?thesis by (simp add: of_signed_def nat_less_iff)
qed

lemma to_signed_of_signed:
  assumes "- (256 ^ n) \<le> 2 * v" "2 * v < 256 ^ n"
  shows "to_signed n (of_signed n v) = v"
proof (cases "0 \<le> v")
  case True
  then obtain k where k: "v = int k" using zero_le_imp_eq_int by blast
  from assms(2) have "int (2 * k) < int (256 ^ n)" by (simp add: k)
  then have lt: "2 * k < 256 ^ n" by (simp only: of_nat_less_iff)
  then have "of_signed n v = k" by (simp add: of_signed_def k nat_mod_distrib nat_power_eq)
  then show ?thesis by (simp add: to_signed_def lt k)
next
  case False
  have m: "v mod 256 ^ n = v + 256 ^ n"
  proof -
    have "(v + 256 ^ n) mod 256 ^ n = v + 256 ^ n"
      by (rule mod_pos_pos_trivial) (use assms False in linarith)+
    then show ?thesis by simp
  qed
  have pos: "0 \<le> v + 256 ^ n" using assms False by linarith
  have "\<not> 2 * nat (v + 256 ^ n) < 256 ^ n"
  proof
    assume "2 * nat (v + 256 ^ n) < 256 ^ n"
    then have "int (2 * nat (v + 256 ^ n)) < int (256 ^ n)" by (simp only: of_nat_less_iff)
    then have "2 * (v + 256 ^ n) < 256 ^ n" using pos by simp
    with assms show False by simp
  qed
  with m pos show ?thesis by (simp add: to_signed_def of_signed_def)
qed

end
