(* ===== verification/Util_Num.thy ===== *)
theory Util_Num
  imports Redis_Prelude
begin

text \<open>
  Integer/string conversion of \<open>util.c\<close>: \<open>digits10\<close>, \<open>sdigits10\<close>, \<open>ull2string\<close>,
  \<open>ll2string\<close>, \<open>string2ll\<close>, \<open>string2l\<close>. The reference is the plain decimal
  notation \<open>dec_int\<close>. A destination buffer is a block and is returned updated
  together with the C return value.
\<close>

subsection \<open>Model\<close>

abbreviation LLONG_MIN :: int where "LLONG_MIN \<equiv> INT64_MIN"
abbreviation LLONG_MAX :: int where "LLONG_MAX \<equiv> INT64_MAX"
abbreviation ULLONG_MAX :: nat where "ULLONG_MAX \<equiv> UINT64_MAX"
abbreviation LONG_STR_SIZE :: nat where "LONG_STR_SIZE \<equiv> 21"

fun digits10 :: "nat \<Rightarrow> nat" where
  "digits10 v =
     (if v < 10 then 1
      else if v < 100 then 2
      else if v < 1000 then 3
      else if v < 1000000000000 then
        (if v < 100000000 then
           (if v < 1000000 then
              (if v < 10000 then 4
               else 5 + of_bool (100000 \<le> v))
            else 7 + of_bool (10000000 \<le> v))
         else if v < 10000000000 then 9 + of_bool (1000000000 \<le> v)
         else 11 + of_bool (100000000000 \<le> v))
      else 12 + digits10 (v div 1000000000000))"

declare digits10.simps [simp del]

definition sdigits10 :: "int \<Rightarrow> nat" where
  "sdigits10 v =
     (if v < 0
      then (let uv = (if v \<noteq> LLONG_MIN then nat (- v) else nat LLONG_MAX + 1)
            in digits10 uv + 1)
      else digits10 (nat v))"

definition ull_digits :: "byte list" where
  "ull_digits = map of_char
     (''0001020304050607080910111213141516171819'' @
      ''2021222324252627282930313233343536373839'' @
      ''4041424344454647484950515253545556575859'' @
      ''6061626364656667686970717273747576777879'' @
      ''8081828384858687888990919293949596979899'')"

text \<open>The \<open>while (value >= 100)\<close> loop of \<open>ull2string\<close>, on its three variables.\<close>

function ull2string_loop :: "buf \<Rightarrow> nat \<Rightarrow> nat \<Rightarrow> (buf \<times> nat \<times> nat) option" where
  "ull2string_loop dst next value =
     (if 100 \<le> value
      then do {
        let i = (value mod 100) * 2;
        d1 \<leftarrow> rd ull_digits (i + 1);
        dst \<leftarrow> wr dst next d1;
        d0 \<leftarrow> rd ull_digits i;
        dst \<leftarrow> wr dst (sub32 next 1) d0;
        ull2string_loop dst (sub32 next 2) (value div 100)
      }
      else Some (dst, next, value))"
  by pat_completeness auto
termination
  by (relation "measure (\<lambda>(_, _, value). value)") auto

declare ull2string_loop.simps [simp del]

definition ull2string :: "buf \<Rightarrow> nat \<Rightarrow> nat \<Rightarrow> (nat \<times> buf) option" where
  "ull2string dst dstlen value =
     (let length = digits10 value in
      if dstlen \<le> length
      then if 0 < dstlen then do { dst \<leftarrow> wr dst 0 0; Some (0, dst) } else Some (0, dst)
      else do {
        let next = sub32 length 1;
        dst \<leftarrow> wr dst (next + 1) 0;
        (dst, next, value) \<leftarrow> ull2string_loop dst next value;
        dst \<leftarrow> (if value < 10 then wr dst next (48 + of_nat value)
               else do {
                 let i = value * 2;
                 d1 \<leftarrow> rd ull_digits (i + 1);
                 dst \<leftarrow> wr dst next d1;
                 d0 \<leftarrow> rd ull_digits i;
                 wr dst (sub32 next 1) d0
               });
        Some (length, dst)
      })"

text \<open>\<open>dst++\<close> after the sign: the rest of the conversion sees the tail of the block.\<close>

definition ll2string :: "buf \<Rightarrow> nat \<Rightarrow> int \<Rightarrow> (nat \<times> buf) option" where
  "ll2string dst dstlen svalue =
     (if svalue < 0
      then (let value = (if svalue \<noteq> LLONG_MIN then nat (- svalue) else nat LLONG_MAX + 1) in
            if dstlen < 2
            then if 0 < dstlen then do { dst \<leftarrow> wr dst 0 0; Some (0, dst) } else Some (0, dst)
            else do {
              dst \<leftarrow> wr dst 0 45;
              (length, rest) \<leftarrow> ull2string (drop 1 dst) (dstlen - 1) value;
              Some (if length = 0 then 0 else length + 1, take 1 dst @ rest)
            })
      else ull2string dst dstlen (nat svalue))"

definition is_digit :: "byte \<Rightarrow> bool" where
  "is_digit c \<longleftrightarrow> 48 \<le> unat c \<and> unat c \<le> 57"

definition digit_val :: "byte \<Rightarrow> nat" where
  "digit_val c = unat c - 48"

text \<open>
  The digit loop of \<open>string2ll\<close>: \<open>None\<close> is the overflow return, otherwise the value
  and the bytes not consumed.
\<close>

fun string2ll_loop :: "nat \<Rightarrow> buf \<Rightarrow> (nat \<times> buf) option" where
  "string2ll_loop v [] = Some (v, [])"
| "string2ll_loop v (c # p) =
     (if is_digit c
      then if ULLONG_MAX div 10 < v then None
           else let v = v * 10 in
                if ULLONG_MAX - digit_val c < v then None
                else string2ll_loop (v + digit_val c) p
      else Some (v, c # p))"

text \<open>\<open>None\<close> is the return value 0, \<open>Some v\<close> the return value 1 with \<open>*value = v\<close>.\<close>

definition string2ll :: "buf \<Rightarrow> int option" where
  "string2ll s =
     (if length s = 0 \<or> LONG_STR_SIZE \<le> length s then None
      else if length s = 1 \<and> s ! 0 = 48 then Some 0
      else
        let negative = (s ! 0 = 45);
            p = (if negative then drop 1 s else s)
        in if negative \<and> p = [] then None
           else if 49 \<le> unat (p ! 0) \<and> unat (p ! 0) \<le> 57
           then (case string2ll_loop (unat (p ! 0) - 48) (drop 1 p) of
                   None \<Rightarrow> None
                 | Some (v, rest) \<Rightarrow>
                     if rest \<noteq> [] then None
                     else if negative
                     then (if nat (- (LLONG_MIN + 1)) + 1 < v then None else Some (- int v))
                     else (if nat LLONG_MAX < v then None else Some (int v)))
           else None)"

text \<open>\<open>long\<close> is 64 bits wide on the platforms the bundled server is built for.\<close>

definition string2l :: "buf \<Rightarrow> int option" where
  "string2l s =
     (case string2ll s of
        None \<Rightarrow> None
      | Some llval \<Rightarrow> if llval < INT64_MIN \<or> INT64_MAX < llval then None else Some llval)"


subsection \<open>Decimal notation\<close>

fun dec :: "nat \<Rightarrow> byte list" where
  "dec n = (if n < 10 then [of_nat (48 + n)] else dec (n div 10) @ [of_nat (48 + n mod 10)])"

declare dec.simps [simp del]

definition dec_int :: "int \<Rightarrow> byte list" where
  "dec_int v = (if v < 0 then 45 # dec (nat (- v)) else dec (nat v))"

definition dec_val :: "nat \<Rightarrow> byte list \<Rightarrow> nat" where
  "dec_val = foldl (\<lambda>a c. a * 10 + digit_val c)"

lemma dec_val_Nil [simp]: "dec_val a [] = a"
  by (simp add: dec_val_def)

lemma dec_val_Cons [simp]: "dec_val a (c # cs) = dec_val (a * 10 + digit_val c) cs"
  by (simp add: dec_val_def)

lemma dec_val_snoc [simp]: "dec_val a (cs @ [c]) = dec_val a cs * 10 + digit_val c"
  by (simp add: dec_val_def)

lemma dec_val_mono: "a \<le> dec_val a cs"
proof (induction cs arbitrary: a)
  case Nil
  then show ?case by simp
next
  case (Cons c cs)
  have "a \<le> a * 10 + digit_val c" by simp
  also have "\<dots> \<le> dec_val (a * 10 + digit_val c) cs" by (rule Cons.IH)
  finally show ?case by simp
qed

lemma unat_digit: "d < 10 \<Longrightarrow> unat (of_nat (48 + d) :: byte) = 48 + d"
  by (subst unat_of_nat_byte) simp

lemma digit_of_nat [simp]:
  "d < 10 \<Longrightarrow> is_digit (of_nat (48 + d))"
  "d < 10 \<Longrightarrow> digit_val (of_nat (48 + d)) = d"
  by (simp_all only: is_digit_def digit_val_def unat_digit) auto

lemma of_nat_digit_val: "is_digit c \<Longrightarrow> of_nat (48 + digit_val c) = c"
  by (simp only: is_digit_def digit_val_def) (metis le_add_diff_inverse of_nat_unat_byte)

lemma digit_val_less: "is_digit c \<Longrightarrow> digit_val c < 10"
  by (auto simp: is_digit_def digit_val_def)

lemma dec_nonempty [simp]: "dec n \<noteq> []"
  by (subst dec.simps) simp

lemma dec_digits: "list_all is_digit (dec n)"
proof (induction n rule: dec.induct)
  case (1 n)
  then show ?case
    by (subst dec.simps) (auto simp del: of_nat_add)
qed

lemma dec_val_dec [simp]: "dec_val 0 (dec n) = n"
proof (induction n rule: dec.induct)
  case (1 n)
  then show ?case
    by (subst dec.simps) (auto simp del: of_nat_add)
qed

lemma dec_hd: "0 < n \<Longrightarrow> 49 \<le> unat (hd (dec n)) \<and> unat (hd (dec n)) \<le> 57"
proof (induction n rule: dec.induct)
  case (1 n)
  show ?case
  proof (cases "n < 10")
    case True
    with "1.prems" show ?thesis
      by (subst dec.simps, subst (2) dec.simps) (simp add: unat_digit del: of_nat_add)
  next
    case False
    then have "0 < n div 10" by simp
    with False "1.IH" show ?thesis
      by (subst dec.simps, subst (2) dec.simps) simp
  qed
qed

lemma dec_snoc:
  assumes "0 < n" "is_digit c"
  shows "dec (n * 10 + digit_val c) = dec n @ [c]"
proof -
  have "(n * 10 + digit_val c) div 10 = n" "(n * 10 + digit_val c) mod 10 = digit_val c"
    using digit_val_less [OF assms(2)] by auto
  with assms show ?thesis
    by (subst dec.simps) (simp add: of_nat_digit_val del: of_nat_add)
qed

text \<open>A digit string with no leading zero is the decimal notation of its value.\<close>

lemma dec_dec_val:
  assumes "list_all is_digit (c # cs)" "unat c \<noteq> 48"
  shows "dec (dec_val (digit_val c) cs) = c # cs"
  using assms
proof (induction cs rule: rev_induct)
  case Nil
  then have "digit_val c < 10" "is_digit c" by (simp_all add: digit_val_less)
  then show ?case by (subst dec.simps) (simp add: of_nat_digit_val del: of_nat_add)
next
  case (snoc d cs)
  have "0 < digit_val c" using snoc.prems by (auto simp: is_digit_def digit_val_def)
  then have "0 < dec_val (digit_val c) cs" by (meson dec_val_mono less_le_trans)
  with snoc show ?case by (simp add: dec_snoc)
qed

lemma length_dec_le: "n < 10 ^ k \<Longrightarrow> 0 < k \<Longrightarrow> length (dec n) \<le> k"
proof (induction n arbitrary: k rule: dec.induct)
  case (1 n)
  show ?case
  proof (cases "n < 10")
    case True
    with "1.prems" show ?thesis by (subst dec.simps) simp
  next
    case False
    with "1.prems" obtain k' where k: "k = Suc k'" "0 < k'"
      by (cases k; cases "k - 1") auto
    with "1.prems" have "n div 10 < 10 ^ k'" by (simp add: less_mult_imp_div_less mult.commute)
    with False k "1.IH" have "length (dec (n div 10)) \<le> k'" by simp
    with False k show ?thesis by (subst dec.simps) simp
  qed
qed

lemma length_dec_ge: "10 ^ k \<le> n \<Longrightarrow> Suc k \<le> length (dec n)"
proof (induction k arbitrary: n)
  case 0
  then show ?case by (simp add: Suc_le_eq)
next
  case (Suc k)
  then have "10 ^ k \<le> n div 10" by (simp add: less_eq_div_iff_mult_less_eq mult.commute)
  with Suc.IH have "Suc k \<le> length (dec (n div 10))" by simp
  moreover from Suc.prems have "\<not> n < 10"
    by (metis One_nat_def Suc_leI leD le_trans nat_mult_1_right not_less one_le_numeral
        one_le_power power_Suc mult_le_mono2)
  ultimately show ?case by (subst dec.simps) simp
qed

lemma length_dec_eq: "10 ^ k \<le> n \<Longrightarrow> n < 10 ^ Suc k \<Longrightarrow> length (dec n) = Suc k"
  by (meson le_antisym length_dec_ge length_dec_le zero_less_Suc)


lemma dec_div10: "10 \<le> n \<Longrightarrow> dec n = dec (n div 10) @ [of_nat (48 + n mod 10)]"
  by (subst dec.simps) simp

lemma dec_div100:
  assumes "100 \<le> n"
  shows "dec n = dec (n div 100) @ [of_nat (48 + n mod 100 div 10), of_nat (48 + n mod 100 mod 10)]"
proof -
  have "n div 10 mod 10 = n mod 100 div 10" "n mod 100 mod 10 = n mod 10" "n div 10 div 10 = n div 100"
    using mod_mult2_eq [of n 10 10] by (auto simp: mod_mod_cancel div_mult2_eq)
  moreover have "10 \<le> n" "10 \<le> n div 10" using assms by presburger+
  ultimately show ?thesis
    using dec_div10 [of n] dec_div10 [of "n div 10"] by (simp del: of_nat_add)
qed

lemma length_dec_div: "10 ^ k \<le> n \<Longrightarrow> length (dec n) = k + length (dec (n div 10 ^ k))"
proof (induction k arbitrary: n)
  case 0
  then show ?case by simp
next
  case (Suc k)
  then have *: "10 ^ k \<le> n div 10" by (simp add: less_eq_div_iff_mult_less_eq mult.commute)
  moreover have "10 \<le> n"
  proof -
    have "(1::nat) \<le> 10 ^ k" by simp
    then have "10 * 1 \<le> (10::nat) ^ Suc k" by (simp only: power_Suc mult_le_mono2)
    with Suc.prems show ?thesis by linarith
  qed
  ultimately show ?case using Suc.IH [OF *] dec_div10 [of n] by (simp add: div_mult2_eq)
qed


subsection \<open>Correctness of the printers\<close>

lemma length_dec_small: "v < 10 \<Longrightarrow> length (dec v) = 1"
  by (simp add: dec.simps)

lemmas length_dec_bands = length_dec_small
  length_dec_eq [of 1, simplified] length_dec_eq [of 2, simplified] length_dec_eq [of 3, simplified]
  length_dec_eq [of 4, simplified] length_dec_eq [of 5, simplified] length_dec_eq [of 6, simplified]
  length_dec_eq [of 7, simplified] length_dec_eq [of 8, simplified] length_dec_eq [of 9, simplified]
  length_dec_eq [of 10, simplified] length_dec_eq [of 11, simplified]

lemma digits10_eq_length_dec: "digits10 v = length (dec v)"
proof (induction v rule: digits10.induct)
  case (1 v)
  show ?case
  proof (cases "v < 1000000000000")
    case True
    then show ?thesis
      by (subst digits10.simps) (auto simp: length_dec_bands of_bool_def not_less)
  next
    case False
    then have "length (dec v) = 12 + length (dec (v div 1000000000000))"
      using length_dec_div [of 12 v] by simp
    moreover have "digits10 v = 12 + digits10 (v div 1000000000000)"
      using False by (subst digits10.simps) simp
    ultimately show ?thesis using False "1.IH" by simp
  qed
qed

lemma length_ull_digits [simp]: "length ull_digits = 200"
  by (simp add: ull_digits_def)

lemma ull_digits_table:
  "map unat ull_digits = concat (map (\<lambda>i. [48 + i div 10, 48 + i mod 10]) [0..<100])"
  by code_simp

lemma nth_concat_pairs:
  "i < n \<Longrightarrow> concat (map (\<lambda>i. [f i, g i]) [0..<n]) ! (i * 2) = f i \<and>
            concat (map (\<lambda>i. [f i, g i]) [0..<n]) ! (i * 2 + 1) = g i"
proof (induction n)
  case (Suc n)
  have len: "length (concat (map (\<lambda>i. [f i, g i]) [0..<n])) = n * 2"
    by (induction n) auto
  show ?case
    using Suc by (cases "i = n") (auto simp: nth_append len)
qed simp

lemma rd_ull_digits:
  assumes "i < 100"
  shows "rd ull_digits (i * 2) = Some (of_nat (48 + i div 10))"
    and "rd ull_digits (Suc (i * 2)) = Some (of_nat (48 + i mod 10))"
proof -
  have eq: "ull_digits ! k = of_nat (map unat ull_digits ! k)" if "k < 200" for k
    using that by simp
  have "ull_digits ! (i * 2) = of_nat (48 + i div 10)"
    using assms nth_concat_pairs [OF assms, of "\<lambda>i. 48 + i div 10" "\<lambda>i. 48 + i mod 10"]
    by (subst eq) (auto simp: ull_digits_table simp del: of_nat_add)
  moreover have "ull_digits ! (i * 2 + 1) = of_nat (48 + i mod 10)"
    using assms nth_concat_pairs [OF assms, of "\<lambda>i. 48 + i div 10" "\<lambda>i. 48 + i mod 10"]
    by (subst eq) (auto simp: ull_digits_table simp del: of_nat_add)
  ultimately show "rd ull_digits (i * 2) = Some (of_nat (48 + i div 10))"
    and "rd ull_digits (Suc (i * 2)) = Some (of_nat (48 + i mod 10))"
    using assms by (simp_all add: rd_def del: of_nat_add)
qed

lemma split_last2:
  assumes "length xs = n + 2"
  obtains ys a b where "xs = ys @ [a, b]" "length ys = n"
proof -
  have "length (drop n xs) = Suc (Suc 0)" using assms by simp
  then obtain a b where "drop n xs = [a, b]" by (metis length_0_conv length_Suc_conv)
  then have "xs = take n xs @ [a, b]" by (metis append_take_drop_id)
  moreover have "length (take n xs) = n" using assms by simp
  ultimately show ?thesis by (rule that)
qed

lemma length_dec_pos: "0 < length (dec n)"
  by simp

lemma length_dec_uint64: "v \<le> UINT64_MAX \<Longrightarrow> length (dec v) \<le> 20"
  by (rule length_dec_le) simp_all

text \<open>
  The loop peels two digits per round: what it leaves are the digits of the remaining
  value in front of the digits written so far.
\<close>

lemma ull2string_loop_correct:
  assumes "length pre = length (dec v)" "length pre < 4294967296"
  shows "\<exists>v' q. v' < 100 \<and> dec v = dec v' @ q \<and>
           ull2string_loop (pre @ rest) (length pre - 1) v =
             Some (take (length (dec v')) pre @ q @ rest, length (dec v') - 1, v')"
  using assms
proof (induction v arbitrary: pre rest rule: less_induct)
  case (less v)
  show ?case
  proof (cases "100 \<le> v")
    case False
    with less.prems show ?thesis
      by (intro exI [of _ v] exI [of _ "[]"]) (simp add: ull2string_loop.simps)
  next
    case True
    let ?d0 = "of_nat (48 + v mod 100 div 10) :: byte"
    let ?d1 = "of_nat (48 + v mod 100 mod 10) :: byte"
    have dv: "dec v = dec (v div 100) @ [?d0, ?d1]" using True by (rule dec_div100)
    then have "length pre = length (dec (v div 100)) + 2" using less.prems(1) by simp
    then obtain pre' a b where pre: "pre = pre' @ [a, b]" "length pre' = length (dec (v div 100))"
      by (rule split_last2)
    have pos: "0 < length pre'" using pre(2) by simp
    have sub: "sub32 (Suc (length pre')) 2 = length pre' - 1"
      using pos less.prems(2) pre(1) by (subst sub32_le; simp; linarith)
    have "ull2string_loop (pre @ rest) (length pre - 1) v =
          ull2string_loop (pre' @ ([?d0, ?d1] @ rest)) (length pre' - 1) (v div 100)"
      using True less.prems(2) pos pre(1)
      by (subst ull2string_loop.simps)
         (simp add: rd_ull_digits [of "v mod 100"] wr_def list_update_append Suc_diff_Suc
            Let_def sub del: of_nat_add)
    moreover have "v div 100 < v" using True by simp
    moreover have "length pre' < 4294967296" using less.prems(2) pre(1) by simp
    ultimately obtain v' q where
      "v' < 100" "dec (v div 100) = dec v' @ q"
      "ull2string_loop (pre @ rest) (length pre - 1) v =
         Some (take (length (dec v')) pre' @ q @ [?d0, ?d1] @ rest, length (dec v') - 1, v')"
      using less.IH [of "v div 100" pre' "[?d0, ?d1] @ rest"] pre(2) by auto
    moreover from this have "take (length (dec v')) pre = take (length (dec v')) pre'"
      using pre by simp
    ultimately show ?thesis
      by (intro exI [of _ v'] exI [of _ "q @ [?d0, ?d1]"]) (simp add: dv del: of_nat_add)
  qed
qed


lemma ull2string_correct:
  assumes "digits10 v < dstlen" "dstlen \<le> length dst" "dstlen \<le> 4294967296"
  shows "ull2string dst dstlen v =
           Some (length (dec v), dec v @ 0 # drop (Suc (length (dec v))) dst)"
proof -
  define n where "n = length (dec v)"
  have n: "0 < n" "n < dstlen" "n < 4294967296"
    using assms by (auto simp: n_def digits10_eq_length_dec)
  define pre rest where "pre = take n dst" and "rest = 0 # drop (Suc n) dst"
  have lenpre: "length pre = n" using n assms(2) by (simp add: pre_def)
  have w0: "wr dst n 0 = Some (pre @ rest)"
    using n assms(2) by (simp add: wr_def pre_def rest_def upd_conv_take_nth_drop)
  obtain v' q where v': "v' < 100" "dec v = dec v' @ q"
    "ull2string_loop (pre @ rest) (n - 1) v =
       Some (take (length (dec v')) pre @ q @ rest, length (dec v') - 1, v')"
    using ull2string_loop_correct [of pre v rest] lenpre n n_def by auto
  have le: "length (dec v') \<le> n" using v'(2) by (simp add: n_def)
  have "sub32 n 1 = n - 1" using n by simp
  then have step: "ull2string dst dstlen v =
      Option.bind (if v' < 10 then wr (take (length (dec v')) pre @ q @ rest) (length (dec v') - 1) (48 + of_nat v')
               else do {
                 let i = v' * 2;
                 d1 \<leftarrow> rd ull_digits (i + 1);
                 dst \<leftarrow> wr (take (length (dec v')) pre @ q @ rest) (length (dec v') - 1) d1;
                 d0 \<leftarrow> rd ull_digits i;
                 wr dst (sub32 (length (dec v') - 1) 1) d0
               }) (\<lambda>dst. Some (n, dst))"
    using n w0 v'(3)
    by (simp add: ull2string_def digits10_eq_length_dec flip: n_def)
  show ?thesis
  proof (cases "v' < 10")
    case True
    then have d: "dec v' = [48 + of_nat v']" by (simp add: dec.simps)
    obtain a where "take 1 pre = [a]" using n lenpre by (cases pre) auto
    with step True d v'(2) show ?thesis by (simp add: wr_def rest_def n_def)
  next
    case False
    then have d: "dec v' = [of_nat (48 + v' div 10), of_nat (48 + v' mod 10)]"
      using v'(1) by (subst dec.simps, subst dec.simps) simp
    then have "2 \<le> length pre" using le lenpre by simp
    then obtain a b where ab: "take (Suc (Suc 0)) pre = [a, b]"
      by (cases pre; cases "tl pre") (auto simp: numeral_2_eq_2)
    have "n = Suc (Suc (length q))" using v'(2) d by (simp add: n_def)
    with step False d v'(1,2) ab show ?thesis
      by (simp add: wr_def rest_def Let_def rd_ull_digits [of v'] del: of_nat_add)
  qed
qed

lemma ull2string_too_small:
  assumes "dstlen \<le> digits10 v" "dstlen \<le> length dst"
  shows "ull2string dst dstlen v = Some (0, if 0 < dstlen then dst[0 := 0] else dst)"
  using assms by (auto simp: ull2string_def Let_def wr_def)

lemma nat_abs_int64:
  assumes "v < 0"
  shows "(if v \<noteq> LLONG_MIN then nat (- v) else nat LLONG_MAX + 1) = nat (- v)"
  by simp

lemma sdigits10_eq_length: "sdigits10 v = length (dec_int v)"
  by (simp add: sdigits10_def dec_int_def digits10_eq_length_dec Let_def)

lemma ll2string_spec:
  assumes "dstlen \<le> length dst" "dstlen \<le> 4294967296"
  shows "if length (dec_int v) < dstlen
         then ll2string dst dstlen v =
                Some (length (dec_int v), dec_int v @ 0 # drop (Suc (length (dec_int v))) dst)
         else \<exists>dst'. ll2string dst dstlen v = Some (0, dst') \<and> length dst' = length dst \<and>
                (dstlen = 0 \<or> 0 \<in> set (take dstlen dst'))"
proof (cases "v < 0")
  case False
  then show ?thesis
    using assms ull2string_correct [of "nat v" dstlen dst] ull2string_too_small [of dstlen "nat v" dst]
    by (cases dst; cases dstlen) (auto simp: ll2string_def dec_int_def digits10_eq_length_dec not_less)
next
  case True
  show ?thesis
  proof (cases "length (dec_int v) < dstlen")
    case fits: True
    with True obtain d ds where dst: "dst = d # ds" using assms by (cases dst) auto
    from fits True have "digits10 (nat (- v)) < dstlen - 1"
      by (simp add: dec_int_def digits10_eq_length_dec)
    with ull2string_correct [of "nat (- v)" "dstlen - 1" ds] assms dst
    have "ull2string ds (dstlen - 1) (nat (- v)) =
            Some (length (dec (nat (- v))), dec (nat (- v)) @ 0 # drop (Suc (length (dec (nat (- v))))) ds)"
      by simp
    with True fits dst show ?thesis
      by (auto simp: ll2string_def dec_int_def Let_def wr_def)
  next
    case small: False
    show ?thesis
    proof (cases "dstlen < 2")
      case lt: True
      with True small assms show ?thesis
        by (cases dst; cases dstlen) (auto simp: ll2string_def Let_def wr_def)
    next
      case False
      then obtain d e ds where dst: "dst = d # e # ds"
        using assms by (cases dst; cases "tl dst") auto
      obtain k where k: "dstlen = Suc (Suc k)"
        using False by (cases dstlen; cases "dstlen - 1") auto
      from small True have "dstlen - 1 \<le> digits10 (nat (- v))"
        by (simp add: dec_int_def digits10_eq_length_dec)
      with ull2string_too_small [of "dstlen - 1" "nat (- v)" "e # ds"] assms dst False
      have "ull2string (e # ds) (dstlen - 1) (nat (- v)) = Some (0, 0 # ds)" by simp
      with True small dst k show ?thesis
        by (auto simp: ll2string_def Let_def wr_def)
    qed
  qed
qed


subsection \<open>Correctness of the parser\<close>

lemma string2ll_loop_digits:
  assumes "list_all is_digit cs" "dec_val v cs \<le> ULLONG_MAX"
  shows "string2ll_loop v cs = Some (dec_val v cs, [])"
  using assms
proof (induction cs arbitrary: v)
  case Nil
  then show ?case by simp
next
  case (Cons c cs)
  have "v * 10 + digit_val c \<le> ULLONG_MAX"
    using Cons.prems(2) dec_val_mono [of "v * 10 + digit_val c" cs] by simp
  moreover from this have "v \<le> ULLONG_MAX div 10" by simp
  ultimately show ?case using Cons by (simp add: Let_def)
qed

lemma string2ll_loop_all:
  "string2ll_loop v cs = Some (w, []) \<Longrightarrow> list_all is_digit cs \<and> w = dec_val v cs"
  by (induction v cs rule: string2ll_loop.induct) (auto simp: Let_def split: if_splits)

lemma string2ll_first_digit:
  assumes "49 \<le> unat c" "unat c \<le> 57" "length cs < 20"
  shows "string2ll_loop (unat c - 48) cs = Some (v, []) \<and> v \<le> m \<and> m \<le> ULLONG_MAX \<longleftrightarrow>
         v \<le> m \<and> m \<le> ULLONG_MAX \<and> c # cs = dec v"
proof -
  have c: "is_digit c" "unat c \<noteq> 48" "unat c - 48 = digit_val c"
    using assms by (auto simp: is_digit_def digit_val_def)
  show ?thesis
  proof (intro iffI conjI; elim conjE)
    assume "string2ll_loop (unat c - 48) cs = Some (v, [])"
    from string2ll_loop_all [OF this] c dec_dec_val [of c cs] show "c # cs = dec v" by simp
  next
    assume *: "c # cs = dec v" "v \<le> m" "m \<le> ULLONG_MAX"
    have "dec_val (digit_val c) cs = v" using arg_cong [OF *(1), of "dec_val 0"] by simp
    moreover have "list_all is_digit cs"
      using dec_digits [of v] unfolding *(1) [symmetric] by simp
    ultimately show "string2ll_loop (unat c - 48) cs = Some (v, [])"
      using * c string2ll_loop_digits [of cs "digit_val c"] by simp
  qed
qed


lemma length_dec_int64: "is_int64 v \<Longrightarrow> length (dec_int v) < LONG_STR_SIZE"
  using length_dec_le [of "nat v" 19] length_dec_le [of "nat (- v)" 19]
  by (auto simp: is_int64_def dec_int_def nat_less_iff)

lemma Nil_neq_dec [simp]: "[] \<noteq> dec n"
  using dec_nonempty [of n] by metis

lemma dec_int_nonempty [simp]: "dec_int v \<noteq> []"
  by (simp add: dec_int_def)

lemma dec_0 [simp]: "dec 0 = [48]"
  by (simp add: dec.simps)

lemma dec_int_not_dash: "0 \<le> v \<Longrightarrow> dec_int v ! 0 \<noteq> 45"
  using dec_digits [of "nat v"]
  by (cases "dec (nat v)") (auto simp: dec_int_def is_digit_def)

lemma dec_first: "dec n = c # cs \<Longrightarrow> 0 < n \<Longrightarrow> 49 \<le> unat c \<and> unat c \<le> 57"
  using dec_hd [of n] by simp

lemma dec_eq_zero: "dec n = [48] \<longleftrightarrow> n = 0"
  by (metis dec_0 dec_val_dec)

lemma dec_int_neg:
  "45 # d # ds = dec_int v \<longleftrightarrow> v < 0 \<and> d # ds = dec (nat (- v))"
  using dec_int_not_dash [of v] by (cases "v < 0") (auto simp: dec_int_def dest: sym)

lemma dec_int_pos: "c \<noteq> 45 \<Longrightarrow> c # cs = dec_int v \<longleftrightarrow> 0 \<le> v \<and> c # cs = dec (nat v)"
  by (auto simp: dec_int_def)

lemma dec_first_zero: "c # cs = dec n \<Longrightarrow> \<not> (cs = [] \<and> c = 48) \<Longrightarrow> 49 \<le> unat c \<and> unat c \<le> 57"
  using dec_first [of n c cs] by (cases "n = 0") auto

lemma string2ll_neg:
  assumes "length (d # ds) < 20"
  shows "string2ll (45 # d # ds) = Some v \<longleftrightarrow> 49 \<le> unat d \<and> unat d \<le> 57 \<and>
           (\<exists>n. string2ll_loop (unat d - 48) ds = Some (n, []) \<and> n \<le> 9223372036854775808 \<and> v = - int n)"
  using assms by (auto simp: string2ll_def Let_def not_less split: option.splits prod.splits if_splits)

lemma string2ll_pos:
  assumes "length (c # cs) < 21" "c \<noteq> 45" "\<not> (cs = [] \<and> c = 48)"
  shows "string2ll (c # cs) = Some v \<longleftrightarrow> 49 \<le> unat c \<and> unat c \<le> 57 \<and>
           (\<exists>n. string2ll_loop (unat c - 48) cs = Some (n, []) \<and> n \<le> 9223372036854775807 \<and> v = int n)"
  using assms by (auto simp: string2ll_def Let_def not_less split: option.splits prod.splits if_splits)


lemma string2ll_Some_iff: "string2ll s = Some v \<longleftrightarrow> is_int64 v \<and> s = dec_int v"
proof (cases "s = [] \<or> LONG_STR_SIZE \<le> length s \<or> s = [48]")
  case True
  then consider "s = []" | "LONG_STR_SIZE \<le> length s" | "s = [48]" by blast
  then show ?thesis
  proof cases
    case 1
    then show ?thesis by (auto simp: string2ll_def dest: sym)
  next
    case 2
    then show ?thesis using length_dec_int64 [of v] by (auto simp: string2ll_def)
  next
    case 3
    then have "s = dec_int v \<longleftrightarrow> v = 0"
      by (auto simp: dec_int_def dec_eq_zero eq_commute [of "[48]"])
    with 3 show ?thesis by (auto simp: string2ll_def is_int64_def)
  qed
next
  case False
  then obtain c cs where s: "s = c # cs" "length cs < 20" "\<not> (cs = [] \<and> c = 48)"
    by (cases s) auto
  show ?thesis
  proof (cases "c = 45")
    case neg: True
    show ?thesis
    proof (cases cs)
      case Nil
      then show ?thesis using s neg
        by (auto simp: string2ll_def dec_int_def dest!: dec_first_zero)
    next
      case (Cons d ds)
      have "string2ll s = Some v \<longleftrightarrow> 49 \<le> unat d \<and> unat d \<le> 57 \<and>
              (\<exists>n. n \<le> 9223372036854775808 \<and> d # ds = dec n \<and> v = - int n)"
        using string2ll_neg [of d ds v] string2ll_first_digit [of d ds _ 9223372036854775808] s neg Cons
        by auto
      also have "\<dots> \<longleftrightarrow> is_int64 v \<and> v < 0 \<and> d # ds = dec (nat (- v))"
      proof (intro iffI; elim conjE exE)
        fix n assume "49 \<le> unat d" "n \<le> 9223372036854775808" "d # ds = dec n" "v = - int n"
        then show "is_int64 v \<and> v < 0 \<and> d # ds = dec (nat (- v))"
          by (cases "n = 0") (auto simp: is_int64_def)
      next
        assume *: "is_int64 v" "v < 0" "d # ds = dec (nat (- v))"
        with dec_first [of "nat (- v)" d ds]
        show "49 \<le> unat d \<and> unat d \<le> 57 \<and>
              (\<exists>n. n \<le> 9223372036854775808 \<and> d # ds = dec n \<and> v = - int n)"
          by (auto simp: is_int64_def intro!: exI [of _ "nat (- v)"])
      qed
      finally show ?thesis using s neg Cons by (simp add: dec_int_neg)
    qed
  next
    case pos: False
    have "string2ll s = Some v \<longleftrightarrow> 49 \<le> unat c \<and> unat c \<le> 57 \<and>
            (\<exists>n. n \<le> 9223372036854775807 \<and> c # cs = dec n \<and> v = int n)"
      using string2ll_pos [of c cs v] string2ll_first_digit [of c cs _ 9223372036854775807] s pos
      by auto
    also have "\<dots> \<longleftrightarrow> is_int64 v \<and> 0 \<le> v \<and> c # cs = dec (nat v)"
    proof (intro iffI; elim conjE exE)
      fix n assume "n \<le> 9223372036854775807" "c # cs = dec n" "v = int n"
      then show "is_int64 v \<and> 0 \<le> v \<and> c # cs = dec (nat v)" by (auto simp: is_int64_def)
    next
      assume "is_int64 v" "0 \<le> v" "c # cs = dec (nat v)"
      with dec_first_zero [of c cs "nat v"] s
      show "49 \<le> unat c \<and> unat c \<le> 57 \<and>
            (\<exists>n. n \<le> 9223372036854775807 \<and> c # cs = dec n \<and> v = int n)"
        by (auto simp: is_int64_def intro!: exI [of _ "nat v"])
    qed
    finally show ?thesis using s pos by (simp add: dec_int_pos)
  qed
qed


lemma string2ll_dec_int: "is_int64 v \<Longrightarrow> string2ll (dec_int v) = Some v"
  by (simp add: string2ll_Some_iff)

lemma string2l_eq [simp]: "string2l s = string2ll s"
proof (cases "string2ll s")
  case (Some v)
  then have "is_int64 v" by (simp add: string2ll_Some_iff)
  with Some show ?thesis by (auto simp: string2l_def is_int64_def)
qed (simp add: string2l_def)



subsection \<open>Properties\<close>

text \<open>
  C18: \<open>string2ll\<close> is strict and complete. It accepts a byte string with value \<open>v\<close> exactly
  when \<open>v\<close> is in the range of a \<open>long long\<close> and the string is the decimal notation of \<open>v\<close>:
  no leading zeros, no sign on zero, no spaces, no overflow, and nothing representable is
  rejected.
\<close>

theorem string2ll_strict: "string2ll s = Some v \<longleftrightarrow> is_int64 v \<and> s = dec_int v"
  by (rule string2ll_Some_iff)

text \<open>
  C19: \<open>ll2string\<close> writes the decimal notation of the value followed by a NUL and returns its
  length when it fits in \<open>dstlen\<close> bytes with the NUL; otherwise it returns 0 and still leaves
  a NUL inside the buffer (unless \<open>dstlen\<close> is 0). No byte outside the buffer is touched.
\<close>

theorem ll2string_correct:
  assumes "dstlen \<le> length dst" "dstlen \<le> 4294967296"
  shows "if length (dec_int v) < dstlen
         then ll2string dst dstlen v =
                Some (length (dec_int v), dec_int v @ 0 # drop (Suc (length (dec_int v))) dst)
         else \<exists>dst'. ll2string dst dstlen v = Some (0, dst') \<and> length dst' = length dst \<and>
                (dstlen = 0 \<or> 0 \<in> set (take dstlen dst'))"
  using assms by (rule ll2string_spec)

theorem ll2string_correct_witness:
  "ll2string [7, 7, 7, 7, 7] 5 (- 42) = Some (3, [45, 52, 50, 0, 7])"
proof -
  have "dec_int (- 42) = [45, 52, 50]"
    by (simp add: dec_int_def dec.simps)
  then show ?thesis
    using ll2string_correct [of 5 "[7, 7, 7, 7, 7]" "- 42"] by simp
qed

text \<open>
  C20: round trip. Printing any \<open>long long\<close> into a buffer of 21 bytes (\<open>LONG_STR_SIZE\<close>)
  always succeeds, and parsing the printed bytes gives the number back.
\<close>

theorem ll2string_string2ll_roundtrip:
  assumes "is_int64 v" "length dst = LONG_STR_SIZE"
  shows "\<exists>n dst'. ll2string dst LONG_STR_SIZE v = Some (n, dst') \<and> 0 < n \<and>
           string2ll (take n dst') = Some v"
  using assms ll2string_spec [of LONG_STR_SIZE dst v] length_dec_int64 [OF assms(1)]
  by (auto simp: string2ll_dec_int)

theorem ll2string_string2ll_roundtrip_witness:
  "\<exists>n dst'. ll2string (replicate 21 0) 21 (- 9223372036854775808) = Some (n, dst') \<and> 0 < n \<and>
           string2ll (take n dst') = Some (- 9223372036854775808)"
  by (rule ll2string_string2ll_roundtrip) (simp_all add: is_int64_def)

end
