(* ===== verification/Endianconv.thy ===== *)
theory Endianconv
  imports Redis_Prelude
begin

text \<open>
  Byte order conversion of \<open>endianconv.c\<close>: the in-place reversals \<open>memrev16\<close>,
  \<open>memrev32\<close>, \<open>memrev64\<close>, statement by statement on a block, and the integer versions built
  on them. The host is little endian, as on the x86-64 and ARM64 machines the bundled
  server runs on, so the \<open>memrev*ifbe\<close> macros of \<open>endianconv.h\<close> are no-ops and
  \<open>htonu64\<close>/\<open>ntohu64\<close> are \<open>intrev64\<close>.
\<close>

subsection \<open>Model\<close>

text \<open>\<open>t = x[i]; x[i] = x[j]; x[j] = t;\<close>\<close>

definition swap_bytes :: "buf \<Rightarrow> nat \<Rightarrow> nat \<Rightarrow> buf option" where
  "swap_bytes x i j = do {
     t \<leftarrow> rd x i;
     xj \<leftarrow> rd x j;
     x \<leftarrow> wr x i xj;
     wr x j t
   }"

definition memrev16 :: "buf \<Rightarrow> nat \<Rightarrow> buf option" where
  "memrev16 x p = swap_bytes x p (p + 1)"

definition memrev32 :: "buf \<Rightarrow> nat \<Rightarrow> buf option" where
  "memrev32 x p = do {
     x \<leftarrow> swap_bytes x p (p + 3);
     swap_bytes x (p + 1) (p + 2)
   }"

definition memrev64 :: "buf \<Rightarrow> nat \<Rightarrow> buf option" where
  "memrev64 x p = do {
     x \<leftarrow> swap_bytes x p (p + 7);
     x \<leftarrow> swap_bytes x (p + 1) (p + 6);
     x \<leftarrow> swap_bytes x (p + 2) (p + 5);
     swap_bytes x (p + 3) (p + 4)
   }"

text \<open>An integer variable is the block of its bytes, least significant first.\<close>

definition intrev16 :: "nat \<Rightarrow> nat option" where
  "intrev16 v = map_option le_val (memrev16 (le_bytes 2 v) 0)"

definition intrev32 :: "nat \<Rightarrow> nat option" where
  "intrev32 v = map_option le_val (memrev32 (le_bytes 4 v) 0)"

definition intrev64 :: "nat \<Rightarrow> nat option" where
  "intrev64 v = map_option le_val (memrev64 (le_bytes 8 v) 0)"

definition htonu64 :: "nat \<Rightarrow> nat option" where
  "htonu64 v = intrev64 v"

definition ntohu64 :: "nat \<Rightarrow> nat option" where
  "ntohu64 v = intrev64 v"


subsection \<open>Reversal\<close>

text \<open>Big-endian value: the first byte is the most significant.\<close>

definition be_val :: "byte list \<Rightarrow> nat" where
  "be_val bs = le_val (rev bs)"

lemma swap_bytes_append:
  "i < length xs \<Longrightarrow> j < length xs \<Longrightarrow>
   swap_bytes (pre @ xs @ post) (length pre + i) (length pre + j) =
     Some (pre @ (xs[i := xs ! j, j := xs ! i]) @ post)"
  by (simp add: swap_bytes_def rd_def wr_def nth_append list_update_append)

lemma length4:
  assumes "length xs = 4"
  obtains a b c d where "xs = [a, b, c, d]"
  using assms by (auto simp: numeral_eq_Suc length_Suc_conv)

lemma length8:
  assumes "length xs = 8"
  obtains a b c d e f g h where "xs = [a, b, c, d, e, f, g, h]"
  using assms by (auto simp: numeral_eq_Suc length_Suc_conv)

lemma memrev32_rev:
  assumes "length xs = 4"
  shows "memrev32 (pre @ xs @ post) (length pre) = Some (pre @ rev xs @ post)"
proof -
  obtain a b c d where xs: "xs = [a, b, c, d]" using assms by (rule length4)
  show ?thesis
    using swap_bytes_append [of 0 "[a, b, c, d]" 3 pre post]
      swap_bytes_append [of 1 "[d, b, c, a]" 2 pre post]
    by (simp add: memrev32_def xs)
qed

lemma memrev64_rev:
  assumes "length xs = 8"
  shows "memrev64 (pre @ xs @ post) (length pre) = Some (pre @ rev xs @ post)"
proof -
  obtain a b c d e f g h where xs: "xs = [a, b, c, d, e, f, g, h]" using assms by (rule length8)
  show ?thesis
    using swap_bytes_append [of 0 "[a, b, c, d, e, f, g, h]" 7 pre post]
      swap_bytes_append [of 1 "[h, b, c, d, e, f, g, a]" 6 pre post]
      swap_bytes_append [of 2 "[h, g, c, d, e, f, b, a]" 5 pre post]
      swap_bytes_append [of 3 "[h, g, f, d, e, c, b, a]" 4 pre post]
    by (simp add: memrev64_def xs)
qed

lemma memrev16_rev:
  assumes "length xs = 2"
  shows "memrev16 (pre @ xs @ post) (length pre) = Some (pre @ rev xs @ post)"
proof -
  obtain a b where xs: "xs = [a, b]"
    using assms by (auto simp: numeral_2_eq_2 length_Suc_conv)
  show ?thesis
    using swap_bytes_append [of 0 "[a, b]" 1 pre post] by (simp add: memrev16_def xs)
qed

lemma intrev64_eq: "intrev64 v = Some (be_val (le_bytes 8 v))"
  using memrev64_rev [of "le_bytes 8 v" "[]" "[]"] by (simp add: intrev64_def be_val_def)

lemma le_bytes_be_val: "length bs = n \<Longrightarrow> le_bytes n (be_val bs) = rev bs"
  unfolding be_val_def using le_bytes_le_val [of "rev bs"] by simp

lemma be_val_bound: "be_val bs < 256 ^ length bs"
  using le_val_bound [of "rev bs"] by (simp add: be_val_def)


subsection \<open>Properties\<close>

text \<open>
  C21: \<open>memrev64\<close> reverses exactly the eight bytes it is pointed at, without touching the
  bytes around them, and the network conversion built on it is an involution:
  \<open>ntohu64 (htonu64 v) = v\<close> for every 64-bit \<open>v\<close>, with \<open>htonu64\<close> producing the big-endian
  representation.
\<close>

theorem memrev64_htonu64:
  assumes "length xs = 8" "v < 18446744073709551616"
  shows "memrev64 (pre @ xs @ post) (length pre) = Some (pre @ rev xs @ post) \<and>
         Option.bind (htonu64 v) ntohu64 = Some v \<and>
         map_option (le_bytes 8) (htonu64 v) = Some (rev (le_bytes 8 v))"
proof (intro conjI)
  show "memrev64 (pre @ xs @ post) (length pre) = Some (pre @ rev xs @ post)"
    using assms(1) by (rule memrev64_rev)
  have "le_val (le_bytes 8 v) = v" using assms(2) by simp
  then show "Option.bind (htonu64 v) ntohu64 = Some v"
    by (simp add: htonu64_def ntohu64_def intrev64_eq le_bytes_be_val)
       (simp add: be_val_def)
  show "map_option (le_bytes 8) (htonu64 v) = Some (rev (le_bytes 8 v))"
    by (simp add: htonu64_def intrev64_eq le_bytes_be_val)
qed

theorem memrev64_htonu64_witness:
  "memrev64 [9, 1, 2, 3, 4, 5, 6, 7, 8, 9] 1 = Some [9, 8, 7, 6, 5, 4, 3, 2, 1, 9] \<and>
   Option.bind (htonu64 258) ntohu64 = Some 258"
  using memrev64_htonu64 [of "[1, 2, 3, 4, 5, 6, 7, 8]" 258 "[9]" "[9]"] by simp

end
