(* ===== verification/Records.thy ===== *)
theory Records
  imports Redis_Prelude
begin

text \<open>
  Arrays of fixed-width records inside a byte block. The locale states what an array needs
  of a record format (a fixed width and a decoder that inverts the encoder); its lemmas turn
  byte-level reads, writes and moves at multiples of the width into list operations on the
  decoded values. The instance is the little-endian two's complement format.
\<close>

definition recs :: "('v \<Rightarrow> byte list) \<Rightarrow> 'v list \<Rightarrow> buf" where
  "recs enc vs = concat (map enc vs)"

lemma recs_simps [simp]:
  "recs enc [] = []"
  "recs enc (v # vs) = enc v @ recs enc vs"
  "recs enc (vs @ us) = recs enc vs @ recs enc us"
  by (simp_all add: recs_def)

locale record_codec =
  fixes w :: nat
    and enc :: "'v \<Rightarrow> byte list"
    and decode :: "byte list \<Rightarrow> 'v"
    and fits :: "'v \<Rightarrow> bool"
  assumes length_enc [simp]: "length (enc v) = w"
    and decode_enc: "fits v \<Longrightarrow> decode (enc v) = v"
    and enc_decode: "length bs = w \<Longrightarrow> enc (decode bs) = bs"
    and fits_decode: "length bs = w \<Longrightarrow> fits (decode bs)"
begin

lemma length_recs [simp]: "length (recs enc vs) = length vs * w"
  by (induction vs) auto

lemma take_recs: "take (n * w) (recs enc vs) = recs enc (take n vs)"
proof (induction vs arbitrary: n)
  case (Cons v vs)
  then show ?case by (cases n) auto
qed simp

lemma drop_recs: "drop (n * w) (recs enc vs) = recs enc (drop n vs)"
proof (induction vs arbitrary: n)
  case (Cons v vs)
  then show ?case by (cases n) auto
qed simp

lemma recs_split:
  assumes "i < length vs"
  shows "recs enc vs = recs enc (take i vs) @ enc (vs ! i) @ recs enc (drop (Suc i) vs)"
proof -
  have "recs enc vs = recs enc (take i vs @ vs ! i # drop (Suc i) vs)"
    using id_take_nth_drop [OF assms] by (rule arg_cong)
  then show ?thesis by (simp only: recs_simps)
qed

lemma rd_range_recs:
  assumes "i < length vs"
  shows "rd_range (recs enc vs @ rest) (i * w) w = Some (enc (vs ! i))"
proof -
  have "i * w = length (recs enc (take i vs))" using assms by simp
  then have "rd_range (recs enc (take i vs) @ enc (vs ! i) @ recs enc (drop (Suc i) vs) @ rest) (i * w) w =
             Some (enc (vs ! i))"
    by (rule rd_range_append) (rule length_enc [symmetric])
  then show ?thesis by (simp only: recs_split [OF assms] append_assoc)
qed

lemma wr_range_recs:
  assumes "i < length vs"
  shows "wr_range (recs enc vs @ rest) (i * w) (enc v) = Some (recs enc (vs[i := v]) @ rest)"
proof -
  note recs_split [OF assms]
  moreover have "length (recs enc (take i vs)) = i * w" using assms by simp
  ultimately show ?thesis
    using wr_range_append [of "i * w" "recs enc (take i vs)" "enc v" "enc (vs ! i)"] assms
    by (simp add: upd_conv_take_nth_drop)
qed

lemma wr_range_recs_end:
  assumes "length junk = w"
  shows "wr_range (recs enc vs @ junk @ rest) (length vs * w) (enc v) = Some (recs enc (vs @ [v]) @ rest)"
proof -
  have "length (enc v) = length junk" using assms by (simp only: length_enc)
  then have "wr_range (recs enc vs @ junk @ rest) (length vs * w) (enc v) = Some (recs enc vs @ enc v @ rest)"
    by (intro wr_range_append) (simp_all only: length_recs)
  then show ?thesis by (simp only: recs_simps append_assoc append_Nil2 append_Nil append_Cons)
qed

lemma memmove_recs:
  assumes "to + n \<le> length vs" "from + n \<le> length vs"
  shows "memmove (recs enc vs) (to * w) (from * w) (n * w) =
           Some (recs enc (take to vs @ take n (drop from vs) @ drop (to + n) vs))"
proof -
  have "to * w + n * w \<le> length vs * w" "from * w + n * w \<le> length vs * w"
    using assms [THEN mult_le_mono1, of w] by (simp_all only: add_mult_distrib)
  then show ?thesis
    by (simp add: memmove_Some take_recs drop_recs flip: add_mult_distrib)
qed

lemma recs_chunks:
  assumes "length b = n * w"
  shows "recs enc (map (\<lambda>i. decode (take w (drop (i * w) b))) [0..<n]) = b"
  using assms
proof (induction n arbitrary: b)
  case (Suc n)
  let ?b = "take (n * w) b"
  have "take w (drop (i * w) ?b) = take w (drop (i * w) b)" if "i < n" for i
  proof -
    have "Suc i * w \<le> n * w" using that by (intro mult_le_mono1) simp
    then show ?thesis by (simp add: drop_take)
  qed
  then have "map (\<lambda>i. decode (take w (drop (i * w) b))) [0..<n] =
             map (\<lambda>i. decode (take w (drop (i * w) ?b))) [0..<n]"
    by (intro map_cong) simp_all
  then have "recs enc (map (\<lambda>i. decode (take w (drop (i * w) b))) [0..<n]) = ?b"
    using Suc.IH [of ?b] Suc.prems by (simp only:) simp
  moreover have "enc (decode (take w (drop (n * w) b))) = drop (n * w) b"
    using Suc.prems by (simp add: enc_decode)
  ultimately show ?case by simp
qed simp

lemma chunks_recs:
  assumes "list_all fits vs"
  shows "map (\<lambda>i. decode (take w (drop (i * w) (recs enc vs)))) [0..<length vs] = vs"
proof (rule nth_equalityI)
  fix i assume "i < length (map (\<lambda>i. decode (take w (drop (i * w) (recs enc vs)))) [0..<length vs])"
  then have i: "i < length vs" by simp
  then have "take w (drop (i * w) (recs enc vs)) = enc (vs ! i)"
    by (simp add: drop_recs flip: Cons_nth_drop_Suc)
  with i assms show "map (\<lambda>i. decode (take w (drop (i * w) (recs enc vs)))) [0..<length vs] ! i = vs ! i"
    by (simp add: decode_enc list_all_length)
qed simp

end


subsection \<open>Little-endian two's complement records\<close>

definition le_enc :: "nat \<Rightarrow> int \<Rightarrow> byte list" where
  "le_enc w v = le_bytes w (of_signed w v)"

definition le_dec :: "nat \<Rightarrow> byte list \<Rightarrow> int" where
  "le_dec w bs = to_signed w (le_val bs)"

definition le_fits :: "nat \<Rightarrow> int \<Rightarrow> bool" where
  "le_fits w v \<longleftrightarrow> - (256 ^ w) \<le> 2 * v \<and> 2 * v < 256 ^ w"

lemma of_signed_to_signed:
  assumes "u < 256 ^ w"
  shows "of_signed w (to_signed w u) = u"
proof (cases "2 * u < 256 ^ w")
  case True
  have "int u mod 256 ^ w = int u"
    using assms by (metis mod_less of_nat_mod of_nat_numeral of_nat_power)
  with True show ?thesis by (simp add: to_signed_def of_signed_def)
next
  case False
  have "(int u - 256 ^ w) mod 256 ^ w = int u mod 256 ^ w" by simp
  also have "\<dots> = int u"
    using assms by (metis mod_less of_nat_mod of_nat_numeral of_nat_power)
  finally show ?thesis using False by (simp add: to_signed_def of_signed_def)
qed

lemma le_fits_to_signed:
  assumes "u < 256 ^ w"
  shows "le_fits w (to_signed w u)"
proof -
  define P :: int where "P = 256 ^ w"
  have *: "int u < P"
    unfolding P_def using assms by (metis of_nat_less_iff of_nat_numeral of_nat_power)
  have eq: "2 * u < 256 ^ w \<longleftrightarrow> 2 * int u < P"
    unfolding P_def by (metis of_nat_less_iff of_nat_mult of_nat_numeral of_nat_power)
  have "to_signed w u = (if 2 * int u < P then int u else int u - P)"
    unfolding to_signed_def eq P_def ..
  with * show ?thesis
    unfolding le_fits_def P_def [symmetric] by (simp split: if_splits)
qed

lemma le_enc_le_dec:
  assumes "length bs = w"
  shows "le_enc w (le_dec w bs) = bs"
proof -
  have "le_val bs < 256 ^ w" using le_val_bound [of bs] unfolding assms .
  then have "le_enc w (le_dec w bs) = le_bytes w (le_val bs)"
    unfolding le_enc_def le_dec_def by (simp only: of_signed_to_signed)
  also have "\<dots> = bs" unfolding assms [symmetric] by (rule le_bytes_le_val)
  finally show ?thesis .
qed

lemma le_fits_le_dec:
  assumes "length bs = w"
  shows "le_fits w (le_dec w bs)"
proof -
  have "le_val bs < 256 ^ w" using le_val_bound [of bs] unfolding assms .
  then show ?thesis unfolding le_dec_def by (rule le_fits_to_signed)
qed

lemma le_dec_le_enc:
  assumes "le_fits w v"
  shows "le_dec w (le_enc w v) = v"
proof -
  have "le_dec w (le_enc w v) = to_signed w (of_signed w v mod 256 ^ w)"
    by (simp only: le_dec_def le_enc_def le_val_le_bytes)
  also have "\<dots> = to_signed w (of_signed w v)" by (simp only: mod_less of_signed_bound)
  also have "\<dots> = v" using assms unfolding le_fits_def by (blast intro: to_signed_of_signed)
  finally show ?thesis .
qed

lemma length_le_enc: "length (le_enc w v) = w"
  by (simp add: le_enc_def)

interpretation le_rec: record_codec w "le_enc w" "le_dec w" "le_fits w" for w
  by (rule record_codec.intro) (fact length_le_enc le_dec_le_enc le_enc_le_dec le_fits_le_dec)+

end
