(* ===== verification/Set_Interface.thy ===== *)
theory Set_Interface
  imports Main
begin

text \<open>
  What a client of a bounded set container relies on: insertion, removal and membership on a
  representation with an invariant and an abstraction to mathematical sets, none of which
  faults while there is room. The client lemma is that any sequence of operations observes
  exactly the answers of a mathematical set.
\<close>

datatype 'e set_op = SAdd 'e | SRem 'e | SFind 'e

fun set_op_arg :: "'e set_op \<Rightarrow> 'e" where
  "set_op_arg (SAdd x) = x"
| "set_op_arg (SRem x) = x"
| "set_op_arg (SFind x) = x"

text \<open>Running a sequence of operations on a container; the answers come out in order.\<close>

fun run_set_ops ::
  "('s \<Rightarrow> 'e \<Rightarrow> ('s \<times> bool) option) \<Rightarrow> ('s \<Rightarrow> 'e \<Rightarrow> ('s \<times> bool) option) \<Rightarrow>
   ('s \<Rightarrow> 'e \<Rightarrow> bool option) \<Rightarrow> 's \<Rightarrow> 'e set_op list \<Rightarrow> ('s \<times> bool list) option" where
  "run_set_ops add rem fnd s [] = Some (s, [])"
| "run_set_ops add rem fnd s (SAdd x # ops) =
     (case add s x of None \<Rightarrow> None
      | Some (s', r) \<Rightarrow> map_option (map_prod id (Cons r)) (run_set_ops add rem fnd s' ops))"
| "run_set_ops add rem fnd s (SRem x # ops) =
     (case rem s x of None \<Rightarrow> None
      | Some (s', r) \<Rightarrow> map_option (map_prod id (Cons r)) (run_set_ops add rem fnd s' ops))"
| "run_set_ops add rem fnd s (SFind x # ops) =
     (case fnd s x of None \<Rightarrow> None
      | Some r \<Rightarrow> map_option (map_prod id (Cons r)) (run_set_ops add rem fnd s ops))"

text \<open>The same sequence on a mathematical set.\<close>

fun spec_set_ops :: "'e set \<Rightarrow> 'e set_op list \<Rightarrow> 'e set \<times> bool list" where
  "spec_set_ops A [] = (A, [])"
| "spec_set_ops A (SAdd x # ops) = map_prod id (Cons (x \<notin> A)) (spec_set_ops (insert x A) ops)"
| "spec_set_ops A (SRem x # ops) = map_prod id (Cons (x \<in> A)) (spec_set_ops (A - {x}) ops)"
| "spec_set_ops A (SFind x # ops) = map_prod id (Cons (x \<in> A)) (spec_set_ops A ops)"

locale bounded_set =
  fixes add :: "'s \<Rightarrow> 'e \<Rightarrow> ('s \<times> bool) option"
    and rem :: "'s \<Rightarrow> 'e \<Rightarrow> ('s \<times> bool) option"
    and fnd :: "'s \<Rightarrow> 'e \<Rightarrow> bool option"
    and inv :: "'s \<Rightarrow> bool"
    and abst :: "'s \<Rightarrow> 'e set"
    and ok :: "'e \<Rightarrow> bool"
    and cap :: nat
  assumes finite_abs: "finite (abst s)"
    and add_law: "\<lbrakk>inv s; ok x; card (abst s) < cap\<rbrakk> \<Longrightarrow>
      \<exists>s'. add s x = Some (s', x \<notin> abst s) \<and> inv s' \<and> abst s' = insert x (abst s)"
    and rem_law: "\<lbrakk>inv s; ok x\<rbrakk> \<Longrightarrow>
      \<exists>s'. rem s x = Some (s', x \<in> abst s) \<and> inv s' \<and> abst s' = abst s - {x}"
    and find_law: "\<lbrakk>inv s; ok x\<rbrakk> \<Longrightarrow> fnd s x = Some (x \<in> abst s)"
begin

lemma run_set_ops_correct:
  assumes "inv s" "list_all (ok \<circ> set_op_arg) ops" "card (abst s) + length ops \<le> cap"
  shows "\<exists>s'. run_set_ops add rem fnd s ops = Some (s', snd (spec_set_ops (abst s) ops)) \<and>
           inv s' \<and> abst s' = fst (spec_set_ops (abst s) ops)"
  using assms
proof (induction ops arbitrary: s)
  case Nil
  then show ?case by simp
next
  case (Cons op ops)
  show ?case
  proof (cases op)
    case (SAdd x)
    from Cons.prems SAdd obtain s' where s':
      "add s x = Some (s', x \<notin> abst s)" "inv s'" "abst s' = insert x (abst s)"
      using add_law [of s x] by auto
    moreover have "card (abst s') \<le> Suc (card (abst s))" by (simp add: s'(3) card_insert_if finite_abs)
    ultimately show ?thesis using Cons.IH [of s'] Cons.prems SAdd by auto
  next
    case (SRem x)
    from Cons.prems SRem obtain s' where s':
      "rem s x = Some (s', x \<in> abst s)" "inv s'" "abst s' = abst s - {x}"
      using rem_law [of s x] by auto
    moreover have "card (abst s') \<le> card (abst s)" by (simp add: s'(3) card_Diff1_le)
    ultimately show ?thesis using Cons.IH [of s'] Cons.prems SRem by auto
  next
    case (SFind x)
    then show ?thesis using Cons.IH [of s] Cons.prems find_law [of s x] by auto
  qed
qed

end

end
