(* ===== verification/Intset.thy ===== *)
theory Intset
  imports Records Set_Interface
begin

text \<open>
  The sorted integer array of \<open>intset.c\<close>. \<open>contents\<close> is the flexible array member, a block of
  \<open>length * encoding\<close> bytes holding little-endian two's complement records, exactly as in
  memory; positions are the C \<open>int\<close>/\<open>uint32_t\<close> values (\<open>as_int\<close> is the conversion of the
  latter to the former), and unsigned arithmetic that can wrap is written with \<open>mod\<close>.
\<close>

subsection \<open>Model\<close>

record intset =
  encoding :: nat
  ilength :: nat
  contents :: buf

abbreviation INTSET_ENC_INT16 :: nat where "INTSET_ENC_INT16 \<equiv> 2"
abbreviation INTSET_ENC_INT32 :: nat where "INTSET_ENC_INT32 \<equiv> 4"
abbreviation INTSET_ENC_INT64 :: nat where "INTSET_ENC_INT64 \<equiv> 8"

abbreviation as_int :: "nat \<Rightarrow> int" where "as_int u \<equiv> to_signed 4 u"

definition intset_ValueEncoding :: "int \<Rightarrow> nat" where
  "intset_ValueEncoding v =
     (if v < INT32_MIN \<or> INT32_MAX < v then INTSET_ENC_INT64
      else if v < INT16_MIN \<or> INT16_MAX < v then INTSET_ENC_INT32
      else INTSET_ENC_INT16)"

text \<open>A negative position would read before the array: a fault.\<close>

definition intset_GetEncoded :: "intset \<Rightarrow> int \<Rightarrow> nat \<Rightarrow> int option" where
  "intset_GetEncoded is pos enc =
     (if pos < 0 then None
      else if enc = INTSET_ENC_INT64 then do {
        v64 \<leftarrow> rd_range (contents is) (nat pos * 8) 8;
        Some (to_signed 8 (le_val v64)) }
      else if enc = INTSET_ENC_INT32 then do {
        v32 \<leftarrow> rd_range (contents is) (nat pos * 4) 4;
        Some (to_signed 4 (le_val v32)) }
      else do {
        v16 \<leftarrow> rd_range (contents is) (nat pos * 2) 2;
        Some (to_signed 2 (le_val v16)) })"

definition intset_Get :: "intset \<Rightarrow> int \<Rightarrow> int option" where
  "intset_Get is pos = intset_GetEncoded is pos (encoding is mod 256)"

definition intset_Set :: "intset \<Rightarrow> int \<Rightarrow> int \<Rightarrow> intset option" where
  "intset_Set is pos value =
     (if pos < 0 then None
      else if encoding is = INTSET_ENC_INT64 then do {
        c \<leftarrow> wr_range (contents is) (nat pos * 8) (le_bytes 8 (of_signed 8 value));
        Some (is\<lparr>contents := c\<rparr>) }
      else if encoding is = INTSET_ENC_INT32 then do {
        c \<leftarrow> wr_range (contents is) (nat pos * 4) (le_bytes 4 (of_signed 4 value));
        Some (is\<lparr>contents := c\<rparr>) }
      else do {
        c \<leftarrow> wr_range (contents is) (nat pos * 2) (le_bytes 2 (of_signed 2 value));
        Some (is\<lparr>contents := c\<rparr>) })"

definition intsetNew :: intset where
  "intsetNew = \<lparr>encoding = INTSET_ENC_INT16, ilength = 0, contents = []\<rparr>"

text \<open>\<open>sizeof(intset)\<close> is 8; \<open>zrealloc\<close> aborts the process rather than fail.\<close>

definition intsetResize :: "intset \<Rightarrow> nat \<Rightarrow> intset option" where
  "intsetResize is len = do {
     let size = len * encoding is;
     assertC (size \<le> UINT64_MAX - 8);
     Some (is\<lparr>contents := realloc_buf (contents is) size\<rparr>)
   }"

text \<open>
  The binary search loop; the result is \<open>(min, mid, cur)\<close> at its exit (\<open>mn\<close>, \<open>mx\<close> are \<open>min\<close>,
  \<open>max\<close>). In the loop \<open>0 \<le> min \<le> max\<close>, both \<open>int\<close>, so their unsigned sum does not wrap.
\<close>

function intsetSearch_loop ::
  "intset \<Rightarrow> int \<Rightarrow> int \<Rightarrow> int \<Rightarrow> int \<Rightarrow> int \<Rightarrow> (int \<times> int \<times> int) option" where
  "intsetSearch_loop is value mn mx mid cur =
     (if mn \<le> mx then do {
        let mid = (mn + mx) div 2;
        cur \<leftarrow> intset_Get is mid;
        if cur < value then intsetSearch_loop is value (mid + 1) mx mid cur
        else if value < cur then intsetSearch_loop is value mn (mid - 1) mid cur
        else Some (mn, mid, cur)
      }
      else Some (mn, mid, cur))"
  by pat_completeness auto
termination
  by (relation "measure (\<lambda>(_, _, mn, mx, _, _). nat (mx + 1 - mn))") auto

declare intsetSearch_loop.simps [simp del]

text \<open>The result is the returned flag and \<open>*pos\<close>.\<close>

definition intsetSearch :: "intset \<Rightarrow> int \<Rightarrow> (bool \<times> nat) option" where
  "intsetSearch is value =
     (let mx = as_int (sub32 (ilength is) 1) in
      if ilength is = 0 then Some (False, 0)
      else do {
        last \<leftarrow> intset_Get is mx;
        if last < value then Some (False, ilength is)
        else do {
          first \<leftarrow> intset_Get is 0;
          if value < first then Some (False, 0)
          else do {
            (mn, mid, cur) \<leftarrow> intsetSearch_loop is value 0 mx (- 1) (- 1);
            if value = cur then Some (True, nat mid) else Some (False, nat mn)
          }
        }
      })"

text \<open>
  \<open>while(length--)\<close>: positions \<open>length - 1\<close> down to 0. A length that is negative as an \<open>int\<close>
  makes the first iteration access memory before the array.
\<close>

fun intsetUpgrade_loop :: "nat \<Rightarrow> nat \<Rightarrow> nat \<Rightarrow> intset \<Rightarrow> intset option" where
  "intsetUpgrade_loop 0 prepend curenc is = Some is"
| "intsetUpgrade_loop (Suc len) prepend curenc is = do {
     v \<leftarrow> intset_GetEncoded is (int len) curenc;
     is \<leftarrow> intset_Set is (int (len + prepend)) v;
     intsetUpgrade_loop len prepend curenc is
   }"

definition intsetUpgradeAndAdd :: "intset \<Rightarrow> int \<Rightarrow> intset option" where
  "intsetUpgradeAndAdd is value = do {
     let curenc = encoding is mod 256;
     let newenc = intset_ValueEncoding value;
     let length = as_int (ilength is);
     let prepend = (if value < 0 then 1 else 0);
     let is = is\<lparr>encoding := newenc\<rparr>;
     is \<leftarrow> intsetResize is ((ilength is + 1) mod 4294967296);
     assertC (0 \<le> length);
     is \<leftarrow> intsetUpgrade_loop (nat length) prepend curenc is;
     is \<leftarrow> (if 0 < prepend then intset_Set is 0 value else intset_Set is (as_int (ilength is)) value);
     Some (is\<lparr>ilength := (ilength is + 1) mod 4294967296\<rparr>)
   }"

text \<open>\<open>bytes\<close> is a \<open>uint32_t\<close>: both the subtraction and the multiplication wrap.\<close>

definition intsetMoveTail :: "intset \<Rightarrow> nat \<Rightarrow> nat \<Rightarrow> intset option" where
  "intsetMoveTail is from to = do {
     let bytes = sub32 (ilength is) from;
     let size = (if encoding is = INTSET_ENC_INT64 then 8
                 else if encoding is = INTSET_ENC_INT32 then 4 else 2);
     let bytes = (bytes * size) mod 4294967296;
     c \<leftarrow> memmove (contents is) (to * size) (from * size) bytes;
     Some (is\<lparr>contents := c\<rparr>)
   }"

text \<open>The second component of the result is \<open>*success\<close>.\<close>

definition intsetAdd :: "intset \<Rightarrow> int \<Rightarrow> (intset \<times> bool) option" where
  "intsetAdd is value =
     (let valenc = intset_ValueEncoding value in
      if encoding is < valenc then do {
        is \<leftarrow> intsetUpgradeAndAdd is value;
        Some (is, True)
      }
      else do {
        (found, pos) \<leftarrow> intsetSearch is value;
        if found then Some (is, False)
        else do {
          is \<leftarrow> intsetResize is ((ilength is + 1) mod 4294967296);
          is \<leftarrow> (if pos < ilength is then intsetMoveTail is pos (pos + 1) else Some is);
          is \<leftarrow> intset_Set is (as_int pos) value;
          Some (is\<lparr>ilength := (ilength is + 1) mod 4294967296\<rparr>, True)
        }
      })"

definition intsetRemove :: "intset \<Rightarrow> int \<Rightarrow> (intset \<times> bool) option" where
  "intsetRemove is value =
     (let valenc = intset_ValueEncoding value in
      if valenc \<le> encoding is then do {
        (found, pos) \<leftarrow> intsetSearch is value;
        if found then do {
          let len = ilength is;
          is \<leftarrow> (if pos < sub32 len 1 then intsetMoveTail is (pos + 1) pos else Some is);
          is \<leftarrow> intsetResize is (sub32 len 1);
          Some (is\<lparr>ilength := sub32 len 1\<rparr>, True)
        }
        else Some (is, False)
      }
      else Some (is, False))"

definition intsetFind :: "intset \<Rightarrow> int \<Rightarrow> bool option" where
  "intsetFind is value =
     (let valenc = intset_ValueEncoding value in
      if valenc \<le> encoding is then map_option fst (intsetSearch is value) else Some False)"

text \<open>\<open>r\<close> is the value \<open>rand()\<close> returned.\<close>

definition intsetRandom :: "nat \<Rightarrow> intset \<Rightarrow> int option" where
  "intsetRandom r is = do {
     let len = ilength is;
     assertC (len \<noteq> 0);
     intset_Get is (as_int (r mod len))
   }"

definition intsetMax :: "intset \<Rightarrow> int option" where
  "intsetMax is = intset_Get is (as_int (sub32 (ilength is) 1))"

definition intsetMin :: "intset \<Rightarrow> int option" where
  "intsetMin is = intset_Get is 0"

text \<open>\<open>Some None\<close> is the return value 0, \<open>Some (Some v)\<close> the return value 1 with \<open>*value = v\<close>.\<close>

definition intsetGet :: "intset \<Rightarrow> nat \<Rightarrow> int option option" where
  "intsetGet is pos =
     (if pos < ilength is then map_option Some (intset_Get is (as_int pos)) else Some None)"

definition intsetLen :: "intset \<Rightarrow> nat" where
  "intsetLen is = ilength is"

definition intsetBlobLen :: "intset \<Rightarrow> nat" where
  "intsetBlobLen is = 8 + ilength is * encoding is"

text \<open>The blob layout: encoding and length as 32-bit little-endian words, then the records.\<close>

definition intset_of_blob :: "buf \<Rightarrow> intset option" where
  "intset_of_blob p = do {
     e \<leftarrow> rd_range p 0 4;
     l \<leftarrow> rd_range p 4 4;
     Some \<lparr>encoding = le_val e, ilength = le_val l, contents = drop 8 p\<rparr>
   }"

function intsetValidate_loop :: "intset \<Rightarrow> nat \<Rightarrow> nat \<Rightarrow> int \<Rightarrow> bool option" where
  "intsetValidate_loop is i count prev =
     (if i < count then do {
        cur \<leftarrow> intset_Get is (as_int i);
        if cur \<le> prev then Some False else intsetValidate_loop is (i + 1) count cur
      }
      else Some True)"
  by pat_completeness auto
termination
  by (relation "measure (\<lambda>(_, i, count, _). count - i)") auto

declare intsetValidate_loop.simps [simp del]

definition intsetValidateIntegrity :: "buf \<Rightarrow> nat \<Rightarrow> bool \<Rightarrow> bool option" where
  "intsetValidateIntegrity p sz deep =
     (if sz < 8 then Some False
      else do {
        is \<leftarrow> intset_of_blob p;
        if encoding is \<noteq> INTSET_ENC_INT64 \<and> encoding is \<noteq> INTSET_ENC_INT32 \<and>
           encoding is \<noteq> INTSET_ENC_INT16
        then Some False
        else do {
          let record_size = encoding is;
          let count = ilength is;
          if 8 + count * record_size \<noteq> sz then Some False
          else if count = 0 then Some False
          else if \<not> deep then Some True
          else do {
            prev \<leftarrow> intset_Get is 0;
            intsetValidate_loop is 1 count prev
          }
        }
      })"


subsection \<open>Representation\<close>

definition valid_enc :: "nat \<Rightarrow> bool" where
  "valid_enc w \<longleftrightarrow> w = INTSET_ENC_INT16 \<or> w = INTSET_ENC_INT32 \<or> w = INTSET_ENC_INT64"

text \<open>The values the records hold, in order.\<close>

definition intset_elems :: "intset \<Rightarrow> int list" where
  "intset_elems is =
     map (\<lambda>i. le_dec (encoding is) (take (encoding is) (drop (i * encoding is) (contents is))))
       [0..<ilength is]"

definition intset_layout :: "intset \<Rightarrow> bool" where
  "intset_layout is \<longleftrightarrow>
     valid_enc (encoding is) \<and> length (contents is) = ilength is * encoding is"

text \<open>The invariant: strictly increasing records in a block whose size a \<open>uint32_t\<close> holds.\<close>

definition intset_inv :: "intset \<Rightarrow> bool" where
  "intset_inv is \<longleftrightarrow>
     intset_layout is \<and> sorted_wrt (<) (intset_elems is) \<and>
     ilength is * encoding is < 4294967296"

lemma valid_encE:
  assumes "valid_enc w"
  obtains "w = 2" | "w = 4" | "w = 8"
  using assms by (auto simp: valid_enc_def)

lemma valid_enc_ValueEncoding [simp]: "valid_enc (intset_ValueEncoding v)"
  by (simp add: valid_enc_def intset_ValueEncoding_def)

lemma le_fits_cases:
  "le_fits 2 v \<longleftrightarrow> INT16_MIN \<le> v \<and> v \<le> INT16_MAX"
  "le_fits 4 v \<longleftrightarrow> INT32_MIN \<le> v \<and> v \<le> INT32_MAX"
  "le_fits 8 v \<longleftrightarrow> is_int64 v"
  by (auto simp: le_fits_def is_int64_def)

text \<open>A value fits a record width exactly when its own encoding is not wider.\<close>

lemma le_fits_iff_ValueEncoding:
  assumes "valid_enc w" "is_int64 v"
  shows "le_fits w v \<longleftrightarrow> intset_ValueEncoding v \<le> w"
  using assms(1) by (rule valid_encE) (use assms(2) in \<open>auto simp: le_fits_cases intset_ValueEncoding_def is_int64_def\<close>)

lemma le_fits_mono:
  assumes "le_fits w v" "w \<le> w'"
  shows "le_fits w' v"
proof -
  have "(256 :: int) ^ w \<le> 256 ^ w'" using assms(2) by (intro power_increasing) simp_all
  with assms(1) show ?thesis unfolding le_fits_def by linarith
qed

lemma le_fits_int64:
  assumes "le_fits w v" "valid_enc w"
  shows "is_int64 v"
proof -
  have "w \<le> 8" using assms(2) by (auto simp: valid_enc_def)
  then have "le_fits 8 v" using assms(1) by (blast intro: le_fits_mono)
  then show ?thesis by (simp add: le_fits_cases)
qed

lemma length_intset_elems [simp]: "length (intset_elems is) = ilength is"
  by (simp add: intset_elems_def)

lemma contents_elems:
  "intset_layout is \<Longrightarrow> contents is = recs (le_enc (encoding is)) (intset_elems is)"
  unfolding intset_layout_def intset_elems_def by (simp only: le_rec.recs_chunks)

lemma fits_elems:
  assumes "intset_layout is"
  shows "list_all (le_fits (encoding is)) (intset_elems is)"
proof -
  have "length (take (encoding is) (drop (i * encoding is) (contents is))) = encoding is"
    if "i < ilength is" for i
  proof -
    have "Suc i * encoding is \<le> ilength is * encoding is" using that by (intro mult_le_mono1) simp
    with assms show ?thesis by (simp add: intset_layout_def)
  qed
  then show ?thesis by (simp add: intset_elems_def list_all_length le_rec.fits_decode)
qed

lemma layoutI:
  assumes "valid_enc (encoding is)" "ilength is = length vs"
    "contents is = recs (le_enc (encoding is)) vs" "list_all (le_fits (encoding is)) vs"
  shows "intset_layout is" "intset_elems is = vs"
  using assms by (simp_all only: intset_layout_def intset_elems_def le_rec.length_recs le_rec.chunks_recs simp_thms)

subsection \<open>Reading and writing records\<close>

lemma GetEncoded_recs:
  assumes "valid_enc w" "contents is = recs (le_enc w) vs @ rest"
    "list_all (le_fits w) vs" "i < length vs"
  shows "intset_GetEncoded is (int i) w = Some (vs ! i)"
proof -
  have r: "rd_range (contents is) (i * w) w = Some (le_enc w (vs ! i))"
    unfolding assms(2) using assms(4) by (rule le_rec.rd_range_recs)
  have d: "le_dec w (le_enc w (vs ! i)) = vs ! i"
    using assms(3,4) by (simp add: le_rec.decode_enc list_all_length)
  from assms(1) show ?thesis
    by (rule valid_encE) (use r d in \<open>simp_all add: intset_GetEncoded_def flip: le_dec_def\<close>)
qed

lemma Get_elems:
  assumes "intset_layout is" "i < ilength is"
  shows "intset_Get is (int i) = Some (intset_elems is ! i)"
proof -
  have "valid_enc (encoding is)" using assms(1) by (simp add: intset_layout_def)
  moreover from this have "encoding is mod 256 = encoding is" by (auto simp: valid_enc_def)
  ultimately show ?thesis
    unfolding intset_Get_def
    using GetEncoded_recs [of "encoding is" "is" "intset_elems is" "[]" i]
      contents_elems [OF assms(1)] fits_elems [OF assms(1)] assms(2) by simp
qed

lemma Set_wr_range:
  assumes "valid_enc (encoding is)"
  shows "intset_Set is (int pos) v =
           map_option (\<lambda>c. is\<lparr>contents := c\<rparr>)
             (wr_range (contents is) (pos * encoding is) (le_enc (encoding is) v))"
  using assms
  by (rule valid_encE) (simp_all add: intset_Set_def le_enc_def map_conv_bind_option comp_def)


subsection \<open>Search\<close>

lemma takeWhile_less_eqI:
  fixes v :: "'a :: linorder"
  assumes "\<And>j. j < i \<Longrightarrow> vs ! j < v" "i < length vs \<Longrightarrow> v \<le> vs ! i" "i \<le> length vs"
  shows "length (takeWhile (\<lambda>x. x < v) vs) = i"
proof -
  have "takeWhile (\<lambda>x. x < v) vs = take i vs"
    using assms by (intro takeWhile_eq_take_P_nth) auto
  with assms(3) show ?thesis by simp
qed

text \<open>What the loop leaves in \<open>(min, mid, cur)\<close>.\<close>

definition search_post :: "int list \<Rightarrow> int \<Rightarrow> int \<times> int \<times> int \<Rightarrow> bool" where
  "search_post vs value = (\<lambda>(mn, mid, cur).
     if value \<in> set vs
     then cur = value \<and> 0 \<le> mid \<and> mid < int (length vs) \<and> vs ! nat mid = value
     else cur \<noteq> value \<and> 0 \<le> mn \<and> nat mn = length (takeWhile (\<lambda>x. x < value) vs))"

lemma intsetSearch_loop_correct:
  fixes vs :: "int list"
  assumes get: "\<And>i. i < length vs \<Longrightarrow> intset_Get is (int i) = Some (vs ! i)"
    and sorted: "sorted_wrt (<) vs"
    and "0 \<le> mn" "mn \<le> mx + 1" "mx < int (length vs)"
    and "\<And>i. int i < mn \<Longrightarrow> vs ! i < value"
    and "\<And>i. mx < int i \<Longrightarrow> i < length vs \<Longrightarrow> value < vs ! i"
    and "mn \<le> mx \<or> cur \<noteq> value"
  shows "\<exists>r. intsetSearch_loop is value mn mx mid cur = Some r \<and> search_post vs value r"
  using assms(3-)
proof (induction "nat (mx + 1 - mn)" arbitrary: mn mx mid cur rule: less_induct)
  case less
  note unfold = intsetSearch_loop.simps [of "is" "value" mn mx mid cur]
  show ?case
  proof (cases "mn \<le> mx")
    case False
    then have "mx + 1 = mn" using less.prems(2) by simp
    then have "\<forall>i < length vs. vs ! i \<noteq> value"
      using less.prems(4,5) by (metis less_irrefl linorder_not_less zle_add1_eq_le)
    then have "value \<notin> set vs" by (simp add: in_set_conv_nth)
    moreover have "length (takeWhile (\<lambda>x. x < value) vs) = nat mn"
      using less.prems \<open>mx + 1 = mn\<close> by (intro takeWhile_less_eqI) (auto intro!: less_imp_le)
    ultimately show ?thesis using False less.prems(1,6) unfold by (simp add: search_post_def)
  next
    case True
    define m where "m = (mn + mx) div 2"
    have m: "mn \<le> m" "m \<le> mx" "nat m < length vs" "int (nat m) = m"
      using True less.prems(1,3) by (auto simp: m_def)
    have g: "intset_Get is m = Some (vs ! nat m)" using get [OF m(3)] m(4) by simp
    have lo: "vs ! i < vs ! nat m" if "int i < m" for i
    proof -
      have "i < nat m" using that m(4) by linarith
      then show ?thesis using sorted m(3) by (simp add: sorted_wrt_iff_nth_less)
    qed
    have hi: "vs ! nat m < vs ! i" if "m < int i" "i < length vs" for i
    proof -
      have "nat m < i" using that m(4) by linarith
      then show ?thesis using sorted that(2) by (simp add: sorted_wrt_iff_nth_less)
    qed
    consider "vs ! nat m < value" | "value < vs ! nat m" | "vs ! nat m = value" by linarith
    then show ?thesis
    proof cases
      case 1
      then have neq: "vs ! nat m \<noteq> value" by simp
      have "vs ! i < value" if "int i < m + 1" for i
        using lo [of i] 1 that m(4) by (cases "int i = m") auto
      then have "\<exists>r. intsetSearch_loop is value (m + 1) mx m (vs ! nat m) = Some r \<and> search_post vs value r"
        using m less.prems by (intro less.hyps disjI2 [OF neq]) simp_all
      then show ?thesis using True 1 g by (subst unfold) (simp flip: m_def)
    next
      case 2
      then have neq: "vs ! nat m \<noteq> value" by simp
      have "value < vs ! i" if "m - 1 < int i" "i < length vs" for i
        using hi [of i] 2 that m(4) by (cases "int i = m") auto
      then have "\<exists>r. intsetSearch_loop is value mn (m - 1) m (vs ! nat m) = Some r \<and> search_post vs value r"
        using m less.prems by (intro less.hyps disjI2 [OF neq]) simp_all
      then show ?thesis using True 2 g by (subst unfold) (simp flip: m_def)
    next
      case 3
      then have "value \<in> set vs" using m(3) nth_mem by blast
      then show ?thesis using True 3 g m less.prems(1) by (subst unfold) (simp add: search_post_def flip: m_def)
    qed
  qed
qed

lemma sub32_pred: "0 < n \<Longrightarrow> n < 4294967296 \<Longrightarrow> sub32 n 1 = n - 1"
  by (rule sub32_le) simp_all

lemma as_int_small: "n < 2147483648 \<Longrightarrow> as_int n = int n"
  by (simp add: to_signed_def)

text \<open>The position is the insertion point, which is the index of the value when it is present.\<close>

lemma intsetSearch_correct:
  assumes "intset_inv is"
  shows "intsetSearch is value =
           Some (value \<in> set (intset_elems is), length (takeWhile (\<lambda>x. x < value) (intset_elems is)))"
proof (cases "ilength is = 0")
  case True
  then have "intset_elems is = []" by (simp add: intset_elems_def)
  with True show ?thesis by (simp add: intsetSearch_def)
next
  case False
  define vs where "vs = intset_elems is"
  have len: "length vs = ilength is" "vs \<noteq> []" using False by (auto simp: vs_def simp flip: length_0_conv)
  have layout: "intset_layout is" and sorted: "sorted_wrt (<) vs"
    using assms by (simp_all add: intset_inv_def vs_def)
  have small: "ilength is < 2147483648"
    using assms by (auto simp: intset_inv_def intset_layout_def valid_enc_def)
  have get: "\<And>i. i < length vs \<Longrightarrow> intset_Get is (int i) = Some (vs ! i)"
    using Get_elems [OF layout] len(1) by (simp add: vs_def)
  have mx: "as_int (sub32 (ilength is) 1) = int (ilength is - 1)"
    using False small by (simp add: sub32_pred as_int_small)
  have first: "intset_Get is 0 = Some (vs ! 0)" using get [of 0] False len by simp
  have lasteq: "intset_Get is (int (ilength is - 1)) = Some (vs ! (ilength is - 1))"
    using get [of "ilength is - 1"] False len by simp
  have le_last: "vs ! i \<le> vs ! (ilength is - 1)" if "i < length vs" for i
    using sorted that len by (cases "i = ilength is - 1") (auto simp: sorted_wrt_iff_nth_less intro: less_imp_le)
  have first_le: "vs ! 0 \<le> vs ! i" if "i < length vs" for i
    using sorted that by (cases "i = 0") (auto simp: sorted_wrt_iff_nth_less intro: less_imp_le)
  consider "vs ! (ilength is - 1) < value" | "value < vs ! 0"
    | "value \<le> vs ! (ilength is - 1)" "vs ! 0 \<le> value" by linarith
  then show ?thesis unfolding vs_def [symmetric]
  proof cases
    case 1
    then have "\<forall>x \<in> set vs. x < value" using le_last by (fastforce simp: in_set_conv_nth)
    then have "value \<notin> set vs" "length (takeWhile (\<lambda>x. x < value) vs) = length vs"
      by (auto simp: takeWhile_eq_all_conv [THEN iffD2])
    then show "intsetSearch is value = Some (value \<in> set vs, length (takeWhile (\<lambda>x. x < value) vs))"
      using False 1 mx lasteq len by (simp add: intsetSearch_def)
  next
    case 2
    then have "value \<notin> set vs" using first_le by (fastforce simp: in_set_conv_nth)
    moreover have "\<not> vs ! (ilength is - 1) < value" using 2 first_le [of "ilength is - 1"] False len by simp
    moreover have "takeWhile (\<lambda>x. x < value) vs = []" using 2 len by (cases vs) auto
    ultimately show "intsetSearch is value = Some (value \<in> set vs, length (takeWhile (\<lambda>x. x < value) vs))"
      using False 2 mx lasteq first by (simp add: intsetSearch_def)
  next
    case 3
    have "\<exists>r. intsetSearch_loop is value 0 (int (ilength is - 1)) (- 1) (- 1) = Some r \<and> search_post vs value r"
      by (rule intsetSearch_loop_correct) (use get sorted False len in auto)
    moreover have "nat mid' = length (takeWhile (\<lambda>x. x < value) vs)"
      if "0 \<le> mid'" "mid' < int (length vs)" "vs ! nat mid' = value" for mid'
      by (rule takeWhile_less_eqI [symmetric]) (use sorted that in \<open>auto simp: sorted_wrt_iff_nth_less\<close>)
    ultimately show "intsetSearch is value = Some (value \<in> set vs, length (takeWhile (\<lambda>x. x < value) vs))"
      using False 3 mx lasteq first by (auto simp: intsetSearch_def search_post_def split: if_splits)
  qed
qed


subsection \<open>Insertion and removal\<close>

lemma inv_layout: "intset_inv is \<Longrightarrow> intset_layout is"
  by (simp add: intset_inv_def)

lemma inv_sorted: "intset_inv is \<Longrightarrow> sorted_wrt (<) (intset_elems is)"
  by (simp add: intset_inv_def)

lemma layout_valid_enc: "intset_layout is \<Longrightarrow> valid_enc (encoding is)"
  by (simp add: intset_layout_def)

lemma inv_length_small: "intset_inv is \<Longrightarrow> ilength is < 2147483648"
  by (auto simp: intset_inv_def intset_layout_def valid_enc_def)

lemma insort_takeWhile:
  fixes v :: "'a :: linorder"
  shows "insort v vs = takeWhile (\<lambda>x. x < v) vs @ v # dropWhile (\<lambda>x. x < v) vs"
  by (induction vs) auto

lemma remove1_takeWhile:
  fixes v :: "'a :: linorder"
  assumes "sorted_wrt (<) vs" "v \<in> set vs"
  shows "remove1 v vs = takeWhile (\<lambda>x. x < v) vs @ drop (Suc (length (takeWhile (\<lambda>x. x < v) vs))) vs"
  using assms by (induction vs) auto

lemma take_length_takeWhile [simp]: "take (length (takeWhile P vs)) vs = takeWhile P vs"
  by (metis append_eq_conv_conj takeWhile_dropWhile_id)

lemma drop_length_takeWhile [simp]: "drop (length (takeWhile P vs)) vs = dropWhile P vs"
  by (metis append_eq_conv_conj takeWhile_dropWhile_id)

lemma intsetResize_Some:
  assumes "valid_enc (encoding is)" "len \<le> 4294967296"
  shows "intsetResize is len = Some (is\<lparr>contents := realloc_buf (contents is) (len * encoding is)\<rparr>)"
proof -
  have "encoding is \<le> 8" using assms(1) by (auto simp: valid_enc_def)
  then have "len * encoding is \<le> 4294967296 * 8" using assms(2) by (intro mult_le_mono)
  then show ?thesis by (simp add: intsetResize_def)
qed

lemma intsetMoveTail_memmove:
  assumes "valid_enc (encoding is)" "from \<le> ilength is" "ilength is * encoding is < 4294967296"
  shows "intsetMoveTail is from to =
           map_option (\<lambda>c. is\<lparr>contents := c\<rparr>)
             (memmove (contents is) (to * encoding is) (from * encoding is)
               ((ilength is - from) * encoding is))"
proof -
  have "(ilength is - from) * encoding is \<le> ilength is * encoding is" by (intro mult_le_mono1) simp
  then have "(ilength is - from) * encoding is < 4294967296" using assms(3) by linarith
  moreover have "ilength is < 4294967296" using assms(1,3) by (auto simp: valid_enc_def)
  moreover have "sub32 (ilength is) from = ilength is - from" using assms(2) calculation(2) by simp
  ultimately show ?thesis
    using assms(1) by (auto simp: intsetMoveTail_def valid_enc_def map_conv_bind_option comp_def)
qed

lemma le_enc_0: "le_enc w 0 = replicate w 0"
proof -
  have "le_bytes w 0 = replicate w 0" by (induction w) simp_all
  then show ?thesis by (simp add: le_enc_def of_signed_def)
qed

lemma realloc_grow: "realloc_buf (recs (le_enc w) vs) (Suc (length vs) * w) = recs (le_enc w) (vs @ [0])"
  by (simp add: realloc_buf_def le_enc_0 le_rec.length_recs)

lemma realloc_shrink: "n \<le> length vs \<Longrightarrow> realloc_buf (recs (le_enc w) vs) (n * w) = recs (le_enc w) (take n vs)"
  by (simp add: realloc_buf_def le_rec.length_recs le_rec.take_recs)

text \<open>The insertion of \<open>intsetAdd\<close> after an unsuccessful search.\<close>

lemma insert_at_recs:
  fixes v :: int
  assumes "p \<le> length vs"
  shows "\<exists>b'. (if p < length vs
               then memmove (recs (le_enc w) (vs @ [0])) (Suc p * w) (p * w) ((length vs - p) * w)
               else Some (recs (le_enc w) (vs @ [0]))) = Some b' \<and>
           wr_range b' (p * w) (le_enc w v) = Some (recs (le_enc w) (take p vs @ v # drop p vs))"
proof (cases "p < length vs")
  case True
  let ?us = "take (Suc p) vs @ drop p vs"
  have us: "take (Suc p) (vs @ [0]) @ take (length vs - p) (drop p (vs @ [0])) @
              drop (Suc p + (length vs - p)) (vs @ [0]) = ?us"
    using True by simp
  have "memmove (recs (le_enc w) (vs @ [0])) (Suc p * w) (p * w) ((length vs - p) * w) =
          Some (recs (le_enc w) ?us)"
    using le_rec.memmove_recs [of "Suc p" "length vs - p" "vs @ [0]" p w] True unfolding us by simp
  moreover have "?us[p := v] = take p vs @ v # drop p vs"
    using True by (simp add: take_Suc_conv_app_nth list_update_append)
  then have "wr_range (recs (le_enc w) ?us) (p * w) (le_enc w v) =
          Some (recs (le_enc w) (take p vs @ v # drop p vs))"
    using le_rec.wr_range_recs [of p ?us w "[]" v] True by simp
  ultimately show ?thesis using True by auto
next
  case False
  then have "p = length vs" using assms(1) by simp
  then show ?thesis
    using False le_rec.wr_range_recs [of p "vs @ [0]" w "[]" v] by simp
qed

lemma layout_update:
  assumes "valid_enc (encoding is)" "list_all (le_fits (encoding is)) vs"
    "contents is = recs (le_enc (encoding is)) vs" "ilength is = length vs"
    "sorted_wrt (<) vs" "length vs * encoding is < 4294967296"
  shows "intset_inv is \<and> intset_elems is = vs"
proof -
  have "intset_layout is" "intset_elems is = vs"
    using layoutI [of "is" vs] assms(1-4) by blast+
  with assms(4-6) show ?thesis by (simp add: intset_inv_def)
qed

lemma sorted_insort_strict:
  fixes v :: "'a :: linorder"
  assumes "sorted_wrt (<) vs" "v \<notin> set vs"
  shows "sorted_wrt (<) (insort v vs)"
  using assms by (simp add: strict_sorted_iff sorted_insort distinct_insort)

lemma list_all_insort: "list_all P (insort v vs) \<longleftrightarrow> P v \<and> list_all P vs"
  by (auto simp: list_all_iff set_insort_key)

text \<open>\<open>intsetAdd\<close> when the value fits the current encoding.\<close>

lemma intsetAdd_fits:
  assumes inv: "intset_inv is" and v: "is_int64 v" "intset_ValueEncoding v \<le> encoding is"
    and room: "Suc (ilength is) * encoding is < 4294967296"
    and new: "v \<notin> set (intset_elems is)"
  shows "\<exists>is'. intsetAdd is v = Some (is', True) \<and> intset_inv is' \<and>
           intset_elems is' = insort v (intset_elems is) \<and> encoding is' = encoding is"
proof -
  define vs where "vs = intset_elems is"
  define w where "w = encoding is"
  define p where "p = length (takeWhile (\<lambda>x. x < v) vs)"
  have len: "length vs = ilength is" by (simp add: vs_def)
  have p: "p \<le> length vs" by (simp add: p_def length_takeWhile_le)
  have valid: "valid_enc w" using inv by (simp add: w_def inv_layout layout_valid_enc)
  have small: "ilength is < 2147483647" using room valid by (auto simp: valid_enc_def w_def)
  have c: "contents is = recs (le_enc w) vs"
    using contents_elems inv by (simp add: inv_layout vs_def w_def)
  let ?is1 = "is\<lparr>contents := recs (le_enc w) (vs @ [0])\<rparr>"
  let ?is2 = "is\<lparr>contents := recs (le_enc w) (insort v vs), ilength := Suc (ilength is)\<rparr>"
  have search: "intsetSearch is v = Some (False, p)"
    using intsetSearch_correct [OF inv] new by (simp add: p_def vs_def)
  have resize: "intsetResize is ((ilength is + 1) mod 4294967296) = Some ?is1"
    using intsetResize_Some [of "is" "Suc (ilength is)"] valid small realloc_grow [of w vs]
    by (simp add: c len w_def)
  have ins: "take p vs @ v # drop p vs = insort v vs" by (simp add: p_def insort_takeWhile)
  from insert_at_recs [OF p, of w v] obtain b' where b':
    "(if p < length vs then memmove (recs (le_enc w) (vs @ [0])) (Suc p * w) (p * w) ((length vs - p) * w)
      else Some (recs (le_enc w) (vs @ [0]))) = Some b'"
    "wr_range b' (p * w) (le_enc w v) = Some (recs (le_enc w) (insort v vs))"
    unfolding ins by blast
  have move: "(if p < ilength is then intsetMoveTail ?is1 p (p + 1) else Some ?is1) = Some (is\<lparr>contents := b'\<rparr>)"
    using b'(1) intsetMoveTail_memmove [of ?is1 p "Suc p"] valid room p
    by (cases "p < length vs") (simp_all add: len w_def)
  have store: "intset_Set (is\<lparr>contents := b'\<rparr>) (as_int p) v = Some (is\<lparr>contents := recs (le_enc w) (insort v vs)\<rparr>)"
    using Set_wr_range [of "is\<lparr>contents := b'\<rparr>" p v] valid b'(2) p small
    by (simp add: w_def as_int_small len)
  have "intsetAdd is v = Some (?is2, True)"
    using v(2) search resize move store small by (cases "p < ilength is") (simp_all add: intsetAdd_def)
  moreover have "intset_inv ?is2 \<and> intset_elems ?is2 = insort v vs"
  proof (rule layout_update)
    show "list_all (le_fits (encoding ?is2)) (insort v vs)"
      using fits_elems [of "is"] inv v valid le_fits_iff_ValueEncoding [of w v]
      by (simp add: list_all_insort inv_layout vs_def w_def)
    show "sorted_wrt (<) (insort v vs)"
      using inv new by (simp add: sorted_insort_strict inv_sorted vs_def)
  qed (use valid len room in \<open>simp_all add: w_def\<close>)
  ultimately show ?thesis by (auto simp: vs_def)
qed

text \<open>Removal of a member, and the two cases in which nothing is removed.\<close>

lemma intsetRemove_found:
  assumes inv: "intset_inv is" and v: "v \<in> set (intset_elems is)"
  shows "\<exists>is'. intsetRemove is v = Some (is', True) \<and> intset_inv is' \<and>
           intset_elems is' = remove1 v (intset_elems is) \<and> encoding is' = encoding is"
proof -
  define vs where "vs = intset_elems is"
  define w where "w = encoding is"
  define p where "p = length (takeWhile (\<lambda>x. x < v) vs)"
  have len: "length vs = ilength is" by (simp add: vs_def)
  have rem: "take p vs @ drop (Suc p) vs = remove1 v vs"
    using inv v by (simp add: p_def remove1_takeWhile inv_sorted vs_def)
  have "length (remove1 v vs) = length vs - 1" "0 < length vs"
    using v length_pos_if_in_set [of v vs] by (simp_all add: length_remove1 vs_def)
  moreover have "length (remove1 v vs) = length vs" if "\<not> p < length vs"
    using that by (simp flip: rem)
  ultimately have p: "p < length vs" by linarith
  have valid: "valid_enc w" using inv by (simp add: w_def inv_layout layout_valid_enc)
  have small: "ilength is < 2147483648" using inv by (rule inv_length_small)
  have bytes: "ilength is * w < 4294967296" using inv by (simp add: intset_inv_def w_def)
  have c: "contents is = recs (le_enc w) vs"
    using contents_elems inv by (simp add: inv_layout vs_def w_def)
  have fits: "list_all (le_fits w) vs" using fits_elems [of "is"] inv by (simp add: inv_layout vs_def w_def)
  have venc: "intset_ValueEncoding v \<le> encoding is"
  proof -
    have "le_fits w v" using fits v by (simp add: list_all_iff vs_def)
    with valid show ?thesis using le_fits_iff_ValueEncoding [of w v] le_fits_int64 by (simp add: w_def)
  qed
  have search: "intsetSearch is v = Some (True, p)"
    using intsetSearch_correct [OF inv] v by (simp add: p_def vs_def)
  have len1: "sub32 (ilength is) 1 = ilength is - 1" using p small by (simp add: sub32_pred len)
  let ?us = "remove1 v vs @ drop (ilength is - 1) vs"
  have move: "(if p < ilength is - 1 then intsetMoveTail is (p + 1) p else Some is) =
                Some (is\<lparr>contents := recs (le_enc w) ?us\<rparr>)"
  proof (cases "p < ilength is - 1")
    case True
    have "take p vs @ take (length vs - Suc p) (drop (Suc p) vs) @ drop (p + (length vs - Suc p)) vs = ?us"
      using p by (simp add: len flip: rem)
    then have "memmove (recs (le_enc w) vs) (p * w) (Suc p * w) ((length vs - Suc p) * w) = Some (recs (le_enc w) ?us)"
      using le_rec.memmove_recs [of p "length vs - Suc p" vs "Suc p" w] p by simp
    then show ?thesis
      using True intsetMoveTail_memmove [of "is" "Suc p" p] valid bytes p by (simp add: c len w_def)
  next
    case False
    then have "p = length vs - 1" using p len by simp
    then have "?us = vs" using p len by (simp flip: rem)
    then show ?thesis using False by (simp add: flip: c)
  qed
  have shrink: "realloc_buf (recs (le_enc w) ?us) ((ilength is - 1) * w) = recs (le_enc w) (remove1 v vs)"
    using realloc_shrink [of "ilength is - 1" ?us w] v len by (simp add: length_remove1 vs_def)
  let ?is2 = "is\<lparr>contents := recs (le_enc w) (remove1 v vs), ilength := ilength is - 1\<rparr>"
  have "intsetRemove is v = Some (?is2, True)"
    using venc search move len1 shrink small valid
      intsetResize_Some [of "is\<lparr>contents := recs (le_enc w) ?us\<rparr>" "ilength is - 1"]
    by (cases "p < ilength is - 1") (simp_all add: intsetRemove_def w_def)
  moreover have "intset_inv ?is2 \<and> intset_elems ?is2 = remove1 v vs"
  proof (rule layout_update)
    show "list_all (le_fits (encoding ?is2)) (remove1 v vs)"
      using fits notin_set_remove1 [of _ vs v] by (auto simp: list_all_iff w_def)
    show "sorted_wrt (<) (remove1 v vs)"
      using inv_sorted [OF inv] by (simp add: strict_sorted_iff sorted_remove1 distinct_remove1 vs_def)
    have "length (remove1 v vs) * w \<le> ilength is * w"
      by (intro mult_le_mono1) (simp add: length_remove1 len)
    also note bytes
    finally show "length (remove1 v vs) * encoding ?is2 < 4294967296" by (simp add: w_def)
  qed (use valid v len in \<open>simp_all add: w_def length_remove1 vs_def\<close>)
  ultimately show ?thesis by (auto simp: vs_def)
qed

lemma intsetRemove_absent:
  assumes "intset_inv is" "v \<notin> set (intset_elems is)"
  shows "intsetRemove is v = Some (is, False)"
  using intsetSearch_correct [OF assms(1)] assms(2) by (simp add: intsetRemove_def)

lemma member_fits:
  assumes "intset_inv is" "v \<in> set (intset_elems is)"
  shows "intset_ValueEncoding v \<le> encoding is" and "is_int64 v"
proof -
  have "le_fits (encoding is) v"
    using assms fits_elems [OF inv_layout] by (auto simp: list_all_iff)
  moreover have "valid_enc (encoding is)" using assms(1) by (simp add: inv_layout layout_valid_enc)
  ultimately show "is_int64 v" "intset_ValueEncoding v \<le> encoding is"
    using le_fits_iff_ValueEncoding le_fits_int64 by blast+
qed


subsection \<open>Upgrade\<close>

text \<open>
  The loop runs back to front. After it has treated positions \<open>k\<close> and above, the block is a
  prefix whose first \<open>k\<close> old records are intact, followed by the converted records.
\<close>

lemma intsetUpgrade_loop_correct:
  assumes "valid_enc w1" "valid_enc w2" "w1 \<le> w2" "encoding is = w2"
    and "k \<le> length vs" "list_all (le_fits w1) vs"
    and "contents is = pre @ recs (le_enc w2) (drop k vs) @ tail"
    and "length pre = (k + p) * w2" "take (k * w1) pre = recs (le_enc w1) (take k vs)"
  shows "\<exists>pre'. intsetUpgrade_loop k p w1 is = Some (is\<lparr>contents := pre' @ recs (le_enc w2) vs @ tail\<rparr>) \<and>
           length pre' = p * w2"
  using assms(4-)
proof (induction k arbitrary: "is" pre)
  case 0
  then show ?case by (intro exI [of _ pre]) simp
next
  case (Suc k)
  let ?pre = "take ((k + p) * w2) pre"
  have w: "k * w1 \<le> (k + p) * w2" using assms(3) by (intro mult_le_mono) simp_all
  have split1: "pre = recs (le_enc w1) (take (Suc k) vs) @ drop (Suc k * w1) pre"
    using Suc.prems(6) append_take_drop_id [of "Suc k * w1" pre] by simp
  have get: "intset_GetEncoded is (int k) w1 = Some (vs ! k)"
    using GetEncoded_recs [OF assms(1), of "is" "take (Suc k) vs"
        "drop (Suc k * w1) pre @ recs (le_enc w2) (drop (Suc k) vs) @ tail" k] Suc.prems(2-4) split1
    by (simp add: list_all_length)
  have junk: "pre = ?pre @ drop ((k + p) * w2) pre" "length (drop ((k + p) * w2) pre) = w2" "length ?pre = (k + p) * w2"
    using Suc.prems(5) by (simp_all add: algebra_simps)
  have "wr_range (contents is) ((k + p) * w2) (le_enc w2 (vs ! k)) =
          Some (?pre @ le_enc w2 (vs ! k) @ recs (le_enc w2) (drop (Suc k) vs) @ tail)"
    using wr_range_append [of "(k + p) * w2" ?pre "le_enc w2 (vs ! k)" "drop ((k + p) * w2) pre"
        "recs (le_enc w2) (drop (Suc k) vs) @ tail"] junk Suc.prems(4)
    by (metis append_assoc le_rec.length_enc)
  then have set: "intset_Set is (int (k + p)) (vs ! k) =
      Some (is\<lparr>contents := ?pre @ recs (le_enc w2) (drop k vs) @ tail\<rparr>)"
    using Set_wr_range [of "is" "k + p" "vs ! k"] assms(2) Suc.prems(1,2)
    by (simp flip: Cons_nth_drop_Suc)
  have "take (k * w1) ?pre = take (k * w1) (take (Suc k * w1) pre)" using w by simp
  also have "\<dots> = take (k * w1) (recs (le_enc w1) (take (Suc k) vs))" by (simp only: Suc.prems(6))
  also have "\<dots> = recs (le_enc w1) (take k vs)" by (simp add: le_rec.take_recs)
  finally show ?case using Suc.IH [of "is\<lparr>contents := ?pre @ recs (le_enc w2) (drop k vs) @ tail\<rparr>" ?pre]
      Suc.prems(1-3) junk(3) get set by simp
qed

lemma insort_snoc: "(\<forall>x \<in> set vs. x < v) \<Longrightarrow> insort v vs = vs @ [v :: 'a :: linorder]"
  by (induction vs) auto

text \<open>
  The invariant value ranges make an upgrade an insertion at one end: the new value lies
  outside the range of the old encoding.
\<close>

lemma upgrade_insort:
  assumes "sorted_wrt (<) vs" "list_all (le_fits w) vs" "valid_enc w" "is_int64 v"
    "w < intset_ValueEncoding v"
  shows "insort v vs = (if v < 0 then v # vs else vs @ [v])" "v \<notin> set vs"
proof -
  have nf: "\<not> le_fits w v" using le_fits_iff_ValueEncoding assms(3-5) by auto
  then show "v \<notin> set vs" using assms(2) by (auto simp: list_all_iff)
  have "(if v < 0 then v < x else x < v)" if "x \<in> set vs" for x
  proof -
    have "le_fits w x" using assms(2) that by (simp add: list_all_iff)
    with nf show ?thesis unfolding le_fits_def by (auto simp: not_le not_less)
  qed
  then show "insort v vs = (if v < 0 then v # vs else vs @ [v])"
    by (auto intro!: insort_is_Cons insort_snoc intro: less_imp_le)
qed

lemma upgrade_convert:
  assumes "valid_enc w1" "valid_enc w2" "w1 \<le> w2" "encoding is = w2" "list_all (le_fits w1) vs" "p \<le> 1"
    and b: "contents is = realloc_buf (recs (le_enc w1) vs) (Suc (length vs) * w2)"
  shows "\<exists>pre tail. intsetUpgrade_loop (length vs) p w1 is =
             Some (is\<lparr>contents := pre @ recs (le_enc w2) vs @ tail\<rparr>) \<and>
           length pre = p * w2 \<and> length tail = (1 - p) * w2"
proof -
  define b where "b = contents is"
  have le: "length vs * w1 \<le> Suc (length vs) * w2" "length vs * w1 \<le> (length vs + p) * w2"
    using assms(3) by (intro mult_le_mono; simp)+
  have lenb: "length b = Suc (length vs) * w2" by (simp add: b_def b)
  have le2: "(length vs + p) * w2 \<le> length b" unfolding lenb using assms(6) by (intro mult_le_mono1) simp
  have pre: "take (length vs * w1) b = recs (le_enc w1) (take (length vs) vs)"
    using le(1) by (simp add: b b_def realloc_buf_def le_rec.length_recs)
  then have "take (length vs * w1) (take ((length vs + p) * w2) b) = recs (le_enc w1) (take (length vs) vs)"
    using le(2) by simp
  then have "\<exists>pre. intsetUpgrade_loop (length vs) p w1 is =
      Some (is\<lparr>contents := pre @ recs (le_enc w2) vs @ drop ((length vs + p) * w2) b\<rparr>) \<and> length pre = p * w2"
    using assms le2 b_def
    by (intro intsetUpgrade_loop_correct [where pre = "take ((length vs + p) * w2) b"]) simp_all
  moreover have "length (drop ((length vs + p) * w2) b) = (1 - p) * w2"
  proof -
    have "length (drop ((length vs + p) * w2) b) = (Suc (length vs) - (length vs + p)) * w2"
      by (simp only: length_drop lenb diff_mult_distrib)
    then show ?thesis by simp
  qed
  ultimately show ?thesis by blast
qed

lemma upgrade_store:
  assumes "valid_enc (encoding is)" "length pre = p * encoding is" "length tail = (1 - p) * encoding is"
    and "contents is = pre @ recs (le_enc (encoding is)) vs @ tail" "p = (if v < 0 then 1 else 0)"
  shows "intset_Set is (if v < 0 then 0 else int (length vs)) v =
           Some (is\<lparr>contents := recs (le_enc (encoding is)) (if v < 0 then v # vs else vs @ [v])\<rparr>)"
proof (cases "v < 0")
  case True
  then show ?thesis
    using Set_wr_range [of "is" 0 v] assms
      wr_range_append0 [of "le_enc (encoding is) v" pre "recs (le_enc (encoding is)) vs"]
    by (simp add: le_rec.length_enc)
next
  case False
  then show ?thesis
    using Set_wr_range [of "is" "length vs" v] assms
      le_rec.wr_range_recs_end [of tail "encoding is" vs "[]" v]
    by simp
qed

lemma intsetUpgradeAndAdd_correct:
  assumes inv: "intset_inv is" and v: "is_int64 v" "encoding is < intset_ValueEncoding v"
    and room: "Suc (ilength is) * 8 < 4294967296"
  shows "\<exists>is'. intsetUpgradeAndAdd is v = Some is' \<and> intset_inv is' \<and>
           intset_elems is' = insort v (intset_elems is) \<and> encoding is' = intset_ValueEncoding v"
proof -
  define vs where "vs = intset_elems is"
  define w1 where "w1 = encoding is"
  define w2 where "w2 = intset_ValueEncoding v"
  define p :: nat where "p = (if v < 0 then 1 else 0)"
  have p1: "p \<le> 1" by (simp add: p_def)
  have len: "ilength is = length vs" by (simp add: vs_def)
  have valid: "valid_enc w1" "valid_enc w2" using inv by (simp_all add: w1_def w2_def inv_layout layout_valid_enc)
  have w: "w1 \<le> w2" "w2 \<le> 8" "w1 mod 256 = w1"
    using v(2) valid by (auto simp: w1_def w2_def valid_enc_def)
  have sorted: "sorted_wrt (<) vs" using inv by (simp add: inv_sorted vs_def)
  have small: "length vs < 2147483647" "as_int (length vs) = int (length vs)"
    using room as_int_small [of "ilength is"] len by simp_all
  have c: "contents is = recs (le_enc w1) vs"
    using contents_elems inv by (simp add: inv_layout vs_def w1_def)
  have fits: "list_all (le_fits w1) vs" using fits_elems [of "is"] inv by (simp add: inv_layout vs_def w1_def)
  note ins = upgrade_insort [OF sorted fits valid(1) v(1) v(2) [folded w1_def]]
  let ?is1 = "is\<lparr>encoding := w2, contents := realloc_buf (recs (le_enc w1) vs) (Suc (length vs) * w2)\<rparr>"
  have resize: "intsetResize (is\<lparr>encoding := w2\<rparr>) (Suc (length vs) mod 4294967296) = Some ?is1"
    using intsetResize_Some [of "is\<lparr>encoding := w2\<rparr>" "Suc (length vs)"] valid small by (simp add: c)
  obtain pre tail where conv: "intsetUpgrade_loop (length vs) p w1 ?is1 =
        Some (?is1\<lparr>contents := pre @ recs (le_enc w2) vs @ tail\<rparr>)"
    and lens: "length pre = p * w2" "length tail = (1 - p) * w2"
    using upgrade_convert [of w1 w2 ?is1 vs p] valid w fits p1 by auto
  let ?is3 = "is\<lparr>encoding := w2, contents := recs (le_enc w2) (insort v vs)\<rparr>"
  have store: "intset_Set (?is1\<lparr>contents := pre @ recs (le_enc w2) vs @ tail\<rparr>) (if v < 0 then 0 else int (length vs)) v =
      Some ?is3"
    using upgrade_store [of "?is1\<lparr>contents := pre @ recs (le_enc w2) vs @ tail\<rparr>" pre p tail vs v] valid lens ins(1)
    by (simp add: p_def)
  have "intsetUpgradeAndAdd is v = Some (?is3\<lparr>ilength := Suc (length vs)\<rparr>)"
    using resize conv store small w(3) len
    by (simp add: intsetUpgradeAndAdd_def p_def flip: w1_def w2_def split: if_splits)
  moreover have "intset_inv (?is3\<lparr>ilength := Suc (length vs)\<rparr>) \<and>
      intset_elems (?is3\<lparr>ilength := Suc (length vs)\<rparr>) = insort v vs"
  proof (rule layout_update)
    have "list_all (le_fits w2) vs" using fits w(1) le_fits_mono by (auto simp: list_all_iff)
    moreover have "le_fits w2 v" using v(1) le_fits_iff_ValueEncoding valid(2) by (simp add: w2_def)
    ultimately show "list_all (le_fits (encoding (?is3\<lparr>ilength := Suc (length vs)\<rparr>))) (insort v vs)"
      by (simp add: list_all_insort)
    show "sorted_wrt (<) (insort v vs)" using sorted ins(2) by (rule sorted_insort_strict)
    have "Suc (length vs) * w2 \<le> Suc (length vs) * 8" using w(2) by (intro mult_le_mono) simp_all
    also have "\<dots> < 4294967296" using room by (simp only: len)
    finally show "length (insort v vs) * encoding (?is3\<lparr>ilength := Suc (length vs)\<rparr>) < 4294967296"
      by simp
  qed (use valid in simp_all)
  ultimately show ?thesis by (auto simp: vs_def w2_def)
qed


subsection \<open>The operations as set operations\<close>

lemma intsetAdd_present:
  assumes "intset_inv is" "v \<in> set (intset_elems is)"
  shows "intsetAdd is v = Some (is, False)"
  using intsetSearch_correct [OF assms(1)] assms(2) member_fits [OF assms] by (simp add: intsetAdd_def)

lemma intsetAdd_absent:
  assumes inv: "intset_inv is" and v: "is_int64 v" and room: "Suc (ilength is) * 8 < 4294967296"
    and new: "v \<notin> set (intset_elems is)"
  shows "\<exists>is'. intsetAdd is v = Some (is', True) \<and> intset_inv is' \<and>
           intset_elems is' = insort v (intset_elems is) \<and>
           encoding is' = max (encoding is) (intset_ValueEncoding v)"
proof (cases "encoding is < intset_ValueEncoding v")
  case True
  then show ?thesis
    using intsetUpgradeAndAdd_correct [OF inv v True room] by (auto simp: intsetAdd_def)
next
  case False
  have "encoding is \<le> 8" using layout_valid_enc [OF inv_layout [OF inv]] by (auto simp: valid_enc_def)
  then have "Suc (ilength is) * encoding is \<le> Suc (ilength is) * 8" by (intro mult_le_mono) simp_all
  with room have "Suc (ilength is) * encoding is < 4294967296" by linarith
  with False show ?thesis using intsetAdd_fits [OF inv v _ _ new] by fastforce
qed

lemma intsetFind_correct:
  assumes "intset_inv is"
  shows "intsetFind is v = Some (v \<in> set (intset_elems is))"
  using intsetSearch_correct [OF assms, of v] member_fits [OF assms, of v] by (auto simp: intsetFind_def)

lemma intset_inv_New: "intset_inv intsetNew" "intset_elems intsetNew = []"
  by (simp_all add: intset_inv_def intset_layout_def valid_enc_def intsetNew_def intset_elems_def)

lemma card_elems: "intset_inv is \<Longrightarrow> card (set (intset_elems is)) = ilength is"
  by (simp add: distinct_card inv_sorted strict_sorted_iff [THEN iffD1])

interpretation intset_set: bounded_set intsetAdd intsetRemove intsetFind intset_inv
    "\<lambda>is. set (intset_elems is)" is_int64 536870911
proof
  fix "is" x assume a: "intset_inv is" "is_int64 x" "card (set (intset_elems is)) < 536870911"
  then have room: "Suc (ilength is) * 8 < 4294967296" by (simp add: card_elems)
  show "\<exists>is'. intsetAdd is x = Some (is', x \<notin> set (intset_elems is)) \<and> intset_inv is' \<and>
          set (intset_elems is') = insert x (set (intset_elems is))"
  proof (cases "x \<in> set (intset_elems is)")
    case True
    then show ?thesis using a(1) intsetAdd_present by (auto simp: insert_absorb)
  next
    case False
    then show ?thesis using intsetAdd_absent [OF a(1,2) room] by (auto simp: set_insort_key)
  qed
next
  fix "is" x assume a: "intset_inv is" "is_int64 x"
  show "\<exists>is'. intsetRemove is x = Some (is', x \<in> set (intset_elems is)) \<and> intset_inv is' \<and>
          set (intset_elems is') = set (intset_elems is) - {x}"
  proof (cases "x \<in> set (intset_elems is)")
    case True
    moreover have "distinct (intset_elems is)"
      using inv_sorted [OF a(1)] by (simp add: strict_sorted_iff)
    ultimately show ?thesis using intsetRemove_found [OF a(1) True] by auto
  next
    case False
    then show ?thesis using a(1) intsetRemove_absent by auto
  qed
qed (simp_all add: intsetFind_correct)


subsection \<open>Integrity check of a serialized set\<close>

lemma intsetValidate_loop_correct:
  assumes get: "\<And>i. i < count \<Longrightarrow> intset_Get is (int i) = Some (vs ! i)"
    and "length vs = count" "count < 2147483648" "i \<le> count" "0 < i"
  shows "intsetValidate_loop is i count (vs ! (i - 1)) = Some (\<forall>j. i \<le> j \<longrightarrow> j < count \<longrightarrow> vs ! (j - 1) < vs ! j)"
  using assms(4,5)
proof (induction "count - i" arbitrary: i)
  case 0
  then show ?case by (subst intsetValidate_loop.simps) simp
next
  case (Suc n)
  then have i: "i < count" by simp
  then have get_i: "intset_Get is (as_int i) = Some (vs ! i)"
    using get [of i] assms(3) by (simp add: as_int_small)
  have split: "(\<forall>j. i \<le> j \<longrightarrow> j < count \<longrightarrow> vs ! (j - 1) < vs ! j) \<longleftrightarrow>
      vs ! (i - 1) < vs ! i \<and> (\<forall>j. i + 1 \<le> j \<longrightarrow> j < count \<longrightarrow> vs ! (j - 1) < vs ! j)"
    using i by (auto simp: le_eq_less_or_eq [of i] Suc_le_eq)
  have "intsetValidate_loop is (i + 1) count (vs ! i) = Some (\<forall>j. i + 1 \<le> j \<longrightarrow> j < count \<longrightarrow> vs ! (j - 1) < vs ! j)"
    using Suc.hyps(1) [of "i + 1"] Suc.hyps(2) i by simp
  then show ?case
    unfolding split using i get_i by (subst intsetValidate_loop.simps) (simp add: not_less [symmetric])
qed

lemma sorted_wrt_adjacent:
  fixes vs :: "'a :: order list"
  shows "sorted_wrt (<) vs \<longleftrightarrow> (\<forall>j. 1 \<le> j \<longrightarrow> j < length vs \<longrightarrow> vs ! (j - 1) < vs ! j)"
proof -
  have "(\<forall>i. Suc i < length vs \<longrightarrow> vs ! i < vs ! Suc i) \<longleftrightarrow>
        (\<forall>j. 1 \<le> j \<longrightarrow> j < length vs \<longrightarrow> vs ! (j - 1) < vs ! j)"
    by (metis One_nat_def Suc_le_D Suc_le_mono diff_Suc_1 le0)
  then show ?thesis by (simp add: sorted_wrt_iff_nth_Suc_transp)
qed

lemma intsetValidateIntegrity_correct:
  assumes "length p = sz" "sz < 4294967296"
  shows "intsetValidateIntegrity p sz True =
           Some (case intset_of_blob p of None \<Rightarrow> False | Some is \<Rightarrow> intset_inv is \<and> ilength is \<noteq> 0)"
proof (cases "8 \<le> sz")
  case False
  then have "intset_of_blob p = None" using assms(1) by (auto simp: intset_of_blob_def rd_range_def)
  then show ?thesis using False by (simp add: intsetValidateIntegrity_def)
next
  case True
  then obtain "is" where blob: "intset_of_blob p = Some is" and c: "length (contents is) = sz - 8"
    using assms(1) by (auto simp: intset_of_blob_def rd_range_def)
  show ?thesis
  proof (cases "valid_enc (encoding is) \<and> 8 + ilength is * encoding is = sz \<and> ilength is \<noteq> 0")
    case False
    then show ?thesis using blob True c
      by (auto simp: intsetValidateIntegrity_def valid_enc_def intset_inv_def intset_layout_def)
  next
    case ok: True
    then have layout: "intset_layout is" using c unfolding intset_layout_def by linarith
    have small: "ilength is < 2147483648" using ok assms(2) by (auto simp: valid_enc_def)
    have get: "\<And>i. i < ilength is \<Longrightarrow> intset_Get is (int i) = Some (intset_elems is ! i)"
      using Get_elems [OF layout] .
    have "intsetValidate_loop is 1 (ilength is) (intset_elems is ! (1 - 1)) =
        Some (sorted_wrt (<) (intset_elems is))"
      unfolding sorted_wrt_adjacent [of "intset_elems is"] length_intset_elems
      by (rule intsetValidate_loop_correct) (use ok small get in auto)
    moreover have "intset_Get is 0 = Some (intset_elems is ! 0)" using get [of 0] ok by simp
    ultimately show ?thesis
      using blob True ok layout assms(2) by (auto simp: intsetValidateIntegrity_def valid_enc_def intset_inv_def)
  qed
qed

text \<open>The memory image of a set, which is also its serialized form.\<close>

definition intset_blob :: "intset \<Rightarrow> buf" where
  "intset_blob is = le_bytes 4 (encoding is) @ le_bytes 4 (ilength is) @ contents is"

lemma intset_of_blob_blob:
  assumes "intset_inv is"
  shows "intset_of_blob (intset_blob is) = Some is" "length (intset_blob is) = intsetBlobLen is"
proof -
  have "ilength is < 4294967296" "encoding is < 4294967296"
    using inv_length_small [OF assms] layout_valid_enc [OF inv_layout [OF assms]] by (auto simp: valid_enc_def)
  then show "intset_of_blob (intset_blob is) = Some is"
    by (simp add: intset_of_blob_def intset_blob_def rd_range_def)
  show "length (intset_blob is) = intsetBlobLen is"
    using assms by (simp add: intset_blob_def intsetBlobLen_def intset_inv_def intset_layout_def)
qed

text \<open>Two concrete sets for the examples below.\<close>

definition intset_1_5 :: intset where
  "intset_1_5 = \<lparr>encoding = 2, ilength = 2, contents = [1, 0, 5, 0]\<rparr>"

definition intset_5_5 :: intset where
  "intset_5_5 = \<lparr>encoding = 2, ilength = 2, contents = [5, 0, 5, 0]\<rparr>"

lemma intset_examples:
  "intset_inv intset_1_5" "intset_elems intset_1_5 = [1, 5]" "\<not> intset_inv intset_5_5"
  by (simp_all add: intset_1_5_def intset_5_5_def intset_inv_def intset_layout_def valid_enc_def
      intset_elems_def le_dec_def to_signed_def upt_rec)

lemma takeWhile_less_card:
  fixes vs :: "'a :: linorder list"
  assumes "sorted_wrt (<) vs"
  shows "length (takeWhile (\<lambda>x. x < v) vs) = card {x \<in> set vs. x < v}"
proof -
  have "takeWhile (\<lambda>x. x < v) vs = filter (\<lambda>x. x < v) vs"
    using assms by (induction vs) (auto intro!: filter_False [symmetric] dest: less_trans)
  moreover have "distinct vs" using assms by (simp add: strict_sorted_iff)
  ultimately show ?thesis by (simp add: distinct_card flip: set_filter)
qed

lemma sorted_hd_last:
  fixes vs :: "'a :: linorder list"
  assumes "sorted_wrt (<) vs" "vs \<noteq> []"
  shows "vs ! 0 = Min (set vs)" "vs ! (length vs - 1) = Max (set vs)"
proof -
  have s: "sorted vs" using assms(1) by (simp add: strict_sorted_iff)
  have "vs ! 0 \<le> x \<and> x \<le> vs ! (length vs - 1)" if "x \<in> set vs" for x
    using that s assms(2) by (auto simp: in_set_conv_nth intro!: sorted_nth_mono)
  then show "vs ! 0 = Min (set vs)" "vs ! (length vs - 1) = Max (set vs)"
    using assms(2) by (auto intro!: Min_eqI [symmetric] Max_eqI [symmetric] nth_mem)
qed


subsection \<open>Properties\<close>

text \<open>
  C14. Binary search on a well-formed set never faults: it answers membership, and the position
  it stores is the number of smaller elements, i.e. the index of the value if present and its
  insertion point otherwise.
\<close>

theorem intsetSearch_position:
  assumes "intset_inv is"
  shows "intsetSearch is v =
           Some (v \<in> set (intset_elems is), card {x \<in> set (intset_elems is). x < v})"
  using intsetSearch_correct [OF assms] by (simp add: takeWhile_less_card inv_sorted assms)

theorem intsetSearch_position_witness:
  "intsetSearch intset_1_5 3 = Some (False, card {x \<in> {1, 5}. x < (3 :: int)})"
  using intsetSearch_position [of intset_1_5 3] by (simp add: intset_examples)

text \<open>
  C12. Every sequence of \<open>intsetAdd\<close>, \<open>intsetRemove\<close> and \<open>intsetFind\<close> calls with 64-bit values on
  a new set runs without a fault, keeps the invariant, and gives exactly the answers (the
  \<open>success\<close> flags and the memberships) of a mathematical set, as long as the sequence is
  shorter than \<open>2\<^sup>2\<^sup>9\<close> operations.
\<close>

theorem intset_ops_refine_set:
  assumes "list_all (is_int64 \<circ> set_op_arg) ops" "length ops \<le> 536870911"
  shows "\<exists>is. run_set_ops intsetAdd intsetRemove intsetFind intsetNew ops =
             Some (is, snd (spec_set_ops {} ops)) \<and>
           intset_inv is \<and> set (intset_elems is) = fst (spec_set_ops {} ops)"
  using intset_set.run_set_ops_correct [of intsetNew ops] assms by (simp add: intset_inv_New)

theorem intset_ops_refine_set_witness:
  "\<exists>is. run_set_ops intsetAdd intsetRemove intsetFind intsetNew
          [SAdd 5, SAdd (- 70000), SAdd 5, SFind 5, SRem 5, SFind 5] =
          Some (is, [True, True, False, True, True, False]) \<and>
        intset_inv is \<and> set (intset_elems is) = {- 70000}"
  using intset_ops_refine_set [of "[SAdd 5, SAdd (- 70000), SAdd 5, SFind 5, SRem 5, SFind 5]"]
  by (simp add: is_int64_def insert_Diff_if)

text \<open>
  C13. Adding an absent value inserts it at its place in the sorted order, keeps the invariant
  and moves the whole set to the wider of the two encodings, whichever of the two paths
  (in-place insertion, or upgrade with the new value at one end) the code takes.
\<close>

theorem intsetAdd_inserts:
  assumes "intset_inv is" "is_int64 v" "Suc (ilength is) * 8 < 4294967296" "v \<notin> set (intset_elems is)"
  shows "\<exists>is'. intsetAdd is v = Some (is', True) \<and> intset_inv is' \<and>
           intset_elems is' = insort v (intset_elems is) \<and>
           encoding is' = max (encoding is) (intset_ValueEncoding v)"
  using intsetAdd_absent [OF assms] .

theorem intsetAdd_inserts_witness:
  "\<exists>is'. intsetAdd intset_1_5 (- 40000) = Some (is', True) \<and>
     intset_inv is' \<and> intset_elems is' = [- 40000, 1, 5] \<and> encoding is' = 4"
proof -
  have "ilength intset_1_5 = 2" "encoding intset_1_5 = 2" by (simp_all add: intset_1_5_def)
  then show ?thesis using intsetAdd_inserts [of intset_1_5 "- 40000"]
    by (simp add: intset_examples is_int64_def intset_ValueEncoding_def)
qed

text \<open>
  C15. \<open>intsetValidateIntegrity\<close> in deep mode never reads outside the payload, accepts exactly
  the payloads that hold a non-empty well-formed set, and accepts every set built in memory.
\<close>

theorem intsetValidateIntegrity_exact:
  assumes "length p < 4294967296"
  shows "intsetValidateIntegrity p (length p) True =
           Some (\<exists>is. intset_of_blob p = Some is \<and> intset_inv is \<and> ilength is \<noteq> 0)"
  using intsetValidateIntegrity_correct [of p] assms by (simp split: option.splits)

theorem intsetValidateIntegrity_exact_witness:
  "intsetValidateIntegrity [2, 0, 0, 0, 2, 0, 0, 0, 1, 0, 5, 0]
     (length [2, 0, 0, 0, 2, 0, 0, 0, 1, 0, 5, 0 :: byte]) True = Some True \<and>
   intsetValidateIntegrity [2, 0, 0, 0, 2, 0, 0, 0, 5, 0, 5, 0]
     (length [2, 0, 0, 0, 2, 0, 0, 0, 5, 0, 5, 0 :: byte]) True = Some False"
proof -
  have "intset_of_blob [2, 0, 0, 0, 2, 0, 0, 0, 1, 0, 5, 0] = Some intset_1_5"
    "intset_of_blob [2, 0, 0, 0, 2, 0, 0, 0, 5, 0, 5, 0] = Some intset_5_5"
    "ilength intset_1_5 = 2"
    by (simp_all add: intset_of_blob_def intset_1_5_def intset_5_5_def rd_range_def)
  then show ?thesis
    using intsetValidateIntegrity_exact [of "[2, 0, 0, 0, 2, 0, 0, 0, 1, 0, 5, 0]"]
      intsetValidateIntegrity_exact [of "[2, 0, 0, 0, 2, 0, 0, 0, 5, 0, 5, 0]"]
    by (simp add: intset_examples)
qed

text \<open>
  C16. On a non-empty well-formed set, \<open>intsetMin\<close> and \<open>intsetMax\<close> return the least and the
  greatest element and \<open>intsetRandom\<close> returns an element, whatever \<open>rand()\<close> returned.
\<close>

theorem intset_min_max_random:
  assumes "intset_inv is" "ilength is \<noteq> 0"
  shows "intsetMin is = Some (Min (set (intset_elems is))) \<and>
         intsetMax is = Some (Max (set (intset_elems is))) \<and>
         (\<exists>v \<in> set (intset_elems is). intsetRandom r is = Some v)"
proof -
  have ne: "intset_elems is \<noteq> []" using assms(2) by (metis length_0_conv length_intset_elems)
  note get = Get_elems [OF inv_layout [OF assms(1)]] and small = inv_length_small [OF assms(1)]
  have r: "r mod ilength is < ilength is" using assms(2) by simp
  have "intsetRandom r is = Some (intset_elems is ! (r mod ilength is))"
    using get [OF r] as_int_small [OF less_trans [OF r small]] assms(2) by (simp add: intsetRandom_def)
  moreover have "intset_elems is ! (r mod ilength is) \<in> set (intset_elems is)" using r by simp
  moreover have "intsetMin is = Some (intset_elems is ! 0)"
    using get [of 0] assms(2) by (simp add: intsetMin_def)
  moreover have "intsetMax is = Some (intset_elems is ! (ilength is - 1))"
    using get [of "ilength is - 1"] assms(2) small by (simp add: intsetMax_def sub32_pred as_int_small)
  ultimately show ?thesis
    using sorted_hd_last [OF inv_sorted [OF assms(1)] ne] by auto
qed

theorem intset_min_max_random_witness:
  "intsetMin intset_1_5 = Some 1 \<and> intsetMax intset_1_5 = Some 5 \<and>
   (\<exists>v \<in> {1, 5}. intsetRandom 7 intset_1_5 = Some v)"
proof -
  have "ilength intset_1_5 \<noteq> 0" by (simp add: intset_1_5_def)
  then show ?thesis using intset_min_max_random [of intset_1_5 7] by (simp add: intset_examples)
qed

text \<open>
  C17. The limit of \<open>2\<^sup>3\<^sup>0\<close> entries that the callers enforce is not enough for 64-bit records:
  with \<open>2\<^sup>2\<^sup>9\<close> of them the byte count of \<open>intsetMoveTail\<close> wraps to 0 in its \<open>uint32_t\<close>, and the
  call that should make room at the front moves nothing at all.
\<close>

theorem intsetMoveTail_overflow:
  assumes "encoding is = 8" "ilength is = 536870912" "8 \<le> length (contents is)"
  shows "intsetMoveTail is 0 1 = Some is"
  using assms by (simp add: intsetMoveTail_def sub32_def memmove_def rd_range_def wr_range_def)

theorem intsetMoveTail_overflow_witness:
  "intsetMoveTail \<lparr>encoding = 8, ilength = 536870912, contents = replicate (8 * 536870913) 0\<rparr> 0 1 =
     Some \<lparr>encoding = 8, ilength = 536870912, contents = replicate (8 * 536870913) 0\<rparr>"
  by (rule intsetMoveTail_overflow) simp_all

end
