(* ===== verification/Listpack_Encoding.thy ===== *)
theory Listpack_Encoding
  imports Util_Num
begin

text \<open>
  Entry encodings of \<open>listpack.c\<close>: the encoding byte macros, the integer and string encoders,
  the reverse-readable length at the end of an entry (the backlen), and the entry decoder
  \<open>lpGetWithSize\<close>. A pointer into a listpack is the block and an offset; what the C code writes
  into a caller's buffer and its length is returned as one byte list.
\<close>

subsection \<open>Encoding bytes\<close>

abbreviation LP_HDR_SIZE :: nat where "LP_HDR_SIZE \<equiv> 6"
abbreviation LP_HDR_NUMELE_UNKNOWN :: nat where "LP_HDR_NUMELE_UNKNOWN \<equiv> 65535"
abbreviation LP_EOF :: byte where "LP_EOF \<equiv> 0xFF"
abbreviation LP_INTBUF_SIZE :: nat where "LP_INTBUF_SIZE \<equiv> 21"

definition LP_ENCODING_IS_7BIT_UINT :: "byte \<Rightarrow> bool" where
  "LP_ENCODING_IS_7BIT_UINT b \<longleftrightarrow> b AND 0x80 = 0"

definition LP_ENCODING_IS_6BIT_STR :: "byte \<Rightarrow> bool" where
  "LP_ENCODING_IS_6BIT_STR b \<longleftrightarrow> b AND 0xC0 = 0x80"

definition LP_ENCODING_IS_13BIT_INT :: "byte \<Rightarrow> bool" where
  "LP_ENCODING_IS_13BIT_INT b \<longleftrightarrow> b AND 0xE0 = 0xC0"

definition LP_ENCODING_IS_12BIT_STR :: "byte \<Rightarrow> bool" where
  "LP_ENCODING_IS_12BIT_STR b \<longleftrightarrow> b AND 0xF0 = 0xE0"

definition LP_ENCODING_IS_16BIT_INT :: "byte \<Rightarrow> bool" where
  "LP_ENCODING_IS_16BIT_INT b \<longleftrightarrow> b AND 0xFF = 0xF1"

definition LP_ENCODING_IS_24BIT_INT :: "byte \<Rightarrow> bool" where
  "LP_ENCODING_IS_24BIT_INT b \<longleftrightarrow> b AND 0xFF = 0xF2"

definition LP_ENCODING_IS_32BIT_INT :: "byte \<Rightarrow> bool" where
  "LP_ENCODING_IS_32BIT_INT b \<longleftrightarrow> b AND 0xFF = 0xF3"

definition LP_ENCODING_IS_64BIT_INT :: "byte \<Rightarrow> bool" where
  "LP_ENCODING_IS_64BIT_INT b \<longleftrightarrow> b AND 0xFF = 0xF4"

definition LP_ENCODING_IS_32BIT_STR :: "byte \<Rightarrow> bool" where
  "LP_ENCODING_IS_32BIT_STR b \<longleftrightarrow> b AND 0xFF = 0xF0"

text \<open>The macros read single bytes and shift and OR them together.\<close>

definition LP_ENCODING_6BIT_STR_LEN :: "buf \<Rightarrow> nat \<Rightarrow> nat option" where
  "LP_ENCODING_6BIT_STR_LEN lp p = do { b \<leftarrow> rd lp p; Some (unat (b AND 0x3F)) }"

definition LP_ENCODING_12BIT_STR_LEN :: "buf \<Rightarrow> nat \<Rightarrow> nat option" where
  "LP_ENCODING_12BIT_STR_LEN lp p = do {
     b0 \<leftarrow> rd lp p;
     b1 \<leftarrow> rd lp (p + 1);
     Some (push_bit 8 (unat (b0 AND 0xF)) OR unat b1) }"

definition LP_ENCODING_32BIT_STR_LEN :: "buf \<Rightarrow> nat \<Rightarrow> nat option" where
  "LP_ENCODING_32BIT_STR_LEN lp p = do {
     b1 \<leftarrow> rd lp (p + 1);
     b2 \<leftarrow> rd lp (p + 2);
     b3 \<leftarrow> rd lp (p + 3);
     b4 \<leftarrow> rd lp (p + 4);
     Some (unat b1 OR push_bit 8 (unat b2) OR push_bit 16 (unat b3) OR push_bit 24 (unat b4)) }"

definition lpGetTotalBytes :: "buf \<Rightarrow> nat option" where
  "lpGetTotalBytes lp = do {
     b0 \<leftarrow> rd lp 0;
     b1 \<leftarrow> rd lp 1;
     b2 \<leftarrow> rd lp 2;
     b3 \<leftarrow> rd lp 3;
     Some (unat b0 OR push_bit 8 (unat b1) OR push_bit 16 (unat b2) OR push_bit 24 (unat b3)) }"

definition lpGetNumElements :: "buf \<Rightarrow> nat option" where
  "lpGetNumElements lp = do {
     b4 \<leftarrow> rd lp 4;
     b5 \<leftarrow> rd lp 5;
     Some (unat b4 OR push_bit 8 (unat b5)) }"

definition lpSetTotalBytes :: "buf \<Rightarrow> nat \<Rightarrow> buf option" where
  "lpSetTotalBytes lp v = do {
     lp \<leftarrow> wr lp 0 (of_nat (v AND 0xff));
     lp \<leftarrow> wr lp 1 (of_nat (drop_bit 8 v AND 0xff));
     lp \<leftarrow> wr lp 2 (of_nat (drop_bit 16 v AND 0xff));
     wr lp 3 (of_nat (drop_bit 24 v AND 0xff)) }"

definition lpSetNumElements :: "buf \<Rightarrow> nat \<Rightarrow> buf option" where
  "lpSetNumElements lp v = do {
     lp \<leftarrow> wr lp 4 (of_nat (v AND 0xff));
     wr lp 5 (of_nat (drop_bit 8 v AND 0xff)) }"


subsection \<open>Encoders\<close>

text \<open>The digit loop, on \<open>plen\<close> and \<open>v\<close>; \<open>None\<close> is the overflow return.\<close>

function lpStringToInt64_loop :: "buf \<Rightarrow> nat \<Rightarrow> nat \<Rightarrow> (nat \<times> nat) option" where
  "lpStringToInt64_loop s plen v =
     (if plen < length s \<and> 48 \<le> unat (s ! plen) \<and> unat (s ! plen) \<le> 57
      then if UINT64_MAX div 10 < v then None
           else let v = v * 10 in
                if UINT64_MAX - (unat (s ! plen) - 48) < v then None
                else lpStringToInt64_loop s (plen + 1) (v + (unat (s ! plen) - 48))
      else Some (plen, v))"
  by pat_completeness auto
termination
  by (relation "measure (\<lambda>(s, plen, _). length s - plen)") auto

declare lpStringToInt64_loop.simps [simp del]

text \<open>\<open>None\<close> is the return value 0, \<open>Some v\<close> the return value 1 with \<open>*value = v\<close>.\<close>

definition lpStringToInt64 :: "buf \<Rightarrow> int option" where
  "lpStringToInt64 s =
     (let slen = length s in
      if slen = 0 \<or> LONG_STR_SIZE \<le> slen then None
      else if slen = 1 \<and> s ! 0 = 48 then Some 0
      else
        let negative = (s ! 0 = 45);
            plen = (if negative then 1 else 0)
        in if negative \<and> plen = slen then None
           else if 49 \<le> unat (s ! plen) \<and> unat (s ! plen) \<le> 57
           then (case lpStringToInt64_loop s (plen + 1) (unat (s ! plen) - 48) of
                   None \<Rightarrow> None
                 | Some (plen, v) \<Rightarrow>
                     if plen < slen then None
                     else if negative
                     then (if nat (- (INT64_MIN + 1)) + 1 < v then None else Some (- int v))
                     else (if nat INT64_MAX < v then None else Some (int v)))
           else None)"

text \<open>The bytes stored in \<open>intenc\<close>; \<open>*enclen\<close> is their number.\<close>

definition lpEncodeIntegerGetType :: "int \<Rightarrow> buf" where
  "lpEncodeIntegerGetType v =
     (if 0 \<le> v \<and> v \<le> 127 then [of_int v]
      else if - 4096 \<le> v \<and> v \<le> 4095 then
        let v = nat (if v < 0 then 8192 + v else v)
        in [of_nat (drop_bit 8 v) OR 0xC0, of_nat (v AND 0xff)]
      else if - 32768 \<le> v \<and> v \<le> 32767 then
        let v = nat (if v < 0 then 65536 + v else v)
        in [0xF1, of_nat (v AND 0xff), of_nat (drop_bit 8 v)]
      else if - 8388608 \<le> v \<and> v \<le> 8388607 then
        let v = nat (if v < 0 then 16777216 + v else v)
        in [0xF2, of_nat (v AND 0xff), of_nat (drop_bit 8 v AND 0xff), of_nat (drop_bit 16 v)]
      else if - 2147483648 \<le> v \<and> v \<le> 2147483647 then
        let v = nat (if v < 0 then 4294967296 + v else v)
        in [0xF3, of_nat (v AND 0xff), of_nat (drop_bit 8 v AND 0xff),
            of_nat (drop_bit 16 v AND 0xff), of_nat (drop_bit 24 v)]
      else
        let uv = of_signed 8 v
        in [0xF4, of_nat (uv AND 0xff), of_nat (drop_bit 8 uv AND 0xff),
            of_nat (drop_bit 16 uv AND 0xff), of_nat (drop_bit 24 uv AND 0xff),
            of_nat (drop_bit 32 uv AND 0xff), of_nat (drop_bit 40 uv AND 0xff),
            of_nat (drop_bit 48 uv AND 0xff), of_nat (drop_bit 56 uv)])"

text \<open>\<open>Inl intenc\<close> is \<open>LP_ENCODING_INT\<close>; \<open>Inr enclen\<close> is \<open>LP_ENCODING_STRING\<close>.\<close>

definition lpEncodeGetType :: "buf \<Rightarrow> buf + nat" where
  "lpEncodeGetType ele =
     (case lpStringToInt64 ele of
        Some v \<Rightarrow> Inl (lpEncodeIntegerGetType v)
      | None \<Rightarrow>
          let sz = length ele in
          Inr (if sz < 64 then 1 + sz else if sz < 4096 then 2 + sz else 5 + sz))"

text \<open>The bytes stored in \<open>buf\<close>; the return value is their number.\<close>

definition lpEncodeBacklen :: "nat \<Rightarrow> buf" where
  "lpEncodeBacklen l =
     (if l \<le> 127 then [of_nat l]
      else if l < 16383 then [of_nat (drop_bit 7 l), of_nat (l AND 127) OR 128]
      else if l < 2097151 then
        [of_nat (drop_bit 14 l), of_nat (drop_bit 7 l AND 127) OR 128, of_nat (l AND 127) OR 128]
      else if l < 268435455 then
        [of_nat (drop_bit 21 l), of_nat (drop_bit 14 l AND 127) OR 128,
         of_nat (drop_bit 7 l AND 127) OR 128, of_nat (l AND 127) OR 128]
      else
        [of_nat (drop_bit 28 l), of_nat (drop_bit 21 l AND 127) OR 128,
         of_nat (drop_bit 14 l AND 127) OR 128, of_nat (drop_bit 7 l AND 127) OR 128,
         of_nat (l AND 127) OR 128])"

text \<open>The \<open>do ... while(1)\<close> loop, with \<open>p\<close>, \<open>val\<close> and \<open>shift\<close>; a read before the block faults.\<close>

function lpDecodeBacklen_loop :: "buf \<Rightarrow> nat \<Rightarrow> nat \<Rightarrow> nat \<Rightarrow> nat option" where
  "lpDecodeBacklen_loop lp p val shift = do {
     b \<leftarrow> rd lp p;
     let val = val OR push_bit shift (unat (b AND 127));
     if b AND 128 = 0 then Some val
     else if 28 < shift + 7 then Some UINT64_MAX
     else if p = 0 then None
     else lpDecodeBacklen_loop lp (p - 1) val (shift + 7)
   }"
  by pat_completeness auto
termination
  by (relation "measure (\<lambda>(_, _, _, shift). 36 - shift)") auto

declare lpDecodeBacklen_loop.simps [simp del]

definition lpDecodeBacklen :: "buf \<Rightarrow> nat \<Rightarrow> nat option" where
  "lpDecodeBacklen lp p = lpDecodeBacklen_loop lp p 0 0"

text \<open>The bytes stored at \<open>buf\<close> by \<open>lpEncodeString\<close>.\<close>

definition lpEncodeString :: "buf \<Rightarrow> buf" where
  "lpEncodeString s =
     (let len = length s in
      if len < 64 then (of_nat len OR 0x80) # s
      else if len < 4096 then [of_nat (drop_bit 8 len) OR 0xE0, of_nat (len AND 0xff)] @ s
      else [0xF0, of_nat (len AND 0xff), of_nat (drop_bit 8 len AND 0xff),
            of_nat (drop_bit 16 len AND 0xff), of_nat (drop_bit 24 len AND 0xff)] @ s)"


subsection \<open>Entry sizes and the decoder\<close>

text \<open>The result is a \<open>uint32_t\<close>: the sum for a 32-bit string wraps.\<close>

definition lpCurrentEncodedSizeUnsafe :: "buf \<Rightarrow> nat \<Rightarrow> nat option" where
  "lpCurrentEncodedSizeUnsafe lp p = do {
     b \<leftarrow> rd lp p;
     if LP_ENCODING_IS_7BIT_UINT b then Some 1
     else if LP_ENCODING_IS_6BIT_STR b then do { n \<leftarrow> LP_ENCODING_6BIT_STR_LEN lp p; Some (1 + n) }
     else if LP_ENCODING_IS_13BIT_INT b then Some 2
     else if LP_ENCODING_IS_16BIT_INT b then Some 3
     else if LP_ENCODING_IS_24BIT_INT b then Some 4
     else if LP_ENCODING_IS_32BIT_INT b then Some 5
     else if LP_ENCODING_IS_64BIT_INT b then Some 9
     else if LP_ENCODING_IS_12BIT_STR b then do { n \<leftarrow> LP_ENCODING_12BIT_STR_LEN lp p; Some (2 + n) }
     else if LP_ENCODING_IS_32BIT_STR b then do {
       n \<leftarrow> LP_ENCODING_32BIT_STR_LEN lp p;
       Some ((5 + n) mod 4294967296) }
     else if b = LP_EOF then Some 1
     else Some 0
   }"

definition lpCurrentEncodedSizeBytes :: "buf \<Rightarrow> nat \<Rightarrow> nat option" where
  "lpCurrentEncodedSizeBytes lp p = do {
     b \<leftarrow> rd lp p;
     if LP_ENCODING_IS_7BIT_UINT b then Some 1
     else if LP_ENCODING_IS_6BIT_STR b then Some 1
     else if LP_ENCODING_IS_13BIT_INT b then Some 1
     else if LP_ENCODING_IS_16BIT_INT b then Some 1
     else if LP_ENCODING_IS_24BIT_INT b then Some 1
     else if LP_ENCODING_IS_32BIT_INT b then Some 1
     else if LP_ENCODING_IS_64BIT_INT b then Some 1
     else if LP_ENCODING_IS_12BIT_STR b then Some 2
     else if LP_ENCODING_IS_32BIT_STR b then Some 5
     else if b = LP_EOF then Some 1
     else Some 0
   }"

text \<open>
  What \<open>lpGetWithSize\<close> returns: a pointer into the listpack with \<open>*count\<close> bytes
  (\<open>LpStr offset count\<close>), \<open>NULL\<close> with \<open>*count\<close> the integer (\<open>LpInt\<close>), or \<open>intbuf\<close> with its new
  contents and \<open>*count\<close> (\<open>LpBuf\<close>).
\<close>

datatype lpref = LpStr nat nat | LpInt int | LpBuf buf nat

text \<open>The three-step conversion of \<open>uval\<close> to a signed value.\<close>

definition lp_signed :: "nat \<Rightarrow> nat \<Rightarrow> nat \<Rightarrow> int" where
  "lp_signed uval negstart negmax =
     (if negstart \<le> uval then - int (negmax - uval) - 1 else int uval)"

text \<open>
  The second component is \<open>*entry_size\<close>: \<open>None\<close> when the call leaves it untouched. \<open>intbuf\<close> is
  the caller's buffer or \<open>NULL\<close>.
\<close>

definition lpGetWithSize :: "buf \<Rightarrow> nat \<Rightarrow> buf nullable \<Rightarrow> (lpref \<times> nat option) option" where
  "lpGetWithSize lp p intbuf = do {
     b \<leftarrow> rd lp p;
     let ret = (\<lambda>uval negstart negmax entry_size.
       let val = lp_signed uval negstart negmax in
       case intbuf of
         NULL \<Rightarrow> Some (LpInt val, entry_size)
       | Ptr ib \<Rightarrow> do { (n, ib) \<leftarrow> ll2string ib LP_INTBUF_SIZE val; Some (LpBuf ib n, entry_size) });
     if LP_ENCODING_IS_7BIT_UINT b then ret (unat (b AND 0x7f)) UINT64_MAX 0 (Some 2)
     else if LP_ENCODING_IS_6BIT_STR b then do {
       count \<leftarrow> LP_ENCODING_6BIT_STR_LEN lp p;
       Some (LpStr (p + 1) count, Some (1 + count + length (lpEncodeBacklen (count + 1)))) }
     else if LP_ENCODING_IS_13BIT_INT b then do {
       b1 \<leftarrow> rd lp (p + 1);
       ret (push_bit 8 (unat (b AND 0x1f)) OR unat b1) (2 ^ 12) 8191 (Some 3) }
     else if LP_ENCODING_IS_16BIT_INT b then do {
       b1 \<leftarrow> rd lp (p + 1); b2 \<leftarrow> rd lp (p + 2);
       ret (unat b1 OR push_bit 8 (unat b2)) (2 ^ 15) UINT16_MAX (Some 4) }
     else if LP_ENCODING_IS_24BIT_INT b then do {
       b1 \<leftarrow> rd lp (p + 1); b2 \<leftarrow> rd lp (p + 2); b3 \<leftarrow> rd lp (p + 3);
       ret (unat b1 OR push_bit 8 (unat b2) OR push_bit 16 (unat b3)) (2 ^ 23)
         (drop_bit 8 UINT32_MAX) (Some 5) }
     else if LP_ENCODING_IS_32BIT_INT b then do {
       b1 \<leftarrow> rd lp (p + 1); b2 \<leftarrow> rd lp (p + 2); b3 \<leftarrow> rd lp (p + 3); b4 \<leftarrow> rd lp (p + 4);
       ret (unat b1 OR push_bit 8 (unat b2) OR push_bit 16 (unat b3) OR push_bit 24 (unat b4))
         (2 ^ 31) UINT32_MAX (Some 6) }
     else if LP_ENCODING_IS_64BIT_INT b then do {
       b1 \<leftarrow> rd lp (p + 1); b2 \<leftarrow> rd lp (p + 2); b3 \<leftarrow> rd lp (p + 3); b4 \<leftarrow> rd lp (p + 4);
       b5 \<leftarrow> rd lp (p + 5); b6 \<leftarrow> rd lp (p + 6); b7 \<leftarrow> rd lp (p + 7); b8 \<leftarrow> rd lp (p + 8);
       ret (unat b1 OR push_bit 8 (unat b2) OR push_bit 16 (unat b3) OR push_bit 24 (unat b4) OR
            push_bit 32 (unat b5) OR push_bit 40 (unat b6) OR push_bit 48 (unat b7) OR
            push_bit 56 (unat b8))
         (2 ^ 63) UINT64_MAX (Some 10) }
     else if LP_ENCODING_IS_12BIT_STR b then do {
       count \<leftarrow> LP_ENCODING_12BIT_STR_LEN lp p;
       Some (LpStr (p + 2) count, Some (2 + count + length (lpEncodeBacklen (count + 2)))) }
     else if LP_ENCODING_IS_32BIT_STR b then do {
       count \<leftarrow> LP_ENCODING_32BIT_STR_LEN lp p;
       Some (LpStr (p + 5) count, Some (5 + count + length (lpEncodeBacklen (count + 5)))) }
     else ret (12345678900000000 + unat b) UINT64_MAX 0 None
   }"

definition lpGet :: "buf \<Rightarrow> nat \<Rightarrow> buf nullable \<Rightarrow> lpref option" where
  "lpGet lp p intbuf = map_option fst (lpGetWithSize lp p intbuf)"

definition lpGetIntegerValue :: "buf \<Rightarrow> nat \<Rightarrow> int option option" where
  "lpGetIntegerValue lp p = do {
     r \<leftarrow> lpGet lp p NULL;
     case r of LpInt v \<Rightarrow> Some (Some v) | _ \<Rightarrow> Some None }"


subsection \<open>Bytes by range\<close>

lemma nat_and_mask [width_simps]:
  "n AND 255 = n mod 256" "n AND 127 = n mod 128" "n AND 63 = n mod 64" "n AND 31 = n mod 32"
  "n AND 15 = n mod 16" for n :: nat
proof -
  have *: "n AND (2 ^ k - 1) = n mod 2 ^ k" for k
    unfolding take_bit_eq_mod [symmetric] take_bit_eq_mask mask_eq_exp_minus_1 ..
  show "n AND 255 = n mod 256" "n AND 127 = n mod 128" "n AND 63 = n mod 64" "n AND 31 = n mod 32"
    "n AND 15 = n mod 16"
    using * [of 8] * [of 7] * [of 6] * [of 5] * [of 4] by simp_all
qed

lemma nat_and_disjoint:
  fixes n a b :: nat
  assumes "a AND b = 0"
  shows "(n AND a) + (n AND b) = n AND (a OR b)"
proof -
  have "(n AND a) AND (n AND b) = 0"
    using assms by (metis and.assoc and.left_commute and_zero_eq)
  then have "(n AND a) + (n AND b) = (n AND a) OR (n AND b)" by (rule disjunctive_add_eq_or)
  also have "\<dots> = n AND (a OR b)" by (rule bit_eqI) (auto simp: bit_and_iff bit_or_iff)
  finally show ?thesis .
qed

text \<open>Masking the high bits of a byte.\<close>

lemma nat_and_high [width_simps]:
  fixes n :: nat
  assumes "n < 256"
  shows "n AND 128 = 128 * (n div 128)" "n AND 192 = 64 * (n div 64)" "n AND 224 = 32 * (n div 32)"
    "n AND 240 = 16 * (n div 16)"
proof -
  have *: "(n AND a) + (n AND b) = n" if "a AND b = 0" "a OR b = 255" for a b
    using nat_and_disjoint [OF that(1), of n] that(2) assms by (simp only: nat_and_mask mod_less)
  have "(n AND 128) + (n AND 127) = n" "(n AND 192) + (n AND 63) = n" "(n AND 224) + (n AND 31) = n"
    "(n AND 240) + (n AND 15) = n"
    by (rule *; simp)+
  then show "n AND 128 = 128 * (n div 128)" "n AND 192 = 64 * (n div 64)" "n AND 224 = 32 * (n div 32)"
    "n AND 240 = 16 * (n div 16)"
    unfolding nat_and_mask minus_mod_eq_mult_div [symmetric] by linarith+
qed

lemma unat_and_byte [width_simps]: "unat ((a :: byte) AND b) = unat a AND unat b"
  by (rule unsigned_and_eq)

lemma div_band: "0 < k \<Longrightarrow> n div k = q \<longleftrightarrow> k * q \<le> n \<and> n < k * Suc q" for k n q :: nat
  using div_nat_eqI [of k q n] times_div_less_eq_dividend [of k n] dividend_less_times_div [of k n] by auto

lemma is_7bit [simp]: "LP_ENCODING_IS_7BIT_UINT b \<longleftrightarrow> unat b < 128"
proof -
  have "128 * (unat b div 128) = 0 \<longleftrightarrow> unat b < 128" by auto
  then show ?thesis by (simp add: LP_ENCODING_IS_7BIT_UINT_def word_unat_eq_iff width_simps)
qed

lemma is_6bit_str [simp]: "LP_ENCODING_IS_6BIT_STR b \<longleftrightarrow> 128 \<le> unat b \<and> unat b < 192"
proof -
  have "64 * (unat b div 64) = 128 \<longleftrightarrow> 128 \<le> unat b \<and> unat b < 192"
    using div_band [of 64 "unat b" 2] by simp
  then show ?thesis by (simp add: LP_ENCODING_IS_6BIT_STR_def word_unat_eq_iff width_simps)
qed

lemma is_13bit [simp]: "LP_ENCODING_IS_13BIT_INT b \<longleftrightarrow> 192 \<le> unat b \<and> unat b < 224"
proof -
  have "32 * (unat b div 32) = 192 \<longleftrightarrow> 192 \<le> unat b \<and> unat b < 224"
    using div_band [of 32 "unat b" 6] by simp
  then show ?thesis by (simp add: LP_ENCODING_IS_13BIT_INT_def word_unat_eq_iff width_simps)
qed

lemma is_12bit_str [simp]: "LP_ENCODING_IS_12BIT_STR b \<longleftrightarrow> 224 \<le> unat b \<and> unat b < 240"
proof -
  have "16 * (unat b div 16) = 224 \<longleftrightarrow> 224 \<le> unat b \<and> unat b < 240"
    using div_band [of 16 "unat b" 14] by simp
  then show ?thesis by (simp add: LP_ENCODING_IS_12BIT_STR_def word_unat_eq_iff width_simps)
qed

lemma is_full_byte [simp]:
  "LP_ENCODING_IS_16BIT_INT b \<longleftrightarrow> unat b = 241"
  "LP_ENCODING_IS_24BIT_INT b \<longleftrightarrow> unat b = 242"
  "LP_ENCODING_IS_32BIT_INT b \<longleftrightarrow> unat b = 243"
  "LP_ENCODING_IS_64BIT_INT b \<longleftrightarrow> unat b = 244"
  "LP_ENCODING_IS_32BIT_STR b \<longleftrightarrow> unat b = 240"
  by (simp_all add: LP_ENCODING_IS_16BIT_INT_def LP_ENCODING_IS_24BIT_INT_def LP_ENCODING_IS_32BIT_INT_def
      LP_ENCODING_IS_64BIT_INT_def LP_ENCODING_IS_32BIT_STR_def word_unat_eq_iff width_simps)

lemma is_eof: "b = LP_EOF \<longleftrightarrow> unat b = 255"
  by (simp add: word_unat_eq_iff)

lemma byte_and_128: "(b :: byte) AND 128 = 0 \<longleftrightarrow> unat b < 128"
  unfolding is_7bit [symmetric] LP_ENCODING_IS_7BIT_UINT_def ..

text \<open>Setting marker bits above the value.\<close>

lemma unat_or_byte [width_simps]: "unat ((a :: byte) OR b) = unat a OR unat b"
  by (rule unsigned_or_eq)

lemma unat_or_marker [width_simps]:
  "n < 128 \<Longrightarrow> unat ((of_nat n :: byte) OR 128) = 128 + n"
  "n < 64 \<Longrightarrow> unat ((of_nat n :: byte) OR 0x80) = 128 + n"
  "n < 32 \<Longrightarrow> unat ((of_nat n :: byte) OR 0xC0) = 192 + n"
  "n < 16 \<Longrightarrow> unat ((of_nat n :: byte) OR 0xE0) = 224 + n"
  using nat_or_push_bit [of n 7 1] nat_or_push_bit [of n 6 3] nat_or_push_bit [of n 5 7]
  by (simp_all add: width_simps push_bit_eq_mult)

text \<open>Bytes shifted and combined by OR are a little-endian number.\<close>

lemma nat_or_shift_byte:
  assumes "x < 2 ^ n"
  shows "x OR push_bit n (unat b) OR r = (x + 2 ^ n * unat b) OR r"
  using nat_or_push_bit [OF assms, of "unat b"] by (simp flip: or.assoc)

lemma or_bytes:
  fixes b0 b1 b2 b3 :: byte
  shows "unat b0 OR push_bit 8 (unat b1) = le_val [b0, b1]"
    "unat b0 OR push_bit 8 (unat b1) OR push_bit 16 (unat b2) = le_val [b0, b1, b2]"
    "unat b0 OR push_bit 8 (unat b1) OR push_bit 16 (unat b2) OR push_bit 24 (unat b3) = le_val [b0, b1, b2, b3]"
proof -
  note less = unat_byte_less [of b0] unat_byte_less [of b1] unat_byte_less [of b2]
  have l1: "unat b0 < 2 ^ 8" by simp
  have "unat b0 + 256 * unat b1 < 65536" using less by linarith
  then have l2: "unat b0 + 2 ^ 8 * unat b1 < 2 ^ 16" by simp
  have "unat b0 + 256 * unat b1 + 65536 * unat b2 < 16777216" using less by linarith
  then have l3: "unat b0 + 2 ^ 8 * unat b1 + 2 ^ 16 * unat b2 < 2 ^ 24" by simp
  show "unat b0 OR push_bit 8 (unat b1) = le_val [b0, b1]"
    using nat_or_push_bit [OF l1] by simp
  show "unat b0 OR push_bit 8 (unat b1) OR push_bit 16 (unat b2) = le_val [b0, b1, b2]"
    unfolding nat_or_shift_byte [OF l1] nat_or_push_bit [OF l2] by simp
  show "unat b0 OR push_bit 8 (unat b1) OR push_bit 16 (unat b2) OR push_bit 24 (unat b3) = le_val [b0, b1, b2, b3]"
    unfolding nat_or_shift_byte [OF l1] nat_or_shift_byte [OF l2] nat_or_push_bit [OF l3] by simp
qed

lemma of_nat_byte_and [simp]: "(of_nat (n AND 255) :: byte) = of_nat n"
  by (simp add: nat_and_mask of_nat_byte_eq_iff)

lemma le_bytes_unfold:
  "le_bytes 1 v = [of_nat v]"
  "le_bytes 2 v = [of_nat v, of_nat (v div 256)]"
  "le_bytes 3 v = [of_nat v, of_nat (v div 256), of_nat (v div 65536)]"
  "le_bytes 4 v = [of_nat v, of_nat (v div 256), of_nat (v div 65536), of_nat (v div 16777216)]"
proof -
  have "(1 :: nat) = Suc 0" "(2 :: nat) = Suc (Suc 0)" "(3 :: nat) = Suc (Suc (Suc 0))"
    "(4 :: nat) = Suc (Suc (Suc (Suc 0)))" by simp_all
  then show "le_bytes 1 v = [of_nat v]" "le_bytes 2 v = [of_nat v, of_nat (v div 256)]"
    "le_bytes 3 v = [of_nat v, of_nat (v div 256), of_nat (v div 65536)]"
    "le_bytes 4 v = [of_nat v, of_nat (v div 256), of_nat (v div 65536), of_nat (v div 16777216)]"
    by (simp_all only: le_bytes.simps) (simp_all flip: div_mult2_eq)
qed

lemma le_bytes_8:
  "le_bytes 8 v = [of_nat v, of_nat (v div 2 ^ 8), of_nat (v div 2 ^ 16), of_nat (v div 2 ^ 24),
     of_nat (v div 2 ^ 32), of_nat (v div 2 ^ 40), of_nat (v div 2 ^ 48), of_nat (v div 2 ^ 56)]"
proof -
  have "(8 :: nat) = Suc (Suc (Suc (Suc (Suc (Suc (Suc (Suc 0)))))))" by simp
  then have "le_bytes 8 v = [of_nat v, of_nat (v div 256), of_nat (v div 256 div 256),
      of_nat (v div 256 div 256 div 256), of_nat (v div 256 div 256 div 256 div 256),
      of_nat (v div 256 div 256 div 256 div 256 div 256),
      of_nat (v div 256 div 256 div 256 div 256 div 256 div 256),
      of_nat (v div 256 div 256 div 256 div 256 div 256 div 256 div 256)]"
    by (simp only: le_bytes.simps)
  then show ?thesis by (simp flip: div_mult2_eq)
qed

lemma drop_bit_nat: "drop_bit k (n :: nat) = n div 2 ^ k"
  by (rule drop_bit_eq_div)


subsection \<open>Header fields\<close>

lemma split2: "2 \<le> length xs \<Longrightarrow> xs = xs ! 0 # xs ! 1 # drop 2 xs"
  by (cases xs; cases "tl xs") auto

lemma split4: "4 \<le> length xs \<Longrightarrow> xs = xs ! 0 # xs ! 1 # xs ! 2 # xs ! 3 # drop 4 xs"
  using split2 [of xs] split2 [of "drop 2 xs"] by simp

lemma lpGetTotalBytes_eq: "4 \<le> length lp \<Longrightarrow> lpGetTotalBytes lp = Some (le_val (take 4 lp))"
proof -
  assume "4 \<le> length lp"
  then obtain b0 b1 b2 b3 r where "lp = b0 # b1 # b2 # b3 # r"
    using split4 by blast
  then show ?thesis by (simp add: lpGetTotalBytes_def or_bytes del: le_val.simps)
qed

lemma lpGetNumElements_eq: "6 \<le> length lp \<Longrightarrow> lpGetNumElements lp = Some (le_val (take 2 (drop 4 lp)))"
proof -
  assume *: "6 \<le> length lp"
  then have "drop 4 lp = lp ! 4 # lp ! 5 # drop 6 lp"
    by (simp add: Cons_nth_drop_Suc [symmetric] numeral_eq_Suc)
  with * show ?thesis by (simp add: lpGetNumElements_def or_bytes rd_def del: le_val.simps)
qed

lemma wr_Cons [simp]:
  "wr (x # xs) 0 y = Some (y # xs)"
  "wr (x # xs) (Suc i) y = map_option (Cons x) (wr xs i y)"
  "wr (x # xs) (numeral k) y = map_option (Cons x) (wr xs (pred_numeral k) y)"
  by (simp_all add: wr_def numeral_eq_Suc)

lemma lpSetTotalBytes_eq: "4 \<le> length lp \<Longrightarrow> lpSetTotalBytes lp v = Some (le_bytes 4 v @ drop 4 lp)"
proof -
  assume "4 \<le> length lp"
  then obtain b0 b1 b2 b3 r where "lp = b0 # b1 # b2 # b3 # r"
    using split4 by blast
  then show ?thesis by (simp add: lpSetTotalBytes_def le_bytes_unfold drop_bit_nat)
qed

lemma lpSetNumElements_eq:
  assumes "length hdr = 4" "2 \<le> length r"
  shows "lpSetNumElements (hdr @ r) v = Some (hdr @ le_bytes 2 v @ drop 2 r)"
proof -
  obtain h0 h1 h2 h3 where "hdr = [h0, h1, h2, h3]"
    using assms(1) split4 [of hdr] by auto
  moreover obtain b0 b1 r' where "r = b0 # b1 # r'"
    using assms(2) split2 by blast
  ultimately show ?thesis by (simp add: lpSetNumElements_def le_bytes_unfold drop_bit_nat)
qed


subsection \<open>Strings that are integers\<close>

lemma lpStringToInt64_loop_eq:
  "plen \<le> length s \<Longrightarrow>
   lpStringToInt64_loop s plen v =
     map_option (\<lambda>(v, rest). (length s - length rest, v)) (string2ll_loop v (drop plen s))"
proof (induction s plen v rule: lpStringToInt64_loop.induct)
  case (1 s plen v)
  show ?case
  proof (cases "plen < length s")
    case False
    then show ?thesis using 1(2) by (subst lpStringToInt64_loop.simps) simp
  next
    case True
    then have d: "drop plen s = s ! plen # drop (Suc plen) s" by (simp add: Cons_nth_drop_Suc)
    show ?thesis
      using 1(1) [of "v * 10"] True
      by (subst lpStringToInt64_loop.simps)
        (simp add: d is_digit_def digit_val_def Let_def)
  qed
qed

lemma string2ll_loop_rest_length: "string2ll_loop v s = Some (u, rest) \<Longrightarrow> length rest \<le> length s"
  by (induction v s rule: string2ll_loop.induct) (auto simp: Let_def split: if_splits)

lemma lpStringToInt64_eq: "lpStringToInt64 s = string2ll s"
proof (cases "length s = 0 \<or> LONG_STR_SIZE \<le> length s \<or> length s = 1 \<and> s ! 0 = 48")
  case True
  then show ?thesis by (auto simp: lpStringToInt64_def string2ll_def)
next
  case False
  show ?thesis
  proof (cases "s ! 0 = 45")
    case True
    show ?thesis
    proof (cases "length s = 1")
      case True
      with \<open>s ! 0 = 45\<close> False show ?thesis by (simp add: lpStringToInt64_def string2ll_def)
    next
      case len: False
      with False have "drop 1 s \<noteq> []" "2 \<le> length s" by (cases s; cases "tl s"; auto)+
      then show ?thesis
        using True False len lpStringToInt64_loop_eq [of "Suc (Suc 0)" s]
          string2ll_loop_rest_length [of "unat (s ! 1) - 48" "drop (Suc (Suc 0)) s"]
        by (auto simp: lpStringToInt64_def string2ll_def Let_def split: option.splits)
    qed
  next
    case pos: False
    have "Suc 0 \<le> length s" using False by (cases s) auto
    from pos show ?thesis
      using False lpStringToInt64_loop_eq [OF \<open>Suc 0 \<le> length s\<close>] string2ll_loop_rest_length [of "unat (s ! 0) - 48" "drop 1 s"]
      by (auto simp: lpStringToInt64_def string2ll_def Let_def split: option.splits)
  qed
qed


subsection \<open>The backlen\<close>

lemma unat_of_nat_small: "n < 256 \<Longrightarrow> unat (of_nat n :: byte) = n"
  by (simp add: unat_of_nat_byte)

text \<open>The loop reads the continuation bytes \<open>128 + d\<close> from right to left.\<close>

lemma lpDecodeBacklen_loop_more:
  assumes "rd lp p = Some b" "unat b = 128 + d" "d < 128" "shift \<le> 21" "0 < p" "val < 2 ^ shift"
  shows "lpDecodeBacklen_loop lp p val shift =
           lpDecodeBacklen_loop lp (p - 1) (val + 2 ^ shift * d) (shift + 7)"
proof -
  have "unat (b AND 127) = d" using assms(2,3) by (simp add: width_simps)
  moreover have "\<not> b AND 128 = 0" using assms(2) by (simp add: byte_and_128)
  ultimately show ?thesis
    using assms nat_or_push_bit [OF assms(6), of d]
    by (subst lpDecodeBacklen_loop.simps) simp
qed

lemma lpDecodeBacklen_loop_last:
  assumes "rd lp p = Some b" "unat b < 128" "val < 2 ^ shift"
  shows "lpDecodeBacklen_loop lp p val shift = Some (val + 2 ^ shift * unat b)"
proof -
  have "unat (b AND 127) = unat b" using assms(2) by (simp add: width_simps)
  moreover have "b AND 128 = 0" using assms(2) by (simp add: byte_and_128)
  ultimately show ?thesis
    using assms nat_or_push_bit [OF assms(3), of "unat b"]
    by (subst lpDecodeBacklen_loop.simps) simp
qed

text \<open>The value of seven-bit groups, most significant first.\<close>

definition be7 :: "buf \<Rightarrow> nat" where
  "be7 bs = foldl (\<lambda>a b. a * 128 + unat b mod 128) 0 bs"

lemma lpDecodeBacklen_loop_chain:
  assumes "list_all (\<lambda>b. 128 \<le> unat b) cs" "unat c < 128" "shift + 7 * length cs \<le> 28" "val < 2 ^ shift"
  shows "lpDecodeBacklen_loop (pre @ c # cs @ rest) (length pre + length cs) val shift =
           Some (val + 2 ^ shift * be7 (c # cs))"
  using assms(1,3,4)
proof (induction cs arbitrary: rest val shift rule: rev_induct)
  case Nil
  then show ?case
    using assms(2) lpDecodeBacklen_loop_last [of "pre @ c # rest" "length pre" c val shift]
    by (simp add: be7_def rd_append_at)
next
  case (snoc b cs)
  define d where "d = unat b - 128"
  have d: "unat b = 128 + d" "d < 128" using snoc.prems(1) less_diff_conv2 [of 128 "unat b" 128] by (auto simp: d_def)
  have "rd ((pre @ c # cs) @ b # rest) (length (pre @ c # cs)) = Some b" by (rule rd_append_at)
  then have "lpDecodeBacklen_loop (pre @ c # (cs @ [b]) @ rest) (length pre + length (cs @ [b])) val shift =
      lpDecodeBacklen_loop (pre @ c # cs @ b # rest) (length pre + length cs) (val + 2 ^ shift * d) (shift + 7)"
    using lpDecodeBacklen_loop_more [of "pre @ c # cs @ b # rest" "length pre + length cs + 1" b d shift val] d snoc.prems
    by simp
  also have "\<dots> = Some (val + 2 ^ shift * d + 2 ^ (shift + 7) * be7 (c # cs))"
  proof (rule snoc.IH)
    have "2 ^ shift * d + 2 ^ shift \<le> 2 ^ shift * (128 :: nat)"
      using mult_le_mono2 [of "d + 1" 128 "2 ^ shift"] d(2) by (simp only: distrib_left mult_1_right)
    moreover have "(2 :: nat) ^ (shift + 7) = 2 ^ shift * 128" by (simp add: power_add)
    ultimately show "val + 2 ^ shift * d < 2 ^ (shift + 7)" using snoc.prems(3) by linarith
  qed (use snoc.prems in auto)
  also have "val + 2 ^ shift * d + 2 ^ (shift + 7) * be7 (c # cs) = val + 2 ^ shift * be7 (c # cs @ [b])"
    using d by (simp add: be7_def power_add algebra_simps)
  finally show ?case by simp
qed

lemma unat_group [simp]: "unat ((of_nat (n mod 128) :: byte) OR 128) = 128 + n mod 128"
  by (rule unat_or_marker) simp

lemma be7_lpEncodeBacklen:
  assumes "l < 2 ^ 35"
  shows "be7 (lpEncodeBacklen l) = l"
proof -
  have g1: "l div 128 * 128 + l mod 128 = l" by simp
  have g2: "l div 2 ^ 14 * 128 + l div 128 mod 128 = l div 128"
    using div_mult_mod_eq [of "l div 128" 128] by (simp flip: div_mult2_eq)
  have g3: "l div 2 ^ 21 * 128 + l div 2 ^ 14 mod 128 = l div 2 ^ 14"
    using div_mult_mod_eq [of "l div 2 ^ 14" 128] by (simp flip: div_mult2_eq)
  have g4: "l div 2 ^ 28 * 128 + l div 2 ^ 21 mod 128 = l div 2 ^ 21"
    using div_mult_mod_eq [of "l div 2 ^ 21" 128] by (simp flip: div_mult2_eq)
  have snoc: "be7 (bs @ [b]) = be7 bs * 128 + unat b mod 128" for bs b by (simp add: be7_def)
  have top: "be7 [of_nat x] = x" if "x < 128" for x using that by (simp add: be7_def unat_of_nat_small)
  have cont: "be7 (bs @ [of_nat (n AND 127) OR 128]) = be7 bs * 128 + n mod 128" for bs n
    by (simp add: snoc nat_and_mask)
  have two: "be7 [b0, of_nat (n1 AND 127) OR 128] = be7 [b0] * 128 + n1 mod 128" for b0 n1
    using cont [of "[b0]" n1] by simp
  have three: "be7 [b0, b1, of_nat (n2 AND 127) OR 128] = be7 [b0, b1] * 128 + n2 mod 128" for b0 b1 n2
    using cont [of "[b0, b1]" n2] by simp
  have four: "be7 [b0, b1, b2, of_nat (n3 AND 127) OR 128] = be7 [b0, b1, b2] * 128 + n3 mod 128" for b0 b1 b2 n3
    using cont [of "[b0, b1, b2]" n3] by simp
  have five: "be7 [b0, b1, b2, b3, of_nat (n4 AND 127) OR 128] = be7 [b0, b1, b2, b3] * 128 + n4 mod 128" for b0 b1 b2 b3 n4
    using cont [of "[b0, b1, b2, b3]" n4] by simp
  have bits: "drop_bit 7 l = l div 128" by (simp add: drop_bit_nat)
  consider "l \<le> 127" | "127 < l" "l < 16383" | "16383 \<le> l" "l < 2097151" | "2097151 \<le> l" "l < 268435455"
    | "268435455 \<le> l" by linarith
  then show ?thesis
  proof cases
    case 1
    then show ?thesis by (simp add: lpEncodeBacklen_def top)
  next
    case 2
    then have "l div 128 < 128" by (simp add: less_mult_imp_div_less)
    with 2 show ?thesis by (simp add: lpEncodeBacklen_def two top bits)
  next
    case 3
    then have "l div 2 ^ 14 < 128" by (simp add: less_mult_imp_div_less)
    with 3 have "be7 (lpEncodeBacklen l) = (l div 2 ^ 14 * 128 + l div 128 mod 128) * 128 + l mod 128"
      by (simp add: lpEncodeBacklen_def two three top bits drop_bit_nat)
    then show ?thesis unfolding g2 g1 .
  next
    case 4
    then have "l div 2 ^ 21 < 128" by (simp add: less_mult_imp_div_less)
    with 4 have "be7 (lpEncodeBacklen l) =
        ((l div 2 ^ 21 * 128 + l div 2 ^ 14 mod 128) * 128 + l div 128 mod 128) * 128 + l mod 128"
      by (simp add: lpEncodeBacklen_def two three four top bits drop_bit_nat)
    then show ?thesis unfolding g3 g2 g1 .
  next
    case 5
    have "l div 2 ^ 28 < 128" using assms by (simp add: less_mult_imp_div_less)
    with 5 have "be7 (lpEncodeBacklen l) =
        (((l div 2 ^ 28 * 128 + l div 2 ^ 21 mod 128) * 128 + l div 2 ^ 14 mod 128) * 128 + l div 128 mod 128) * 128 + l mod 128"
      by (simp add: lpEncodeBacklen_def two three four five top bits drop_bit_nat)
    then show ?thesis unfolding g4 g3 g2 g1 .
  qed
qed

lemma lpEncodeBacklen_shape:
  assumes "l < 2 ^ 35"
  obtains c cs where "lpEncodeBacklen l = c # cs" "unat c < 128" "list_all (\<lambda>b. 128 \<le> unat b) cs" "length cs \<le> 4"
proof -
  have b: "l div 128 < 128" if "l < 16383" using that by (simp add: less_mult_imp_div_less)
  have c: "l div 2 ^ 14 < 128" if "l < 2097151" using that by (simp add: less_mult_imp_div_less)
  have d: "l div 2 ^ 21 < 128" if "l < 268435455" using that by (simp add: less_mult_imp_div_less)
  have e: "l div 2 ^ 28 < 128" using assms by (simp add: less_mult_imp_div_less)
  show thesis
    using b c d e that
    by (cases "l \<le> 127"; cases "l < 16383"; cases "l < 2097151"; cases "l < 268435455")
      (simp_all add: lpEncodeBacklen_def drop_bit_nat nat_and_mask unat_of_nat_small)
qed

lemma lpDecodeBacklen_encode:
  assumes "l < 2 ^ 35"
  shows "lpDecodeBacklen (pre @ lpEncodeBacklen l @ rest) (length pre + length (lpEncodeBacklen l) - 1) = Some l"
proof -
  from assms obtain c cs where cs: "lpEncodeBacklen l = c # cs" "unat c < 128"
    "list_all (\<lambda>b. 128 \<le> unat b) cs" "length cs \<le> 4" by (rule lpEncodeBacklen_shape)
  show ?thesis
    using lpDecodeBacklen_loop_chain [OF cs(3,2), of 0 0 pre rest] cs(1,4) be7_lpEncodeBacklen [OF assms]
    by (simp add: lpDecodeBacklen_def)
qed

lemma length_lpEncodeBacklen:
  "length (lpEncodeBacklen l) =
     (if l \<le> 127 then 1 else if l < 16383 then 2 else if l < 2097151 then 3 else if l < 268435455 then 4 else 5)"
  by (simp add: lpEncodeBacklen_def)

lemma lpEncodeBacklen_nonempty [simp]: "lpEncodeBacklen l \<noteq> []"
  by (simp add: lpEncodeBacklen_def)


subsection \<open>Entry bodies\<close>

text \<open>
  A body is the encoding byte, the length bytes and the payload of one entry, without its
  backlen. It is well formed when the size the encoding announces is its length.
\<close>

definition entry_ok :: "buf \<Rightarrow> bool" where
  "entry_ok e \<longleftrightarrow> e \<noteq> [] \<and> hd e \<noteq> LP_EOF \<and> lpCurrentEncodedSizeUnsafe e 0 = Some (length e)"

text \<open>What an entry means: the bytes a reader gets, integers in decimal notation.\<close>

definition entry_string :: "buf \<Rightarrow> buf" where
  "entry_string e =
     (case lpGet e 0 NULL of
        Some (LpStr off n) \<Rightarrow> take n (drop off e)
      | Some (LpInt v) \<Rightarrow> dec_int v
      | _ \<Rightarrow> [])"

text \<open>The entry \<open>lpInsert\<close> writes for a string.\<close>

definition lp_encode :: "buf \<Rightarrow> buf" where
  "lp_encode s = (case lpEncodeGetType s of Inl intenc \<Rightarrow> intenc | Inr _ \<Rightarrow> lpEncodeString s)"

text \<open>Reads inside an entry do not depend on what surrounds it.\<close>

lemma rd_context: "rd e k = Some x \<Longrightarrow> rd (pre @ e @ rest) (length pre + k) = Some x"
  by (auto simp: rd_def nth_append split: if_splits)

lemma rd_context0: "rd e 0 = Some x \<Longrightarrow> rd (pre @ e @ rest) (length pre) = Some x"
  using rd_context [of e 0] by simp

lemma rd_context_Suc0: "rd e (Suc 0) = Some x \<Longrightarrow> rd (pre @ e @ rest) (Suc (length pre)) = Some x"
  using rd_context [of e 1] by simp

lemma rd_context_Suc1: "rd e (Suc (Suc 0)) = Some x \<Longrightarrow> rd (pre @ e @ rest) (Suc (Suc (length pre))) = Some x"
  using rd_context [of e "Suc (Suc 0)"] by simp

lemmas rd_contexts = rd_context rd_context0 rd_context_Suc0 rd_context_Suc1

lemma lp_len_context:
  "LP_ENCODING_6BIT_STR_LEN e 0 = Some n \<Longrightarrow> LP_ENCODING_6BIT_STR_LEN (pre @ e @ rest) (length pre) = Some n"
  "LP_ENCODING_12BIT_STR_LEN e 0 = Some n \<Longrightarrow> LP_ENCODING_12BIT_STR_LEN (pre @ e @ rest) (length pre) = Some n"
  "LP_ENCODING_32BIT_STR_LEN e 0 = Some n \<Longrightarrow> LP_ENCODING_32BIT_STR_LEN (pre @ e @ rest) (length pre) = Some n"
  by (auto simp: LP_ENCODING_6BIT_STR_LEN_def LP_ENCODING_12BIT_STR_LEN_def LP_ENCODING_32BIT_STR_LEN_def
      bind_eq_Some_conv rd_contexts)

lemma lpCurrentEncodedSizeUnsafe_ranges:
  assumes "rd lp p = Some b"
  shows "unat b < 128 \<Longrightarrow> lpCurrentEncodedSizeUnsafe lp p = Some 1"
    "128 \<le> unat b \<Longrightarrow> unat b < 192 \<Longrightarrow> lpCurrentEncodedSizeUnsafe lp p = Some (1 + unat b mod 64)"
    "192 \<le> unat b \<Longrightarrow> unat b < 224 \<Longrightarrow> lpCurrentEncodedSizeUnsafe lp p = Some 2"
    "224 \<le> unat b \<Longrightarrow> unat b < 240 \<Longrightarrow>
       lpCurrentEncodedSizeUnsafe lp p = map_option (\<lambda>n. 2 + n) (LP_ENCODING_12BIT_STR_LEN lp p)"
    "unat b = 240 \<Longrightarrow>
       lpCurrentEncodedSizeUnsafe lp p = map_option (\<lambda>n. (5 + n) mod 4294967296) (LP_ENCODING_32BIT_STR_LEN lp p)"
    "241 \<le> unat b \<Longrightarrow>
       lpCurrentEncodedSizeUnsafe lp p =
         Some (if unat b = 241 then 3 else if unat b = 242 then 4 else if unat b = 243 then 5
               else if unat b = 244 then 9 else if unat b = 255 then 1 else 0)"
  using assms
  by (simp_all add: lpCurrentEncodedSizeUnsafe_def LP_ENCODING_6BIT_STR_LEN_def width_simps is_eof
      map_conv_bind_option comp_def del: unat_byte_less unat_byte_le)

lemma byte_range_cases:
  obtains "unat b < 128" | "128 \<le> unat b" "unat b < 192" | "192 \<le> unat b" "unat b < 224"
    | "224 \<le> unat b" "unat b < 240" | "unat b = 240" | "241 \<le> unat (b :: byte)"
  by linarith

lemma lpCurrentEncodedSizeUnsafe_context:
  assumes "lpCurrentEncodedSizeUnsafe e 0 = Some n"
  shows "lpCurrentEncodedSizeUnsafe (pre @ e @ rest) (length pre) = Some n"
proof -
  from assms obtain b where b: "rd e 0 = Some b" by (auto simp: lpCurrentEncodedSizeUnsafe_def bind_eq_Some_conv)
  note c = rd_context0 [OF b, of pre rest]
  note r = lpCurrentEncodedSizeUnsafe_ranges [OF b] lpCurrentEncodedSizeUnsafe_ranges [OF c]
  show ?thesis
    by (cases b rule: byte_range_cases) (use assms in \<open>auto simp: r lp_len_context\<close>)
qed

lemma lpCurrentEncodedSizeBytes_ranges:
  assumes "rd lp p = Some b"
  shows "lpCurrentEncodedSizeBytes lp p =
    Some (if 224 \<le> unat b \<and> unat b < 240 then 2 else if unat b = 240 then 5
          else if 245 \<le> unat b \<and> unat b < 255 then 0 else 1)"
  using assms by (cases b rule: byte_range_cases) (auto simp: lpCurrentEncodedSizeBytes_def is_eof not_less intro: le_antisym)

fun shift_ref :: "nat \<Rightarrow> lpref \<Rightarrow> lpref" where
  "shift_ref k (LpStr off n) = LpStr (k + off) n"
| "shift_ref k r = r"

lemma le_val_snoc: "le_val (bs @ [b]) = le_val bs + 256 ^ length bs * unat b"
  by (induction bs) (simp_all add: algebra_simps)

lemma or_step:
  assumes "k = 8 * length bs" "cs = bs @ [b]"
  shows "le_val bs OR push_bit k (unat b) OR y = le_val cs OR y"
proof -
  have k: "2 ^ k = (256 :: nat) ^ length bs" by (simp add: assms(1) power_mult)
  have "le_val bs < 2 ^ k" using le_val_bound [of bs] by (simp only: k)
  from nat_or_shift_byte [OF this] show ?thesis by (simp only: assms(2) le_val_snoc k)
qed

lemma or_bytes_8:
  fixes b0 b1 b2 b3 b4 b5 b6 b7 :: byte
  shows "unat b0 OR push_bit 8 (unat b1) OR push_bit 16 (unat b2) OR push_bit 24 (unat b3) OR
    push_bit 32 (unat b4) OR push_bit 40 (unat b5) OR push_bit 48 (unat b6) OR push_bit 56 (unat b7) =
    le_val [b0, b1, b2, b3, b4, b5, b6, b7]"
proof -
  have 0: "unat b0 = le_val [b0]" by simp
  have 1: "le_val [b0] OR push_bit 8 (unat b1) OR y = le_val [b0, b1] OR y" for y
    by (rule or_step) simp_all
  have 2: "le_val [b0, b1] OR push_bit 16 (unat b2) OR y = le_val [b0, b1, b2] OR y" for y
    by (rule or_step) simp_all
  have 3: "le_val [b0, b1, b2] OR push_bit 24 (unat b3) OR y = le_val [b0, b1, b2, b3] OR y" for y
    by (rule or_step) simp_all
  have 4: "le_val [b0, b1, b2, b3] OR push_bit 32 (unat b4) OR y = le_val [b0, b1, b2, b3, b4] OR y" for y
    by (rule or_step) simp_all
  have 5: "le_val [b0, b1, b2, b3, b4] OR push_bit 40 (unat b5) OR y = le_val [b0, b1, b2, b3, b4, b5] OR y" for y
    by (rule or_step) simp_all
  have 6: "le_val [b0, b1, b2, b3, b4, b5] OR push_bit 48 (unat b6) OR y = le_val [b0, b1, b2, b3, b4, b5, b6] OR y" for y
    by (rule or_step) simp_all
  have "le_val [b0, b1, b2, b3, b4, b5, b6] OR push_bit 56 (unat b7) OR 0 =
      le_val [b0, b1, b2, b3, b4, b5, b6, b7] OR 0"
    by (rule or_step) simp_all
  then have 7: "le_val [b0, b1, b2, b3, b4, b5, b6] OR push_bit 56 (unat b7) =
      le_val [b0, b1, b2, b3, b4, b5, b6, b7]" by (simp only: or.right_neutral)
  show ?thesis unfolding 0 1 2 3 4 5 6 7 ..
qed

text \<open>The decoder, encoding by encoding.\<close>

lemma lpGetWithSize_7bit:
  "rd lp p = Some b \<Longrightarrow> unat b < 128 \<Longrightarrow> lpGetWithSize lp p NULL = Some (LpInt (int (unat b)), Some 2)"
  by (simp add: lpGetWithSize_def width_simps lp_signed_def)

lemma lpGetWithSize_6bit_str:
  "rd lp p = Some b \<Longrightarrow> 128 \<le> unat b \<Longrightarrow> unat b < 192 \<Longrightarrow>
   lpGetWithSize lp p NULL =
     Some (LpStr (p + 1) (unat b mod 64), Some (1 + unat b mod 64 + length (lpEncodeBacklen (unat b mod 64 + 1))))"
  by (simp add: lpGetWithSize_def width_simps LP_ENCODING_6BIT_STR_LEN_def)

lemma or_high_byte:
  fixes b :: byte
  shows "push_bit 8 n OR unat b = unat b + 256 * n"
  using nat_or_push_bit [of "unat b" 8 n] by (simp add: or.commute)

lemma lpGetWithSize_13bit:
  "rd lp p = Some b \<Longrightarrow> rd lp (p + 1) = Some b1 \<Longrightarrow> 192 \<le> unat b \<Longrightarrow> unat b < 224 \<Longrightarrow>
   lpGetWithSize lp p NULL =
     Some (LpInt (lp_signed (unat b1 + 256 * (unat b mod 32)) 4096 8191), Some 3)"
  by (simp add: lpGetWithSize_def width_simps or_high_byte)

lemma lpGetWithSize_16bit:
  "rd lp p = Some b \<Longrightarrow> rd lp (p + 1) = Some b1 \<Longrightarrow> rd lp (p + 2) = Some b2 \<Longrightarrow> unat b = 241 \<Longrightarrow>
   lpGetWithSize lp p NULL = Some (LpInt (lp_signed (le_val [b1, b2]) 32768 65535), Some 4)"
  by (simp add: lpGetWithSize_def or_bytes del: le_val.simps)

lemma lpGetWithSize_24bit:
  "rd lp p = Some b \<Longrightarrow> rd lp (p + 1) = Some b1 \<Longrightarrow> rd lp (p + 2) = Some b2 \<Longrightarrow> rd lp (p + 3) = Some b3 \<Longrightarrow>
   unat b = 242 \<Longrightarrow>
   lpGetWithSize lp p NULL = Some (LpInt (lp_signed (le_val [b1, b2, b3]) 8388608 16777215), Some 5)"
  by (simp add: lpGetWithSize_def or_bytes drop_bit_nat del: le_val.simps)

lemma lpGetWithSize_32bit:
  "rd lp p = Some b \<Longrightarrow> rd lp (p + 1) = Some b1 \<Longrightarrow> rd lp (p + 2) = Some b2 \<Longrightarrow> rd lp (p + 3) = Some b3 \<Longrightarrow>
   rd lp (p + 4) = Some b4 \<Longrightarrow> unat b = 243 \<Longrightarrow>
   lpGetWithSize lp p NULL = Some (LpInt (lp_signed (le_val [b1, b2, b3, b4]) 2147483648 4294967295), Some 6)"
  by (simp add: lpGetWithSize_def or_bytes del: le_val.simps)

lemma lpGetWithSize_64bit:
  "rd lp p = Some b \<Longrightarrow> rd lp (p + 1) = Some b1 \<Longrightarrow> rd lp (p + 2) = Some b2 \<Longrightarrow> rd lp (p + 3) = Some b3 \<Longrightarrow>
   rd lp (p + 4) = Some b4 \<Longrightarrow> rd lp (p + 5) = Some b5 \<Longrightarrow> rd lp (p + 6) = Some b6 \<Longrightarrow> rd lp (p + 7) = Some b7 \<Longrightarrow>
   rd lp (p + 8) = Some b8 \<Longrightarrow> unat b = 244 \<Longrightarrow>
   lpGetWithSize lp p NULL =
     Some (LpInt (lp_signed (le_val [b1, b2, b3, b4, b5, b6, b7, b8]) (2 ^ 63) UINT64_MAX), Some 10)"
  by (simp add: lpGetWithSize_def or_bytes_8 del: le_val.simps)

lemma lpGetWithSize_12bit_str:
  "rd lp p = Some b \<Longrightarrow> rd lp (p + 1) = Some b1 \<Longrightarrow> 224 \<le> unat b \<Longrightarrow> unat b < 240 \<Longrightarrow>
   lpGetWithSize lp p NULL =
     Some (LpStr (p + 2) (unat b1 + 256 * (unat b mod 16)),
       Some (2 + (unat b1 + 256 * (unat b mod 16)) +
             length (lpEncodeBacklen (unat b1 + 256 * (unat b mod 16) + 2))))"
  by (simp add: lpGetWithSize_def LP_ENCODING_12BIT_STR_LEN_def width_simps or_high_byte)

lemma lpGetWithSize_32bit_str:
  "rd lp p = Some b \<Longrightarrow> rd lp (p + 1) = Some b1 \<Longrightarrow> rd lp (p + 2) = Some b2 \<Longrightarrow> rd lp (p + 3) = Some b3 \<Longrightarrow>
   rd lp (p + 4) = Some b4 \<Longrightarrow> unat b = 240 \<Longrightarrow>
   lpGetWithSize lp p NULL =
     Some (LpStr (p + 5) (le_val [b1, b2, b3, b4]),
       Some (5 + le_val [b1, b2, b3, b4] + length (lpEncodeBacklen (le_val [b1, b2, b3, b4] + 5))))"
  by (simp add: lpGetWithSize_def LP_ENCODING_32BIT_STR_LEN_def or_bytes del: le_val.simps)

text \<open>The shapes of a well-formed body.\<close>

lemma length_numeral_conv:
  "length xs = 2 \<longleftrightarrow> (\<exists>a b. xs = [a, b])"
  "length xs = 3 \<longleftrightarrow> (\<exists>a b c. xs = [a, b, c])"
  "length xs = 4 \<longleftrightarrow> (\<exists>a b c d. xs = [a, b, c, d])"
  "length xs = 8 \<longleftrightarrow> (\<exists>a b c d e f g h. xs = [a, b, c, d, e, f, g, h])"
  by (auto simp: numeral_eq_Suc length_Suc_conv)

lemma entry_ok_cases:
  assumes "entry_ok e"
  obtains
    (I7) b where "e = [b]" "unat b < 128"
  | (S6) b s where "e = b # s" "128 \<le> unat b" "unat b < 192" "length s = unat b mod 64"
  | (I13) b b1 where "e = [b, b1]" "192 \<le> unat b" "unat b < 224"
  | (S12) b b1 s where "e = b # b1 # s" "224 \<le> unat b" "unat b < 240" "length s = unat b1 + 256 * (unat b mod 16)"
  | (S32) b b1 b2 b3 b4 s where "e = b # b1 # b2 # b3 # b4 # s" "unat b = 240" "length s = le_val [b1, b2, b3, b4]"
      "5 + length s < 4294967296"
  | (I16) b b1 b2 where "e = [b, b1, b2]" "unat b = 241"
  | (I24) b b1 b2 b3 where "e = [b, b1, b2, b3]" "unat b = 242"
  | (I32) b b1 b2 b3 b4 where "e = [b, b1, b2, b3, b4]" "unat b = 243"
  | (I64) b b1 b2 b3 b4 b5 b6 b7 b8 where "e = [b, b1, b2, b3, b4, b5, b6, b7, b8]" "unat b = 244"
proof -
  obtain b es where e: "e = b # es" and eof: "unat b \<noteq> 255" and sz: "lpCurrentEncodedSizeUnsafe e 0 = Some (length e)"
    using assms by (cases e) (auto simp: entry_ok_def is_eof)
  have b: "rd e 0 = Some b" by (simp add: e)
  note r = lpCurrentEncodedSizeUnsafe_ranges [OF b]
  show thesis
  proof (cases b rule: byte_range_cases)
    case 1
    then show thesis using r(1) sz I7 [of b] by (simp add: e)
  next
    case 2
    then show thesis using r(2) sz S6 [of b es] by (simp add: e)
  next
    case 3
    then have "length es = 1" using r(3) sz by (simp add: e)
    then obtain b1 where "es = [b1]" by (auto simp: length_Suc_conv)
    with 3 e show thesis using I13 by blast
  next
    case 4
    then obtain b1 s where "es = b1 # s"
      using r(4) sz by (cases es) (auto simp: e LP_ENCODING_12BIT_STR_LEN_def)
    then show thesis
      using 4 r(4) sz S12 [of b b1 s] by (simp add: e LP_ENCODING_12BIT_STR_LEN_def width_simps or_high_byte)
  next
    case 5
    then have "4 \<le> length es"
      using r(5) sz by (auto simp: e LP_ENCODING_32BIT_STR_LEN_def bind_eq_Some_conv rd_def split: if_splits)
    then obtain b1 b2 b3 b4 s where es: "es = b1 # b2 # b3 # b4 # s" using split4 by blast
    have "(5 + le_val [b1, b2, b3, b4]) mod 4294967296 = 5 + length s"
      using 5 r(5) sz by (simp add: e es LP_ENCODING_32BIT_STR_LEN_def or_bytes del: le_val.simps)
    moreover have "le_val [b1, b2, b3, b4] < 4294967296" using le_val_bound [of "[b1, b2, b3, b4]"] by simp
    ultimately have "length s = le_val [b1, b2, b3, b4]" "5 + length s < 4294967296"
      by (cases "5 + le_val [b1, b2, b3, b4] < 4294967296"; simp add: le_mod_geq del: le_val.simps)+
    with 5 es e show thesis using S32 by blast
  next
    case 6
    then have "unat b = 241 \<or> unat b = 242 \<or> unat b = 243 \<or> unat b = 244"
      using r(6) sz eof by (auto simp: e split: if_splits)
    then show thesis
    proof (elim disjE)
      assume u: "unat b = 241"
      then have "length es = 2" using r(6) sz by (simp add: e)
      with u e show thesis using I16 unfolding length_numeral_conv by blast
    next
      assume u: "unat b = 242"
      then have "length es = 3" using r(6) sz by (simp add: e)
      with u e show thesis using I24 unfolding length_numeral_conv by blast
    next
      assume u: "unat b = 243"
      then have "length es = 4" using r(6) sz by (simp add: e)
      with u e show thesis using I32 unfolding length_numeral_conv by blast
    next
      assume u: "unat b = 244"
      then have "length es = 8" using r(6) sz by (simp add: e)
      with u e show thesis using I64 unfolding length_numeral_conv by blast
    qed
  qed
qed

text \<open>The decoder on an entry inside a listpack: the value, and the size of the whole entry.\<close>

abbreviation entry_bytes :: "buf \<Rightarrow> nat" where
  "entry_bytes e \<equiv> length e + length (lpEncodeBacklen (length e))"

lemma lpGetWithSize_entry_ex:
  assumes "entry_ok e"
  shows "\<exists>r. \<forall>pre rest. lpGetWithSize (pre @ e @ rest) (length pre) NULL =
           Some (shift_ref (length pre) r, Some (entry_bytes e))"
  using assms
proof (cases rule: entry_ok_cases)
  case (I7 b)
  then show ?thesis
    by (intro exI [of _ "LpInt (int (unat b))"])
      (simp add: lpGetWithSize_7bit [of _ _ b] rd_append_right length_lpEncodeBacklen)
next
  case (S6 b s)
  then show ?thesis
    by (intro exI [of _ "LpStr 1 (unat b mod 64)"])
      (simp add: lpGetWithSize_6bit_str [of _ _ b] rd_append_right)
next
  case (I13 b b1)
  then show ?thesis
    by (intro exI [of _ "LpInt (lp_signed (unat b1 + 256 * (unat b mod 32)) 4096 8191)"])
      (simp add: lpGetWithSize_13bit [of _ _ b b1] rd_append_right length_lpEncodeBacklen)
next
  case (S12 b b1 s)
  then show ?thesis
    by (intro exI [of _ "LpStr 2 (unat b1 + 256 * (unat b mod 16))"])
      (simp add: lpGetWithSize_12bit_str [of _ _ b b1] rd_append_right)
next
  case (S32 b b1 b2 b3 b4 s)
  have s5: "n + 5 = Suc (Suc (Suc (Suc (Suc n))))" for n :: nat by simp
  from S32 show ?thesis
    by (intro exI [of _ "LpStr 5 (le_val [b1, b2, b3, b4])"])
      (simp add: s5 lpGetWithSize_32bit_str [of _ _ b b1 b2 b3 b4] rd_append_right del: le_val.simps)
next
  case (I16 b b1 b2)
  then show ?thesis
    by (intro exI [of _ "LpInt (lp_signed (le_val [b1, b2]) 32768 65535)"])
      (simp add: lpGetWithSize_16bit [of _ _ b b1 b2] rd_append_right length_lpEncodeBacklen del: le_val.simps)
next
  case (I24 b b1 b2 b3)
  then show ?thesis
    by (intro exI [of _ "LpInt (lp_signed (le_val [b1, b2, b3]) 8388608 16777215)"])
      (simp add: lpGetWithSize_24bit [of _ _ b b1 b2 b3] rd_append_right length_lpEncodeBacklen del: le_val.simps)
next
  case (I32 b b1 b2 b3 b4)
  then show ?thesis
    by (intro exI [of _ "LpInt (lp_signed (le_val [b1, b2, b3, b4]) 2147483648 4294967295)"])
      (simp add: lpGetWithSize_32bit [of _ _ b b1 b2 b3 b4] rd_append_right length_lpEncodeBacklen del: le_val.simps)
next
  case (I64 b b1 b2 b3 b4 b5 b6 b7 b8)
  then show ?thesis
    by (intro exI [of _ "LpInt (lp_signed (le_val [b1, b2, b3, b4, b5, b6, b7, b8]) (2 ^ 63) UINT64_MAX)"])
      (simp add: lpGetWithSize_64bit [of _ _ b b1 b2 b3 b4 b5 b6 b7 b8] rd_append_right length_lpEncodeBacklen
        del: le_val.simps)
qed

text \<open>The decoded value of an entry, as a reference into its own body.\<close>

definition entry_ref :: "buf \<Rightarrow> lpref" where
  "entry_ref e = (case lpGet e 0 NULL of Some r \<Rightarrow> r | None \<Rightarrow> LpInt 0)"

lemma lpGetWithSize_entry:
  assumes "entry_ok e"
  shows "lpGetWithSize (pre @ e @ rest) (length pre) NULL =
           Some (shift_ref (length pre) (entry_ref e), Some (entry_bytes e))"
proof -
  obtain r where r: "\<And>pre rest. lpGetWithSize (pre @ e @ rest) (length pre) NULL =
      Some (shift_ref (length pre) r, Some (entry_bytes e))"
    using lpGetWithSize_entry_ex [OF assms] by blast
  have "shift_ref 0 r = r" by (cases r) simp_all
  with r [of "[]" "[]"] have "entry_ref e = r" by (simp add: entry_ref_def lpGet_def)
  with r show ?thesis by simp
qed

lemma entry_string_ref:
  assumes "entry_ok e"
  shows "entry_string e = (case entry_ref e of LpStr off n \<Rightarrow> take n (drop off e) | LpInt v \<Rightarrow> dec_int v | _ \<Rightarrow> [])"
proof -
  have "shift_ref 0 r = r" for r by (cases r) simp_all
  then show ?thesis
    using lpGetWithSize_entry [OF assms, of "[]" "[]"]
    by (simp add: entry_string_def lpGet_def split: lpref.splits)
qed


subsection \<open>Round trips\<close>

lemma entry_refI: "lpGetWithSize e 0 NULL = Some (r, sz) \<Longrightarrow> entry_ref e = r"
  by (simp add: entry_ref_def lpGet_def)

text \<open>The sign rule inverts the offset the encoder adds to negative values.\<close>

lemma lp_signed_offset:
  fixes v :: int
  assumes "- int h \<le> v" "v < int h" "m = 2 * h"
  shows "lp_signed (nat (if v < 0 then int m + v else v)) h (m - 1) = v"
proof (cases "v < 0")
  case True
  define n where "n = nat (int m + v)"
  have "int n = int m + v" using assms True by (simp add: n_def)
  then have "h \<le> n" "int (m - 1 - n) = int m - 1 - int n" using assms True by linarith+
  with \<open>int n = int m + v\<close> True show ?thesis by (simp add: lp_signed_def n_def)
next
  case False
  then show ?thesis using assms by (auto simp: lp_signed_def)
qed

lemma int_encoding_13:
  assumes "n < 8192"
  shows "entry_ok [of_nat (drop_bit 8 n) OR 0xC0, of_nat (n AND 0xff)] \<and>
         entry_ref [of_nat (drop_bit 8 n) OR 0xC0, of_nat (n AND 0xff)] = LpInt (lp_signed n 4096 8191)"
proof -
  define b where "b = (of_nat (n div 256) :: byte) OR 0xC0"
  define b1 where "b1 = (of_nat n :: byte)"
  have "n div 256 < 32" using assms by (simp add: less_mult_imp_div_less)
  then have b: "unat b = 192 + n div 256" "unat b mod 32 = n div 256"
    using mod_mult_self1 [of "n div 256" 6 32] by (simp_all add: b_def unat_or_marker add.commute)
  have b1: "unat b1 = n mod 256" by (simp add: b1_def unat_of_nat_byte)
  have rd: "rd [b, b1] 0 = Some b" by simp
  have "unat b < 224" "192 \<le> unat b" using b \<open>n div 256 < 32\<close> by simp_all
  then have "entry_ok [b, b1]"
    using lpCurrentEncodedSizeUnsafe_ranges(3) [OF rd] by (auto simp: entry_ok_def)
  moreover have "entry_ref [b, b1] = LpInt (lp_signed n 4096 8191)"
    using lpGetWithSize_13bit [of "[b, b1]" 0 b b1] \<open>192 \<le> unat b\<close> \<open>unat b < 224\<close> b(2) b1
    by (intro entry_refI) simp
  ultimately show ?thesis by (simp add: b_def b1_def drop_bit_nat)
qed

lemma int_encoding_16:
  assumes "n < 65536"
  shows "entry_ok (0xF1 # le_bytes 2 n) \<and> entry_ref (0xF1 # le_bytes 2 n) = LpInt (lp_signed n 32768 65535)"
proof -
  obtain b1 b2 where bs: "le_bytes 2 n = [b1, b2]" by (simp add: le_bytes_unfold)
  have val: "le_val [b1, b2] = n" using le_val_le_bytes [of 2 n] assms by (simp add: bs del: le_val.simps)
  show ?thesis
    using lpCurrentEncodedSizeUnsafe_ranges(6) [of "[0xF1, b1, b2]" 0 "0xF1"]
      lpGetWithSize_16bit [of "[0xF1, b1, b2]" 0 "0xF1" b1 b2] val
    by (simp add: bs entry_ok_def entry_refI del: le_val.simps)
qed

lemma int_encoding_24:
  assumes "n < 16777216"
  shows "entry_ok (0xF2 # le_bytes 3 n) \<and> entry_ref (0xF2 # le_bytes 3 n) = LpInt (lp_signed n 8388608 16777215)"
proof -
  obtain b1 b2 b3 where bs: "le_bytes 3 n = [b1, b2, b3]" by (simp add: le_bytes_unfold)
  have val: "le_val [b1, b2, b3] = n" using le_val_le_bytes [of 3 n] assms by (simp add: bs del: le_val.simps)
  show ?thesis
    using lpCurrentEncodedSizeUnsafe_ranges(6) [of "[0xF2, b1, b2, b3]" 0 "0xF2"]
      lpGetWithSize_24bit [of "[0xF2, b1, b2, b3]" 0 "0xF2" b1 b2 b3] val
    by (simp add: bs entry_ok_def entry_refI del: le_val.simps)
qed

lemma int_encoding_32:
  assumes "n < 4294967296"
  shows "entry_ok (0xF3 # le_bytes 4 n) \<and> entry_ref (0xF3 # le_bytes 4 n) = LpInt (lp_signed n 2147483648 4294967295)"
proof -
  obtain b1 b2 b3 b4 where bs: "le_bytes 4 n = [b1, b2, b3, b4]" by (simp add: le_bytes_unfold)
  have val: "le_val [b1, b2, b3, b4] = n" using le_val_le_bytes [of 4 n] assms by (simp add: bs del: le_val.simps)
  show ?thesis
    using lpCurrentEncodedSizeUnsafe_ranges(6) [of "[0xF3, b1, b2, b3, b4]" 0 "0xF3"]
      lpGetWithSize_32bit [of "[0xF3, b1, b2, b3, b4]" 0 "0xF3" b1 b2 b3 b4] val
    by (simp add: bs entry_ok_def entry_refI del: le_val.simps)
qed

lemma int_encoding_64:
  assumes "n < 2 ^ 64"
  shows "entry_ok (0xF4 # le_bytes 8 n) \<and> entry_ref (0xF4 # le_bytes 8 n) = LpInt (lp_signed n (2 ^ 63) UINT64_MAX)"
proof -
  obtain b1 b2 b3 b4 b5 b6 b7 b8 where bs: "le_bytes 8 n = [b1, b2, b3, b4, b5, b6, b7, b8]" by (simp add: le_bytes_8)
  have val: "le_val [b1, b2, b3, b4, b5, b6, b7, b8] = n"
    using le_val_le_bytes [of 8 n] assms by (simp add: bs del: le_val.simps)
  show ?thesis
    using lpCurrentEncodedSizeUnsafe_ranges(6) [of "[0xF4, b1, b2, b3, b4, b5, b6, b7, b8]" 0 "0xF4"]
      lpGetWithSize_64bit [of "[0xF4, b1, b2, b3, b4, b5, b6, b7, b8]" 0 "0xF4" b1 b2 b3 b4 b5 b6 b7 b8] val
    by (simp add: bs entry_ok_def entry_refI del: le_val.simps)
qed

lemma of_signed_8:
  assumes "is_int64 v"
  shows "of_signed 8 v = nat (if v < 0 then 18446744073709551616 + v else v)"
proof (cases "v < 0")
  case True
  have "v mod 18446744073709551616 = (v + 18446744073709551616) mod 18446744073709551616" by simp
  also have "\<dots> = v + 18446744073709551616"
    using assms True by (intro mod_pos_pos_trivial) (auto simp: is_int64_def)
  finally show ?thesis using True by (simp add: of_signed_def)
next
  case False
  then show ?thesis using assms by (simp add: of_signed_def is_int64_def)
qed

text \<open>The integer encoder: a well-formed entry that decodes to the value.\<close>

lemma lpEncodeIntegerGetType_correct:
  assumes "is_int64 v"
  shows "entry_ok (lpEncodeIntegerGetType v) \<and> entry_ref (lpEncodeIntegerGetType v) = LpInt v"
proof -
  consider (a) "0 \<le> v" "v \<le> 127" | (b) "\<not> (0 \<le> v \<and> v \<le> 127)" "- 4096 \<le> v" "v \<le> 4095"
    | (c) "\<not> (- 4096 \<le> v \<and> v \<le> 4095)" "- 32768 \<le> v" "v \<le> 32767"
    | (d) "\<not> (- 32768 \<le> v \<and> v \<le> 32767)" "- 8388608 \<le> v" "v \<le> 8388607"
    | (e) "\<not> (- 8388608 \<le> v \<and> v \<le> 8388607)" "- 2147483648 \<le> v" "v \<le> 2147483647"
    | (f) "\<not> (- 2147483648 \<le> v \<and> v \<le> 2147483647)" by linarith
  then show ?thesis
  proof cases
    case a
    define b where "b = (of_int v :: byte)"
    obtain k where k: "v = int k" using a(1) zero_le_imp_eq_int by blast
    then have b: "unat b = k" using a(2) unat_of_nat_small [of k] by (simp add: b_def)
    have enc: "lpEncodeIntegerGetType v = [b]" using a by (simp add: lpEncodeIntegerGetType_def b_def)
    show ?thesis
      unfolding enc
      using lpCurrentEncodedSizeUnsafe_ranges(1) [of "[b]" 0 b] lpGetWithSize_7bit [of "[b]" 0 b] a b k
      by (auto simp: entry_ok_def is_eof intro!: entry_refI)
  next
    case b
    define n where "n = nat (if v < 0 then 8192 + v else v)"
    have n: "n < 8192" "lp_signed n 4096 8191 = v"
      using b lp_signed_offset [of 4096 v 8192] by (auto simp: n_def)
    have "lpEncodeIntegerGetType v = [of_nat (drop_bit 8 n) OR 0xC0, of_nat (n AND 0xff)]"
      using b unfolding lpEncodeIntegerGetType_def n_def [symmetric] Let_def by auto
    then show ?thesis using int_encoding_13 [OF n(1)] n(2) by simp
  next
    case c
    define n where "n = nat (if v < 0 then 65536 + v else v)"
    have n: "n < 65536" "lp_signed n 32768 65535 = v"
      using c lp_signed_offset [of 32768 v 65536] by (auto simp: n_def)
    have "lpEncodeIntegerGetType v = 0xF1 # le_bytes 2 n"
      using c unfolding lpEncodeIntegerGetType_def n_def [symmetric] Let_def by (auto simp: le_bytes_unfold drop_bit_nat)
    then show ?thesis using int_encoding_16 [OF n(1)] n(2) by simp
  next
    case d
    define n where "n = nat (if v < 0 then 16777216 + v else v)"
    have n: "n < 16777216" "lp_signed n 8388608 16777215 = v"
      using d lp_signed_offset [of 8388608 v 16777216] by (auto simp: n_def)
    have "lpEncodeIntegerGetType v = 0xF2 # le_bytes 3 n"
      using d unfolding lpEncodeIntegerGetType_def n_def [symmetric] Let_def by (auto simp: le_bytes_unfold drop_bit_nat)
    then show ?thesis using int_encoding_24 [OF n(1)] n(2) by simp
  next
    case e
    define n where "n = nat (if v < 0 then 4294967296 + v else v)"
    have n: "n < 4294967296" "lp_signed n 2147483648 4294967295 = v"
      using e lp_signed_offset [of 2147483648 v 4294967296] by (auto simp: n_def)
    have "lpEncodeIntegerGetType v = 0xF3 # le_bytes 4 n"
      using e unfolding lpEncodeIntegerGetType_def n_def [symmetric] Let_def by (auto simp: le_bytes_unfold drop_bit_nat)
    then show ?thesis using int_encoding_32 [OF n(1)] n(2) by simp
  next
    case f
    define n where "n = of_signed 8 v"
    have "n < 256 ^ 8" unfolding n_def by (rule of_signed_bound)
    then have bound: "n < 2 ^ 64" by simp
    have "n = nat (if v < 0 then 18446744073709551616 + v else v)" unfolding n_def using assms by (rule of_signed_8)
    then have n: "lp_signed n (2 ^ 63) UINT64_MAX = v"
      using assms lp_signed_offset [of "2 ^ 63" v "2 ^ 64"] by (auto simp: is_int64_def)
    have "lpEncodeIntegerGetType v = 0xF4 # le_bytes 8 n"
      using f unfolding lpEncodeIntegerGetType_def n_def [symmetric] Let_def by (auto simp: le_bytes_8 drop_bit_nat)
    then show ?thesis using int_encoding_64 [OF bound] n by simp
  qed
qed

text \<open>The string encoder.\<close>

lemma lpEncodeString_correct:
  assumes "length s < 4294967291"
  shows "entry_ok (lpEncodeString s) \<and>
         (\<exists>k. entry_ref (lpEncodeString s) = LpStr k (length s) \<and> drop k (lpEncodeString s) = s)"
proof -
  define n where "n = length s"
  consider (a) "n < 64" | (b) "64 \<le> n" "n < 4096" | (c) "4096 \<le> n" by linarith
  then show ?thesis
  proof cases
    case a
    define b where "b = (of_nat n :: byte) OR 0x80"
    have b: "unat b = 128 + n" "unat b mod 64 = n"
      using a mod_mult_self1 [of n 2 64] by (simp_all add: b_def unat_or_marker add.commute)
    have enc: "lpEncodeString s = b # s" using a by (simp add: lpEncodeString_def b_def n_def Let_def)
    show ?thesis
      unfolding enc
      using lpCurrentEncodedSizeUnsafe_ranges(2) [of "b # s" 0 b] lpGetWithSize_6bit_str [of "b # s" 0 b] a b
      by (auto simp: entry_ok_def is_eof n_def intro!: entry_refI exI [of _ 1])
  next
    case b
    define c where "c = (of_nat (n div 256) :: byte) OR 0xE0"
    define c1 where "c1 = (of_nat n :: byte)"
    have "n div 256 < 16" using b by (simp add: less_mult_imp_div_less)
    then have c: "unat c = 224 + n div 256" "unat c mod 16 = n div 256"
      using mod_mult_self1 [of "n div 256" 14 16] by (simp_all add: c_def unat_or_marker add.commute)
    have c1: "unat c1 = n mod 256" by (simp add: c1_def unat_of_nat_byte)
    have len: "unat c1 + 256 * (unat c mod 16) = n" unfolding c(2) c1 by simp
    have enc: "lpEncodeString s = c # c1 # s"
      using b by (simp add: lpEncodeString_def c_def c1_def n_def drop_bit_nat Let_def)
    have range: "224 \<le> unat c" "unat c < 240" using c(1) \<open>n div 256 < 16\<close> by simp_all
    show ?thesis
      unfolding enc
      using lpCurrentEncodedSizeUnsafe_ranges(4) [of "c # c1 # s" 0 c] lpGetWithSize_12bit_str [of "c # c1 # s" 0 c c1]
        range len
      by (auto simp: entry_ok_def is_eof n_def LP_ENCODING_12BIT_STR_LEN_def width_simps or_high_byte
          intro!: entry_refI exI [of _ 2])
  next
    case c
    obtain b1 b2 b3 b4 where bs: "le_bytes 4 n = [b1, b2, b3, b4]" by (simp add: le_bytes_unfold)
    have "n < 4294967296" using assms by (simp add: n_def)
    then have val: "le_val [b1, b2, b3, b4] = n"
      using le_val_le_bytes [of 4 n] by (simp add: bs del: le_val.simps)
    have enc: "lpEncodeString s = 0xF0 # b1 # b2 # b3 # b4 # s"
      using c bs by (simp add: lpEncodeString_def n_def le_bytes_unfold drop_bit_nat Let_def)
    show ?thesis
      unfolding enc
      using lpCurrentEncodedSizeUnsafe_ranges(5) [of "0xF0 # b1 # b2 # b3 # b4 # s" 0 "0xF0"]
        lpGetWithSize_32bit_str [of "0xF0 # b1 # b2 # b3 # b4 # s" 0 "0xF0" b1 b2 b3 b4] val assms
      by (auto simp: entry_ok_def n_def LP_ENCODING_32BIT_STR_LEN_def or_bytes
          simp del: le_val.simps intro!: entry_refI exI [of _ 5])
  qed
qed

text \<open>Whatever encoding \<open>lpInsert\<close> picks for a string, a reader gets the string back.\<close>

lemma lp_encode_correct:
  assumes "length s < 4294967291"
  shows "entry_ok (lp_encode s) \<and> entry_string (lp_encode s) = s"
proof (cases "lpStringToInt64 s")
  case None
  then have "lp_encode s = lpEncodeString s" by (simp add: lp_encode_def lpEncodeGetType_def Let_def)
  then show ?thesis
    using lpEncodeString_correct [OF assms] by (auto simp: entry_string_ref)
next
  case (Some v)
  then have v: "is_int64 v" "s = dec_int v"
    using string2ll_Some_iff [of s v] by (simp_all add: lpStringToInt64_eq)
  have "lp_encode s = lpEncodeIntegerGetType v" using Some by (simp add: lp_encode_def lpEncodeGetType_def Let_def)
  then show ?thesis
    using lpEncodeIntegerGetType_correct [OF v(1)] v(2) by (simp add: entry_string_ref)
qed

lemma length_lp_encode:
  "length (lp_encode s) = (case lpEncodeGetType s of Inl intenc \<Rightarrow> length intenc | Inr n \<Rightarrow> n)"
  by (simp add: lp_encode_def lpEncodeGetType_def lpEncodeString_def Let_def split: option.splits)

end
