(* ===== verification/Listpack.thy ===== *)
theory Listpack
  imports Listpack_Encoding
begin

text \<open>
  The operations of \<open>listpack.c\<close> on a listpack held in one block: traversal, validation,
  insertion, replacement and deletion, ranges, merging, searching. A position is an offset into
  the block, the block's length is what the allocator reports as its usable size, and a failed
  \<open>assert\<close> or an access outside the block is the fault \<open>None\<close>.
\<close>

subsection \<open>Traversal and entry validation\<close>

definition lpSafeToAdd :: "buf nullable \<Rightarrow> nat \<Rightarrow> bool option" where
  "lpSafeToAdd lp add = do {
     len \<leftarrow> (case lp of Ptr b \<Rightarrow> lpGetTotalBytes b | NULL \<Rightarrow> Some 0);
     Some (\<not> 2 ^ 30 < (len + add) mod 2 ^ 64) }"

definition lpNew :: "nat \<Rightarrow> buf option" where
  "lpNew capacity = do {
     let lp = replicate (if LP_HDR_SIZE + 1 < capacity then capacity else LP_HDR_SIZE + 1) 0;
     lp \<leftarrow> lpSetTotalBytes lp (LP_HDR_SIZE + 1);
     lp \<leftarrow> lpSetNumElements lp 0;
     wr lp LP_HDR_SIZE LP_EOF }"

definition lpBytes :: "buf \<Rightarrow> nat option" where
  "lpBytes lp = lpGetTotalBytes lp"

definition lpShrinkToFit :: "buf \<Rightarrow> buf option" where
  "lpShrinkToFit lp = do {
     sz \<leftarrow> lpGetTotalBytes lp;
     Some (if sz < length lp then realloc_buf lp sz else lp) }"

definition lpSkip :: "buf \<Rightarrow> nat \<Rightarrow> nat option" where
  "lpSkip lp p = do {
     entrylen \<leftarrow> lpCurrentEncodedSizeUnsafe lp p;
     let entrylen = entrylen + length (lpEncodeBacklen entrylen);
     Some (p + entrylen) }"

text \<open>\<open>lp + lpbytes - 1\<close> is the last byte a pointer may name.\<close>

definition OUT_OF_RANGE :: "nat \<Rightarrow> nat \<Rightarrow> bool" where
  "OUT_OF_RANGE lpbytes p \<longleftrightarrow> p < LP_HDR_SIZE \<or> lpbytes < p + 1"

definition lpValidateFirst :: "buf \<Rightarrow> nat nullable option" where
  "lpValidateFirst lp = do {
     b \<leftarrow> rd lp LP_HDR_SIZE;
     Some (if b = LP_EOF then NULL else Ptr LP_HDR_SIZE) }"

text \<open>The result is the return value and \<open>*pp\<close>.\<close>

definition lpValidateNext :: "buf \<Rightarrow> nat nullable \<Rightarrow> nat \<Rightarrow> (bool \<times> nat nullable) option" where
  "lpValidateNext lp pp lpbytes =
     (case pp of
        NULL \<Rightarrow> Some (False, pp)
      | Ptr p \<Rightarrow>
          if OUT_OF_RANGE lpbytes p then Some (False, pp)
          else do {
            b \<leftarrow> rd lp p;
            if b = LP_EOF then Some (True, NULL)
            else do {
              lenbytes \<leftarrow> lpCurrentEncodedSizeBytes lp p;
              if lenbytes = 0 then Some (False, pp)
              else if OUT_OF_RANGE lpbytes (p + lenbytes) then Some (False, pp)
              else do {
                entrylen \<leftarrow> lpCurrentEncodedSizeUnsafe lp p;
                let encodedBacklen = length (lpEncodeBacklen entrylen);
                let entrylen = entrylen + encodedBacklen;
                if OUT_OF_RANGE lpbytes (p + entrylen) then Some (False, pp)
                else do {
                  let p = p + entrylen;
                  prevlen \<leftarrow> lpDecodeBacklen lp (p - 1);
                  if (prevlen + encodedBacklen) mod 2 ^ 64 \<noteq> entrylen then Some (False, pp)
                  else Some (True, Ptr p)
                }
              }
            }
          })"

definition lpAssertValidEntry :: "buf \<Rightarrow> nat \<Rightarrow> nat \<Rightarrow> unit option" where
  "lpAssertValidEntry lp lpbytes p = do {
     (ok, _) \<leftarrow> lpValidateNext lp (Ptr p) lpbytes;
     assertC ok }"

definition lpNext :: "buf \<Rightarrow> nat \<Rightarrow> nat nullable option" where
  "lpNext lp p = do {
     p \<leftarrow> lpSkip lp p;
     b \<leftarrow> rd lp p;
     if b = LP_EOF then Some NULL
     else do {
       lpbytes \<leftarrow> lpBytes lp;
       lpAssertValidEntry lp lpbytes p;
       Some (Ptr p)
     } }"

text \<open>
  A pointer moved before the listpack fails the assertion that follows; \<open>prevlen\<close> is a
  \<open>uint64_t\<close> and wraps when the backlen is invalid.
\<close>

definition lpPrev :: "buf \<Rightarrow> nat \<Rightarrow> nat nullable option" where
  "lpPrev lp p =
     (if p = LP_HDR_SIZE then Some NULL
      else if p = 0 then None
      else do {
        let p = p - 1;
        prevlen \<leftarrow> lpDecodeBacklen lp p;
        let prevlen = (prevlen + length (lpEncodeBacklen prevlen)) mod 2 ^ 64;
        if p < prevlen - 1 then None
        else do {
          let p = p - (prevlen - 1);
          lpbytes \<leftarrow> lpBytes lp;
          lpAssertValidEntry lp lpbytes p;
          Some (Ptr p)
        }
      })"

definition lpFirst :: "buf \<Rightarrow> nat nullable option" where
  "lpFirst lp = do {
     let p = LP_HDR_SIZE;
     b \<leftarrow> rd lp p;
     if b = LP_EOF then Some NULL
     else do {
       lpbytes \<leftarrow> lpBytes lp;
       lpAssertValidEntry lp lpbytes p;
       Some (Ptr p)
     } }"

definition lpLast :: "buf \<Rightarrow> nat nullable option" where
  "lpLast lp = do {
     total \<leftarrow> lpGetTotalBytes lp;
     if total = 0 then None else lpPrev lp (total - 1) }"

text \<open>Every step forward moves to a higher offset inside the block.\<close>

lemma lpSkip_gt: "lpSkip lp p = Some q \<Longrightarrow> p < q"
  by (auto simp: lpSkip_def bind_eq_Some_conv length_lpEncodeBacklen split: if_splits)

lemma lpNext_gt:
  assumes "lpNext lp p = Some (Ptr q)"
  shows "p < q" "q < length lp"
proof -
  from assms have "lpSkip lp p = Some q" "rd lp q \<noteq> None"
    by (auto simp: lpNext_def bind_eq_Some_conv split: if_splits)
  then show "p < q" "q < length lp" by (auto simp: rd_def dest: lpSkip_gt split: if_splits)
qed

lemma lpValidateNext_gt:
  assumes "lpValidateNext lp (Ptr p) bytes = Some (True, Ptr q)"
  shows "p < q"
proof -
  have "\<exists>n. q = p + (n + length (lpEncodeBacklen n))"
    using assms by (auto simp: lpValidateNext_def bind_eq_Some_conv Let_def split: if_splits)
  then show ?thesis by auto
qed

text \<open>The scan of \<open>lpLength\<close>; \<open>count\<close> is a \<open>uint32_t\<close>.\<close>

function lpLength_loop :: "buf \<Rightarrow> nat \<Rightarrow> nat nullable \<Rightarrow> nat option" where
  "lpLength_loop lp count NULL = Some count"
| "lpLength_loop lp count (Ptr p) =
     (let count = (count + 1) mod 4294967296 in
      case lpNext lp p of
        None \<Rightarrow> None
      | Some p' \<Rightarrow> lpLength_loop lp count p')"
  by pat_completeness auto
termination
proof (relation "measure (\<lambda>(lp, _, p). case p of NULL \<Rightarrow> 0 | Ptr p \<Rightarrow> Suc (length lp - p))", goal_cases)
  case (2 lp count p c p')
  then show ?case using lpNext_gt [of lp p] by (cases p') (auto intro: diff_less_mono2)
qed simp

text \<open>The result is the count and the listpack with its header updated.\<close>

definition lpLength :: "buf \<Rightarrow> (nat \<times> buf) option" where
  "lpLength lp = do {
     numele \<leftarrow> lpGetNumElements lp;
     if numele \<noteq> LP_HDR_NUMELE_UNKNOWN then Some (numele, lp)
     else do {
       p \<leftarrow> lpFirst lp;
       count \<leftarrow> lpLength_loop lp 0 p;
       lp \<leftarrow> (if count < LP_HDR_NUMELE_UNKNOWN then lpSetNumElements lp count else Some lp);
       Some (count, lp)
     } }"

text \<open>\<open>lpValidateIntegrity\<close> in deep mode; \<open>entry_cb\<close> is the optional callback of the caller.\<close>

function lpValidate_loop ::
  "buf \<Rightarrow> nat \<Rightarrow> nat \<Rightarrow> (nat \<Rightarrow> nat \<Rightarrow> bool) nullable \<Rightarrow> nat \<Rightarrow> nat nullable \<Rightarrow> (nat \<times> nat nullable) option option" where
  "lpValidate_loop lp bytes numele entry_cb count NULL = Some (Some (count, NULL))"
| "lpValidate_loop lp bytes numele entry_cb count (Ptr p) =
     (case rd lp p of
        None \<Rightarrow> None
      | Some b \<Rightarrow>
          if b = LP_EOF then Some (Some (count, Ptr p))
          else case lpValidateNext lp (Ptr p) bytes of
                 None \<Rightarrow> None
               | Some (False, _) \<Rightarrow> Some None
               | Some (True, p') \<Rightarrow>
                   if (case entry_cb of NULL \<Rightarrow> False | Ptr cb \<Rightarrow> \<not> cb p numele) then Some None
                   else lpValidate_loop lp bytes numele entry_cb ((count + 1) mod 4294967296) p')"
  by pat_completeness auto
termination
proof (relation "measure (\<lambda>(lp, _, _, _, _, p). case p of NULL \<Rightarrow> 0 | Ptr p \<Rightarrow> Suc (length lp - p))", goal_cases)
  case (2 lp bytes numele entry_cb count p b r ok p')
  have "p < length lp" using 2(1) by (simp add: rd_def split: if_splits)
  moreover have "p < q" if "p' = Ptr q" for q
    using 2 that lpValidateNext_gt [of lp p bytes q] by simp
  ultimately show ?case by (cases p') (auto intro: diff_less_mono2)
qed simp

definition lpValidateIntegrity :: "buf \<Rightarrow> nat \<Rightarrow> bool \<Rightarrow> (nat \<Rightarrow> nat \<Rightarrow> bool) nullable \<Rightarrow> bool option" where
  "lpValidateIntegrity lp sz deep entry_cb =
     (if sz < LP_HDR_SIZE + 1 then Some False
      else do {
        bytes \<leftarrow> lpGetTotalBytes lp;
        if bytes \<noteq> sz then Some False
        else do {
          b \<leftarrow> rd lp (sz - 1);
          if b \<noteq> LP_EOF then Some False
          else if \<not> deep then Some True
          else do {
            numele \<leftarrow> lpGetNumElements lp;
            r \<leftarrow> lpValidate_loop lp bytes numele entry_cb 0 (Ptr LP_HDR_SIZE);
            case r of
              None \<Rightarrow> Some False
            | Some (count, p) \<Rightarrow>
                if p \<noteq> Ptr (sz - 1) then Some False
                else if numele \<noteq> LP_HDR_NUMELE_UNKNOWN \<and> numele \<noteq> count then Some False
                else Some True
          }
        }
      })"

text \<open>The forward and backward scans of \<open>lpSeek\<close>: \<open>n\<close> steps unless \<open>NULL\<close> comes first.\<close>

fun lpSeek_forward :: "buf \<Rightarrow> nat \<Rightarrow> nat nullable \<Rightarrow> nat nullable option" where
  "lpSeek_forward lp 0 ele = Some ele"
| "lpSeek_forward lp (Suc n) NULL = Some NULL"
| "lpSeek_forward lp (Suc n) (Ptr p) = do { ele \<leftarrow> lpNext lp p; lpSeek_forward lp n ele }"

fun lpSeek_backward :: "buf \<Rightarrow> nat \<Rightarrow> nat nullable \<Rightarrow> nat nullable option" where
  "lpSeek_backward lp 0 ele = Some ele"
| "lpSeek_backward lp (Suc n) NULL = Some NULL"
| "lpSeek_backward lp (Suc n) (Ptr p) = do { ele \<leftarrow> lpPrev lp p; lpSeek_backward lp n ele }"

definition lpSeek :: "buf \<Rightarrow> int \<Rightarrow> nat nullable option" where
  "lpSeek lp index = do {
     numele \<leftarrow> lpGetNumElements lp;
     let index = (if numele \<noteq> LP_HDR_NUMELE_UNKNOWN \<and> index < 0 then int numele + index else index);
     if numele \<noteq> LP_HDR_NUMELE_UNKNOWN \<and> index < 0 then Some NULL
     else if numele \<noteq> LP_HDR_NUMELE_UNKNOWN \<and> int numele \<le> index then Some NULL
     else do {
       let forward = (if numele \<noteq> LP_HDR_NUMELE_UNKNOWN then \<not> int numele div 2 < index else \<not> index < 0);
       let index = (if numele \<noteq> LP_HDR_NUMELE_UNKNOWN \<and> \<not> forward then index - int numele else index);
       if forward then do { ele \<leftarrow> lpFirst lp; lpSeek_forward lp (nat index) ele }
       else do { ele \<leftarrow> lpLast lp; lpSeek_backward lp (nat (- 1 - index)) ele }
     } }"


subsection \<open>Insertion, replacement, deletion\<close>

datatype lp_where = LP_BEFORE | LP_AFTER | LP_REPLACE

text \<open>\<open>enctype\<close> together with the data it selects.\<close>

datatype lp_enctype = ENC_INT buf | ENC_STR buf | ENC_NONE

text \<open>The first part of \<open>lpInsert\<close> that computes \<open>enctype\<close> and \<open>enclen\<close>.\<close>

definition lpInsert_enc :: "buf nullable \<Rightarrow> buf nullable \<Rightarrow> lp_enctype \<times> nat" where
  "lpInsert_enc elestr eleint =
     (case elestr of
        Ptr s \<Rightarrow> (case lpEncodeGetType s of
                   Inl intenc \<Rightarrow> (ENC_INT intenc, length intenc)
                 | Inr enclen \<Rightarrow> (ENC_STR s, enclen))
      | NULL \<Rightarrow> (case eleint of
                  Ptr intenc \<Rightarrow> (ENC_INT intenc, length intenc)
                | NULL \<Rightarrow> (ENC_NONE, 0)))"

text \<open>Storing one encoded element at \<open>dst\<close>.\<close>

definition lp_store :: "buf \<Rightarrow> nat \<Rightarrow> lp_enctype \<Rightarrow> buf option" where
  "lp_store lp dst enctype =
     (case enctype of
        ENC_INT intenc \<Rightarrow> wr_range lp dst intenc
      | ENC_STR s \<Rightarrow> wr_range lp dst (lpEncodeString s)
      | ENC_NONE \<Rightarrow> None)"

text \<open>
  The second half of \<open>lpInsert\<close>, once the sizes are known: reallocation before, relocation of the
  tail, reallocation after, \<open>*newp\<close>, the entry itself, the header. \<open>newp\<close> says whether the caller
  passed a pointer for it.
\<close>

definition lpInsert_apply ::
  "buf \<Rightarrow> nat \<Rightarrow> lp_where \<Rightarrow> bool \<Rightarrow> lp_enctype \<Rightarrow> nat \<Rightarrow> buf \<Rightarrow> nat \<Rightarrow> nat \<Rightarrow> nat \<Rightarrow> bool \<Rightarrow> (buf \<times> nat nullable) option" where
  "lpInsert_apply lp poff whr delete enctype enclen backlen replaced_len old_listpack_bytes new_listpack_bytes newp = do {
     let backlen_size = length backlen;
     let lp = (if old_listpack_bytes < new_listpack_bytes \<and> length lp < new_listpack_bytes
               then realloc_buf lp new_listpack_bytes else lp);
     lp \<leftarrow> (if whr = LP_BEFORE
            then memmove lp (poff + enclen + backlen_size) poff (sub64 old_listpack_bytes poff)
            else memmove lp (poff + enclen + backlen_size) (poff + replaced_len)
                   (sub64 (sub64 old_listpack_bytes poff) replaced_len));
     let lp = (if new_listpack_bytes < old_listpack_bytes then realloc_buf lp new_listpack_bytes else lp);
     np \<leftarrow> (if newp then
              if delete then do { b \<leftarrow> rd lp poff; Some (if b = LP_EOF then NULL else Ptr poff) }
              else Some (Ptr poff)
            else Some NULL);
     lp \<leftarrow> (if \<not> delete then do {
              lp \<leftarrow> lp_store lp poff enctype;
              wr_range lp (poff + enclen) backlen }
            else Some lp);
     lp \<leftarrow> (if whr \<noteq> LP_REPLACE \<or> delete then do {
              num_elements \<leftarrow> lpGetNumElements lp;
              if num_elements \<noteq> LP_HDR_NUMELE_UNKNOWN
              then if \<not> delete then lpSetNumElements lp (num_elements + 1)
                   else lpSetNumElements lp (sub32 num_elements 1)
              else Some lp }
            else Some lp);
     lp \<leftarrow> lpSetTotalBytes lp new_listpack_bytes;
     Some (lp, np) }"

text \<open>
  \<open>NULL\<close> is the return value \<open>NULL\<close> (the result would exceed \<open>UINT32_MAX\<close> bytes), otherwise the
  new block and \<open>*newp\<close>.
\<close>

definition lpInsert ::
  "buf \<Rightarrow> buf nullable \<Rightarrow> buf nullable \<Rightarrow> nat \<Rightarrow> lp_where \<Rightarrow> bool \<Rightarrow> (buf \<times> nat nullable) nullable option" where
  "lpInsert lp elestr eleint p whr newp = do {
     let delete = (elestr = NULL \<and> eleint = NULL);
     let whr = (if delete then LP_REPLACE else whr);
     (p, whr) \<leftarrow> (if whr = LP_AFTER then do {
                    p \<leftarrow> lpSkip lp p;
                    total \<leftarrow> lpGetTotalBytes lp;
                    assertC (LP_HDR_SIZE \<le> p \<and> p < total);
                    Some (p, LP_BEFORE) }
                  else Some (p, whr));
     let (enctype, enclen) = lpInsert_enc elestr eleint;
     let backlen = (if \<not> delete then lpEncodeBacklen enclen else []);
     old_listpack_bytes \<leftarrow> lpGetTotalBytes lp;
     replaced_len \<leftarrow> (if whr = LP_REPLACE then do {
                        len \<leftarrow> lpCurrentEncodedSizeUnsafe lp p;
                        let len = (len + length (lpEncodeBacklen len)) mod 4294967296;
                        assertC (LP_HDR_SIZE \<le> p \<and> p + len < old_listpack_bytes);
                        Some len }
                      else Some 0);
     let new_listpack_bytes = sub64 (old_listpack_bytes + enclen + length backlen) replaced_len;
     if UINT32_MAX < new_listpack_bytes then Some NULL
     else map_option Ptr (lpInsert_apply lp p whr delete enctype enclen backlen replaced_len
            old_listpack_bytes new_listpack_bytes newp) }"

definition lpInsertString :: "buf \<Rightarrow> buf \<Rightarrow> nat \<Rightarrow> lp_where \<Rightarrow> bool \<Rightarrow> (buf \<times> nat nullable) nullable option" where
  "lpInsertString lp s p whr newp = lpInsert lp (Ptr s) NULL p whr newp"

definition lpInsertInteger :: "buf \<Rightarrow> int \<Rightarrow> nat \<Rightarrow> lp_where \<Rightarrow> bool \<Rightarrow> (buf \<times> nat nullable) nullable option" where
  "lpInsertInteger lp lval p whr newp = lpInsert lp NULL (Ptr (lpEncodeIntegerGetType lval)) p whr newp"

text \<open>The wrappers that pass \<open>NULL\<close> for \<open>newp\<close> return the block alone.\<close>

definition lp_only :: "(buf \<times> nat nullable) nullable option \<Rightarrow> buf nullable option" where
  "lp_only r = map_option (\<lambda>x. case x of NULL \<Rightarrow> NULL | Ptr (lp, _) \<Rightarrow> Ptr lp) r"

definition lpAppend :: "buf \<Rightarrow> buf \<Rightarrow> buf nullable option" where
  "lpAppend lp ele = do {
     listpack_bytes \<leftarrow> lpGetTotalBytes lp;
     lp_only (lpInsert lp (Ptr ele) NULL (listpack_bytes - 1) LP_BEFORE False) }"

definition lpAppendInteger :: "buf \<Rightarrow> int \<Rightarrow> buf nullable option" where
  "lpAppendInteger lp lval = do {
     listpack_bytes \<leftarrow> lpGetTotalBytes lp;
     lp_only (lpInsertInteger lp lval (listpack_bytes - 1) LP_BEFORE False) }"

definition lpPrepend :: "buf \<Rightarrow> buf \<Rightarrow> buf nullable option" where
  "lpPrepend lp s = do {
     p \<leftarrow> lpFirst lp;
     case p of
       NULL \<Rightarrow> lpAppend lp s
     | Ptr p \<Rightarrow> lp_only (lpInsert lp (Ptr s) NULL p LP_BEFORE False) }"

definition lpPrependInteger :: "buf \<Rightarrow> int \<Rightarrow> buf nullable option" where
  "lpPrependInteger lp lval = do {
     p \<leftarrow> lpFirst lp;
     case p of
       NULL \<Rightarrow> lpAppendInteger lp lval
     | Ptr p \<Rightarrow> lp_only (lpInsertInteger lp lval p LP_BEFORE False) }"

definition lpReplace :: "buf \<Rightarrow> nat \<Rightarrow> buf \<Rightarrow> (buf \<times> nat nullable) nullable option" where
  "lpReplace lp p s = lpInsert lp (Ptr s) NULL p LP_REPLACE True"

definition lpReplaceInteger :: "buf \<Rightarrow> nat \<Rightarrow> int \<Rightarrow> (buf \<times> nat nullable) nullable option" where
  "lpReplaceInteger lp p lval = lpInsertInteger lp lval p LP_REPLACE True"

definition lpDelete :: "buf \<Rightarrow> nat \<Rightarrow> bool \<Rightarrow> (buf \<times> nat nullable) nullable option" where
  "lpDelete lp p newp = lpInsert lp NULL NULL p LP_REPLACE newp"


subsection \<open>Batches, ranges, merging\<close>

text \<open>A value given to or returned by the batch functions: \<open>slen\<close> is the length of \<open>sval\<close>.\<close>

record listpackEntry =
  sval :: "buf nullable"
  lval :: int

definition lpBatch_enc :: "listpackEntry \<Rightarrow> lp_enctype \<times> nat" where
  "lpBatch_enc e =
     (case sval e of
        Ptr s \<Rightarrow> (case lpEncodeGetType s of
                   Inl intenc \<Rightarrow> (ENC_INT intenc, length intenc)
                 | Inr enclen \<Rightarrow> (ENC_STR s, enclen))
      | NULL \<Rightarrow> (ENC_INT (lpEncodeIntegerGetType (lval e)), length (lpEncodeIntegerGetType (lval e))))"

text \<open>The second loop: the result is the block, \<open>dst\<close> and \<open>*newp\<close>.\<close>

fun lpBatch_write :: "buf \<Rightarrow> nat \<Rightarrow> nat nullable \<Rightarrow> (lp_enctype \<times> nat) list \<Rightarrow> (buf \<times> nat nullable) option" where
  "lpBatch_write lp dst newp [] = Some (lp, newp)"
| "lpBatch_write lp dst newp ((enctype, enclen) # enc) = do {
     let newp = Ptr dst;
     lp \<leftarrow> lp_store lp dst enctype;
     let dst = dst + enclen;
     lp \<leftarrow> wr_range lp dst (lpEncodeBacklen enclen);
     lpBatch_write lp (dst + length (lpEncodeBacklen enclen)) newp enc
   }"

definition lpBatchInsert ::
  "buf \<Rightarrow> nat \<Rightarrow> lp_where \<Rightarrow> listpackEntry list \<Rightarrow> (buf \<times> nat nullable) nullable option" where
  "lpBatchInsert lp p whr entries = do {
     assertC (whr = LP_BEFORE \<or> whr = LP_AFTER);
     assertC (entries \<noteq> []);
     p \<leftarrow> (if whr = LP_AFTER then do {
             p \<leftarrow> lpSkip lp p;
             total \<leftarrow> lpGetTotalBytes lp;
             assertC (LP_HDR_SIZE \<le> p \<and> p < total);
             Some p }
           else Some p);
     let enc = map lpBatch_enc entries;
     let addedlen = sum_list (map (\<lambda>(_, enclen). enclen + length (lpEncodeBacklen enclen)) enc);
     old_listpack_bytes \<leftarrow> lpGetTotalBytes lp;
     let new_listpack_bytes = old_listpack_bytes + addedlen;
     if UINT32_MAX < new_listpack_bytes then Some NULL
     else do {
       let poff = p;
       let lp = (if old_listpack_bytes < new_listpack_bytes \<and> length lp < new_listpack_bytes
                 then realloc_buf lp new_listpack_bytes else lp);
       lp \<leftarrow> memmove lp (poff + addedlen) poff (sub64 old_listpack_bytes poff);
       (lp, newp) \<leftarrow> lpBatch_write lp poff NULL enc;
       num_elements \<leftarrow> lpGetNumElements lp;
       lp \<leftarrow> (if num_elements \<noteq> LP_HDR_NUMELE_UNKNOWN
              then if int LP_HDR_NUMELE_UNKNOWN - int num_elements < int (length entries)
                   then lpSetNumElements lp LP_HDR_NUMELE_UNKNOWN
                   else lpSetNumElements lp (num_elements + length entries)
              else Some lp);
       lp \<leftarrow> lpSetTotalBytes lp new_listpack_bytes;
       Some (Ptr (lp, newp))
     } }"

definition lpBatchAppend :: "buf \<Rightarrow> listpackEntry list \<Rightarrow> buf nullable option" where
  "lpBatchAppend lp entries = do {
     listpack_bytes \<leftarrow> lpGetTotalBytes lp;
     lp_only (lpBatchInsert lp (listpack_bytes - 1) LP_BEFORE entries) }"

text \<open>The loop that finds the end of the range: \<open>deleted\<close> and \<open>tail\<close>.\<close>

fun lpDeleteRange_loop :: "buf \<Rightarrow> nat \<Rightarrow> nat \<Rightarrow> nat \<Rightarrow> nat \<Rightarrow> (nat \<times> nat) option" where
  "lpDeleteRange_loop lp bytes 0 deleted tail = Some (deleted, tail)"
| "lpDeleteRange_loop lp bytes (Suc num) deleted tail = do {
     let deleted = deleted + 1;
     tail \<leftarrow> lpSkip lp tail;
     b \<leftarrow> rd lp tail;
     if b = LP_EOF then Some (deleted, tail)
     else do {
       lpAssertValidEntry lp bytes tail;
       lpDeleteRange_loop lp bytes num deleted tail
     } }"

definition lpDeleteRangeWithEntry :: "buf \<Rightarrow> nat \<Rightarrow> nat \<Rightarrow> (buf \<times> nat nullable) option" where
  "lpDeleteRangeWithEntry lp p num = do {
     bytes \<leftarrow> lpBytes lp;
     if num = 0 then Some (lp, Ptr p)
     else do {
       let first = p;
       (deleted, tail) \<leftarrow> lpDeleteRange_loop lp bytes num 0 first;
       let poff = first;
       lp \<leftarrow> memmove lp first tail (sub64 bytes tail);
       lp \<leftarrow> lpSetTotalBytes lp (sub64 bytes (tail - first));
       numele \<leftarrow> lpGetNumElements lp;
       lp \<leftarrow> (if numele \<noteq> LP_HDR_NUMELE_UNKNOWN then lpSetNumElements lp (sub64 numele deleted) else Some lp);
       lp \<leftarrow> lpShrinkToFit lp;
       b \<leftarrow> rd lp poff;
       Some (lp, if b = LP_EOF then NULL else Ptr poff)
     } }"

definition lpDeleteRange :: "buf \<Rightarrow> int \<Rightarrow> nat \<Rightarrow> buf option" where
  "lpDeleteRange lp index num = do {
     numele \<leftarrow> lpGetNumElements lp;
     if num = 0 then Some lp
     else do {
       r \<leftarrow> lpSeek lp index;
       case r of
         NULL \<Rightarrow> Some lp
       | Ptr p \<Rightarrow> do {
           let index = (if numele \<noteq> LP_HDR_NUMELE_UNKNOWN \<and> index < 0 then int numele + index else index);
           if numele \<noteq> LP_HDR_NUMELE_UNKNOWN \<and> sub64 numele (of_signed 8 index) \<le> num
           then do {
             lp \<leftarrow> wr lp p LP_EOF;
             lp \<leftarrow> lpSetTotalBytes lp (p + 1);
             lp \<leftarrow> lpSetNumElements lp (of_signed 8 index);
             lpShrinkToFit lp
           }
           else map_option fst (lpDeleteRangeWithEntry lp p num)
         }
     } }"

text \<open>The loop over the elements to delete; the result is the block and \<open>dst\<close>.\<close>

fun lpBatchDelete_loop :: "buf \<Rightarrow> nat \<Rightarrow> nat \<Rightarrow> nat list \<Rightarrow> (buf \<times> nat) option" where
  "lpBatchDelete_loop lp lp_end dst [] = Some (lp, dst)"
| "lpBatchDelete_loop lp lp_end dst (skip # ps) = do {
     b \<leftarrow> rd lp skip;
     assertC (b \<noteq> LP_EOF);
     keep_start \<leftarrow> lpSkip lp skip;
     if ps \<noteq> [] \<and> keep_start = hd ps then lpBatchDelete_loop lp lp_end dst ps
     else do {
       let keep_end = (if ps \<noteq> [] then hd ps else lp_end);
       assertC (keep_start < keep_end);
       let bytes_to_keep = keep_end - keep_start;
       lp \<leftarrow> memmove lp dst keep_start bytes_to_keep;
       lpBatchDelete_loop lp lp_end (dst + bytes_to_keep) ps
     } }"

definition lpBatchDelete :: "buf \<Rightarrow> nat list \<Rightarrow> buf option" where
  "lpBatchDelete lp ps =
     (if ps = [] then Some lp
      else do {
        let dst = hd ps;
        total_bytes \<leftarrow> lpGetTotalBytes lp;
        let lp_end = total_bytes;
        b \<leftarrow> (if lp_end = 0 then None else rd lp (lp_end - 1));
        assertC (b = LP_EOF);
        (lp, dst) \<leftarrow> lpBatchDelete_loop lp lp_end dst ps;
        let deleted_bytes = sub64 lp_end dst;
        let total_bytes = sub64 total_bytes deleted_bytes;
        b \<leftarrow> (if total_bytes = 0 then None else rd lp (total_bytes - 1));
        assertC (b = LP_EOF);
        lp \<leftarrow> lpSetTotalBytes lp total_bytes;
        numele \<leftarrow> lpGetNumElements lp;
        lp \<leftarrow> (if numele \<noteq> LP_HDR_NUMELE_UNKNOWN then lpSetNumElements lp (sub64 numele (length ps)) else Some lp);
        lpShrinkToFit lp
      })"

text \<open>
  \<open>same\<close> says whether the two pointers are equal. The result is the return value, \<open>*first\<close> and
  \<open>*second\<close> at exit.
\<close>

definition lpMerge :: "bool \<Rightarrow> buf nullable \<Rightarrow> buf nullable \<Rightarrow> (buf nullable \<times> buf nullable \<times> buf nullable) option" where
  "lpMerge same first second =
     (case (first, second) of
        (Ptr fst_lp, Ptr snd_lp) \<Rightarrow>
          if same then Some (NULL, first, second)
          else do {
            first_bytes \<leftarrow> lpBytes fst_lp;
            (first_len, fst_lp) \<leftarrow> lpLength fst_lp;
            second_bytes \<leftarrow> lpBytes snd_lp;
            (second_len, snd_lp) \<leftarrow> lpLength snd_lp;
            let append = (second_bytes \<le> first_bytes);
            let (target, target_bytes, source, source_bytes) =
              (if append then (fst_lp, first_bytes, snd_lp, second_bytes)
               else (snd_lp, second_bytes, fst_lp, first_bytes));
            let lpbytes = sub64 (first_bytes + second_bytes) (LP_HDR_SIZE + 1);
            assertC (lpbytes < UINT32_MAX);
            let lplength = first_len + second_len;
            let lplength = (if lplength < UINT16_MAX then lplength else UINT16_MAX);
            let target = realloc_buf target lpbytes;
            target \<leftarrow>
              (if append then do {
                 c \<leftarrow> rd_range source LP_HDR_SIZE (sub64 source_bytes LP_HDR_SIZE);
                 wr_range target (target_bytes - 1) c }
               else do {
                 target \<leftarrow> memmove target (source_bytes - 1) LP_HDR_SIZE (sub64 target_bytes LP_HDR_SIZE);
                 c \<leftarrow> rd_range source 0 (source_bytes - 1);
                 wr_range target 0 c });
            target \<leftarrow> lpSetNumElements target lplength;
            target \<leftarrow> lpSetTotalBytes target lpbytes;
            Some (if append then (Ptr target, Ptr target, NULL) else (Ptr target, NULL, Ptr target))
          }
      | _ \<Rightarrow> Some (NULL, first, second))"

definition lpDup :: "buf \<Rightarrow> buf option" where
  "lpDup lp = do { lpbytes \<leftarrow> lpBytes lp; rd_range lp 0 lpbytes }"

definition lpEntrySizeInteger :: "int \<Rightarrow> nat" where
  "lpEntrySizeInteger v =
     (let enclen = length (lpEncodeIntegerGetType v) in enclen + length (lpEncodeBacklen enclen))"

definition lpEstimateBytesRepeatedInteger :: "int \<Rightarrow> nat \<Rightarrow> nat" where
  "lpEstimateBytesRepeatedInteger v rep = (LP_HDR_SIZE + lpEntrySizeInteger v * rep + 1) mod 2 ^ 64"


subsection \<open>Values, searching, random access\<close>

text \<open>The value of an entry as a \<open>listpackEntry\<close>: \<open>slen\<close> is an \<open>unsigned int\<close>.\<close>

definition lpGetValue :: "buf \<Rightarrow> nat \<Rightarrow> listpackEntry option" where
  "lpGetValue lp p = do {
     r \<leftarrow> lpGet lp p NULL;
     case r of
       LpStr off n \<Rightarrow> do { s \<leftarrow> rd_range lp off (n mod 4294967296); Some \<lparr>sval = Ptr s, lval = 0\<rparr> }
     | LpInt v \<Rightarrow> Some \<lparr>sval = NULL, lval = v\<rparr>
     | LpBuf _ _ \<Rightarrow> None }"

definition lpCompare :: "buf \<Rightarrow> nat \<Rightarrow> buf \<Rightarrow> bool option" where
  "lpCompare lp p s = do {
     b \<leftarrow> rd lp p;
     if b = LP_EOF then Some False
     else do {
       r \<leftarrow> lpGet lp p NULL;
       case r of
         LpStr off n \<Rightarrow> if length s = n then do { c \<leftarrow> rd_range lp off n; Some (c = s) } else Some False
       | LpInt sz \<Rightarrow> (case lpStringToInt64 s of Some v \<Rightarrow> Some (sz = v) | None \<Rightarrow> Some False)
       | LpBuf _ _ \<Rightarrow> None
     } }"

text \<open>
  One iteration of the loop of \<open>lpFindCb\<close>: \<open>Inl p\<close> is \<open>return p\<close>, otherwise the new \<open>p\<close>,
  \<open>skipcnt\<close>, \<open>entry_size\<close> (which keeps its value when the entry is not recognised) and the
  callback's data. The callback's first result is whether it returned zero.
\<close>

definition lpFindCb_step ::
  "buf \<Rightarrow> nat \<Rightarrow> (buf \<Rightarrow> nat \<Rightarrow> 'u \<Rightarrow> lpref \<Rightarrow> (bool \<times> 'u) option) \<Rightarrow> nat \<Rightarrow> nat \<Rightarrow> nat \<Rightarrow> nat \<Rightarrow> 'u \<Rightarrow>
   (nat + nat \<times> nat \<times> nat \<times> 'u) option" where
  "lpFindCb_step lp lp_bytes cmp skip p skipcnt entry_size user =
     (if skipcnt = 0 then do {
        (value, es) \<leftarrow> lpGetWithSize lp p NULL;
        let entry_size = (case es of Some n \<Rightarrow> n | None \<Rightarrow> entry_size);
        assertC (case value of LpStr _ _ \<Rightarrow> LP_HDR_SIZE \<le> p \<and> p + entry_size < lp_bytes | _ \<Rightarrow> True);
        (zero, user) \<leftarrow> cmp lp p user value;
        if zero then Some (Inl p)
        else Some (Inr (p + entry_size, skip, entry_size, user))
      }
      else do {
        p' \<leftarrow> lpSkip lp p;
        Some (Inr (p', skipcnt - 1, entry_size, user))
      })"

text \<open>The checks at the end of an iteration; the result says whether \<open>p\<close> is at the terminator.\<close>

definition lpFindCb_check :: "buf \<Rightarrow> nat \<Rightarrow> nat \<Rightarrow> bool option" where
  "lpFindCb_check lp lp_bytes p = do {
     (if lp_bytes \<le> p + 8 then lpAssertValidEntry lp lp_bytes p
      else assertC (LP_HDR_SIZE \<le> p \<and> p < lp_bytes));
     b \<leftarrow> rd lp p;
     Some (b = LP_EOF) }"

text \<open>
  The loop stops at the terminator or at a fault. Its length is bounded by the block: an
  iteration moves \<open>p\<close> forward by a positive amount, and \<open>lpFindCb_check\<close> reads the byte at \<open>p\<close>.
\<close>

fun lpFindCb_loop ::
  "nat \<Rightarrow> buf \<Rightarrow> nat \<Rightarrow> (buf \<Rightarrow> nat \<Rightarrow> 'u \<Rightarrow> lpref \<Rightarrow> (bool \<times> 'u) option) \<Rightarrow> nat \<Rightarrow> nat \<Rightarrow> nat \<Rightarrow> nat \<Rightarrow> 'u \<Rightarrow>
   nat nullable option" where
  "lpFindCb_loop 0 lp lp_bytes cmp skip p skipcnt entry_size user = None"
| "lpFindCb_loop (Suc fuel) lp lp_bytes cmp skip p skipcnt entry_size user = do {
     r \<leftarrow> lpFindCb_step lp lp_bytes cmp skip p skipcnt entry_size user;
     case r of
       Inl p \<Rightarrow> Some (Ptr p)
     | Inr (p, skipcnt, entry_size, user) \<Rightarrow> do {
         eof \<leftarrow> lpFindCb_check lp lp_bytes p;
         if eof then Some NULL
         else lpFindCb_loop fuel lp lp_bytes cmp skip p skipcnt entry_size user
       } }"

definition lpFindCb ::
  "buf \<Rightarrow> nat nullable \<Rightarrow> 'u \<Rightarrow> (buf \<Rightarrow> nat \<Rightarrow> 'u \<Rightarrow> lpref \<Rightarrow> (bool \<times> 'u) option) \<Rightarrow> nat \<Rightarrow> nat nullable option" where
  "lpFindCb lp p user cmp skip = do {
     lp_bytes \<leftarrow> lpBytes lp;
     p \<leftarrow> (case p of NULL \<Rightarrow> lpFirst lp | Ptr q \<Rightarrow> Some (Ptr q));
     case p of
       NULL \<Rightarrow> Some NULL
     | Ptr q \<Rightarrow> lpFindCb_loop (Suc (length lp)) lp lp_bytes cmp skip q 0 123456789 user }"

record lpFindArg =
  find_s :: buf
  vencoding :: nat
  vll :: int

text \<open>The comparator: whether it returns 0, and the updated argument.\<close>

definition lpFindCmp :: "buf \<Rightarrow> nat \<Rightarrow> lpFindArg \<Rightarrow> lpref \<Rightarrow> (bool \<times> lpFindArg) option" where
  "lpFindCmp lp p arg value =
     (case value of
        LpStr off n \<Rightarrow>
          if n = length (find_s arg) then do { c \<leftarrow> rd_range lp off n; Some (c = find_s arg, arg) }
          else Some (False, arg)
      | LpInt ll \<Rightarrow> do {
          let arg =
            (if vencoding arg = 0
             then if 32 \<le> length (find_s arg) \<or> length (find_s arg) = 0 then arg\<lparr>vencoding := 255\<rparr>
                  else (case lpStringToInt64 (find_s arg) of
                          None \<Rightarrow> arg\<lparr>vencoding := 255\<rparr>
                        | Some v \<Rightarrow> arg\<lparr>vll := v, vencoding := 1\<rparr>)
             else arg);
          Some (vencoding arg \<noteq> 255 \<and> ll = vll arg, arg) }
      | LpBuf _ _ \<Rightarrow> None)"

definition lpFind :: "buf \<Rightarrow> nat nullable \<Rightarrow> buf \<Rightarrow> nat \<Rightarrow> nat nullable option" where
  "lpFind lp p s skip = lpFindCb lp p \<lparr>find_s = s, vencoding = 0, vll = 0\<rparr> lpFindCmp skip"

text \<open>
  \<open>rnd\<close> is what \<open>rand()\<close> returned; the result is the key and, when \<open>want_val\<close> holds, the value
  that follows it.
\<close>

definition lpRandomPair :: "buf \<Rightarrow> nat \<Rightarrow> nat \<Rightarrow> bool \<Rightarrow> nat \<Rightarrow> (listpackEntry \<times> listpackEntry nullable) option" where
  "lpRandomPair lp total_count rnd want_val tuple_len = do {
     assertC (2 \<le> tuple_len);
     assertC (total_count \<noteq> 0);
     let r = (rnd mod total_count) * tuple_len;
     p \<leftarrow> lpSeek lp (to_signed 4 (r mod 4294967296));
     case p of
       NULL \<Rightarrow> None
     | Ptr p \<Rightarrow> do {
         key \<leftarrow> lpGetValue lp p;
         if \<not> want_val then Some (key, NULL)
         else do {
           p \<leftarrow> lpNext lp p;
           case p of NULL \<Rightarrow> None | Ptr p \<Rightarrow> do { val \<leftarrow> lpGetValue lp p; Some (key, Ptr val) }
         } } }"

text \<open>
  The loop of \<open>lpRandomEntries\<close> over the picks sorted by index: \<open>j\<close> is the index of \<open>p\<close>, and each
  value is stored at its pick's \<open>order\<close>.
\<close>

fun lpRandomEntries_loop ::
  "buf \<Rightarrow> nat nullable \<Rightarrow> nat \<Rightarrow> (nat \<times> nat) list \<Rightarrow> listpackEntry list \<Rightarrow> listpackEntry list option" where
  "lpRandomEntries_loop lp p j [] entries = Some entries"
| "lpRandomEntries_loop lp p j ((index, order) # picks) entries = do {
     p \<leftarrow> lpSeek_forward lp (index - j) p;
     case p of
       NULL \<Rightarrow> None
     | Ptr q \<Rightarrow> do {
         v \<leftarrow> lpGetValue lp q;
         entries \<leftarrow> wr entries order v;
         lpRandomEntries_loop lp p (max j index) picks entries
       } }"

text \<open>\<open>rnds\<close> are the results of the \<open>count\<close> calls of \<open>rand()\<close>, \<open>entries\<close> the caller's array.\<close>

definition lpRandomEntries :: "buf \<Rightarrow> nat list \<Rightarrow> listpackEntry list \<Rightarrow> (listpackEntry list \<times> buf) option" where
  "lpRandomEntries lp rnds entries = do {
     (total_size, lp) \<leftarrow> lpLength lp;
     assertC (total_size \<noteq> 0);
     let picks = zip (map (\<lambda>r. r mod total_size) rnds) [0..<length rnds];
     let picks = sort_key fst picks;
     p \<leftarrow> lpFirst lp;
     entries \<leftarrow> lpRandomEntries_loop lp p 0 picks entries;
     Some (entries, lp) }"

end
