(* ===== verification/Seq_Interface.thy ===== *)
theory Seq_Interface
  imports Redis_Prelude
begin

text \<open>
  What a client of a packed sequence relies on: elements are pushed at the ends, found by a
  signed index (negative from the end), inserted, replaced and deleted at the position a seek
  returned. An update may find the container full, which is an answer and not a fault. The
  client lemma is that any sequence of operations observes exactly what a list observes.
\<close>

record ('s, 'p, 'e) seq_impl =
  sq_push_back :: "'s \<Rightarrow> 'e \<Rightarrow> 's nullable option"
  sq_push_front :: "'s \<Rightarrow> 'e \<Rightarrow> 's nullable option"
  sq_seek :: "'s \<Rightarrow> int \<Rightarrow> 'p nullable option"
  sq_ins_before :: "'s \<Rightarrow> 'p \<Rightarrow> 'e \<Rightarrow> 's nullable option"
  sq_ins_after :: "'s \<Rightarrow> 'p \<Rightarrow> 'e \<Rightarrow> 's nullable option"
  sq_replace :: "'s \<Rightarrow> 'p \<Rightarrow> 'e \<Rightarrow> 's nullable option"
  sq_delete :: "'s \<Rightarrow> 'p \<Rightarrow> 's nullable option"
  sq_get :: "'s \<Rightarrow> 'p \<Rightarrow> 'e option"
  sq_count :: "'s \<Rightarrow> (nat \<times> 's) option"

datatype 'e seq_op =
    Push_back 'e | Push_front 'e | Ins_before int 'e | Ins_after int 'e | Replace int 'e
  | Delete int | Get int | Count

datatype 'e seq_ans = Done | Full | Absent | Elem 'e | Size nat

fun seq_op_args :: "'e seq_op \<Rightarrow> 'e list" where
  "seq_op_args (Push_back x) = [x]"
| "seq_op_args (Push_front x) = [x]"
| "seq_op_args (Ins_before i x) = [x]"
| "seq_op_args (Ins_after i x) = [x]"
| "seq_op_args (Replace i x) = [x]"
| "seq_op_args _ = []"

text \<open>The entry a signed index names.\<close>

definition seek_index :: "nat \<Rightarrow> int \<Rightarrow> nat option" where
  "seek_index n index =
     (if 0 \<le> index then if nat index < n then Some (nat index) else None
      else if nat (- index) \<le> n then Some (n - nat (- index)) else None)"

lemma seek_index_less: "seek_index n i = Some k \<Longrightarrow> k < n"
  by (auto simp: seek_index_def split: if_splits)

lemma seek_index_norm:
  assumes "ix = (if index < 0 then int n + index else index)"
  shows "seek_index n index = (if ix < 0 \<or> int n \<le> ix then None else Some (nat ix))"
  using assms by (auto simp: seek_index_def nat_less_iff nat_diff_distrib split: if_splits)


subsection \<open>Running operations on an implementation and on a list\<close>

definition updated :: "'s \<Rightarrow> 's nullable option \<Rightarrow> ('s \<times> 'e seq_ans) option" where
  "updated s r = map_option (\<lambda>x. case x of NULL \<Rightarrow> (s, Full) | Ptr s' \<Rightarrow> (s', Done)) r"

definition at_index ::
  "('s, 'p, 'e) seq_impl \<Rightarrow> 's \<Rightarrow> int \<Rightarrow> ('p \<Rightarrow> ('s \<times> 'e seq_ans) option) \<Rightarrow> ('s \<times> 'e seq_ans) option" where
  "at_index I s i f = Option.bind (sq_seek I s i) (\<lambda>p. case p of NULL \<Rightarrow> Some (s, Absent) | Ptr q \<Rightarrow> f q)"

fun seq_step :: "('s, 'p, 'e) seq_impl \<Rightarrow> 's \<Rightarrow> 'e seq_op \<Rightarrow> ('s \<times> 'e seq_ans) option" where
  "seq_step I s (Push_back x) = updated s (sq_push_back I s x)"
| "seq_step I s (Push_front x) = updated s (sq_push_front I s x)"
| "seq_step I s (Ins_before i x) = at_index I s i (\<lambda>p. updated s (sq_ins_before I s p x))"
| "seq_step I s (Ins_after i x) = at_index I s i (\<lambda>p. updated s (sq_ins_after I s p x))"
| "seq_step I s (Replace i x) = at_index I s i (\<lambda>p. updated s (sq_replace I s p x))"
| "seq_step I s (Delete i) = at_index I s i (\<lambda>p. updated s (sq_delete I s p))"
| "seq_step I s (Get i) = at_index I s i (\<lambda>p. map_option (\<lambda>x. (s, Elem x)) (sq_get I s p))"
| "seq_step I s Count = map_option (\<lambda>(n, s'). (s', Size n)) (sq_count I s)"

fun run_seq_ops :: "('s, 'p, 'e) seq_impl \<Rightarrow> 's \<Rightarrow> 'e seq_op list \<Rightarrow> ('s \<times> 'e seq_ans list) option" where
  "run_seq_ops I s [] = Some (s, [])"
| "run_seq_ops I s (op # ops) =
     Option.bind (seq_step I s op)
       (\<lambda>(s', a). map_option (map_prod id (Cons a)) (run_seq_ops I s' ops))"

definition insert_at :: "nat \<Rightarrow> 'e \<Rightarrow> 'e list \<Rightarrow> 'e list" where
  "insert_at i x xs = take i xs @ x # drop i xs"

definition remove_at :: "nat \<Rightarrow> 'e list \<Rightarrow> 'e list" where
  "remove_at i xs = take i xs @ drop (Suc i) xs"

text \<open>An update of the list \<open>xs\<close> to \<open>ys\<close> when \<open>ys\<close> fits.\<close>

definition spec_update :: "('e list \<Rightarrow> bool) \<Rightarrow> 'e list \<Rightarrow> 'e list \<Rightarrow> 'e list \<times> 'e seq_ans" where
  "spec_update fits xs ys = (if fits ys then (ys, Done) else (xs, Full))"

definition spec_at :: "'e list \<Rightarrow> int \<Rightarrow> (nat \<Rightarrow> 'e list \<times> 'e seq_ans) \<Rightarrow> 'e list \<times> 'e seq_ans" where
  "spec_at xs i f = (case seek_index (length xs) i of None \<Rightarrow> (xs, Absent) | Some k \<Rightarrow> f k)"

fun spec_seq_step :: "('e list \<Rightarrow> bool) \<Rightarrow> 'e list \<Rightarrow> 'e seq_op \<Rightarrow> 'e list \<times> 'e seq_ans" where
  "spec_seq_step fits xs (Push_back x) = spec_update fits xs (xs @ [x])"
| "spec_seq_step fits xs (Push_front x) = spec_update fits xs (x # xs)"
| "spec_seq_step fits xs (Ins_before i x) = spec_at xs i (\<lambda>k. spec_update fits xs (insert_at k x xs))"
| "spec_seq_step fits xs (Ins_after i x) = spec_at xs i (\<lambda>k. spec_update fits xs (insert_at (Suc k) x xs))"
| "spec_seq_step fits xs (Replace i x) = spec_at xs i (\<lambda>k. spec_update fits xs (xs[k := x]))"
| "spec_seq_step fits xs (Delete i) = spec_at xs i (\<lambda>k. (remove_at k xs, Done))"
| "spec_seq_step fits xs (Get i) = spec_at xs i (\<lambda>k. (xs, Elem (xs ! k)))"
| "spec_seq_step fits xs Count = (xs, Size (length xs))"

fun spec_seq_ops :: "('e list \<Rightarrow> bool) \<Rightarrow> 'e list \<Rightarrow> 'e seq_op list \<Rightarrow> 'e list \<times> 'e seq_ans list" where
  "spec_seq_ops fits xs [] = (xs, [])"
| "spec_seq_ops fits xs (op # ops) =
     (case spec_seq_step fits xs op of (ys, a) \<Rightarrow> map_prod id (Cons a) (spec_seq_ops fits ys ops))"


subsection \<open>The contract\<close>

definition gives :: "('s \<Rightarrow> 'e list \<Rightarrow> bool) \<Rightarrow> ('e list \<Rightarrow> bool) \<Rightarrow> 's nullable option \<Rightarrow> 'e list \<Rightarrow> bool" where
  "gives rep fits r ys \<longleftrightarrow> (if fits ys then \<exists>s'. r = Some (Ptr s') \<and> rep s' ys else r = Some NULL)"

locale packed_seq =
  fixes I :: "('s, 'p, 'e) seq_impl"
    and rep :: "'s \<Rightarrow> 'e list \<Rightarrow> bool"
    and fits :: "'e list \<Rightarrow> bool"
    and pos :: "'e list \<Rightarrow> nat \<Rightarrow> 'p"
    and ok :: "'e \<Rightarrow> bool"
  assumes push_back_law: "rep s xs \<Longrightarrow> ok x \<Longrightarrow> gives rep fits (sq_push_back I s x) (xs @ [x])"
    and push_front_law: "rep s xs \<Longrightarrow> ok x \<Longrightarrow> gives rep fits (sq_push_front I s x) (x # xs)"
    and seek_law: "rep s xs \<Longrightarrow>
      sq_seek I s i = Some (case seek_index (length xs) i of None \<Rightarrow> NULL | Some k \<Rightarrow> Ptr (pos xs k))"
    and ins_before_law: "rep s xs \<Longrightarrow> ok x \<Longrightarrow> k < length xs \<Longrightarrow>
      gives rep fits (sq_ins_before I s (pos xs k) x) (insert_at k x xs)"
    and ins_after_law: "rep s xs \<Longrightarrow> ok x \<Longrightarrow> k < length xs \<Longrightarrow>
      gives rep fits (sq_ins_after I s (pos xs k) x) (insert_at (Suc k) x xs)"
    and replace_law: "rep s xs \<Longrightarrow> ok x \<Longrightarrow> k < length xs \<Longrightarrow>
      gives rep fits (sq_replace I s (pos xs k) x) (xs[k := x])"
    and delete_law: "rep s xs \<Longrightarrow> k < length xs \<Longrightarrow>
      \<exists>s'. sq_delete I s (pos xs k) = Some (Ptr s') \<and> rep s' (remove_at k xs)"
    and get_law: "rep s xs \<Longrightarrow> k < length xs \<Longrightarrow> sq_get I s (pos xs k) = Some (xs ! k)"
    and count_law: "rep s xs \<Longrightarrow> \<exists>s'. sq_count I s = Some (length xs, s') \<and> rep s' xs"
begin

lemma updated_gives:
  assumes "rep s xs" "gives rep fits r ys"
  shows "\<exists>s'. updated s r = Some (s', snd (spec_update fits xs ys)) \<and> rep s' (fst (spec_update fits xs ys))"
  using assms by (auto simp: gives_def updated_def spec_update_def split: if_splits)

lemma at_index_correct:
  assumes "rep s xs"
    and "\<And>k. k < length xs \<Longrightarrow> \<exists>s'. f (pos xs k) = Some (s', snd (g k)) \<and> rep s' (fst (g k))"
  shows "\<exists>s'. at_index I s i f = Some (s', snd (spec_at xs i g)) \<and> rep s' (fst (spec_at xs i g))"
  using assms seek_index_less [of "length xs" i]
  by (auto simp: at_index_def spec_at_def seek_law split: option.split)

lemma seq_step_correct:
  assumes "rep s xs" "list_all ok (seq_op_args op)"
  shows "\<exists>s'. seq_step I s op = Some (s', snd (spec_seq_step fits xs op)) \<and> rep s' (fst (spec_seq_step fits xs op))"
proof (cases op)
  case (Delete i)
  then show ?thesis
    using at_index_correct [OF assms(1), of "\<lambda>p. updated s (sq_delete I s p)" "\<lambda>k. (remove_at k xs, Done)" i]
      delete_law [OF assms(1)]
    by (fastforce simp: updated_def)
next
  case (Get i)
  then show ?thesis
    using at_index_correct [OF assms(1), of "\<lambda>p. map_option (\<lambda>x. (s, Elem x)) (sq_get I s p)" "\<lambda>k. (xs, Elem (xs ! k))" i] get_law [OF assms(1)] assms(1) by simp
next
  case Count
  then show ?thesis using count_law [OF assms(1)] by auto
next
  case (Push_back x)
  then show ?thesis using updated_gives [OF assms(1) push_back_law [OF assms(1)], of x] assms(2) by simp
next
  case (Push_front x)
  then show ?thesis using updated_gives [OF assms(1) push_front_law [OF assms(1)], of x] assms(2) by simp
next
  case (Ins_before i x)
  then show ?thesis
    using at_index_correct [OF assms(1), of "\<lambda>p. updated s (sq_ins_before I s p x)"
        "\<lambda>k. spec_update fits xs (insert_at k x xs)" i]
      updated_gives [OF assms(1) ins_before_law [OF assms(1)], of x] assms(2) by simp
next
  case (Ins_after i x)
  then show ?thesis
    using at_index_correct [OF assms(1), of "\<lambda>p. updated s (sq_ins_after I s p x)"
        "\<lambda>k. spec_update fits xs (insert_at (Suc k) x xs)" i]
      updated_gives [OF assms(1) ins_after_law [OF assms(1)], of x] assms(2) by simp
next
  case (Replace i x)
  then show ?thesis
    using at_index_correct [OF assms(1), of "\<lambda>p. updated s (sq_replace I s p x)"
        "\<lambda>k. spec_update fits xs (xs[k := x])" i]
      updated_gives [OF assms(1) replace_law [OF assms(1)], of x] assms(2) by simp
qed

text \<open>Any sequence of operations answers as the list does, and ends representing the list.\<close>

lemma run_seq_ops_correct:
  assumes "rep s xs" "list_all (\<lambda>op. list_all ok (seq_op_args op)) ops"
  shows "\<exists>s'. run_seq_ops I s ops = Some (s', snd (spec_seq_ops fits xs ops)) \<and>
           rep s' (fst (spec_seq_ops fits xs ops))"
  using assms
proof (induction ops arbitrary: s xs)
  case (Cons op ops)
  then obtain s' where s': "seq_step I s op = Some (s', snd (spec_seq_step fits xs op))"
    "rep s' (fst (spec_seq_step fits xs op))"
    using seq_step_correct [of s xs op] by auto
  from Cons.IH [OF s'(2)] Cons.prems s'(1) show ?case by (auto split: prod.split)
qed simp

end

end
