(* ===== verification/Listpack_Correct.thy ===== *)
theory Listpack_Correct
  imports Listpack Seq_Interface
begin

text \<open>
  Correctness of the listpack operations. A listpack represents a list of entry bodies when its
  block is the header, the entries with their backlens, the terminator and any unused tail; every
  operation is shown to be the corresponding list operation on what the block represents.
\<close>

subsection \<open>Representation\<close>

definition lp_entry :: "buf \<Rightarrow> buf" where
  "lp_entry e = e @ lpEncodeBacklen (length e)"

definition lp_body :: "buf list \<Rightarrow> buf" where
  "lp_body es = concat (map lp_entry es)"

text \<open>The total size field, the element count field, and the bytes of a listpack.\<close>

definition lp_total :: "buf list \<Rightarrow> nat" where
  "lp_total es = LP_HDR_SIZE + length (lp_body es) + 1"

definition lp_image :: "buf list \<Rightarrow> nat \<Rightarrow> buf \<Rightarrow> buf" where
  "lp_image es num slack =
     le_bytes 4 (lp_total es) @ le_bytes 2 num @ lp_body es @ [LP_EOF] @ slack"

text \<open>The element count is exact below 65535 or unknown.\<close>

definition num_ok :: "nat \<Rightarrow> buf list \<Rightarrow> bool" where
  "num_ok num es \<longleftrightarrow> num = LP_HDR_NUMELE_UNKNOWN \<or> num = length es \<and> num < LP_HDR_NUMELE_UNKNOWN"

definition lp_ok :: "buf list \<Rightarrow> bool" where
  "lp_ok es \<longleftrightarrow> list_all entry_ok es \<and> lp_total es < 4294967296"

definition lp_rep :: "buf \<Rightarrow> buf list \<Rightarrow> bool" where
  "lp_rep lp es \<longleftrightarrow> lp_ok es \<and> (\<exists>num slack. num_ok num es \<and> lp = lp_image es num slack)"

text \<open>The offset of the \<open>i\<close>-th entry; for \<open>i = length es\<close> that of the terminator.\<close>

definition lp_off :: "buf list \<Rightarrow> nat \<Rightarrow> nat" where
  "lp_off es i = LP_HDR_SIZE + length (lp_body (take i es))"

lemma lp_body_simps [simp]:
  "lp_body [] = []"
  "lp_body (e # es) = lp_entry e @ lp_body es"
  "lp_body (es @ fs) = lp_body es @ lp_body fs"
  by (simp_all add: lp_body_def)

lemma length_lp_entry [simp]: "length (lp_entry e) = entry_bytes e"
  by (simp add: lp_entry_def)

lemma lp_off_0 [simp]: "lp_off es 0 = LP_HDR_SIZE"
  by (simp add: lp_off_def)

lemma lp_off_Suc: "i < length es \<Longrightarrow> lp_off es (Suc i) = lp_off es i + entry_bytes (es ! i)"
  by (simp add: lp_off_def take_Suc_conv_app_nth)

lemma lp_off_length: "lp_off es (length es) + 1 = lp_total es"
  by (simp add: lp_off_def lp_total_def)

lemma lp_off_mono: "i \<le> j \<Longrightarrow> lp_off es i \<le> lp_off es j"
proof (induction j)
  case (Suc j)
  have "lp_off es j \<le> lp_off es (Suc j)"
    by (cases "j < length es") (simp add: lp_off_Suc, simp add: lp_off_def)
  with Suc show ?case by (cases "i = Suc j") auto
qed simp

lemma lp_off_less_total: "lp_off es i < lp_total es"
proof -
  have "lp_off es (min i (length es)) \<le> lp_off es (length es)" by (intro lp_off_mono) simp
  moreover have "lp_off es (min i (length es)) = lp_off es i" by (simp add: lp_off_def min_def)
  ultimately show ?thesis using lp_off_length [of es] by linarith
qed

lemma lp_off_ge: "LP_HDR_SIZE \<le> lp_off es i"
  by (simp add: lp_off_def)

lemma lp_ok_nth: "lp_ok es \<Longrightarrow> i < length es \<Longrightarrow> entry_ok (es ! i)"
  by (simp add: lp_ok_def list_all_length)

lemma entry_bytes_pos: "0 < entry_bytes e"
  by simp

lemma lp_ok_bytes:
  assumes "lp_ok es" "i < length es"
  shows "lp_off es i + entry_bytes (es ! i) < lp_total es" "length (es ! i) < 4294967296"
proof -
  show "lp_off es i + entry_bytes (es ! i) < lp_total es"
    using lp_off_Suc [OF assms(2)] lp_off_less_total [of es "Suc i"] by simp
  then show "length (es ! i) < 4294967296" using assms(1) by (simp add: lp_ok_def)
qed


subsection \<open>Reading the image\<close>

text \<open>The block around the \<open>i\<close>-th entry.\<close>

definition lp_pre :: "buf list \<Rightarrow> nat \<Rightarrow> nat \<Rightarrow> buf" where
  "lp_pre es num i = le_bytes 4 (lp_total es) @ le_bytes 2 num @ lp_body (take i es)"

lemma length_lp_pre [simp]: "length (lp_pre es num i) = lp_off es i"
  by (simp add: lp_pre_def lp_off_def)

lemma lp_image_split:
  assumes "i < length es"
  shows "lp_image es num slack =
    lp_pre es num i @ es ! i @ lpEncodeBacklen (length (es ! i)) @ lp_body (drop (Suc i) es) @ [LP_EOF] @ slack"
proof -
  have "lp_body es = lp_body (take i es @ es ! i # drop (Suc i) es)"
    using id_take_nth_drop [OF assms] by (rule arg_cong)
  then show ?thesis by (simp add: lp_image_def lp_pre_def lp_entry_def)
qed

lemma lp_image_end: "lp_image es num slack = lp_pre es num (length es) @ LP_EOF # slack"
  by (simp add: lp_image_def lp_pre_def)

lemma length_lp_image: "length (lp_image es num slack) = lp_total es + length slack"
  by (simp add: lp_image_def lp_total_def)

lemma lpGetTotalBytes_image:
  "lp_total es < 4294967296 \<Longrightarrow> lpGetTotalBytes (lp_image es num slack) = Some (lp_total es)"
  by (subst lpGetTotalBytes_eq) (simp_all add: lp_image_def)

lemma lpGetNumElements_image:
  "num < 65536 \<Longrightarrow> lpGetNumElements (lp_image es num slack) = Some num"
  by (subst lpGetNumElements_eq) (simp_all add: lp_image_def)

lemma num_ok_less: "num_ok num es \<Longrightarrow> num < 65536"
  by (auto simp: num_ok_def)

lemma rd_off_end: "rd (lp_image es num slack) (lp_off es (length es)) = Some LP_EOF"
  unfolding lp_image_end using rd_append_at [of "lp_pre es num (length es)" LP_EOF slack] by simp

lemma rd_off_entry:
  assumes "lp_ok es" "i < length es"
  obtains b where "rd (lp_image es num slack) (lp_off es i) = Some b" "b \<noteq> LP_EOF" "b = hd (es ! i)"
proof -
  have e: "entry_ok (es ! i)" using assms by (rule lp_ok_nth)
  then obtain b r where "es ! i = b # r" "b \<noteq> LP_EOF" by (cases "es ! i") (auto simp: entry_ok_def)
  moreover from this have "rd (lp_image es num slack) (lp_off es i) = Some b"
    unfolding lp_image_split [OF assms(2)] using rd_append_at [of "lp_pre es num i"] by simp
  ultimately show thesis using that by simp
qed

lemma size_off_entry:
  assumes "lp_ok es" "i < length es"
  shows "lpCurrentEncodedSizeUnsafe (lp_image es num slack) (lp_off es i) = Some (length (es ! i))"
proof -
  have "lpCurrentEncodedSizeUnsafe (es ! i) 0 = Some (length (es ! i))"
    using lp_ok_nth [OF assms] by (simp add: entry_ok_def)
  from lpCurrentEncodedSizeUnsafe_context [OF this, of "lp_pre es num i"] show ?thesis
    unfolding lp_image_split [OF assms(2)] by simp
qed

lemma lenbytes_entry:
  assumes "entry_ok e"
  obtains k where "lpCurrentEncodedSizeBytes (pre @ e @ rest) (length pre) = Some k" "0 < k" "k \<le> length e"
  using assms
proof (cases rule: entry_ok_cases)
qed (use that in \<open>auto simp: lpCurrentEncodedSizeBytes_ranges rd_append_right\<close>)

lemma backlen_off_entry:
  assumes "lp_ok es" "i < length es"
  shows "lpDecodeBacklen (lp_image es num slack) (lp_off es (Suc i) - 1) = Some (length (es ! i))"
proof -
  have "length (es ! i) < 2 ^ 35" using lp_ok_bytes(2) [OF assms] by simp
  from lpDecodeBacklen_encode [OF this, of "lp_pre es num i @ es ! i"] show ?thesis
    unfolding lp_image_split [OF assms(2)] by (simp add: lp_off_Suc [OF assms(2)] add.assoc)
qed

lemma lpSkip_off:
  assumes "lp_ok es" "i < length es"
  shows "lpSkip (lp_image es num slack) (lp_off es i) = Some (lp_off es (Suc i))"
  using size_off_entry [OF assms] by (simp add: lpSkip_def lp_off_Suc [OF assms(2)])

lemma lpValidateNext_off:
  assumes "lp_ok es" "i < length es"
  shows "lpValidateNext (lp_image es num slack) (Ptr (lp_off es i)) (lp_total es) = Some (True, Ptr (lp_off es (Suc i)))"
proof -
  let ?lp = "lp_image es num slack"
  obtain b where b: "rd ?lp (lp_off es i) = Some b" "b \<noteq> LP_EOF" using assms by (rule rd_off_entry)
  obtain k where k: "lpCurrentEncodedSizeBytes ?lp (lp_off es i) = Some k" "0 < k" "k \<le> length (es ! i)"
    using lenbytes_entry [OF lp_ok_nth [OF assms], of "lp_pre es num i"]
    unfolding lp_image_split [OF assms(2)] by auto
  note off = lp_off_Suc [OF assms(2)] lp_ok_bytes [OF assms]
  have "\<not> OUT_OF_RANGE (lp_total es) (lp_off es i)" "\<not> OUT_OF_RANGE (lp_total es) (lp_off es i + k)"
    "\<not> OUT_OF_RANGE (lp_total es) (lp_off es i + entry_bytes (es ! i))"
    using off k lp_off_ge [of es i] by (auto simp: OUT_OF_RANGE_def)
  moreover have "entry_bytes (es ! i) < 2 ^ 64"
    using off(3) by (simp add: length_lpEncodeBacklen)
  ultimately show ?thesis
    using b k backlen_off_entry [OF assms] size_off_entry [OF assms] off(1)
    by (simp add: lpValidateNext_def)
qed

lemma lpValidateNext_end:
  "lpValidateNext (lp_image es num slack) (Ptr (lp_off es (length es))) (lp_total es) = Some (True, NULL)"
  using rd_off_end [of es num slack] lp_off_length [of es] lp_off_ge [of es "length es"]
  by (simp add: lpValidateNext_def OUT_OF_RANGE_def)

lemma lpAssertValidEntry_off:
  "lp_ok es \<Longrightarrow> i \<le> length es \<Longrightarrow> lpAssertValidEntry (lp_image es num slack) (lp_total es) (lp_off es i) = Some ()"
  by (cases "i = length es") (simp_all add: lpAssertValidEntry_def lpValidateNext_off lpValidateNext_end)


subsection \<open>Traversal\<close>

text \<open>A pointer to the \<open>i\<close>-th entry, \<open>NULL\<close> past the last one.\<close>

definition lp_ptr :: "buf list \<Rightarrow> nat \<Rightarrow> nat nullable" where
  "lp_ptr es i = (if i < length es then Ptr (lp_off es i) else NULL)"

lemma lp_repE:
  assumes "lp_rep lp es"
  obtains num slack where "lp = lp_image es num slack" "num_ok num es" "lp_ok es" "num < 65536"
    "lp_total es < 4294967296"
  using assms by (auto simp: lp_rep_def lp_ok_def dest: num_ok_less)

lemma lp_repI:
  "lp_ok es \<Longrightarrow> num_ok num es \<Longrightarrow> lp_rep (lp_image es num slack) es"
  by (auto simp: lp_rep_def)

lemma lpBytes_rep: "lp_rep lp es \<Longrightarrow> lpBytes lp = Some (lp_total es)"
  by (erule lp_repE) (simp add: lpBytes_def lpGetTotalBytes_image)

lemma lpNext_rep:
  assumes "lp_rep lp es" "i < length es"
  shows "lpNext lp (lp_off es i) = Some (lp_ptr es (Suc i))"
proof -
  from assms(1) obtain num slack where lp: "lp = lp_image es num slack" "lp_ok es" by (rule lp_repE)
  note skip = lpSkip_off [OF lp(2) assms(2), of num slack]
  show ?thesis
  proof (cases "Suc i = length es")
    case True
    then show ?thesis
      using skip rd_off_end [of es num slack] by (simp add: lp lpNext_def lp_ptr_def)
  next
    case False
    then have i: "Suc i < length es" using assms(2) by simp
    obtain b where "rd lp (lp_off es (Suc i)) = Some b" "b \<noteq> LP_EOF"
      unfolding lp(1) using lp(2) i by (rule rd_off_entry)
    then show ?thesis
      using skip lpBytes_rep [OF assms(1)] lpAssertValidEntry_off [OF lp(2), of "Suc i"] i
      by (simp add: lpNext_def lp_ptr_def lp(1))
  qed
qed

lemma lpFirst_rep:
  assumes "lp_rep lp es"
  shows "lpFirst lp = Some (lp_ptr es 0)"
proof -
  from assms obtain num slack where lp: "lp = lp_image es num slack" "lp_ok es" by (rule lp_repE)
  show ?thesis
  proof (cases "es = []")
    case True
    then show ?thesis using rd_off_end [of es num slack] by (simp add: lp lpFirst_def lp_ptr_def)
  next
    case False
    then have i: "0 < length es" by simp
    obtain b where "rd lp (lp_off es 0) = Some b" "b \<noteq> LP_EOF"
      unfolding lp(1) using lp(2) i by (rule rd_off_entry)
    then show ?thesis
      using lpBytes_rep [OF assms] lpAssertValidEntry_off [OF lp(2), of 0] False
      by (simp add: lpFirst_def lp_ptr_def lp(1))
  qed
qed

lemma lpPrev_rep:
  assumes "lp_rep lp es" "i \<le> length es"
  shows "lpPrev lp (lp_off es i) = Some (if i = 0 then NULL else lp_ptr es (i - 1))"
proof (cases i)
  case 0
  then show ?thesis by (simp add: lpPrev_def)
next
  case (Suc j)
  from assms(1) obtain num slack where lp: "lp = lp_image es num slack" "lp_ok es" by (rule lp_repE)
  have j: "j < length es" using Suc assms(2) by simp
  note off = lp_off_Suc [OF j] lp_ok_bytes [OF lp(2) j] lp_off_ge [of es j]
  have offi: "lp_off es i = lp_off es j + entry_bytes (es ! j)" using off(1) Suc by simp
  have "lp_off es i \<noteq> LP_HDR_SIZE" "lp_off es i \<noteq> 0" using offi off(4) entry_bytes_pos [of "es ! j"] by linarith+
  moreover have "entry_bytes (es ! j) mod 2 ^ 64 = entry_bytes (es ! j)"
    using off(3) by (simp add: length_lpEncodeBacklen)
  moreover have "lp_off es i - 1 - (entry_bytes (es ! j) - 1) = lp_off es j" "\<not> lp_off es i - 1 < entry_bytes (es ! j) - 1"
    using offi entry_bytes_pos [of "es ! j"] by linarith+
  ultimately show ?thesis
    using backlen_off_entry [OF lp(2) j, of num slack] lpBytes_rep [OF assms(1)] lpAssertValidEntry_off [OF lp(2), of j num slack] j Suc
    by (simp add: lpPrev_def lp_ptr_def lp(1))
qed

lemma lpLast_rep:
  assumes "lp_rep lp es"
  shows "lpLast lp = Some (if es = [] then NULL else lp_ptr es (length es - 1))"
proof -
  have "lpGetTotalBytes lp = Some (lp_total es)" using lpBytes_rep [OF assms] by (simp add: lpBytes_def)
  moreover have "lp_total es - 1 = lp_off es (length es)" "lp_total es \<noteq> 0"
    using lp_off_length [of es] by simp_all
  ultimately show ?thesis using lpPrev_rep [OF assms, of "length es"] by (simp add: lpLast_def)
qed

lemma lpLength_loop_rep:
  assumes "lp_rep lp es" "i \<le> length es" "count + (length es - i) < 4294967296"
  shows "lpLength_loop lp count (lp_ptr es i) = Some (count + (length es - i))"
  using assms(2,3)
proof (induction "length es - i" arbitrary: i count)
  case 0
  then show ?case by (simp add: lp_ptr_def)
next
  case (Suc n)
  then have i: "i < length es" by simp
  then have "lpLength_loop lp (count + 1) (lp_ptr es (Suc i)) = Some (count + 1 + (length es - Suc i))"
    using Suc.hyps(2) Suc.prems by (intro Suc.hyps(1)) simp_all
  moreover have "(count + 1) mod 4294967296 = count + 1" using Suc.prems i by simp
  ultimately show ?case
    using lpNext_rep [OF assms(1) i] i by (simp add: lp_ptr_def [of es i] Let_def)
qed

lemma length_le_body: "list_all entry_ok es \<Longrightarrow> 2 * length es \<le> length (lp_body es)"
proof (induction es)
  case (Cons e es)
  have "e \<noteq> []" using Cons.prems by (simp add: entry_ok_def)
  then have "0 < length e" "0 < length (lpEncodeBacklen (length e))" by simp_all
  then have "2 \<le> entry_bytes e" by linarith
  with Cons show ?case by simp
qed simp

lemma lp_rep_length: "lp_rep lp es \<Longrightarrow> length es < 2147483648"
  using length_le_body [of es] by (auto simp: lp_rep_def lp_ok_def lp_total_def)

lemma lpSetNumElements_image:
  "lpSetNumElements (lp_image es num slack) v = Some (lp_image es v slack)"
  using lpSetNumElements_eq [of "le_bytes 4 (lp_total es)" "le_bytes 2 num @ lp_body es @ [LP_EOF] @ slack"]
  by (simp add: lp_image_def)

lemma le_bytes_2_cong: "v mod 65536 = u mod 65536 \<Longrightarrow> le_bytes 2 v = le_bytes 2 u"
proof -
  assume "v mod 65536 = u mod 65536"
  then have "le_val (le_bytes 2 v) = le_val (le_bytes 2 u)" by simp
  then show ?thesis by (metis le_bytes_le_val length_le_bytes)
qed

text \<open>\<open>lpLength\<close> returns the number of entries, and repairs an unknown count that fits.\<close>

lemma lpLength_rep:
  assumes "lp_rep lp es"
  shows "\<exists>lp'. lpLength lp = Some (length es, lp') \<and> lp_rep lp' es"
proof -
  from assms obtain num slack where lp: "lp = lp_image es num slack" "num_ok num es" "lp_ok es" "num < 65536"
    by (rule lp_repE)
  have num: "lpGetNumElements lp = Some num" using lp by (simp add: lpGetNumElements_image)
  show ?thesis
  proof (cases "num = LP_HDR_NUMELE_UNKNOWN")
    case False
    then show ?thesis using num lp(2) assms by (auto simp: lpLength_def num_ok_def)
  next
    case True
    have count: "lpLength_loop lp 0 (lp_ptr es 0) = Some (length es)"
      using lpLength_loop_rep [OF assms, of 0 0] lp_rep_length [OF assms] by simp
    show ?thesis
      using True num lpFirst_rep [OF assms] count lpSetNumElements_image [of es num slack] lp assms
      by (auto simp: lpLength_def num_ok_def intro!: lp_repI)
  qed
qed

lemma lpSeek_forward_rep:
  assumes "lp_rep lp es"
  shows "lpSeek_forward lp n (lp_ptr es i) = Some (lp_ptr es (i + n))"
proof (induction n arbitrary: i)
  case (Suc n)
  show ?case
  proof (cases "i < length es")
    case True
    then show ?thesis using lpNext_rep [OF assms True] Suc [of "Suc i"] by (simp add: lp_ptr_def [of es i])
  next
    case False
    then show ?thesis by (simp add: lp_ptr_def)
  qed
qed simp

lemma lpSeek_backward_rep:
  assumes "lp_rep lp es" "i < length es"
  shows "lpSeek_backward lp n (lp_ptr es i) = Some (if n \<le> i then lp_ptr es (i - n) else NULL)"
  using assms(2)
proof (induction n arbitrary: i)
  case (Suc n)
  have *: "lpSeek_backward lp n NULL = Some NULL" by (cases n) simp_all
  show ?case
  proof (cases i)
    case 0
    then show ?thesis using lpPrev_rep [OF assms(1), of i] Suc.prems * by (simp add: lp_ptr_def)
  next
    case (Suc j)
    then show ?thesis
      using lpPrev_rep [OF assms(1), of i] Suc.prems Suc.IH [of j] by (simp add: lp_ptr_def [of es "Suc j"])
  qed
qed simp

lemma lpSeek_rep:
  assumes "lp_rep lp es"
  shows "lpSeek lp index =
    Some (case seek_index (length es) index of Some i \<Rightarrow> Ptr (lp_off es i) | None \<Rightarrow> NULL)"
proof -
  from assms obtain num slack where lp: "lp = lp_image es num slack" "num_ok num es" "lp_ok es" "num < 65536"
    by (rule lp_repE)
  have num: "lpGetNumElements lp = Some num" using lp by (simp add: lpGetNumElements_image)
  note fwd = lpSeek_forward_rep [OF assms] and first = lpFirst_rep [OF assms] and last = lpLast_rep [OF assms]
  have bwd: "lpSeek_backward lp n (lp_ptr es (length es - 1)) =
      Some (if n < length es then lp_ptr es (length es - 1 - n) else NULL)" if "es \<noteq> []" for n
  proof -
    have pos: "0 < length es" using that by simp
    then have "n \<le> length es - 1 \<longleftrightarrow> n < length es" by linarith
    with pos show ?thesis using lpSeek_backward_rep [OF assms, of "length es - 1" n] by simp
  qed
  have bwdN: "lpSeek_backward lp n NULL = Some NULL" for n by (cases n) simp_all
  show ?thesis
  proof (cases "num = LP_HDR_NUMELE_UNKNOWN")
    case True
    show ?thesis
    proof (cases "0 \<le> index")
      case True
      with \<open>num = LP_HDR_NUMELE_UNKNOWN\<close> num first fwd [of "nat index" 0] show ?thesis
        by (simp add: lpSeek_def seek_index_def lp_ptr_def [of es "nat index"])
    next
      case False
      then have "nat (- index) = Suc (nat (- 1 - index))" by simp
      with False \<open>num = LP_HDR_NUMELE_UNKNOWN\<close> num last bwd [of "nat (- 1 - index)"] bwdN show ?thesis
        by (auto simp: lpSeek_def seek_index_def lp_ptr_def)
    qed
  next
    case False
    then have len: "num = length es" using lp(2) by (simp add: num_ok_def)
    define ix where "ix = (if index < 0 then int (length es) + index else index)"
    note norm = seek_index_norm [OF ix_def]
    consider "ix < 0 \<or> int (length es) \<le> ix" | "0 \<le> ix" "ix < int (length es)" "ix \<le> int (length es) div 2"
      | "0 \<le> ix" "ix < int (length es)" "int (length es) div 2 < ix" by linarith
    then show ?thesis
    proof cases
      case 1
      then show ?thesis using False num by (auto simp: lpSeek_def norm len ix_def split: if_splits)
    next
      case 2
      then show ?thesis
        using False num first fwd [of "nat ix" 0]
        by (simp add: lpSeek_def norm len lp_ptr_def [of es "nat ix"] flip: ix_def)
    next
      case 3
      then have "nat (- 1 - (ix - int (length es))) = length es - 1 - nat ix" "es \<noteq> []" by auto
      then show ?thesis
        using False 3 num last bwd [of "length es - 1 - nat ix"]
        by (simp add: lpSeek_def norm len lp_ptr_def [of es "nat ix"] flip: ix_def)
    qed
  qed
qed


subsection \<open>Making room and storing an entry\<close>

text \<open>
  \<open>lpInsert\<close> replaces the bytes \<open>M\<close> after a prefix \<open>A\<close> by room for \<open>n\<close> bytes: reallocation if the
  block must grow, one \<open>memmove\<close> of the tail \<open>T\<close>, reallocation if the listpack shrank.
\<close>

lemma splice_grow:
  assumes "b = A @ M @ T @ S"
  shows "\<exists>S1. (if old < new \<and> length b < new then realloc_buf b new else b) = A @ M @ T @ S1 \<and>
           (old = length (A @ M @ T) \<longrightarrow> new \<le> length (A @ M @ T @ S1))"
proof (cases "old < new \<and> length b < new")
  case True
  then have "realloc_buf b new = b @ replicate (new - length b) 0" by (simp add: realloc_buf_def)
  with True show ?thesis
    using assms by (intro exI [of _ "S @ replicate (new - length b) 0"]) simp
next
  case False
  then show ?thesis using assms by (intro exI [of _ S]) auto
qed

lemma splice_move:
  assumes "length A + n + length T \<le> length (A @ M @ T @ S)" "pos = length A + length M" "len = length T"
  shows "\<exists>X S2. memmove (A @ M @ T @ S) (length A + n) pos len = Some (A @ X @ T @ S2) \<and> length X = n"
proof -
  let ?b = "A @ M @ T @ S"
  have "memmove ?b (length A + n) pos len =
      Some (take (length A + n) ?b @ take (length T) (drop (length A + length M) ?b) @ drop (length A + n + length T) ?b)"
    unfolding assms(2,3) by (rule memmove_Some) (use assms(1) in simp_all)
  also have "take (length A + n) ?b = A @ take n (M @ T @ S)" by simp
  also have "take (length T) (drop (length A + length M) ?b) = T" by simp
  finally have "memmove ?b (length A + n) pos len =
      Some (A @ take n (M @ T @ S) @ T @ drop (length A + n + length T) ?b)" by (simp only: append_assoc)
  moreover have "length (take n (M @ T @ S)) = n" using assms(1) by simp
  ultimately show ?thesis by blast
qed

lemma splice_shrink:
  assumes "new = length A + length X + length T"
  shows "\<exists>S'. (if new < old then realloc_buf (A @ X @ T @ S) new else A @ X @ T @ S) = A @ X @ T @ S'"
  using assms by (auto simp: realloc_buf_def)

lemma splice:
  assumes "b = A @ M @ T @ S" "old = length A + length M + length T" "new = length A + n + length T"
    "pos = length A + length M" "len = length T" "dst = length A + n"
  shows "\<exists>X S' b2. memmove (if old < new \<and> length b < new then realloc_buf b new else b) dst pos len = Some b2 \<and>
           (if new < old then realloc_buf b2 new else b2) = A @ X @ T @ S' \<and> length X = n"
proof -
  obtain S1 where S1: "(if old < new \<and> length b < new then realloc_buf b new else b) = A @ M @ T @ S1"
    "new \<le> length (A @ M @ T @ S1)"
    using splice_grow [OF assms(1), of old new] assms(2) by auto
  obtain X S2 where "memmove (A @ M @ T @ S1) dst pos len = Some (A @ X @ T @ S2)" "length X = n"
    using splice_move [of A n T M S1 pos len] S1(2) assms(3-6) by auto
  moreover obtain S' where "(if new < old then realloc_buf (A @ X @ T @ S2) new else A @ X @ T @ S2) = A @ X @ T @ S'"
    using splice_shrink [of new A X T old S2] assms(3) calculation(2) by auto
  ultimately show ?thesis using S1(1) by (intro exI conjI) simp_all
qed

text \<open>The bytes an encoding stores.\<close>

fun enc_bytes :: "lp_enctype \<Rightarrow> buf" where
  "enc_bytes (ENC_INT b) = b"
| "enc_bytes (ENC_STR s) = lpEncodeString s"
| "enc_bytes ENC_NONE = []"

lemma lp_store_eq: "t \<noteq> ENC_NONE \<Longrightarrow> lp_store lp dst t = wr_range lp dst (enc_bytes t)"
  by (cases t) (simp_all add: lp_store_def)

lemma store_entry:
  assumes "length X = length e + length bl" "t \<noteq> ENC_NONE" "enc_bytes t = e" "dst = length A"
  shows "Option.bind (lp_store (A @ X @ T) dst t) (\<lambda>lp. wr_range lp (dst + length e) bl) = Some (A @ e @ bl @ T)"
proof -
  have X: "A @ X @ T = A @ take (length e) X @ drop (length e) X @ T" "length (take (length e) X) = length e"
    "length (drop (length e) X) = length bl" using assms(1) by (simp_all flip: append_assoc)
  have "wr_range (A @ take (length e) X @ drop (length e) X @ T) (length A) e = Some (A @ e @ drop (length e) X @ T)"
    by (rule wr_range_append) (use X(2) in simp_all)
  moreover have "wr_range ((A @ e) @ drop (length e) X @ T) (length A + length e) bl = Some ((A @ e) @ bl @ T)"
    by (rule wr_range_append) (use X(3) in simp_all)
  ultimately show ?thesis
    unfolding X(1) using assms(2-4) by (simp add: lp_store_eq)
qed

text \<open>The encoding \<open>lpInsert\<close> chooses and the size it computes agree.\<close>

lemma lpInsert_enc_length:
  assumes "lpInsert_enc elestr eleint = (t, n)" "\<not> (elestr = NULL \<and> eleint = NULL)"
  shows "n = length (enc_bytes t)" "t \<noteq> ENC_NONE"
  using assms
  by (auto simp: lpInsert_enc_def lpEncodeGetType_def lpEncodeString_def Let_def
      split: nullable.splits option.splits sum.splits if_splits)

lemma lpSetTotalBytes_app: "length h = 4 \<Longrightarrow> lpSetTotalBytes (h @ r) v = Some (le_bytes 4 v @ r)"
  by (simp add: lpSetTotalBytes_eq)

lemma lpGetNumElements_app:
  "length h = 4 \<Longrightarrow> num < 65536 \<Longrightarrow> lpGetNumElements (h @ le_bytes 2 num @ r) = Some num"
  by (simp add: lpGetNumElements_eq)

lemma lpSetNumElements_app:
  "length h = 4 \<Longrightarrow> length c = 2 \<Longrightarrow> lpSetNumElements (h @ c @ r) v = Some (h @ le_bytes 2 v @ r)"
  using lpSetNumElements_eq [of h "c @ r" v] by simp

lemma entry_ok_length: "entry_ok e \<Longrightarrow> length e < 4294967296"
proof -
  assume "entry_ok e"
  then show ?thesis
  proof (cases rule: entry_ok_cases)
    case (S6 b s)
    then show ?thesis using mod_less_divisor [of 64 "unat b"] by simp
  next
    case (S12 b b1 s)
    have "unat b mod 16 < 16" by simp
    then have "length s < 4294967000" using S12(4) unat_byte_less [of b1] by linarith
    then show ?thesis by (simp add: S12(1))
  qed simp_all
qed


subsection \<open>\<open>lpInsert\<close>\<close>

lemma lp_image_at:
  "i \<le> length es \<Longrightarrow> lp_image es num slack = lp_pre es num i @ (lp_body (drop i es) @ [LP_EOF]) @ slack"
proof -
  have "lp_body es = lp_body (take i es @ drop i es)" by simp
  then have "lp_body es = lp_body (take i es) @ lp_body (drop i es)" by (simp only: lp_body_simps)
  then show ?thesis by (simp add: lp_image_def lp_pre_def)
qed

lemma lp_total_split:
  "i \<le> length es \<Longrightarrow> lp_total es = lp_off es i + length (lp_body (drop i es) @ [LP_EOF])"
  using arg_cong [OF lp_image_at [of i es 0 "[]"], of length] by (simp add: length_lp_image)

lemma lp_total_insert:
  "i \<le> length es \<Longrightarrow> lp_total (take i es @ e # drop i es) = lp_total es + entry_bytes e"
  using lp_total_split [of i es] by (simp add: lp_total_def lp_off_def)

lemma lp_ok_insert:
  "lp_ok es \<Longrightarrow> i \<le> length es \<Longrightarrow> entry_ok e \<Longrightarrow> lp_total es + entry_bytes e < 4294967296 \<Longrightarrow>
   lp_ok (take i es @ e # drop i es)"
  using set_take_subset [of i es] set_drop_subset [of i es]
  by (auto simp: lp_ok_def lp_total_insert list_all_iff simp del: length_append)

lemma entry_bytes_le: "entry_bytes e \<le> length e + 5"
  by (simp add: length_lpEncodeBacklen)

lemma num_ok_succ: "num_ok num es \<Longrightarrow> num \<noteq> LP_HDR_NUMELE_UNKNOWN \<Longrightarrow> length es' = Suc (length es) \<Longrightarrow> num_ok (num + 1) es'"
  by (auto simp: num_ok_def)

text \<open>
  The second half on a block \<open>A @ M @ T @ S\<close>: storing an entry in place of \<open>M\<close>, and removing \<open>M\<close>.
\<close>

lemma lpInsert_apply_store:
  assumes "lp = h @ le_bytes 2 num @ A @ M @ T @ S" "length h = 4" "num < 65536"
    and "old = length (h @ le_bytes 2 num @ A @ M @ T)" "old < 4294967296"
    and "new = old + entry_bytes e - length M" "poff = length (h @ le_bytes 2 num @ A)"
    and "t \<noteq> ENC_NONE" "enc_bytes t = e" "whr = LP_BEFORE \<and> M = [] \<or> whr = LP_REPLACE"
  shows "\<exists>S'. lpInsert_apply lp poff whr False t (length e) (lpEncodeBacklen (length e)) (length M) old new newp =
    Some (le_bytes 4 new @
          le_bytes 2 (if whr = LP_BEFORE \<and> num \<noteq> LP_HDR_NUMELE_UNKNOWN then num + 1 else num) @
          A @ lp_entry e @ T @ S', if newp then Ptr poff else NULL)"
proof -
  let ?A = "h @ le_bytes 2 num @ A" and ?bl = "lpEncodeBacklen (length e)"
  have len: "sub64 old poff = length M + length T" "sub64 (sub64 old poff) (length M) = length T"
    using assms(4,5,7) by (simp_all add: sub64_le)
  have "\<exists>X S' b2. memmove (if old < new \<and> length lp < new then realloc_buf lp new else lp)
      (poff + entry_bytes e) (poff + length M) (length T) = Some b2 \<and>
      (if new < old then realloc_buf b2 new else b2) = ?A @ X @ T @ S' \<and> length X = entry_bytes e"
    by (rule splice [where M = M and S = S]) (use assms in simp_all)
  then obtain X S' b2 where room: "memmove (if old < new \<and> length lp < new then realloc_buf lp new else lp)
      (poff + entry_bytes e) (poff + length M) (length T) = Some b2"
    "(if new < old then realloc_buf b2 new else b2) = ?A @ X @ T @ S'" "length X = entry_bytes e" by blast
  have store: "Option.bind (lp_store (?A @ X @ T @ S') poff t) (\<lambda>lp. wr_range lp (poff + length e) ?bl) =
      Some (?A @ e @ ?bl @ T @ S')"
    using store_entry [of X e ?bl t poff ?A "T @ S'"] room(3) assms(7-9) by simp
  have move: "(if whr = LP_BEFORE
      then memmove (if old < new \<and> length lp < new then realloc_buf lp new else lp) (poff + length e + length ?bl) poff (sub64 old poff)
      else memmove (if old < new \<and> length lp < new then realloc_buf lp new else lp) (poff + length e + length ?bl) (poff + length M)
             (sub64 (sub64 old poff) (length M))) = Some b2"
    using room(1) len assms(10) by (auto simp: add.assoc)
  show ?thesis
    unfolding lpInsert_apply_def Let_def move bind.bind_lunit room(2) store
    using assms(2,3,10) store
    by (intro exI [of _ S'])
      (auto simp: lp_entry_def lpGetNumElements_app lpSetNumElements_app lpSetTotalBytes_app)
qed

lemma lpInsert_apply_delete:
  assumes "lp = h @ le_bytes 2 num @ A @ M @ T @ S" "length h = 4" "num < 65536"
    and "old = length (h @ le_bytes 2 num @ A @ M @ T)" "old < 4294967296"
    and "new = old - length M" "poff = length (h @ le_bytes 2 num @ A)" "T = c # T'"
  shows "\<exists>S'. lpInsert_apply lp poff LP_REPLACE True t 0 [] (length M) old new newp =
    Some (le_bytes 4 new @
          le_bytes 2 (if num \<noteq> LP_HDR_NUMELE_UNKNOWN then sub32 num 1 else num) @ A @ T @ S',
          if newp \<and> c \<noteq> LP_EOF then Ptr poff else NULL)"
proof -
  let ?A = "h @ le_bytes 2 num @ A"
  have len: "sub64 (sub64 old poff) (length M) = length T"
    using assms(4,5,7) by (simp add: sub64_le)
  have "\<exists>X S' b2. memmove (if old < new \<and> length lp < new then realloc_buf lp new else lp)
      (poff + 0) (poff + length M) (length T) = Some b2 \<and>
      (if new < old then realloc_buf b2 new else b2) = ?A @ X @ T @ S' \<and> length X = 0"
    by (rule splice [where M = M and S = S]) (use assms in simp_all)
  then obtain S' b2 where room: "memmove (if old < new \<and> length lp < new then realloc_buf lp new else lp)
      (poff + 0 + length ([] :: buf)) (poff + length M) (sub64 (sub64 old poff) (length M)) = Some b2"
    "(if new < old then realloc_buf b2 new else b2) = ?A @ T @ S'" by (auto simp: len)
  have rd: "rd (?A @ T @ S') poff = Some c"
    using rd_append_at [of ?A c "T' @ S'"] assms(7,8) by simp
  have c: "(LP_REPLACE = LP_BEFORE) = False" "(\<not> True) = False" "(LP_REPLACE \<noteq> LP_REPLACE \<or> True) = True" by simp_all
  show ?thesis
    unfolding lpInsert_apply_def Let_def c if_False if_True room(1) bind.bind_lunit room(2) rd
    using assms(2,3)
    by (intro exI [of _ S']) (auto simp: lpGetNumElements_app lpSetNumElements_app lpSetTotalBytes_app)
qed

text \<open>
  What an insertion must return: \<open>NULL\<close> when the new list does not fit the 32-bit size field,
  otherwise a block that represents it, and \<open>*newp\<close>.
\<close>

definition lp_yields :: "(buf \<times> nat nullable) nullable option \<Rightarrow> buf list \<Rightarrow> nat nullable \<Rightarrow> bool" where
  "lp_yields r es np \<longleftrightarrow>
     (if UINT32_MAX < lp_total es then r = Some NULL
      else \<exists>lp. r = Some (Ptr (lp, np)) \<and> lp_rep lp es)"

text \<open>The entry body an element becomes.\<close>

abbreviation ele_entry :: "buf nullable \<Rightarrow> buf nullable \<Rightarrow> buf" where
  "ele_entry elestr eleint \<equiv> enc_bytes (fst (lpInsert_enc elestr eleint))"

lemma lp_rep_blocks:
  assumes "lp_ok es" "num_ok num es" "new = lp_total es"
  shows "lp_rep (le_bytes 4 new @ le_bytes 2 num @ lp_body es @ LP_EOF # S) es"
  using lp_repI [OF assms(1,2), of S] assms(3) by (simp add: lp_image_def)

lemma lpInsert_before_rep:
  assumes "lp_rep lp es" "i \<le> length es" "\<not> (elestr = NULL \<and> eleint = NULL)"
    and "entry_ok (ele_entry elestr eleint)"
  shows "lp_yields (lpInsert lp elestr eleint (lp_off es i) LP_BEFORE newp)
    (insert_at i (ele_entry elestr eleint) es) (if newp then Ptr (lp_off es i) else NULL)"
proof -
  obtain t n where tn: "lpInsert_enc elestr eleint = (t, n)" by fastforce
  note enc = lpInsert_enc_length [OF tn assms(3)]
  define e where "e = enc_bytes t"
  have e: "ele_entry elestr eleint = e" "entry_ok e" "n = length e" using assms(4) tn enc by (simp_all add: e_def)
  obtain num slack where lp: "lp = lp_image es num slack" "num_ok num es" "lp_ok es" "num < 65536" "lp_total es < 4294967296"
    using assms(1) by (rule lp_repE)
  let ?new = "lp_total es + entry_bytes e"
  have tot: "lpGetTotalBytes lp = Some (lp_total es)" using lp by (simp add: lpGetTotalBytes_image)
  have sub: "sub64 ?new 0 = ?new"
    using entry_ok_length [OF e(2)] entry_bytes_le [of e] lp(5) by (simp add: sub64_le)
  have del: "(elestr = NULL \<and> eleint = NULL) = False" using assms(3) by simp
  have ins: "lpInsert lp elestr eleint (lp_off es i) LP_BEFORE newp =
      (if UINT32_MAX < ?new then Some NULL
       else map_option Ptr (lpInsert_apply lp (lp_off es i) LP_BEFORE False t (length e) (lpEncodeBacklen (length e)) 0
              (lp_total es) ?new newp))"
    unfolding lpInsert_def del Let_def using tn tot sub by (simp add: e(3) add.assoc)
  have total: "lp_total (insert_at i e es) = ?new" using assms(2) by (simp add: insert_at_def lp_total_insert)
  show ?thesis
  proof (cases "UINT32_MAX < ?new")
    case True
    then show ?thesis by (simp add: lp_yields_def e(1) total ins)
  next
    case False
    let ?T = "lp_body (drop i es) @ [LP_EOF]" and ?num = "if num \<noteq> LP_HDR_NUMELE_UNKNOWN then num + 1 else num"
    have "lp = le_bytes 4 (lp_total es) @ le_bytes 2 num @ lp_body (take i es) @ [] @ ?T @ slack"
      using lp_image_at [OF assms(2), of num slack] lp(1) by (simp add: lp_pre_def)
    note split = this
    have len: "lp_total es = length (le_bytes 4 (lp_total es) @ le_bytes 2 num @ lp_body (take i es) @ [] @ ?T)"
      "lp_off es i = length (le_bytes 4 (lp_total es) @ le_bytes 2 num @ lp_body (take i es))"
      using lp_total_split [OF assms(2)] by (simp_all add: lp_off_def)
    obtain S' where "lpInsert_apply lp (lp_off es i) LP_BEFORE False t (length e) (lpEncodeBacklen (length e)) 0
          (lp_total es) ?new newp =
        Some (le_bytes 4 ?new @ le_bytes 2 ?num @ lp_body (take i es) @ lp_entry e @ ?T @ S',
              if newp then Ptr (lp_off es i) else NULL)"
      using lpInsert_apply_store [OF split _ lp(4) len(1) lp(5) _ len(2) enc(2) e_def [symmetric],
          of ?new LP_BEFORE newp] by auto
    moreover have "lp_rep (le_bytes 4 ?new @ le_bytes 2 ?num @ lp_body (insert_at i e es) @ LP_EOF # S') (insert_at i e es)"
    proof (rule lp_rep_blocks)
      show "lp_ok (insert_at i e es)"
        unfolding insert_at_def using False by (intro lp_ok_insert lp(3) assms(2) e(2)) simp
      show "num_ok ?num (insert_at i e es)"
        using lp(2) assms(2) num_ok_succ [OF lp(2), of "insert_at i e es"] by (auto simp: insert_at_def num_ok_def)
    qed (simp add: total)
    ultimately show ?thesis using False total by (auto simp: lp_yields_def e(1) ins insert_at_def)
  qed
qed

text \<open>\<open>LP_AFTER\<close> is \<open>LP_BEFORE\<close> at the next entry.\<close>

lemma lpInsert_after_rep:
  assumes "lp_rep lp es" "i < length es" "\<not> (elestr = NULL \<and> eleint = NULL)"
    and "entry_ok (ele_entry elestr eleint)"
  shows "lp_yields (lpInsert lp elestr eleint (lp_off es i) LP_AFTER newp)
    (insert_at (Suc i) (ele_entry elestr eleint) es) (if newp then Ptr (lp_off es (Suc i)) else NULL)"
proof -
  obtain num slack where lp: "lp = lp_image es num slack" "lp_ok es" "lp_total es < 4294967296" using assms(1) by (rule lp_repE)
  have "lpSkip lp (lp_off es i) = Some (lp_off es (Suc i))" using lpSkip_off [OF lp(2) assms(2)] lp(1) by simp
  moreover have "lpGetTotalBytes lp = Some (lp_total es)" using lp by (simp add: lpGetTotalBytes_image)
  moreover have "lp_off es (Suc i) < lp_total es" "LP_HDR_SIZE \<le> lp_off es (Suc i)"
    by (rule lp_off_less_total, rule lp_off_ge)
  moreover have del: "(elestr = NULL \<and> eleint = NULL) = False" using assms(3) by simp
  ultimately have "lpInsert lp elestr eleint (lp_off es i) LP_AFTER newp =
      lpInsert lp elestr eleint (lp_off es (Suc i)) LP_BEFORE newp"
    unfolding lpInsert_def del Let_def by simp
  then show ?thesis using lpInsert_before_rep [OF assms(1), of "Suc i"] assms(2-4) by simp
qed

text \<open>Replacing the \<open>i\<close>-th entry, and removing it.\<close>

lemma lp_total_nth:
  assumes "i < length es"
  shows "lp_total es = lp_off es i + entry_bytes (es ! i) + length (lp_body (drop (Suc i) es) @ [LP_EOF])"
  using arg_cong [OF lp_image_split [OF assms, of 0 "[]"], of length] by (simp add: length_lp_image)

lemma lp_total_update:
  "i < length es \<Longrightarrow> lp_total (es[i := e]) = lp_total es + entry_bytes e - entry_bytes (es ! i)"
  using lp_total_nth [of i es] lp_total_nth [of i "es[i := e]"] by (simp add: lp_off_def)

lemma lp_total_remove:
  "i < length es \<Longrightarrow> lp_total (take i es @ drop (Suc i) es) = lp_total es - entry_bytes (es ! i)"
  using lp_total_nth [of i es] by (simp add: lp_off_def lp_total_def)

lemma lp_ok_update:
  "lp_ok es \<Longrightarrow> i < length es \<Longrightarrow> entry_ok e \<Longrightarrow> lp_total (es[i := e]) < 4294967296 \<Longrightarrow> lp_ok (es[i := e])"
  using set_update_subset_insert [of es i e] by (auto simp: lp_ok_def list_all_iff)

lemma lp_ok_remove: "lp_ok es \<Longrightarrow> i < length es \<Longrightarrow> lp_ok (take i es @ drop (Suc i) es)"
  using set_take_subset [of i es] set_drop_subset [of "Suc i" es]
  by (auto simp: lp_ok_def lp_total_remove list_all_iff simp del: length_append)

lemma replaced_len_rep:
  assumes "lp_ok es" "i < length es"
  shows "entry_bytes (es ! i) mod 4294967296 = entry_bytes (es ! i)"
  using lp_ok_bytes [OF assms] assms(1) by (simp add: lp_ok_def)

text \<open>The block around the \<open>i\<close>-th entry, as the second half of \<open>lpInsert\<close> sees it.\<close>

lemma lp_image_blocks:
  assumes "i < length es"
  shows "lp_image es num slack = le_bytes 4 (lp_total es) @ le_bytes 2 num @ lp_body (take i es) @
      lp_entry (es ! i) @ (lp_body (drop (Suc i) es) @ [LP_EOF]) @ slack"
    and "lp_total es = length (le_bytes 4 (lp_total es) @ le_bytes 2 num @ lp_body (take i es) @
      lp_entry (es ! i) @ (lp_body (drop (Suc i) es) @ [LP_EOF]))"
    and "lp_off es i = length (le_bytes 4 (lp_total es) @ le_bytes 2 num @ lp_body (take i es))"
  using lp_image_split [OF assms, of num slack] lp_total_nth [OF assms]
  by (simp_all add: lp_pre_def lp_entry_def lp_off_def)

lemma lpInsert_replace_rep:
  assumes "lp_rep lp es" "i < length es" "\<not> (elestr = NULL \<and> eleint = NULL)"
    and "entry_ok (ele_entry elestr eleint)"
  shows "lp_yields (lpInsert lp elestr eleint (lp_off es i) LP_REPLACE newp)
    (es[i := ele_entry elestr eleint]) (if newp then Ptr (lp_off es i) else NULL)"
proof -
  obtain t n where tn: "lpInsert_enc elestr eleint = (t, n)" by fastforce
  note enc = lpInsert_enc_length [OF tn assms(3)]
  define e where "e = enc_bytes t"
  have e: "ele_entry elestr eleint = e" "entry_ok e" "n = length e" using assms(4) tn enc by (simp_all add: e_def)
  obtain num slack where lp: "lp = lp_image es num slack" "num_ok num es" "lp_ok es" "num < 65536" "lp_total es < 4294967296"
    using assms(1) by (rule lp_repE)
  let ?new = "lp_total es + entry_bytes e - entry_bytes (es ! i)"
  note bytes = lp_ok_bytes [OF lp(3) assms(2)] lp_off_ge [of es i]
  have tot: "lpGetTotalBytes lp = Some (lp_total es)" using lp by (simp add: lpGetTotalBytes_image)
  have size: "lpCurrentEncodedSizeUnsafe lp (lp_off es i) = Some (length (es ! i))"
    using size_off_entry [OF lp(3) assms(2)] lp(1) by simp
  have sub: "sub64 (lp_total es + entry_bytes e) (entry_bytes (es ! i)) = ?new"
    using entry_ok_length [OF e(2)] entry_bytes_le [of e] lp(5) bytes(1) by (intro sub64_le) simp_all
  have del: "(elestr = NULL \<and> eleint = NULL) = False" using assms(3) by simp
  have ins: "lpInsert lp elestr eleint (lp_off es i) LP_REPLACE newp =
      (if UINT32_MAX < ?new then Some NULL
       else map_option Ptr (lpInsert_apply lp (lp_off es i) LP_REPLACE False t (length e) (lpEncodeBacklen (length e))
              (length (lp_entry (es ! i))) (lp_total es) ?new newp))"
    unfolding lpInsert_def del Let_def
    using tn tot sub size replaced_len_rep [OF lp(3) assms(2)] bytes by (simp add: e(3) add.assoc)
  note total = lp_total_update [OF assms(2), of e]
  show ?thesis
  proof (cases "UINT32_MAX < ?new")
    case True
    then show ?thesis by (simp add: lp_yields_def e(1) total ins)
  next
    case False
    let ?T = "lp_body (drop (Suc i) es) @ [LP_EOF]"
    obtain S' where app: "lpInsert_apply lp (lp_off es i) LP_REPLACE False t (length e) (lpEncodeBacklen (length e))
          (length (lp_entry (es ! i))) (lp_total es) ?new newp =
        Some (le_bytes 4 ?new @ le_bytes 2 num @ lp_body (take i es) @ lp_entry e @ ?T @ S',
              if newp then Ptr (lp_off es i) else NULL)"
      using lpInsert_apply_store [OF lp(1) [unfolded lp_image_blocks(1) [OF assms(2)]] _ lp(4)
          lp_image_blocks(2) [OF assms(2)] lp(5) _ lp_image_blocks(3) [OF assms(2)] enc(2) e_def [symmetric],
          of ?new LP_REPLACE newp] by auto
    have body: "lp_body (es[i := e]) = lp_body (take i es) @ lp_entry e @ lp_body (drop (Suc i) es)"
      using assms(2) by (simp add: upd_conv_take_nth_drop)
    have "lp_rep (le_bytes 4 ?new @ le_bytes 2 num @ lp_body (es[i := e]) @ LP_EOF # S') (es[i := e])"
    proof (rule lp_rep_blocks)
      show "lp_ok (es[i := e])" using False total by (intro lp_ok_update lp(3) assms(2) e(2)) simp
      show "num_ok num (es[i := e])" using lp(2) by (simp add: num_ok_def)
    qed (simp add: total)
    then show ?thesis using False app total by (auto simp: lp_yields_def e(1) ins body)
  qed
qed

lemma lpInsert_delete_rep:
  assumes "lp_rep lp es" "i < length es"
  defines "es' \<equiv> remove_at i es"
  shows "\<exists>lp'. lpInsert lp NULL NULL (lp_off es i) whr newp = Some (Ptr (lp', if newp then lp_ptr es' i else NULL)) \<and>
    lp_rep lp' es'"
proof -
  obtain num slack where lp: "lp = lp_image es num slack" "num_ok num es" "lp_ok es" "num < 65536" "lp_total es < 4294967296"
    using assms(1) by (rule lp_repE)
  let ?new = "lp_total es - entry_bytes (es ! i)"
  note bytes = lp_ok_bytes [OF lp(3) assms(2)] lp_off_ge [of es i]
  have tot: "lpGetTotalBytes lp = Some (lp_total es)" using lp by (simp add: lpGetTotalBytes_image)
  have size: "lpCurrentEncodedSizeUnsafe lp (lp_off es i) = Some (length (es ! i))"
    using size_off_entry [OF lp(3) assms(2)] lp(1) by simp
  have sub: "sub64 (lp_total es) (entry_bytes (es ! i)) = ?new" "\<not> UINT32_MAX < ?new"
    using lp(5) bytes(1) by (auto intro!: sub64_le)
  have ins: "lpInsert lp NULL NULL (lp_off es i) whr newp =
      map_option Ptr (lpInsert_apply lp (lp_off es i) LP_REPLACE True ENC_NONE 0 []
              (length (lp_entry (es ! i))) (lp_total es) ?new newp)"
    using tot sub size replaced_len_rep [OF lp(3) assms(2)] bytes
    by (simp add: lpInsert_def lpInsert_enc_def)
  let ?T = "lp_body (drop (Suc i) es) @ [LP_EOF]" and ?num = "if num \<noteq> LP_HDR_NUMELE_UNKNOWN then sub32 num 1 else num"
  obtain c T' where T: "?T = c # T'" by (cases ?T) auto
  have c: "(c \<noteq> LP_EOF) = (i < length es')"
  proof (cases "Suc i < length es")
    case True
    then obtain f fs where d: "drop (Suc i) es = f # fs" "f = es ! Suc i" by (metis Cons_nth_drop_Suc)
    have "entry_ok f" using lp_ok_nth [OF lp(3) True] d(2) by simp
    then obtain b r where "f = b # r" "b \<noteq> LP_EOF" by (cases f) (auto simp: entry_ok_def)
    then show ?thesis using T d True by (simp add: es'_def remove_at_def lp_entry_def)
  next
    case False
    then show ?thesis using T assms(2) by (simp add: es'_def remove_at_def)
  qed
  obtain S' where app: "lpInsert_apply lp (lp_off es i) LP_REPLACE True ENC_NONE 0 []
          (length (lp_entry (es ! i))) (lp_total es) ?new newp =
        Some (le_bytes 4 ?new @ le_bytes 2 ?num @ lp_body (take i es) @ ?T @ S',
              if newp \<and> c \<noteq> LP_EOF then Ptr (lp_off es i) else NULL)"
    using lpInsert_apply_delete [OF lp(1) [unfolded lp_image_blocks(1) [OF assms(2)]] _ lp(4)
          lp_image_blocks(2) [OF assms(2)] lp(5) _ lp_image_blocks(3) [OF assms(2)] T,
          of ?new ENC_NONE newp] by auto
  have off: "lp_off es' i = lp_off es i" using assms(2) by (simp add: es'_def remove_at_def lp_off_def)
  have "lp_rep (le_bytes 4 ?new @ le_bytes 2 ?num @ lp_body es' @ LP_EOF # S') es'"
  proof (rule lp_rep_blocks)
    show "lp_ok es'" unfolding es'_def remove_at_def by (intro lp_ok_remove lp(3) assms(2))
    show "num_ok ?num es'" using lp(2) assms(2) by (auto simp: num_ok_def es'_def remove_at_def sub32_le)
  qed (simp add: es'_def remove_at_def lp_total_remove [OF assms(2)])
  then show ?thesis using app c by (auto simp: ins es'_def [symmetric] lp_ptr_def off) (simp_all add: es'_def remove_at_def)
qed

end
