(* ===== verification/Listpack_Seq.thy ===== *)
theory Listpack_Seq
  imports Listpack_Correct
begin

text \<open>
  A listpack as a sequence of strings: what an entry reads as, the insertion wrappers of
  \<open>listpack.c\<close>, and the interpretation of the sequence interface on them.
\<close>


subsection \<open>Elements\<close>

abbreviation short :: "buf \<Rightarrow> bool" where
  "short s \<equiv> length s < 4294967291"

lemma ele_entry_str [simp]: "ele_entry (Ptr s) x = lp_encode s"
  by (simp add: lpInsert_enc_def lp_encode_def split: sum.split)

lemma ele_entry_int [simp]: "ele_entry NULL (Ptr b) = b"
  by (simp add: lpInsert_enc_def)

text \<open>An integer and its decimal notation become the same entry.\<close>

lemma lp_encode_int: "is_int64 v \<Longrightarrow> lpEncodeIntegerGetType v = lp_encode (dec_int v)"
  using string2ll_Some_iff [of "dec_int v" v]
  by (simp add: lp_encode_def lpEncodeGetType_def Let_def lpStringToInt64_eq)

lemma lpEncodeInteger_ok: "is_int64 v \<Longrightarrow> entry_ok (lpEncodeIntegerGetType v)"
  using lpEncodeIntegerGetType_correct by blast

lemma lp_signed_int64:
  assumes "u < 2 * h" "h \<le> 9223372036854775808" "m = 2 * h - 1"
  shows "is_int64 (lp_signed u h m)"
  using assms by (auto simp: lp_signed_def is_int64_def of_nat_diff)

lemma le_val_less: "length bs = n \<Longrightarrow> m = 256 ^ n \<Longrightarrow> le_val bs < m"
  using le_val_bound [of bs] by simp

lemma entry_ref_bounds:
  assumes "entry_ok e"
  shows "case entry_ref e of LpStr off n \<Rightarrow> off + n = length e | LpInt v \<Rightarrow> is_int64 v | LpBuf _ _ \<Rightarrow> False"
  using assms
proof (cases rule: entry_ok_cases)
  case (I7 b)
  have "0 \<le> int (unat b)" "int (unat b) < 256" using unat_byte_less [of b] by linarith+
  then have "is_int64 (int (unat b))" unfolding is_int64_def by linarith
  with I7 show ?thesis using entry_refI [OF lpGetWithSize_7bit, of e b] by (simp del: of_nat_unat)
next
  case (S6 b s)
  then show ?thesis using entry_refI [OF lpGetWithSize_6bit_str, of e b] by simp
next
  case (I13 b b1)
  have "unat b1 + 256 * (unat b mod 32) < 8192"
    using unat_byte_less [of b1] mod_less_divisor [of 32 "unat b"] by linarith
  with I13 show ?thesis
    using entry_refI [OF lpGetWithSize_13bit, of e b b1] by (simp add: lp_signed_int64)
next
  case (S12 b b1 s)
  then show ?thesis using entry_refI [OF lpGetWithSize_12bit_str, of e b b1] by simp
next
  case (S32 b b1 b2 b3 b4 s)
  then show ?thesis
    using entry_refI [OF lpGetWithSize_32bit_str, of e b b1 b2 b3 b4] by (simp del: le_val.simps)
next
  case (I16 b b1 b2)
  have "is_int64 (lp_signed (le_val [b1, b2]) 32768 65535)"
    by (rule lp_signed_int64) (simp_all add: le_val_less del: le_val.simps)
  with I16 show ?thesis using entry_refI [OF lpGetWithSize_16bit, of e b b1 b2] by (simp del: le_val.simps)
next
  case (I24 b b1 b2 b3)
  have "is_int64 (lp_signed (le_val [b1, b2, b3]) 8388608 16777215)"
    by (rule lp_signed_int64) (simp_all add: le_val_less del: le_val.simps)
  with I24 show ?thesis using entry_refI [OF lpGetWithSize_24bit, of e b b1 b2 b3] by (simp del: le_val.simps)
next
  case (I32 b b1 b2 b3 b4)
  have "is_int64 (lp_signed (le_val [b1, b2, b3, b4]) 2147483648 4294967295)"
    by (rule lp_signed_int64) (simp_all add: le_val_less del: le_val.simps)
  with I32 show ?thesis using entry_refI [OF lpGetWithSize_32bit, of e b b1 b2 b3 b4] by (simp del: le_val.simps)
next
  case (I64 b b1 b2 b3 b4 b5 b6 b7 b8)
  have "is_int64 (lp_signed (le_val [b1, b2, b3, b4, b5, b6, b7, b8]) (2 ^ 63) UINT64_MAX)"
    by (rule lp_signed_int64) (simp_all add: le_val_less del: le_val.simps)
  with I64 show ?thesis
    using entry_refI [OF lpGetWithSize_64bit, of e b b1 b2 b3 b4 b5 b6 b7 b8] by (simp del: le_val.simps)
qed

text \<open>The bytes of a value.\<close>

definition value_string :: "listpackEntry \<Rightarrow> buf" where
  "value_string v = (case sval v of Ptr s \<Rightarrow> s | NULL \<Rightarrow> dec_int (lval v))"

lemma lpGet_rep:
  assumes "lp_rep lp es" "i < length es"
  shows "lpGet lp (lp_off es i) NULL = Some (shift_ref (lp_off es i) (entry_ref (es ! i)))"
    and "lpGetWithSize lp (lp_off es i) NULL =
           Some (shift_ref (lp_off es i) (entry_ref (es ! i)), Some (entry_bytes (es ! i)))"
proof -
  obtain num slack where lp: "lp = lp_image es num slack" "lp_ok es" using assms(1) by (rule lp_repE)
  show *: "lpGetWithSize lp (lp_off es i) NULL =
           Some (shift_ref (lp_off es i) (entry_ref (es ! i)), Some (entry_bytes (es ! i)))"
    using lpGetWithSize_entry [OF lp_ok_nth [OF lp(2) assms(2)], of "lp_pre es num i"]
    unfolding lp(1) lp_image_split [OF assms(2)] by simp
  show "lpGet lp (lp_off es i) NULL = Some (shift_ref (lp_off es i) (entry_ref (es ! i)))"
    by (simp add: lpGet_def *)
qed

text \<open>Reading inside an entry of the image.\<close>

lemma rd_range_entry:
  assumes "lp_rep lp es" "i < length es" "off + n \<le> length (es ! i)"
  shows "rd_range lp (lp_off es i + off) n = Some (take n (drop off (es ! i)))"
proof -
  obtain num slack where lp: "lp = lp_image es num slack" using assms(1) by (rule lp_repE)
  show ?thesis
    unfolding lp lp_image_split [OF assms(2)] using assms(3) by (simp add: rd_range_def)
qed

lemma lpGetValue_rep:
  assumes "lp_rep lp es" "i < length es"
  shows "\<exists>v. lpGetValue lp (lp_off es i) = Some v \<and> value_string v = entry_string (es ! i)"
proof -
  obtain num slack where lp: "lp_ok es" using assms(1) by (rule lp_repE)
  note ok = lp_ok_nth [OF lp assms(2)]
  note b = entry_ref_bounds [OF ok] entry_ok_length [OF ok]
  show ?thesis
  proof (cases "entry_ref (es ! i)")
    case (LpStr off n)
    with b have n: "off + n \<le> length (es ! i)" "n mod 4294967296 = n" by simp_all
    then show ?thesis
      using lpGet_rep(1) [OF assms] rd_range_entry [OF assms n(1)] LpStr
      by (simp add: lpGetValue_def entry_string_ref [OF ok] value_string_def)
  next
    case (LpInt v)
    then show ?thesis
      using lpGet_rep(1) [OF assms] by (simp add: lpGetValue_def entry_string_ref [OF ok] value_string_def)
  next
    case (LpBuf x y)
    then show ?thesis using b by simp
  qed
qed


subsection \<open>The wrappers of \<open>lpInsert\<close>\<close>

definition lp_gives :: "buf nullable option \<Rightarrow> buf list \<Rightarrow> bool" where
  "lp_gives r es \<longleftrightarrow>
     (if UINT32_MAX < lp_total es then r = Some NULL else \<exists>lp. r = Some (Ptr lp) \<and> lp_rep lp es)"

lemma lp_only_yields: "lp_yields r es np \<Longrightarrow> lp_gives (lp_only r) es"
  by (auto simp: lp_yields_def lp_gives_def lp_only_def split: if_splits)

lemma insert_at_ends [simp]: "insert_at 0 x xs = x # xs" "insert_at (length xs) x xs = xs @ [x]"
  by (simp_all add: insert_at_def)

lemma lp_end_rep:
  assumes "lp_rep lp es"
  shows "lpGetTotalBytes lp = Some (lp_total es)" "lp_total es - 1 = lp_off es (length es)"
  using lpBytes_rep [OF assms] lp_off_length [of es] by (simp_all add: lpBytes_def)

lemma lpAppend_rep:
  assumes "lp_rep lp es" "short s"
  shows "lp_gives (lpAppend lp s) (es @ [lp_encode s])"
  using lp_only_yields [OF lpInsert_before_rep [OF assms(1), of "length es" "Ptr s" NULL False]]
    lp_end_rep [OF assms(1)] lp_encode_correct [OF assms(2)]
  by (simp add: lpAppend_def)

lemma lpAppendInteger_rep:
  assumes "lp_rep lp es" "is_int64 v"
  shows "lp_gives (lpAppendInteger lp v) (es @ [lp_encode (dec_int v)])"
  using lp_only_yields [OF lpInsert_before_rep [OF assms(1), of "length es" NULL "Ptr (lpEncodeIntegerGetType v)" False]]
    lp_end_rep [OF assms(1)] lpEncodeInteger_ok [OF assms(2)]
  by (simp add: lpAppendInteger_def lpInsertInteger_def lp_encode_int [OF assms(2)])

lemma lpPrepend_rep:
  assumes "lp_rep lp es" "short s"
  shows "lp_gives (lpPrepend lp s) (lp_encode s # es)"
  using lp_only_yields [OF lpInsert_before_rep [OF assms(1), of 0 "Ptr s" NULL False]] lpAppend_rep [OF assms]
    lpFirst_rep [OF assms(1)] lp_encode_correct [OF assms(2)]
  by (cases "es = []") (simp_all add: lpPrepend_def lp_ptr_def)

lemma lpPrependInteger_rep:
  assumes "lp_rep lp es" "is_int64 v"
  shows "lp_gives (lpPrependInteger lp v) (lp_encode (dec_int v) # es)"
  using lp_only_yields [OF lpInsert_before_rep [OF assms(1), of 0 NULL "Ptr (lpEncodeIntegerGetType v)" False]]
    lpAppendInteger_rep [OF assms] lpFirst_rep [OF assms(1)] lpEncodeInteger_ok [OF assms(2)]
  by (cases "es = []") (simp_all add: lpPrependInteger_def lpInsertInteger_def lp_ptr_def lp_encode_int [OF assms(2)])

lemma lpInsertString_rep:
  assumes "lp_rep lp es" "short s" "i < length es"
  shows "lp_yields (lpInsertString lp s (lp_off es i) LP_BEFORE newp) (insert_at i (lp_encode s) es)
          (if newp then Ptr (lp_off es i) else NULL)"
    and "lp_yields (lpInsertString lp s (lp_off es i) LP_AFTER newp) (insert_at (Suc i) (lp_encode s) es)
          (if newp then Ptr (lp_off es (Suc i)) else NULL)"
    and "lp_yields (lpReplace lp (lp_off es i) s) (es[i := lp_encode s]) (Ptr (lp_off es i))"
  using lpInsert_before_rep [OF assms(1), of i "Ptr s" NULL newp] lpInsert_after_rep [OF assms(1,3), of "Ptr s" NULL newp]
    lpInsert_replace_rep [OF assms(1,3), of "Ptr s" NULL True] lp_encode_correct [OF assms(2)] assms(3)
  by (simp_all add: lpInsertString_def lpReplace_def)

lemma lpDelete_rep:
  assumes "lp_rep lp es" "i < length es"
  shows "\<exists>lp'. lpDelete lp (lp_off es i) newp = Some (Ptr (lp', if newp then lp_ptr (remove_at i es) i else NULL)) \<and>
    lp_rep lp' (remove_at i es)"
  unfolding lpDelete_def by (rule lpInsert_delete_rep [OF assms])

lemma wr_append_at: "wr (xs @ y # ys) (length xs) x = Some (xs @ x # ys)"
  by (simp add: wr_def)

lemma lpNew_rep: "\<exists>lp. lpNew capacity = Some lp \<and> lp_rep lp []"
proof -
  define n where "n = (if LP_HDR_SIZE + 1 < capacity then capacity else LP_HDR_SIZE + 1)"
  have "7 \<le> n" by (simp add: n_def)
  then obtain m where m: "n = 7 + m" using le_Suc_ex by blast
  have "replicate n (0 :: byte) = replicate (4 + (2 + Suc m)) 0" by (simp add: m)
  then have "replicate n (0 :: byte) = replicate 4 0 @ replicate 2 0 @ 0 # replicate m 0"
    by (simp only: replicate_add replicate_Suc)
  moreover have "wr ((le_bytes 4 7 @ le_bytes 2 0) @ 0 # replicate m 0) (length (le_bytes 4 7 @ le_bytes 2 0)) LP_EOF =
      Some ((le_bytes 4 7 @ le_bytes 2 0) @ LP_EOF # replicate m 0)"
    by (rule wr_append_at)
  ultimately have "lpNew capacity = Some (le_bytes 4 7 @ le_bytes 2 0 @ LP_EOF # replicate m 0)"
    unfolding lpNew_def n_def [symmetric] by (simp add: lpSetTotalBytes_app lpSetNumElements_app)
  moreover have "lp_rep (le_bytes 4 7 @ le_bytes 2 0 @ lp_body [] @ LP_EOF # replicate m 0) []"
    by (rule lp_rep_blocks) (simp_all add: lp_ok_def num_ok_def lp_total_def)
  ultimately show ?thesis by simp
qed

subsection \<open>A listpack of strings is a sequence\<close>

text \<open>A listpack built from strings: every entry is the encoding \<open>lpInsert\<close> chooses.\<close>

definition lp_holds :: "buf \<Rightarrow> buf list \<Rightarrow> bool" where
  "lp_holds lp xs \<longleftrightarrow> lp_rep lp (map lp_encode xs) \<and> list_all short xs"

definition lp_fits :: "buf list \<Rightarrow> bool" where
  "lp_fits xs \<longleftrightarrow> lp_total (map lp_encode xs) \<le> UINT32_MAX"

definition listpack_impl :: "(buf, nat, buf) seq_impl" where
  "listpack_impl = \<lparr>
     sq_push_back = lpAppend,
     sq_push_front = lpPrepend,
     sq_seek = lpSeek,
     sq_ins_before = (\<lambda>lp p s. lp_only (lpInsertString lp s p LP_BEFORE False)),
     sq_ins_after = (\<lambda>lp p s. lp_only (lpInsertString lp s p LP_AFTER False)),
     sq_replace = (\<lambda>lp p s. lp_only (lpReplace lp p s)),
     sq_delete = (\<lambda>lp p. lp_only (lpDelete lp p False)),
     sq_get = (\<lambda>lp p. map_option value_string (lpGetValue lp p)),
     sq_count = lpLength \<rparr>"

lemma lp_gives_holds:
  assumes "lp_gives r (map lp_encode xs)" "list_all short xs"
  shows "gives lp_holds lp_fits r xs"
  using assms by (auto simp: lp_gives_def gives_def lp_holds_def lp_fits_def not_less)

lemma map_insert_at: "map f (insert_at i x xs) = insert_at i (f x) (map f xs)"
  by (simp add: insert_at_def take_map drop_map)

lemma map_remove_at: "map f (remove_at i xs) = remove_at i (map f xs)"
  by (simp add: remove_at_def take_map drop_map)

lemma list_all_insert_at: "list_all P xs \<Longrightarrow> P x \<Longrightarrow> list_all P (insert_at i x xs)"
  using set_take_subset [of i xs] set_drop_subset [of i xs] by (auto simp: insert_at_def list_all_iff)

lemma list_all_remove_at: "list_all P xs \<Longrightarrow> list_all P (remove_at i xs)"
  using set_take_subset [of i xs] set_drop_subset [of "Suc i" xs] by (auto simp: remove_at_def list_all_iff)

lemma list_all_update: "list_all P xs \<Longrightarrow> P x \<Longrightarrow> list_all P (xs[i := x])"
  using set_update_subset_insert [of xs i x] by (auto simp: list_all_iff)

text \<open>Small lists fit.\<close>

lemma length_lp_encode_le: "length (lp_encode s) \<le> length s + 9"
  by (simp add: lp_encode_def lpEncodeGetType_def lpEncodeString_def lpEncodeIntegerGetType_def Let_def
      split: option.split)

lemma length_lp_body_le: "length (lp_body (map lp_encode xs)) \<le> sum_list (map length xs) + 14 * length xs"
proof (induction xs)
  case (Cons s xs)
  have "entry_bytes (lp_encode s) \<le> length s + 14"
    using length_lp_encode_le [of s] entry_bytes_le [of "lp_encode s"] by linarith
  with Cons show ?case by simp
qed simp

lemma lp_fits_small: "sum_list (map length xs) + 14 * length xs \<le> 4000000000 \<Longrightarrow> lp_fits xs"
  using length_lp_body_le [of xs] by (simp add: lp_fits_def lp_total_def)

interpretation lp_seq: packed_seq listpack_impl lp_holds lp_fits "\<lambda>xs. lp_off (map lp_encode xs)" short
proof
  fix lp xs s k i
  assume h: "lp_holds lp xs"
  then have rep: "lp_rep lp (map lp_encode xs)" and sh: "list_all short xs" by (simp_all add: lp_holds_def)
  show "sq_seek listpack_impl lp i =
      Some (case seek_index (length xs) i of None \<Rightarrow> NULL | Some k \<Rightarrow> Ptr (lp_off (map lp_encode xs) k))"
    using lpSeek_rep [OF rep] by (simp add: listpack_impl_def split: option.split)
  show "\<exists>lp'. sq_count listpack_impl lp = Some (length xs, lp') \<and> lp_holds lp' xs"
    using lpLength_rep [OF rep] sh by (simp add: listpack_impl_def lp_holds_def)
  {
    assume k: "k < length xs"
    then have k': "k < length (map lp_encode xs)" by simp
    have "short (xs ! k)" using sh k by (simp add: list_all_length)
    then show "sq_get listpack_impl lp (lp_off (map lp_encode xs) k) = Some (xs ! k)"
      using lpGetValue_rep [OF rep k'] lp_encode_correct [of "xs ! k"] k by (auto simp: listpack_impl_def)
    show "\<exists>lp'. sq_delete listpack_impl lp (lp_off (map lp_encode xs) k) = Some (Ptr lp') \<and> lp_holds lp' (remove_at k xs)"
      using lpDelete_rep [OF rep k', of False] sh
      by (auto simp: listpack_impl_def lp_only_def lp_holds_def map_remove_at list_all_remove_at)
  }
  assume s: "short s"
  show "gives lp_holds lp_fits (sq_push_back listpack_impl lp s) (xs @ [s])"
    using lpAppend_rep [OF rep s] sh s by (intro lp_gives_holds) (simp_all add: listpack_impl_def)
  show "gives lp_holds lp_fits (sq_push_front listpack_impl lp s) (s # xs)"
    using lpPrepend_rep [OF rep s] sh s by (intro lp_gives_holds) (simp_all add: listpack_impl_def)
  assume k: "k < length xs"
  then have k': "k < length (map lp_encode xs)" by simp
  note ins = lpInsertString_rep [OF rep s k', THEN lp_only_yields]
  show "gives lp_holds lp_fits (sq_ins_before listpack_impl lp (lp_off (map lp_encode xs) k) s) (insert_at k s xs)"
    using ins(1) sh s by (intro lp_gives_holds) (simp_all add: listpack_impl_def map_insert_at list_all_insert_at)
  show "gives lp_holds lp_fits (sq_ins_after listpack_impl lp (lp_off (map lp_encode xs) k) s) (insert_at (Suc k) s xs)"
    using ins(2) sh s by (intro lp_gives_holds) (simp_all add: listpack_impl_def map_insert_at list_all_insert_at)
  show "gives lp_holds lp_fits (sq_replace listpack_impl lp (lp_off (map lp_encode xs) k) s) (xs[k := s])"
    using ins(3) sh s by (intro lp_gives_holds) (simp_all add: listpack_impl_def map_update list_all_update)
qed

text \<open>
  C1: any sequence of appends, prepends, insertions before and after an index, replacements,
  deletions, reads by signed index and length queries on a new listpack answers exactly as a list
  of strings does; an update that would exceed \<open>UINT32_MAX\<close> bytes answers \<open>NULL\<close> and changes
  nothing, and no operation faults.
\<close>

theorem listpack_ops_refine_list:
  assumes "list_all (\<lambda>op. list_all short (seq_op_args op)) ops"
  shows "\<exists>lp0 lp. lpNew capacity = Some lp0 \<and>
    run_seq_ops listpack_impl lp0 ops = Some (lp, snd (spec_seq_ops lp_fits [] ops)) \<and>
    lp_holds lp (fst (spec_seq_ops lp_fits [] ops))"
proof -
  obtain lp0 where new: "lpNew capacity = Some lp0" "lp_rep lp0 []" using lpNew_rep by blast
  from new(2) have "lp_holds lp0 []" by (simp add: lp_holds_def)
  from lp_seq.run_seq_ops_correct [OF this assms] new(1) show ?thesis by blast
qed

theorem listpack_ops_refine_list_witness:
  "\<exists>lp0 lp. lpNew 0 = Some lp0 \<and>
    run_seq_ops listpack_impl lp0
      [Push_back [0x61], Push_front [0x31, 0x32], Ins_after 0 [0x62], Get (- 1), Get 0, Delete 1, Get 5, Count] =
      Some (lp, [Done, Done, Done, Elem [0x61], Elem [0x31, 0x32], Done, Absent, Size 2]) \<and>
    lp_holds lp [[0x31, 0x32], [0x61]]"
proof -
  have fits: "lp_fits [[0x61]]" "lp_fits [[0x31, 0x32], [0x61]]" "lp_fits [[0x31, 0x32], [0x62], [0x61]]"
    by (rule lp_fits_small; simp)+
  show ?thesis
    using listpack_ops_refine_list [of "[Push_back [0x61], Push_front [0x31, 0x32], Ins_after 0 [0x62], Get (- 1), Get 0,
        Delete 1, Get 5, Count]" 0] fits
    by (simp add: spec_update_def spec_at_def seek_index_def insert_at_def remove_at_def numeral_2_eq_2 del: run_seq_ops.simps)
qed

end
