(* ===== verification/Listpack_Bulk.thy ===== *)
theory Listpack_Bulk
  imports Listpack_Seq
begin

text \<open>
  The operations of \<open>listpack.c\<close> that work on many entries at once: deleting a range or a set of
  entries, inserting a batch, merging and duplicating listpacks, searching, and the integrity
  check.
\<close>


subsection \<open>Deleting a range\<close>

definition remove_range :: "nat \<Rightarrow> nat \<Rightarrow> 'e list \<Rightarrow> 'e list" where
  "remove_range i n xs = take i xs @ drop (i + n) xs"

lemma lpDeleteRange_loop_rep:
  assumes "lp_rep lp es" "i < length es"
  shows "lpDeleteRange_loop lp (lp_total es) num deleted (lp_off es i) =
    Some (deleted + min num (length es - i), lp_off es (i + min num (length es - i)))"
  using assms(2)
proof (induction num arbitrary: i deleted)
  case (Suc num)
  obtain n slack where lp: "lp = lp_image es n slack" "lp_ok es" using assms(1) by (rule lp_repE)
  have skip: "lpSkip lp (lp_off es i) = Some (lp_off es (Suc i))"
    using lpSkip_off [OF lp(2) Suc.prems] lp(1) by simp
  show ?case
  proof (cases "Suc i = length es")
    case True
    then have "rd lp (lp_off es (Suc i)) = Some LP_EOF" using rd_off_end [of es n slack] lp(1) by simp
    moreover have "length es - i = 1" using True by linarith
    ultimately show ?thesis using skip by simp
  next
    case False
    then have i: "Suc i < length es" using Suc.prems by simp
    obtain b where "rd lp (lp_off es (Suc i)) = Some b" "b \<noteq> LP_EOF"
      unfolding lp(1) using lp(2) i by (rule rd_off_entry)
    moreover have "lpAssertValidEntry lp (lp_total es) (lp_off es (Suc i)) = Some ()"
      using lpAssertValidEntry_off [OF lp(2), of "Suc i" n slack] i lp(1) by simp
    moreover have "min (Suc num) (length es - i) = Suc (min num (length es - Suc i))" using i by simp
    ultimately show ?thesis using skip Suc.IH [OF i, of "deleted + 1"] by simp
  qed
qed simp

lemma lpShrinkToFit_rep:
  assumes "lp_rep lp es"
  shows "\<exists>lp'. lpShrinkToFit lp = Some lp' \<and> lp_rep lp' es \<and> length lp' = lp_total es"
proof -
  obtain num slack where lp: "lp = lp_image es num slack" "num_ok num es" "lp_ok es"
    using assms by (rule lp_repE)
  have "take (lp_total es) (lp_image es num slack) = lp_image es num []"
    by (simp add: lp_image_def lp_total_def)
  then have "realloc_buf lp (lp_total es) = lp_image es num []"
    by (simp add: realloc_buf_def lp(1) length_lp_image)
  moreover have "lp_rep (lp_image es num []) es" using lp(2,3) by (rule lp_repI [rotated])
  ultimately show ?thesis
    using lp_end_rep(1) [OF assms] assms
    by (auto simp: lpShrinkToFit_def length_lp_image) (simp_all add: lp(1) length_lp_image)
qed

lemma lp_body_range:
  assumes "i \<le> j"
  shows "lp_body (drop i es) = lp_body (take (j - i) (drop i es)) @ lp_body (drop j es)"
proof -
  have "drop i es = take (j - i) (drop i es) @ drop j es"
    using append_take_drop_id [of "j - i" "drop i es"] assms by (simp add: drop_drop add.commute)
  then show ?thesis by (metis lp_body_simps(3))
qed

lemma lp_total_range:
  assumes "i \<le> j" "j \<le> length es"
  shows "lp_total (take i es @ drop j es) = lp_total es - (lp_off es j - lp_off es i)" "lp_off es i \<le> lp_off es j"
    "lp_off es j = lp_off es i + length (lp_body (take (j - i) (drop i es)))"
proof -
  have *: "lp_off es j = lp_off es i + length (lp_body (take (j - i) (drop i es)))"
  proof -
    have "take j es = take i es @ take (j - i) (drop i es)"
      using assms(1) by (metis append_take_drop_id le_add_diff_inverse take_add)
    then show ?thesis by (simp add: lp_off_def)
  qed
  then show "lp_off es j = lp_off es i + length (lp_body (take (j - i) (drop i es)))" "lp_off es i \<le> lp_off es j"
    by simp_all
  have "lp_total es = lp_off es j + length (lp_body (drop j es)) + 1"
    using lp_total_split [OF assms(2)] by simp
  then show "lp_total (take i es @ drop j es) = lp_total es - (lp_off es j - lp_off es i)"
    using * by (simp add: lp_total_def lp_off_def)
qed

lemma lp_ok_range:
  assumes "lp_ok es" "i \<le> j" "j \<le> length es"
  shows "lp_ok (take i es @ drop j es)"
  using assms(1) lp_total_range(1) [OF assms(2,3)] set_take_subset [of i es] set_drop_subset [of j es]
  by (auto simp: lp_ok_def list_all_iff)

lemma rd_off_hd:
  assumes "lp_rep lp es" "i \<le> length es"
  shows "\<exists>b. rd lp (lp_off es i) = Some b \<and> (b = LP_EOF \<longleftrightarrow> i = length es)"
proof -
  obtain num slack where lp: "lp = lp_image es num slack" "lp_ok es" using assms(1) by (rule lp_repE)
  show ?thesis
  proof (cases "i = length es")
    case True
    then show ?thesis using rd_off_end [of es num slack] lp(1) by simp
  next
    case False
    then have "i < length es" using assms(2) by simp
    from rd_off_entry [OF lp(2) this, of num slack] show ?thesis using lp(1) False by metis
  qed
qed

lemma lpDeleteRangeWithEntry_rep:
  assumes "lp_rep lp es" "i < length es"
  shows "\<exists>lp'. lpDeleteRangeWithEntry lp (lp_off es i) num = Some (lp', lp_ptr (remove_range i num es) i) \<and>
    lp_rep lp' (remove_range i num es)"
proof (cases "num = 0")
  case True
  then show ?thesis
    using assms lpBytes_rep [OF assms(1)] by (simp add: lpDeleteRangeWithEntry_def remove_range_def lp_ptr_def)
next
  case False
  obtain n slack where lp: "lp = lp_image es n slack" "num_ok n es" "lp_ok es" "n < 65536" "lp_total es < 4294967296"
    using assms(1) by (rule lp_repE)
  define k where "k = min num (length es - i)"
  define j where "j = i + k"
  have j: "i \<le> j" "j \<le> length es" "0 < k" "k \<le> length es" using assms(2) False by (auto simp: j_def k_def)
  have es': "remove_range i num es = take i es @ drop j es"
    using assms(2) by (auto simp: remove_range_def j_def k_def min_def)
  note tot = lp_total_range [OF j(1,2)]
  let ?A = "le_bytes 4 (lp_total es) @ le_bytes 2 n @ lp_body (take i es)"
    and ?M = "lp_body (take (j - i) (drop i es))" and ?T = "lp_body (drop j es) @ [LP_EOF]"
    and ?n = "if n \<noteq> LP_HDR_NUMELE_UNKNOWN then sub64 n k else n"
    and ?new = "lp_total es - (lp_off es j - lp_off es i)"
  have lpA: "lp = ?A @ ?M @ ?T @ slack" "length ?A = lp_off es i"
    using lp_image_at [of i es n slack] lp_body_range [OF j(1), of es] assms(2) lp(1)
    by (simp_all add: lp_pre_def lp_off_def)
  have lens: "sub64 (lp_total es) (lp_off es j) = length ?T" "sub64 (lp_total es) (lp_off es j - lp_off es i) = ?new"
    using lp_total_split [OF j(2)] lp(5) by (simp_all add: sub64_le)
  have "\<exists>X S2. memmove (?A @ ?M @ ?T @ slack) (length ?A + 0) (lp_off es j) (length ?T) = Some (?A @ X @ ?T @ S2) \<and> length X = 0"
    by (rule splice_move) (use tot(3) lpA(2) in simp_all)
  then obtain S2 where move: "memmove lp (lp_off es i) (lp_off es j) (length ?T) = Some (?A @ ?T @ S2)"
    using lpA by auto
  have "lp_rep (le_bytes 4 ?new @ le_bytes 2 ?n @ lp_body (take i es @ drop j es) @ LP_EOF # S2) (take i es @ drop j es)"
  proof (rule lp_rep_blocks)
    show "lp_ok (take i es @ drop j es)" using lp(3) j(1,2) by (rule lp_ok_range)
    show "num_ok ?n (take i es @ drop j es)" using lp(2) j by (auto simp: num_ok_def j_def sub64_le)
  qed (simp add: tot(1))
  then obtain lp' where lp': "lpShrinkToFit (le_bytes 4 ?new @ le_bytes 2 ?n @ lp_body (take i es) @ ?T @ S2) = Some lp'"
    "lp_rep lp' (take i es @ drop j es)" using lpShrinkToFit_rep by fastforce
  have off: "lp_off (take i es @ drop j es) i = lp_off es i" using assms(2) by (simp add: lp_off_def)
  obtain b where b: "rd lp' (lp_off es i) = Some b" "b = LP_EOF \<longleftrightarrow> i = length (take i es @ drop j es)"
    using rd_off_hd [OF lp'(2), of i] off assms(2) by auto
  have loop: "lpDeleteRange_loop lp (lp_total es) num 0 (lp_off es i) = Some (k, lp_off es j)"
    using lpDeleteRange_loop_rep [OF assms, of num 0] by (simp add: k_def j_def)
  show ?thesis
    using False lpBytes_rep [OF assms(1)] loop move lens lp'(1,2) lp(4) b tot(2) assms(2)
    by (cases "n = LP_HDR_NUMELE_UNKNOWN")
      (auto simp: lpDeleteRangeWithEntry_def lpSetTotalBytes_app lpGetNumElements_app lpSetNumElements_app es' lp_ptr_def off)
qed

lemma lp_truncate:
  assumes "lp_rep lp es" "i < length es" "v < 65536" "num_ok v (take i es)"
  shows "\<exists>lp1 lp2 lp3. wr lp (lp_off es i) LP_EOF = Some lp1 \<and> lpSetTotalBytes lp1 (lp_off es i + 1) = Some lp2 \<and>
    lpSetNumElements lp2 v = Some lp3 \<and> lp_rep lp3 (take i es)"
proof -
  obtain n slack where lp: "lp = lp_image es n slack" "lp_ok es" using assms(1) by (rule lp_repE)
  obtain b r where e: "es ! i = b # r" using lp_ok_nth [OF lp(2) assms(2)] by (cases "es ! i") (auto simp: entry_ok_def)
  obtain S where "lp = lp_pre es n i @ b # S"
    using lp_image_split [OF assms(2), of n slack] lp(1) e by simp
  then have 1: "wr lp (lp_off es i) LP_EOF = Some (lp_pre es n i @ LP_EOF # S)"
    using wr_append_at [of "lp_pre es n i" b S LP_EOF] by simp
  have tot: "lp_total (take i es) = lp_off es i + 1" by (simp add: lp_total_def lp_off_def)
  have "lp_ok (take i es)"
    using lp_ok_range [OF lp(2), of i "length es"] assms(2) by simp
  then have "lp_rep (le_bytes 4 (lp_off es i + 1) @ le_bytes 2 v @ lp_body (take i es) @ LP_EOF # S) (take i es)"
    using assms(4) tot by (intro lp_rep_blocks) simp_all
  with 1 show ?thesis by (simp add: lp_pre_def lpSetTotalBytes_app lpSetNumElements_app)
qed

lemma of_signed_8_nat: "0 \<le> v \<Longrightarrow> v < 18446744073709551616 \<Longrightarrow> of_signed 8 v = nat v"
  by (simp add: of_signed_def)

lemma lpDeleteRange_rep:
  assumes "lp_rep lp es"
  shows "\<exists>lp'. lpDeleteRange lp index num = Some lp' \<and>
    lp_rep lp' (case seek_index (length es) index of None \<Rightarrow> es | Some i \<Rightarrow> remove_range i num es)"
proof -
  obtain n slack where lp: "lp = lp_image es n slack" "num_ok n es" "lp_ok es" "n < 65536"
    using assms by (rule lp_repE)
  have getn: "lpGetNumElements lp = Some n" using lp by (simp add: lpGetNumElements_image)
  note seek = lpSeek_rep [OF assms, of index]
  show ?thesis
  proof (cases "num = 0 \<or> seek_index (length es) index = None")
    case True
    then show ?thesis
      using getn seek assms by (auto simp: lpDeleteRange_def remove_range_def split: option.splits)
  next
    case False
    then obtain i where i: "seek_index (length es) index = Some i" and num: "num \<noteq> 0" by auto
    have il: "i < length es" using i by (rule seek_index_less)
    define ix where "ix = (if index < 0 then int (length es) + index else index)"
    have ix: "ix = int i" using seek_index_norm [OF ix_def] i by (auto split: if_splits)
    show ?thesis
    proof (cases "n \<noteq> LP_HDR_NUMELE_UNKNOWN \<and> length es - i \<le> num")
      case True
      then have n: "n = length es" "n < 65535" using lp(2) by (simp_all add: num_ok_def)
      have "of_signed 8 (int i) = i" using il n by (simp add: of_signed_8_nat)
      moreover have "sub64 (length es) i = length es - i" using il n by (simp add: sub64_le)
      moreover obtain lp1 lp2 lp3 where t: "wr lp (lp_off es i) LP_EOF = Some lp1" "lpSetTotalBytes lp1 (lp_off es i + 1) = Some lp2"
        "lpSetNumElements lp2 i = Some lp3" "lp_rep lp3 (take i es)"
        using lp_truncate [OF assms il, of i] il n by (auto simp: num_ok_def)
      moreover obtain lp4 where "lpShrinkToFit lp3 = Some lp4" "lp_rep lp4 (take i es)"
        using lpShrinkToFit_rep [OF t(4)] by blast
      moreover have "remove_range i num es = take i es" using True by (auto simp: remove_range_def)
      ultimately show ?thesis
        using getn seek i num True n ix by (simp add: lpDeleteRange_def ix_def [symmetric])
    next
      case f: False
      have "\<not> (n \<noteq> LP_HDR_NUMELE_UNKNOWN \<and> sub64 n (of_signed 8 (if n \<noteq> LP_HDR_NUMELE_UNKNOWN \<and> index < 0 then int n + index else index)) \<le> num)"
      proof (cases "n = LP_HDR_NUMELE_UNKNOWN")
        case False
        then have n: "n = length es" "n < 65535" using lp(2) by (simp_all add: num_ok_def)
        have "of_signed 8 (int i) = i" using il n by (simp add: of_signed_8_nat)
        moreover have "sub64 (length es) i = length es - i" using il n by (simp add: sub64_le)
        moreover have "(if n \<noteq> LP_HDR_NUMELE_UNKNOWN \<and> index < 0 then int n + index else index) = int i"
          using ix False n by (auto simp: ix_def)
        ultimately show ?thesis using f False n by (simp only:) simp
      qed simp
      then show ?thesis
        using getn seek i num lpDeleteRangeWithEntry_rep [OF assms il, of num]
        by (auto simp: lpDeleteRange_def Let_def)
    qed
  qed
qed

text \<open>Evaluation of small concrete listpacks.\<close>

lemma entry_ok_7bit: "unat b < 128 \<Longrightarrow> entry_ok [b]"
  by (auto simp: entry_ok_def is_eof lpCurrentEncodedSizeUnsafe_ranges)

lemma length_backlen_1 [simp]: "length (lpEncodeBacklen (Suc 0)) = 1"
  by (simp add: length_lpEncodeBacklen)

lemmas lp_example_simps = lp_ok_def num_ok_def lp_total_def entry_ok_7bit


subsection \<open>Duplicating and merging\<close>

lemma lpDup_rep:
  assumes "lp_rep lp es"
  shows "\<exists>lp'. lpDup lp = Some lp' \<and> lp_rep lp' es \<and> length lp' = lp_total es"
proof -
  obtain num slack where lp: "lp = lp_image es num slack" "num_ok num es" "lp_ok es"
    using assms by (rule lp_repE)
  have "rd_range lp 0 (lp_total es) = Some (lp_image es num [])"
    by (simp add: rd_range_def lp(1) length_lp_image) (simp add: lp_image_def lp_total_def)
  then show ?thesis
    using lpBytes_rep [OF assms] lp_repI [OF lp(3,2), of "[]"] by (simp add: lpDup_def length_lp_image)
qed

lemma lp_total_append: "lp_total (es @ fs) = lp_total es + lp_total fs - (LP_HDR_SIZE + 1)"
  by (simp add: lp_total_def)

text \<open>Merging keeps the order whichever of the two blocks is extended.\<close>

lemma lp_rep_appendI:
  assumes "lp_rep a es" "lp_rep b fs" "lp_total (es @ fs) < 4294967295" "lpbytes = lp_total (es @ fs)"
    "num = (if length es + length fs < UINT16_MAX then length es + length fs else UINT16_MAX)"
  shows "lp_rep (le_bytes 4 lpbytes @ le_bytes 2 num @ lp_body es @ lp_body fs @ LP_EOF # S) (es @ fs)"
  using lp_rep_blocks [of "es @ fs" num lpbytes S] assms
  by (auto simp: lp_rep_def lp_ok_def num_ok_def)

lemma realloc_extend:
  assumes "length xs \<le> n"
  shows "\<exists>ys. realloc_buf (xs @ zs) n = xs @ ys \<and> length ys = n - length xs"
  using assms by (auto simp: realloc_buf_def)

lemma lpMerge_append:
  assumes "lp_rep a es" "lp_rep b fs" "lp_total fs \<le> lp_total es" "lp_total (es @ fs) < UINT32_MAX"
  shows "\<exists>lp. lpMerge False (Ptr a) (Ptr b) = Some (Ptr lp, Ptr lp, NULL) \<and> lp_rep lp (es @ fs)"
proof -
  obtain a' where a': "lpLength a = Some (length es, a')" "lp_rep a' es" using lpLength_rep [OF assms(1)] by blast
  obtain b' where b': "lpLength b = Some (length fs, b')" "lp_rep b' fs" using lpLength_rep [OF assms(2)] by blast
  obtain m s where a2: "a' = lp_image es m s" "lp_total es < 4294967296" using a'(2) by (rule lp_repE)
  obtain n t where b2: "b' = lp_image fs n t" "lp_total fs < 4294967296" using b'(2) by (rule lp_repE)
  let ?n = "lp_total (es @ fs)" and ?H = "le_bytes 4 (lp_total es) @ le_bytes 2 m"
    and ?num = "if length es + length fs < UINT16_MAX then length es + length fs else UINT16_MAX"
  have bytes: "sub64 (lp_total es + lp_total fs) 7 = ?n" "sub64 (lp_total fs) 6 = length (lp_body fs @ [LP_EOF])"
    using a2(2) b2(2) by (simp_all add: lp_total_def sub64_le)
  obtain S where S: "realloc_buf a' ?n = (?H @ lp_body es) @ S" "length S = length (lp_body fs @ [LP_EOF])"
    using realloc_extend [of "?H @ lp_body es" ?n "[LP_EOF] @ s"] a2(1) by (auto simp: lp_image_def lp_total_def)
  have rd: "rd_range b' LP_HDR_SIZE (length (lp_body fs @ [LP_EOF])) = Some (lp_body fs @ [LP_EOF])"
    using rd_range_append [of LP_HDR_SIZE "le_bytes 4 (lp_total fs) @ le_bytes 2 n" _ "lp_body fs @ [LP_EOF]" t] b2(1)
    by (simp add: lp_image_def)
  have wr: "wr_range ((?H @ lp_body es) @ S) (lp_total es - 1) (lp_body fs @ [LP_EOF]) =
      Some ((?H @ lp_body es) @ (lp_body fs @ [LP_EOF]))"
    using wr_range_append [of "lp_total es - 1" "?H @ lp_body es" "lp_body fs @ [LP_EOF]" S "[]"] S(2)
    by (simp add: lp_total_def)
  have "lp_rep (le_bytes 4 ?n @ le_bytes 2 ?num @ lp_body es @ lp_body fs @ LP_EOF # []) (es @ fs)"
    using assms by (intro lp_rep_appendI) simp_all
  then show ?thesis
    using a'(1) b'(1) lpBytes_rep [OF assms(1)] lpBytes_rep [OF assms(2)] assms(3,4) bytes S(1) rd wr
    by (simp add: lpMerge_def Let_def lpSetTotalBytes_app lpSetNumElements_app)
qed

lemma lpMerge_prepend:
  assumes "lp_rep a es" "lp_rep b fs" "lp_total es < lp_total fs" "lp_total (es @ fs) < UINT32_MAX"
  shows "\<exists>lp. lpMerge False (Ptr a) (Ptr b) = Some (Ptr lp, NULL, Ptr lp) \<and> lp_rep lp (es @ fs)"
proof -
  obtain a' where a': "lpLength a = Some (length es, a')" "lp_rep a' es" using lpLength_rep [OF assms(1)] by blast
  obtain b' where b': "lpLength b = Some (length fs, b')" "lp_rep b' fs" using lpLength_rep [OF assms(2)] by blast
  obtain m s where a2: "a' = lp_image es m s" "lp_total es < 4294967296" using a'(2) by (rule lp_repE)
  obtain n t where b2: "b' = lp_image fs n t" "lp_total fs < 4294967296" using b'(2) by (rule lp_repE)
  let ?n = "lp_total (es @ fs)" and ?H = "le_bytes 4 (lp_total es) @ le_bytes 2 m @ lp_body es"
    and ?T = "lp_body fs @ [LP_EOF]" and ?G = "le_bytes 4 (lp_total fs) @ le_bytes 2 n"
    and ?num = "if length es + length fs < UINT16_MAX then length es + length fs else UINT16_MAX"
  have bytes: "sub64 (lp_total es + lp_total fs) 7 = ?n" "sub64 (lp_total fs) 6 = length ?T" "?n = length ?H + length ?T"
    using a2(2) b2(2) by (simp_all add: lp_total_def sub64_le)
  obtain S where S: "realloc_buf b' ?n = ?G @ ?T @ S" "length S = ?n - length (?G @ ?T)"
    using realloc_extend [of "?G @ ?T" ?n t] b2(1) by (auto simp: lp_image_def lp_total_def)
  have "length (?G @ ?T @ S) = ?n" using S(2) by (simp add: lp_total_def)
  then have move: "memmove (?G @ ?T @ S) (lp_total es - 1) LP_HDR_SIZE (length ?T) =
      Some (take (lp_total es - 1) (?G @ ?T @ S) @ ?T)"
    using bytes(3) memmove_Some [of LP_HDR_SIZE "length ?T" "?G @ ?T @ S" "lp_total es - 1"]
    by (simp add: lp_total_def)
  have rd: "rd_range a' 0 (lp_total es - 1) = Some ?H"
    using rd_range_append [of 0 "[]" "lp_total es - 1" ?H "LP_EOF # s"] a2(1) by (simp add: lp_image_def lp_total_def)
  have wr: "wr_range (take (lp_total es - 1) (?G @ ?T @ S) @ ?T) 0 ?H = Some (?H @ ?T)"
    by (rule wr_range_append0) (use \<open>length (?G @ ?T @ S) = ?n\<close> bytes(3) in \<open>simp add: lp_total_def\<close>)
  have "lp_rep (le_bytes 4 ?n @ le_bytes 2 ?num @ lp_body es @ lp_body fs @ LP_EOF # []) (es @ fs)"
    using assms by (intro lp_rep_appendI) simp_all
  then show ?thesis
    using a'(1) b'(1) lpBytes_rep [OF assms(1)] lpBytes_rep [OF assms(2)] assms(3,4) bytes(1,2) S(1) rd wr move
    by (simp add: lpMerge_def Let_def lpSetTotalBytes_app lpSetNumElements_app)
qed

text \<open>
  C10: merging two listpacks yields their concatenation in order, whichever block is extended, with
  the other pointer set to \<open>NULL\<close>; a merge that would reach \<open>UINT32_MAX\<close> bytes fails the
  assertion.
\<close>

theorem lpMerge_concatenates:
  assumes "lp_rep a es" "lp_rep b fs"
  shows "if lp_total (es @ fs) < UINT32_MAX
         then \<exists>lp. lpMerge False (Ptr a) (Ptr b) =
                Some (if lp_total fs \<le> lp_total es then (Ptr lp, Ptr lp, NULL) else (Ptr lp, NULL, Ptr lp)) \<and>
              lp_rep lp (es @ fs)
         else lpMerge False (Ptr a) (Ptr b) = None"
proof (cases "lp_total (es @ fs) < UINT32_MAX")
  case True
  then show ?thesis using lpMerge_append [OF assms] lpMerge_prepend [OF assms] by (cases "lp_total fs \<le> lp_total es") auto
next
  case False
  have "lp_total es < 4294967296" "lp_total fs < 4294967296" using assms by (auto simp: lp_rep_def lp_ok_def)
  then have "sub64 (lp_total es + lp_total fs) 7 = lp_total (es @ fs)" by (simp add: lp_total_def sub64_le)
  then show ?thesis
    using False lpLength_rep [OF assms(1)] lpLength_rep [OF assms(2)] lpBytes_rep [OF assms(1)] lpBytes_rep [OF assms(2)]
    by (auto simp: lpMerge_def Let_def)
qed

theorem lpMerge_concatenates_witness:
  "\<exists>lp. lpMerge False (Ptr (lp_image [[1]] 1 [])) (Ptr (lp_image [[2], [3]] 2 [])) = Some (Ptr lp, NULL, Ptr lp) \<and>
     lp_rep lp [[1], [2], [3]]"
proof -
  have "lp_rep (lp_image [[1]] 1 []) [[1]]" "lp_rep (lp_image [[2], [3]] 2 []) [[2], [3]]"
    by (rule lp_repI; simp add: lp_example_simps)+
  from lpMerge_concatenates [OF this] show ?thesis by (simp add: lp_example_simps)
qed


subsection \<open>Inserting a batch\<close>

definition batch_entry :: "listpackEntry \<Rightarrow> buf" where
  "batch_entry e = enc_bytes (fst (lpBatch_enc e))"

definition value_ok :: "listpackEntry \<Rightarrow> bool" where
  "value_ok v = (case sval v of Ptr s \<Rightarrow> short s | NULL \<Rightarrow> is_int64 (lval v))"

lemma lpBatch_enc_eq:
  obtains t where "lpBatch_enc v = (t, length (batch_entry v))" "enc_bytes t = batch_entry v" "t \<noteq> ENC_NONE"
  by (cases "lpBatch_enc v")
    (auto simp: batch_entry_def lpBatch_enc_def lpEncodeGetType_def lpEncodeString_def Let_def
      split: nullable.splits option.splits sum.splits if_splits)

lemma batch_entry_encode: "value_ok v \<Longrightarrow> batch_entry v = lp_encode (value_string v)"
  by (auto simp: value_ok_def batch_entry_def lpBatch_enc_def value_string_def lp_encode_int lp_encode_def
      split: nullable.splits sum.splits)

lemma lpBatch_write_rep:
  assumes "length X = length (lp_body (map batch_entry vs))" "vs \<noteq> []"
  shows "lpBatch_write (A @ X @ R) (length A) newp (map lpBatch_enc vs) =
    Some (A @ lp_body (map batch_entry vs) @ R, Ptr (length (A @ lp_body (map batch_entry (butlast vs)))))"
  using assms
proof (induction vs arbitrary: A X newp)
  case (Cons v vs)
  obtain t where t: "lpBatch_enc v = (t, length (batch_entry v))" "enc_bytes t = batch_entry v" "t \<noteq> ENC_NONE"
    by (rule lpBatch_enc_eq)
  let ?e = "batch_entry v" and ?bl = "lpEncodeBacklen (length (batch_entry v))"
  define X1 X2 where "X1 = take (entry_bytes ?e) X" and "X2 = drop (entry_bytes ?e) X"
  have X: "X = X1 @ X2" "length X1 = entry_bytes ?e" "length X2 = length (lp_body (map batch_entry vs))"
    using Cons.prems(1) by (simp_all add: X1_def X2_def)
  have store: "Option.bind (lp_store (A @ X1 @ X2 @ R) (length A) t) (\<lambda>lp. wr_range lp (length A + length ?e) ?bl) =
      Some (A @ ?e @ ?bl @ X2 @ R)"
    using store_entry [OF X(2) t(3,2) refl, of A "X2 @ R"] by simp
  show ?case
  proof (cases "vs = []")
    case True
    then show ?thesis using store t(1) X by (auto simp: lp_entry_def bind_eq_Some_conv)
  next
    case False
    have "lpBatch_write ((A @ lp_entry ?e) @ X2 @ R) (length (A @ lp_entry ?e)) (Ptr (length A)) (map lpBatch_enc vs) =
        Some ((A @ lp_entry ?e) @ lp_body (map batch_entry vs) @ R,
              Ptr (length ((A @ lp_entry ?e) @ lp_body (map batch_entry (butlast vs)))))"
      by (rule Cons.IH) (use X(3) False in simp_all)
    then show ?thesis
      using store t(1) X False by (auto simp: lp_entry_def bind_eq_Some_conv add.assoc)
  qed
qed simp

lemma lp_total_insert_list:
  "i \<le> length es \<Longrightarrow> lp_total (take i es @ fs @ drop i es) = lp_total es + length (lp_body fs)"
  using lp_total_split [of i es] by (simp add: lp_total_def lp_off_def)

lemma length_lp_body_map: "length (lp_body es) = sum_list (map entry_bytes es)"
  by (induction es) simp_all

lemma lpBatchInsert_before_rep:
  assumes "lp_rep lp es" "i \<le> length es" "vs \<noteq> []" "list_all value_ok vs"
  defines "es' \<equiv> take i es @ map batch_entry vs @ drop i es"
  shows "lp_yields (lpBatchInsert lp (lp_off es i) LP_BEFORE vs) es' (Ptr (lp_off es' (i + length vs - 1)))"
proof -
  obtain num slack where lp: "lp = lp_image es num slack" "num_ok num es" "lp_ok es" "num < 65536" "lp_total es < 4294967296"
    using assms(1) by (rule lp_repE)
  let ?B = "lp_body (map batch_entry vs)"
  let ?new = "lp_total es + length ?B"
  have added: "sum_list (map (\<lambda>(_, enclen). enclen + length (lpEncodeBacklen enclen)) (map lpBatch_enc vs)) = length ?B"
  proof (induction vs)
    case (Cons v vs)
    obtain t where "lpBatch_enc v = (t, length (batch_entry v))" by (rule lpBatch_enc_eq)
    with Cons show ?case by simp
  qed simp
  note tot = lp_end_rep(1) [OF assms(1)]
  have total: "lp_total es' = ?new" using assms(2) by (simp add: es'_def lp_total_insert_list)
  show ?thesis
  proof (cases "UINT32_MAX < ?new")
    case True
    then show ?thesis using tot assms(3) added by (simp add: lp_yields_def total lpBatchInsert_def)
  next
    case False
    let ?A = "le_bytes 4 (lp_total es) @ le_bytes 2 num @ lp_body (take i es)" and ?T = "lp_body (drop i es) @ [LP_EOF]"
      and ?num = "if num \<noteq> LP_HDR_NUMELE_UNKNOWN
        then if int LP_HDR_NUMELE_UNKNOWN - int num < int (length vs) then LP_HDR_NUMELE_UNKNOWN else num + length vs else num"
    have lpA: "lp = ?A @ [] @ ?T @ slack" "length ?A = lp_off es i" "lp_total es = length ?A + length ?T"
      using lp_image_at [OF assms(2), of num slack] lp(1) lp_total_split [OF assms(2)] by (simp_all add: lp_pre_def lp_off_def)
    have "\<exists>X S' b2. memmove (if lp_total es < ?new \<and> length lp < ?new then realloc_buf lp ?new else lp)
        (lp_off es i + length ?B) (lp_off es i) (sub64 (lp_total es) (lp_off es i)) = Some b2 \<and>
        (if ?new < lp_total es then realloc_buf b2 ?new else b2) = ?A @ X @ ?T @ S' \<and> length X = length ?B"
      by (rule splice [OF lpA(1)]) (use lpA lp(5) in \<open>simp_all add: sub64_le\<close>)
    then obtain X S' where room: "memmove (if lp_total es < ?new \<and> length lp < ?new then realloc_buf lp ?new else lp)
        (lp_off es i + length ?B) (lp_off es i) (sub64 (lp_total es) (lp_off es i)) = Some (?A @ X @ ?T @ S')"
      "length X = length ?B" by auto
    have wr: "lpBatch_write (?A @ X @ ?T @ S') (lp_off es i) NULL (map lpBatch_enc vs) =
        Some (?A @ ?B @ ?T @ S', Ptr (lp_off es' (i + length vs - 1)))"
    proof -
      have "take (i + length vs - 1) es' = take i es @ map batch_entry (butlast vs)"
        using assms(2,3) by (cases vs rule: rev_cases) (simp_all add: es'_def)
      then have "length (?A @ lp_body (map batch_entry (butlast vs))) = lp_off es' (i + length vs - 1)"
        by (simp add: lp_off_def)
      then show ?thesis using lpBatch_write_rep [OF room(2) assms(3), of ?A "?T @ S'" NULL] lpA(2) by (simp only:)
    qed
    have "lp_rep (le_bytes 4 ?new @ le_bytes 2 ?num @ lp_body es' @ LP_EOF # S') es'"
    proof (rule lp_rep_blocks)
      have "entry_ok (batch_entry v)" if "v \<in> set vs" for v
        using that assms(4) lp_encode_correct [of "value_string v"] lpEncodeInteger_ok [of "lval v"]
        by (auto simp: list_all_iff batch_entry_encode value_ok_def value_string_def lp_encode_int split: nullable.splits)
      then show "lp_ok es'"
        using lp(3) False total set_take_subset [of i es] set_drop_subset [of i es]
        by (auto simp: lp_ok_def list_all_iff es'_def)
      show "num_ok ?num es'" using lp(2) assms(2) by (auto simp: num_ok_def es'_def)
    qed (simp add: total)
    then show ?thesis
      using False assms(3) tot added room(1) wr lp(4) total
      by (auto simp: lp_yields_def lpBatchInsert_def Let_def lpGetNumElements_app lpSetNumElements_app lpSetTotalBytes_app es'_def)
  qed
qed

lemma lpBatchInsert_after_rep:
  assumes "lp_rep lp es" "i < length es" "vs \<noteq> []" "list_all value_ok vs"
  defines "es' \<equiv> take (Suc i) es @ map batch_entry vs @ drop (Suc i) es"
  shows "lp_yields (lpBatchInsert lp (lp_off es i) LP_AFTER vs) es' (Ptr (lp_off es' (i + length vs)))"
proof -
  obtain num slack where lp: "lp = lp_image es num slack" "lp_ok es" using assms(1) by (rule lp_repE)
  have "lpSkip lp (lp_off es i) = Some (lp_off es (Suc i))" using lpSkip_off [OF lp(2) assms(2)] lp(1) by simp
  moreover have "lp_off es (Suc i) < lp_total es" "LP_HDR_SIZE \<le> lp_off es (Suc i)"
    by (rule lp_off_less_total, rule lp_off_ge)
  ultimately have "lpBatchInsert lp (lp_off es i) LP_AFTER vs = lpBatchInsert lp (lp_off es (Suc i)) LP_BEFORE vs"
    using lp_end_rep(1) [OF assms(1)] assms(3) by (simp add: lpBatchInsert_def)
  then show ?thesis using lpBatchInsert_before_rep [OF assms(1), of "Suc i" vs] assms(2-5) by simp
qed

lemma map_batch_entry: "list_all value_ok vs \<Longrightarrow> map batch_entry vs = map lp_encode (map value_string vs)"
  by (induction vs) (simp_all add: batch_entry_encode)

text \<open>
  C8: inserting a batch is inserting its values in order at the position, before or after an entry,
  with the reference to the last one in \<open>*newp\<close>; \<open>NULL\<close> is returned exactly when the result
  would exceed \<open>UINT32_MAX\<close> bytes.
\<close>

theorem lpBatchInsert_inserts:
  assumes "lp_rep lp es" "i < length es" "vs \<noteq> []" "list_all value_ok vs"
  defines "new \<equiv> map (lp_encode \<circ> value_string) vs"
  shows "lp_yields (lpBatchInsert lp (lp_off es i) LP_BEFORE vs) (take i es @ new @ drop i es)
           (Ptr (lp_off (take i es @ new @ drop i es) (i + length vs - 1))) \<and>
         lp_yields (lpBatchInsert lp (lp_off es i) LP_AFTER vs) (take (Suc i) es @ new @ drop (Suc i) es)
           (Ptr (lp_off (take (Suc i) es @ new @ drop (Suc i) es) (i + length vs))) \<and>
         lp_gives (lpBatchAppend lp vs) (es @ new)"
proof -
  have new: "new = map batch_entry vs" using map_batch_entry [OF assms(4)] by (simp add: new_def)
  have "lp_gives (lpBatchAppend lp vs) (es @ new)"
    using lp_only_yields [OF lpBatchInsert_before_rep [OF assms(1) order_refl assms(3,4)]] lp_end_rep [OF assms(1)]
    by (simp add: lpBatchAppend_def new)
  then show ?thesis
    using lpBatchInsert_before_rep [OF assms(1) _ assms(3,4), of i] lpBatchInsert_after_rep [OF assms(1-4)] assms(2)
    by (simp add: new)
qed

theorem lpBatchInsert_inserts_witness:
  "\<exists>lp. lpBatchInsert (lp_image [[1], [2]] 2 []) 8 LP_BEFORE [\<lparr>sval = NULL, lval = 5\<rparr>, \<lparr>sval = NULL, lval = 7\<rparr>] = Some (Ptr (lp, Ptr 10)) \<and>
     lp_rep lp [[1], [5], [7], [2]]"
proof -
  have "lp_rep (lp_image [[1], [2]] 2 []) [[1], [2]]" by (rule lp_repI; simp add: lp_example_simps)
  from lpBatchInsert_inserts [OF this, of 1 "[\<lparr>sval = NULL, lval = 5\<rparr>, \<lparr>sval = NULL, lval = 7\<rparr>]"]
  show ?thesis
    by (simp add: value_ok_def value_string_def is_int64_def lp_yields_def lp_example_simps lp_off_def
        lpEncodeIntegerGetType_def flip: lp_encode_int)
qed


subsection \<open>Deleting a set of entries\<close>

lemma memmove_down:
  "pos = length A + length M \<Longrightarrow> len = length T \<Longrightarrow>
   \<exists>J. memmove (A @ M @ T @ S) (length A) pos len = Some (A @ T @ J @ S) \<and> length J = length M"
  by (intro exI [of _ "drop (length T) (M @ T)"]) (simp add: memmove_Some)

text \<open>
  What \<open>lpBatchDelete\<close> walks over: each deleted entry followed by the entries kept up to the
  next deleted one.
\<close>

fun seg_all :: "(buf \<times> buf list) list \<Rightarrow> buf list" where
  "seg_all [] = []"
| "seg_all ((e, ks) # segs) = e # ks @ seg_all segs"

fun seg_kept :: "(buf \<times> buf list) list \<Rightarrow> buf list" where
  "seg_kept [] = []"
| "seg_kept ((e, ks) # segs) = ks @ seg_kept segs"

fun seg_offs :: "nat \<Rightarrow> (buf \<times> buf list) list \<Rightarrow> nat list" where
  "seg_offs base [] = []"
| "seg_offs base ((e, ks) # segs) = base # seg_offs (base + entry_bytes e + length (lp_body ks)) segs"

lemma seg_offs_hd: "seg_offs base segs \<noteq> [] \<Longrightarrow> hd (seg_offs base segs) = base"
  by (cases segs rule: seg_all.cases) simp_all

lemma seg_offs_Nil [simp]: "seg_offs base segs = [] \<longleftrightarrow> segs = []"
  by (cases segs rule: seg_all.cases) simp_all

lemma lp_skip_context:
  assumes "entry_ok e" "p = length pre"
  shows "lpSkip (pre @ e @ rest) p = Some (p + entry_bytes e)"
  using lpCurrentEncodedSizeUnsafe_context [of e "length e" pre rest] assms by (simp add: lpSkip_def entry_ok_def)

lemma rd_entry_context:
  assumes "entry_ok e" "p = length pre"
  obtains b where "rd (pre @ e @ rest) p = Some b" "b \<noteq> LP_EOF"
  using assms rd_append_at [of pre] by (cases e) (auto simp: entry_ok_def)

lemma lp_body_eq_Nil: "lp_body ks = [] \<longleftrightarrow> ks = []"
  by (cases ks) (simp_all add: lp_entry_def)

lemma lpBatchDelete_loop_rep:
  assumes "lp = A @ G @ lp_body (seg_all segs) @ LP_EOF # S" "base = length A + length G"
    "lp_end = base + length (lp_body (seg_all segs)) + 1" "list_all entry_ok (seg_all segs)" "segs \<noteq> []"
  shows "\<exists>S'. lpBatchDelete_loop lp lp_end (length A) (seg_offs base segs) =
    Some (A @ lp_body (seg_kept segs) @ LP_EOF # S', length A + length (lp_body (seg_kept segs)) + 1)"
  using assms
proof (induction segs arbitrary: lp A G base rule: seg_all.induct)
  case (2 e ks segs)
  have e: "entry_ok e" using "2.prems"(4) by simp
  let ?R = "lp_body (seg_all segs) @ LP_EOF # S" and ?bl = "lpEncodeBacklen (length e)"
  have lp: "lp = (A @ G) @ e @ (?bl @ lp_body ks @ ?R)" using "2.prems"(1) by (simp add: lp_entry_def)
  obtain b where b: "rd lp base = Some b" "b \<noteq> LP_EOF"
    using rd_entry_context [OF e, of base "A @ G" "?bl @ lp_body ks @ ?R"] "2.prems"(2) unfolding lp
    by (metis length_append)
  have skip: "lpSkip lp base = Some (base + entry_bytes e)"
    unfolding lp using "2.prems"(2) by (intro lp_skip_context [OF e]) simp
  let ?next = "base + entry_bytes e + length (lp_body ks)"
  show ?case
  proof (cases "segs = []")
    case True
    let ?K = "lp_body ks @ [LP_EOF]"
    obtain J where J: "memmove (A @ (G @ lp_entry e) @ ?K @ S) (length A) (base + entry_bytes e) (length ?K) =
        Some (A @ ?K @ J @ S)"
      using memmove_down [of "base + entry_bytes e" A "G @ lp_entry e" "length ?K" ?K S] "2.prems"(2) by auto
    have "lp = A @ (G @ lp_entry e) @ ?K @ S" using "2.prems"(1) True by simp
    then show ?thesis using J b skip True "2.prems"(3) by simp
  next
    case False
    have ne: "seg_offs ?next segs \<noteq> []" using False by simp
    show ?thesis
    proof (cases "ks = []")
      case True
      have "\<exists>S'. lpBatchDelete_loop lp lp_end (length A) (seg_offs ?next segs) =
          Some (A @ lp_body (seg_kept segs) @ LP_EOF # S', length A + length (lp_body (seg_kept segs)) + 1)"
        by (rule "2.IH" [of _ _ "G @ lp_entry e"]) (use "2.prems" False True in simp_all)
      then show ?thesis using b skip True False seg_offs_hd [OF ne] by simp
    next
      case ks: False
      let ?K = "lp_body ks"
      have pos: "0 < length ?K" using ks by (simp add: lp_body_eq_Nil)
      obtain J where J: "memmove (A @ (G @ lp_entry e) @ ?K @ ?R) (length A) (base + entry_bytes e) (length ?K) =
          Some (A @ ?K @ J @ ?R)" "length J = length (G @ lp_entry e)"
        using memmove_down [of "base + entry_bytes e" A "G @ lp_entry e" "length ?K" ?K ?R] "2.prems"(2) by auto
      have "\<exists>S'. lpBatchDelete_loop ((A @ ?K) @ J @ ?R) lp_end (length (A @ ?K)) (seg_offs ?next segs) =
          Some ((A @ ?K) @ lp_body (seg_kept segs) @ LP_EOF # S', length (A @ ?K) + length (lp_body (seg_kept segs)) + 1)"
        by (rule "2.IH") (use "2.prems" J(2) False in auto)
      moreover have "lp = A @ (G @ lp_entry e) @ ?K @ ?R" using "2.prems"(1) by simp
      ultimately show ?thesis using J b skip False pos seg_offs_hd [OF ne] by (auto simp: add.assoc)
    qed
  qed
qed simp

text \<open>The segments of a list for strictly increasing indices.\<close>

fun segs_of :: "buf list \<Rightarrow> nat list \<Rightarrow> (buf \<times> buf list) list" where
  "segs_of es [] = []"
| "segs_of es [i] = [(es ! i, drop (Suc i) es)]"
| "segs_of es (i # j # is) = (es ! i, take (j - Suc i) (drop (Suc i) es)) # segs_of es (j # is)"

definition remove_indices :: "nat list \<Rightarrow> 'e list \<Rightarrow> 'e list" where
  "remove_indices is xs = map (nth xs) (filter (\<lambda>k. k \<notin> set is) [0..<length xs])"

lemma map_nth_range: "i \<le> j \<Longrightarrow> j \<le> length xs \<Longrightarrow> map (nth xs) [i..<j] = take (j - i) (drop i xs)"
  by (rule nth_equalityI) simp_all

lemma segs_of_all:
  "sorted_wrt (<) (i # is) \<Longrightarrow> list_all (\<lambda>k. k < length es) (i # is) \<Longrightarrow>
   drop i es = seg_all (segs_of es (i # is))"
proof (induction "is" arbitrary: i)
  case (Cons j "is")
  have j: "i < j" "j < length es" "drop j es = seg_all (segs_of es (j # is))" using Cons by simp_all
  have "drop i es = es ! i # drop (Suc i) es" using j by (simp add: Cons_nth_drop_Suc)
  also have "drop (Suc i) es = take (j - Suc i) (drop (Suc i) es) @ drop j es"
    using j append_take_drop_id [of "j - Suc i" "drop (Suc i) es"] by simp
  finally show ?case using j by simp
qed (simp add: Cons_nth_drop_Suc)

lemma segs_of_kept:
  "sorted_wrt (<) (i # is) \<Longrightarrow> list_all (\<lambda>k. k < length es) (i # is) \<Longrightarrow>
   seg_kept (segs_of es (i # is)) = map (nth es) (filter (\<lambda>k. k \<notin> set (i # is)) [i..<length es])"
proof (induction "is" arbitrary: i)
  case Nil
  have "filter (\<lambda>k. k \<noteq> i) [i..<length es] = [Suc i..<length es]"
    using Nil by (simp add: upt_conv_Cons filter_id_conv)
  then show ?case using Nil map_nth_range [of "Suc i" "length es" es] by simp
next
  case (Cons j "is")
  have j: "i < j" "j < length es" "\<forall>k\<in>set is. j < k" using Cons.prems by simp_all
  have IH: "seg_kept (segs_of es (j # is)) = map (nth es) (filter (\<lambda>k. k \<notin> set (j # is)) [j..<length es])"
    using Cons by simp
  have "[i..<length es] = i # [Suc i..<j] @ [j..<length es]"
    using j upt_add_eq_append [of "Suc i" j "length es - j"] by (simp add: upt_conv_Cons)
  moreover have "filter (\<lambda>k. k \<notin> set (i # j # is)) [Suc i..<j] = [Suc i..<j]"
    using j by (auto simp: filter_id_conv)
  moreover have "filter (\<lambda>k. k \<notin> set (i # j # is)) [j..<length es] = filter (\<lambda>k. k \<notin> set (j # is)) [j..<length es]"
    using j(1) by (intro filter_cong) auto
  ultimately show ?case using IH map_nth_range [of "Suc i" j es] j by simp
qed

lemma segs_of_offs:
  "sorted_wrt (<) (i # is) \<Longrightarrow> list_all (\<lambda>k. k < length es) (i # is) \<Longrightarrow>
   seg_offs (lp_off es i) (segs_of es (i # is)) = map (lp_off es) (i # is)"
proof (induction "is" arbitrary: i)
  case (Cons j "is")
  then have j: "i < j" "j < length es" by simp_all
  have "lp_off es j = lp_off es (Suc i) + length (lp_body (take (j - Suc i) (drop (Suc i) es)))"
    using lp_total_range(3) [of "Suc i" j es] j by simp
  then have "lp_off es i + entry_bytes (es ! i) + length (lp_body (take (j - Suc i) (drop (Suc i) es))) = lp_off es j"
    using lp_off_Suc [of i es] j by simp
  then show ?case using Cons by simp
qed simp

lemma seg_lengths:
  "length (seg_all segs) = length (seg_kept segs) + length segs"
  "length (lp_body (seg_kept segs)) \<le> length (lp_body (seg_all segs))"
  by (induction segs rule: seg_all.induct) simp_all

lemma seg_kept_subset: "set (seg_kept segs) \<subseteq> set (seg_all segs)"
  by (induction segs rule: seg_all.induct) auto

lemma length_segs_of: "length (segs_of es is) = length is"
  by (induction es "is" rule: segs_of.induct) simp_all

lemma lpBatchDelete_rep:
  assumes "lp_rep lp es" "sorted_wrt (<) is" "list_all (\<lambda>k. k < length es) is"
  shows "\<exists>lp'. lpBatchDelete lp (map (lp_off es) is) = Some lp' \<and> lp_rep lp' (remove_indices is es)"
proof (cases "is")
  case Nil
  then show ?thesis using assms(1) map_nth_range [of 0 "length es" es] by (simp add: lpBatchDelete_def remove_indices_def)
next
  case (Cons i js)
  obtain num slack where lp: "lp = lp_image es num slack" "num_ok num es" "lp_ok es" "num < 65536" "lp_total es < 4294967296"
    using assms(1) by (rule lp_repE)
  have i: "i < length es" using assms(3) Cons by simp
  define segs where "segs = segs_of es (i # js)"
  have sorted: "sorted_wrt (<) (i # js)" "list_all (\<lambda>k. k < length es) (i # js)" using assms(2,3) Cons by simp_all
  note seg = segs_of_all [OF sorted] segs_of_kept [OF sorted] segs_of_offs [OF sorted]
  define es' where "es' = take i es @ seg_kept segs"
  have es': "remove_indices is es = es'"
  proof -
    have "[0..<length es] = [0..<i] @ [i..<length es]" using i upt_add_eq_append [of 0 i "length es - i"] by simp
    moreover have "filter (\<lambda>k. k \<notin> set is) [0..<i] = [0..<i]" using sorted(1) Cons by (auto simp: filter_id_conv)
    ultimately show ?thesis
      using seg(2) map_nth_range [of 0 i es] i by (simp add: remove_indices_def es'_def segs_def Cons)
  qed
  let ?A = "le_bytes 4 (lp_total es) @ le_bytes 2 num @ lp_body (take i es)"
  have lpA: "lp = ?A @ [] @ lp_body (seg_all segs) @ LP_EOF # slack" "length ?A = lp_off es i"
    "lp_total es = lp_off es i + length (lp_body (seg_all segs)) + 1"
    using lp_image_at [of i es num slack] lp_total_split [of i es] lp(1) i seg(1)
    by (simp_all add: lp_pre_def lp_off_def segs_def)
  have "\<exists>S'. lpBatchDelete_loop lp (lp_total es) (length ?A) (seg_offs (lp_off es i) segs) =
      Some (?A @ lp_body (seg_kept segs) @ LP_EOF # S', length ?A + length (lp_body (seg_kept segs)) + 1)"
  proof (rule lpBatchDelete_loop_rep [OF lpA(1)])
    show "list_all entry_ok (seg_all segs)"
      using lp(3) seg(1) set_drop_subset [of i es] by (auto simp: lp_ok_def list_all_iff segs_def)
    show "segs \<noteq> []" by (cases js) (simp_all add: segs_def)
  qed (use lpA in simp_all)
  then obtain S' where loop: "lpBatchDelete_loop lp (lp_total es) (lp_off es i) (map (lp_off es) is) =
      Some (?A @ lp_body (seg_kept segs) @ LP_EOF # S', lp_total es')"
    using lpA(2) seg(3) by (auto simp: segs_def es'_def lp_total_def lp_off_def Cons)
  have len: "length es' + length is = length es" "lp_total es' \<le> lp_total es"
    using lpA(3) seg_lengths [of segs] length_segs_of [of es "i # js"] arg_cong [OF seg(1), of length] i
    by (simp_all add: es'_def segs_def Cons lp_total_def lp_off_def)
  then have bytes: "sub64 (lp_total es) (sub64 (lp_total es) (lp_total es')) = lp_total es'" "lp_total es' \<noteq> 0"
    using lp(5) by (simp_all add: sub64_le lp_total_def)
  have "lp_total es' - 1 = length (?A @ lp_body (seg_kept segs))" by (simp add: es'_def lp_total_def)
  then have eof: "rd (?A @ lp_body (seg_kept segs) @ LP_EOF # S') (lp_total es' - 1) = Some LP_EOF"
    using rd_append_at [of "?A @ lp_body (seg_kept segs)" LP_EOF S'] by (simp only: append_assoc)
  have eof2: "rd lp (lp_total es - 1) = Some LP_EOF" "lp_total es \<noteq> 0"
    using rd_off_end [of es num slack] lp_end_rep(2) [OF assms(1)] lp(1) lp_off_less_total [of es 0] by simp_all
  let ?n = "if num \<noteq> LP_HDR_NUMELE_UNKNOWN then sub64 num (length is) else num"
  have "lp_rep (le_bytes 4 (lp_total es') @ le_bytes 2 ?n @ lp_body es' @ LP_EOF # S') es'"
  proof (rule lp_rep_blocks)
    have "set es' \<subseteq> set es"
      using seg_kept_subset [of segs] seg(1) set_take_subset [of i es] set_drop_subset [of i es] by (auto simp: es'_def segs_def)
    then show "lp_ok es'" using lp(3) len(2) by (auto simp: lp_ok_def list_all_iff)
    show "num_ok ?n es'" using lp(2) len(1) by (auto simp: num_ok_def sub64_le)
  qed simp
  then obtain lp' where lp': "lpShrinkToFit (le_bytes 4 (lp_total es') @ le_bytes 2 ?n @ lp_body (take i es) @ lp_body (seg_kept segs) @ LP_EOF # S') = Some lp'"
    "lp_rep lp' es'" using lpShrinkToFit_rep [of _ es'] by (fastforce simp: es'_def)
  have hd: "hd (map (lp_off es) is) = lp_off es i" "is \<noteq> []" by (simp_all add: Cons)
  show ?thesis
    using lp_end_rep(1) [OF assms(1)] eof eof2 loop bytes lp' lp(4)
    by (cases "num = LP_HDR_NUMELE_UNKNOWN")
      (auto simp: lpBatchDelete_def hd Let_def es' lpSetTotalBytes_app lpGetNumElements_app lpSetNumElements_app)
qed

text \<open>
  C9: deleting a range given by a signed index removes exactly the entries from there on, at most
  \<open>num\<close> of them; an index outside the listpack changes nothing. Deleting the entries at an
  increasing list of positions keeps exactly the others, in order.
\<close>

theorem lpDelete_many:
  assumes "lp_rep lp es" "sorted_wrt (<) is" "list_all (\<lambda>k. k < length es) is"
  shows "(\<exists>lp'. lpDeleteRange lp index num = Some lp' \<and>
            lp_rep lp' (case seek_index (length es) index of None \<Rightarrow> es | Some i \<Rightarrow> remove_range i num es)) \<and>
         (\<exists>lp'. lpBatchDelete lp (map (lp_off es) is) = Some lp' \<and> lp_rep lp' (remove_indices is es))"
  using lpDeleteRange_rep [OF assms(1)] lpBatchDelete_rep [OF assms] by blast

theorem lpDelete_many_witness:
  "(\<exists>lp'. lpDeleteRange (lp_image [[1], [2], [3]] 3 []) (- 2) 1 = Some lp' \<and> lp_rep lp' [[1], [3]]) \<and>
   (\<exists>lp'. lpBatchDelete (lp_image [[1], [2], [3]] 3 []) [6, 10] = Some lp' \<and> lp_rep lp' [[2]])"
proof -
  have "lp_rep (lp_image [[1], [2], [3]] 3 []) [[1], [2], [3]]" by (rule lp_repI; simp add: lp_example_simps)
  from lpDelete_many [OF this, of "[0, 2]" "- 2" 1] show ?thesis
    by (simp add: seek_index_def remove_range_def remove_indices_def lp_off_def upt_conv_Cons)
qed


subsection \<open>Comparing and searching\<close>

lemma lpCompare_int:
  assumes "is_int64 v"
  shows "(case string2ll s of Some u \<Rightarrow> v = u | None \<Rightarrow> False) \<longleftrightarrow> dec_int v = s"
proof -
  have v: "string2ll s = Some v" if "dec_int v = s" using that assms string2ll_Some_iff [of s v] by simp
  show ?thesis
  proof (cases "string2ll s")
    case (Some u)
    then have "s = dec_int u" using string2ll_Some_iff [of s u] by simp
    then show ?thesis using Some v by auto
  qed (use v in auto)
qed

lemma lpCompare_rep:
  assumes "lp_rep lp es" "i < length es"
  shows "lpCompare lp (lp_off es i) s = Some (entry_string (es ! i) = s)"
proof -
  obtain num slack where lp: "lp = lp_image es num slack" "lp_ok es" using assms(1) by (rule lp_repE)
  note ok = lp_ok_nth [OF lp(2) assms(2)]
  note ref = entry_ref_bounds [OF ok] lpGet_rep(1) [OF assms] entry_string_ref [OF ok]
  obtain b where b: "rd lp (lp_off es i) = Some b" "b \<noteq> LP_EOF"
    unfolding lp(1) using lp(2) assms(2) by (rule rd_off_entry)
  show ?thesis
  proof (cases "entry_ref (es ! i)")
    case (LpStr off n)
    have "rd_range lp (lp_off es i + off) n = Some (take n (drop off (es ! i)))"
      by (rule rd_range_entry [OF assms]) (use ref(1) LpStr in simp)
    then show ?thesis using LpStr ref b by (auto simp: lpCompare_def)
  next
    case (LpInt v)
    then show ?thesis
      using ref b lpCompare_int [of v s] by (simp add: lpCompare_def lpStringToInt64_eq split: option.splits)
  next
    case (LpBuf x y)
    then show ?thesis using ref(1) by simp
  qed
qed

text \<open>What the cached conversion of the needle in \<open>lpFindArg\<close> means.\<close>

definition find_arg_ok :: "buf \<Rightarrow> lpFindArg \<Rightarrow> bool" where
  "find_arg_ok s arg \<longleftrightarrow> find_s arg = s \<and>
     (vencoding arg = 0 \<or> vencoding arg = 255 \<and> string2ll s = None \<or> vencoding arg = 1 \<and> string2ll s = Some (vll arg))"

lemma string2ll_length: "string2ll s = Some v \<Longrightarrow> 0 < length s \<and> length s < 32"
  using string2ll_Some_iff [of s v] length_dec_int64 [of v] by auto

lemma lpFindCmp_rep:
  assumes "lp_rep lp es" "i < length es" "find_arg_ok s arg"
  shows "\<exists>arg'. lpFindCmp lp (lp_off es i) arg (shift_ref (lp_off es i) (entry_ref (es ! i))) =
    Some (entry_string (es ! i) = s, arg') \<and> find_arg_ok s arg'"
proof -
  obtain num slack where lp: "lp = lp_image es num slack" "lp_ok es" using assms(1) by (rule lp_repE)
  note ok = lp_ok_nth [OF lp(2) assms(2)]
  note ref = entry_ref_bounds [OF ok] entry_string_ref [OF ok]
  show ?thesis
  proof (cases "entry_ref (es ! i)")
    case (LpStr off n)
    define c where "c = take n (drop off (es ! i))"
    have "rd_range lp (lp_off es i + off) n = Some c"
      unfolding c_def by (rule rd_range_entry [OF assms(1,2)]) (use ref(1) LpStr in simp)
    moreover have "entry_string (es ! i) = c" "length c = n" using LpStr ref by (auto simp: c_def)
    ultimately show ?thesis using LpStr assms(3) by (auto simp: lpFindCmp_def find_arg_ok_def)
  next
    case (LpInt v)
    have s: "find_s arg = s" using assms(3) by (simp add: find_arg_ok_def)
    have "entry_string (es ! i) = dec_int v" "is_int64 v" using LpInt ref by simp_all
    moreover note lpCompare_int [of v s]
    moreover have "string2ll s = None" if "32 \<le> length s \<or> length s = 0"
      using that string2ll_length [of s] by (cases "string2ll s") auto
    ultimately show ?thesis
      using LpInt assms(3) s
      by (cases "string2ll s") (auto simp: lpFindCmp_def find_arg_ok_def lpStringToInt64_eq Let_def)
  next
    case (LpBuf x y)
    then show ?thesis using ref(1) by simp
  qed
qed

lemma lpFindCb_check_rep:
  assumes "lp_rep lp es" "i \<le> length es"
  shows "lpFindCb_check lp (lp_total es) (lp_off es i) = Some (i = length es)"
proof -
  obtain num slack where lp: "lp = lp_image es num slack" "lp_ok es" using assms(1) by (rule lp_repE)
  obtain b where "rd lp (lp_off es i) = Some b" "b = LP_EOF \<longleftrightarrow> i = length es" using rd_off_hd [OF assms] by blast
  then show ?thesis
    using lpAssertValidEntry_off [OF lp(2) assms(2), of num slack] lp(1) lp_off_ge [of es i] lp_off_less_total [of es i]
    by (simp add: lpFindCb_check_def)
qed

lemma lpFindCb_step_rep:
  assumes "lp_rep lp es" "i < length es" "find_arg_ok s arg"
  shows "\<exists>esz arg'. lpFindCb_step lp (lp_total es) lpFindCmp skip (lp_off es i) cnt esz0 arg =
      Some (if cnt = 0 \<and> entry_string (es ! i) = s then Inl (lp_off es i)
            else Inr (lp_off es (Suc i), if cnt = 0 then skip else cnt - 1, esz, arg')) \<and> find_arg_ok s arg'"
proof (cases "cnt = 0")
  case True
  obtain num slack where lp: "lp_ok es" using assms(1) by (rule lp_repE)
  obtain arg' where arg': "lpFindCmp lp (lp_off es i) arg (shift_ref (lp_off es i) (entry_ref (es ! i))) =
      Some (entry_string (es ! i) = s, arg')" "find_arg_ok s arg'" using lpFindCmp_rep [OF assms] by blast
  show ?thesis
    using True arg' lpGet_rep(2) [OF assms(1,2)] lp_ok_bytes(1) [OF lp assms(2)] lp_off_ge [of es i] lp_off_Suc [OF assms(2)]
    by (auto simp: lpFindCb_step_def Let_def split: lpref.split)
next
  case False
  obtain num slack where lp: "lp = lp_image es num slack" "lp_ok es" using assms(1) by (rule lp_repE)
  show ?thesis
    using False lpSkip_off [OF lp(2) assms(2), of num slack] assms(3) lp(1) by (auto simp: lpFindCb_step_def)
qed

text \<open>The entry a search that looks at every \<open>skip + 1\<close>-th entry from the \<open>i\<close>-th on finds.\<close>

definition find_index :: "buf list \<Rightarrow> buf \<Rightarrow> nat \<Rightarrow> nat \<Rightarrow> nat option" where
  "find_index es s skip i =
     List.find (\<lambda>j. entry_string (es ! j) = s) (filter (\<lambda>j. (j - i) mod Suc skip = 0) [i..<length es])"

abbreviation find_cands :: "nat \<Rightarrow> nat \<Rightarrow> nat \<Rightarrow> nat \<Rightarrow> nat list" where
  "find_cands n skip i cnt \<equiv> filter (\<lambda>j. i + cnt \<le> j \<and> (j - (i + cnt)) mod Suc skip = 0) [i..<n]"

lemma find_cands_0:
  assumes "i < n"
  shows "find_cands n skip i 0 = i # find_cands n skip (Suc i) skip"
proof -
  have "(i + 0 \<le> j \<and> (j - (i + 0)) mod Suc skip = 0) \<longleftrightarrow> (Suc i + skip \<le> j \<and> (j - (Suc i + skip)) mod Suc skip = 0)"
    if "j \<in> set [Suc i..<n]" for j
  proof (cases "Suc i + skip \<le> j")
    case True
    then have "j - i = (j - (Suc i + skip)) + Suc skip" by simp
    then have "(j - i) mod Suc skip = (j - (Suc i + skip)) mod Suc skip" by (metis mod_add_self2)
    then show ?thesis using True by simp
  next
    case False
    then have "(j - i) mod Suc skip = j - i" using that by (intro mod_less) auto
    then show ?thesis using False that by auto
  qed
  then have "filter (\<lambda>j. i + 0 \<le> j \<and> (j - (i + 0)) mod Suc skip = 0) [Suc i..<n] = find_cands n skip (Suc i) skip"
    by (intro filter_cong) auto
  then show ?thesis using assms by (simp add: upt_conv_Cons)
qed

lemma find_cands_Suc: "i < n \<Longrightarrow> find_cands n skip i (Suc cnt) = find_cands n skip (Suc i) cnt"
  by (simp add: upt_conv_Cons)

lemma lpFindCb_loop_rep:
  assumes "lp_rep lp es" "i < length es" "find_arg_ok s arg" "length es - i \<le> fuel"
  shows "lpFindCb_loop fuel lp (lp_total es) lpFindCmp skip (lp_off es i) cnt esz arg =
    Some (case List.find (\<lambda>j. entry_string (es ! j) = s) (find_cands (length es) skip i cnt) of
            None \<Rightarrow> NULL | Some j \<Rightarrow> Ptr (lp_off es j))"
  using assms(2-4)
proof (induction fuel arbitrary: i cnt esz arg)
  case (Suc fuel)
  obtain esz' arg' where step: "lpFindCb_step lp (lp_total es) lpFindCmp skip (lp_off es i) cnt esz arg =
      Some (if cnt = 0 \<and> entry_string (es ! i) = s then Inl (lp_off es i)
            else Inr (lp_off es (Suc i), if cnt = 0 then skip else cnt - 1, esz', arg'))" "find_arg_ok s arg'"
    using lpFindCb_step_rep [OF assms(1) Suc.prems(1,2)] by blast
  have check: "lpFindCb_check lp (lp_total es) (lp_off es (Suc i)) = Some (Suc i = length es)"
    using lpFindCb_check_rep [OF assms(1), of "Suc i"] Suc.prems(1) by simp
  have cands: "find_cands (length es) skip i cnt =
      (if cnt = 0 then [i] else []) @ find_cands (length es) skip (Suc i) (if cnt = 0 then skip else cnt - 1)"
  proof (cases cnt)
    case 0
    then show ?thesis using find_cands_0 [OF Suc.prems(1), of skip] by (simp only: if_True append.simps simp_thms)
  next
    case (Suc c)
    then show ?thesis using find_cands_Suc [OF Suc.prems(1), of c skip] by (simp only: nat.simps if_False append.simps diff_Suc_1 simp_thms)
  qed
  show ?case
  proof (cases "cnt = 0 \<and> entry_string (es ! i) = s")
    case True
    then show ?thesis using step(1) cands by simp
  next
    case False
    show ?thesis
    proof (cases "Suc i = length es")
      case True
      then have "find_cands (length es) skip (Suc i) c = []" for c by simp
      then show ?thesis unfolding cands using False step(1) check True by auto
    next
      case f: False
      have "lpFindCb_loop fuel lp (lp_total es) lpFindCmp skip (lp_off es (Suc i)) (if cnt = 0 then skip else cnt - 1) esz' arg' =
        Some (case List.find (\<lambda>j. entry_string (es ! j) = s)
                (find_cands (length es) skip (Suc i) (if cnt = 0 then skip else cnt - 1)) of
                None \<Rightarrow> NULL | Some j \<Rightarrow> Ptr (lp_off es j))"
        by (rule Suc.IH) (use Suc.prems f step(2) in auto)
      then show ?thesis unfolding cands using False step(1) check f by auto
    qed
  qed
qed simp

lemma lpFind_rep:
  assumes "lp_rep lp es" "i < length es"
  shows "lpFind lp (Ptr (lp_off es i)) s skip =
    Some (case find_index es s skip i of None \<Rightarrow> NULL | Some j \<Rightarrow> Ptr (lp_off es j))"
proof -
  have "filter (\<lambda>j. (j - i) mod Suc skip = 0) [i..<length es] = find_cands (length es) skip i 0"
    by (intro filter_cong) auto
  moreover have "length es - i \<le> Suc (length lp)"
    using assms length_le_body [of es] by (auto simp: lp_rep_def lp_ok_def length_lp_image lp_total_def)
  ultimately show ?thesis
    using lpFindCb_loop_rep [OF assms, of s "\<lparr>find_s = s, vencoding = 0, vll = 0\<rparr>" "Suc (length lp)" skip 0 123456789]
      lpBytes_rep [OF assms(1)]
    by (simp add: lpFind_def lpFindCb_def find_index_def find_arg_ok_def)
qed

text \<open>
  C7: \<open>lpFind\<close> from an entry returns the first of every \<open>skip + 1\<close>-th entry that reads as the
  given string, integers included, or \<open>NULL\<close>; the loop ends within the bound of the block and no
  assertion fails. From \<open>NULL\<close> it starts at the first entry.
\<close>

theorem lpFind_first_match:
  assumes "lp_rep lp es" "i < length es"
  shows "lpFind lp (Ptr (lp_off es i)) s skip =
      Some (case find_index es s skip i of None \<Rightarrow> NULL | Some j \<Rightarrow> Ptr (lp_off es j)) \<and>
    lpFind lp NULL s skip = lpFind lp (Ptr (lp_off es 0)) s skip \<and>
    lpCompare lp (lp_off es i) s = Some (entry_string (es ! i) = s)"
proof -
  have "lpFirst lp = Some (Ptr (lp_off es 0))" using lpFirst_rep [OF assms(1)] assms(2) by (auto simp: lp_ptr_def)
  then have "lpFind lp NULL s skip = lpFind lp (Ptr (lp_off es 0)) s skip" by (simp add: lpFind_def lpFindCb_def)
  then show ?thesis using lpFind_rep [OF assms] lpCompare_rep [OF assms] by simp
qed

lemma entry_string_7bit: "unat b < 128 \<Longrightarrow> entry_string [b] = dec_int (int (unat b))"
  using entry_refI [OF lpGetWithSize_7bit, of "[b]" b] entry_string_ref [OF entry_ok_7bit, of b]
  by (simp del: of_nat_unat)

theorem lpFind_first_match_witness:
  "lpFind (lp_image [[1], [2], [1], [2]] 4 []) (Ptr 6) [0x32] 1 = Some NULL \<and>
   lpFind (lp_image [[1], [2], [1], [2]] 4 []) (Ptr 8) [0x32] 1 = Some (Ptr 8) \<and>
   lpFind (lp_image [[1], [2], [1], [2]] 4 []) (Ptr 8) [0x31] 0 = Some (Ptr 10)"
proof -
  have rep: "lp_rep (lp_image [[1], [2], [1], [2]] 4 []) [[1], [2], [1], [2]]" by (rule lp_repI; simp add: lp_example_simps)
  have str: "entry_string [1] = [0x31]" "entry_string [2] = [0x32]"
    by (simp_all add: entry_string_7bit del: of_nat_unat) code_simp+
  show ?thesis
    using lpFind_first_match [OF rep, of 0 "[0x32]" 1] lpFind_first_match [OF rep, of 1 "[0x32]" 1]
      lpFind_first_match [OF rep, of 1 "[0x31]" 0]
    by (simp add: find_index_def upt_conv_Cons str lp_off_def mod_Suc)
qed


subsection \<open>The integrity check\<close>

lemma lpDecodeBacklen_loop_total:
  "p < length lp \<Longrightarrow> 28 < 7 * p + shift + 7 \<Longrightarrow> \<exists>v. lpDecodeBacklen_loop lp p val shift = Some v"
proof (induction lp p val shift rule: lpDecodeBacklen_loop.induct)
  case (1 lp p val shift)
  have b: "rd lp p = Some (lp ! p)" using "1.prems"(1) by (rule rd_nth)
  show ?case
  proof (cases "lp ! p AND 128 = 0 \<or> 28 < shift + 7")
    case True
    then show ?thesis by (subst lpDecodeBacklen_loop.simps) (auto simp: b Let_def)
  next
    case False
    then have "p \<noteq> 0" using "1.prems"(2) by auto
    then have "\<exists>v. lpDecodeBacklen_loop lp (p - 1) (val OR push_bit shift (unat (lp ! p AND 127))) (shift + 7) = Some v"
      using False "1.prems" by (intro "1.IH" [OF b]) auto
    with False \<open>p \<noteq> 0\<close> show ?thesis by (subst lpDecodeBacklen_loop.simps) (simp add: b Let_def)
  qed
qed

lemma lpSize_total:
  assumes "lpCurrentEncodedSizeBytes lp p = Some k" "k \<noteq> 0" "p + k < length lp"
  shows "\<exists>n. lpCurrentEncodedSizeUnsafe lp p = Some n"
proof -
  from assms(1) obtain b where b: "rd lp p = Some b" by (auto simp: lpCurrentEncodedSizeBytes_def bind_eq_Some_conv)
  note k = lpCurrentEncodedSizeBytes_ranges [OF b]
  note r = lpCurrentEncodedSizeUnsafe_ranges [OF b]
  show ?thesis
  proof (cases b rule: byte_range_cases)
    case 4
    then have "k = 2" using assms(1) k by simp
    then have "rd lp (p + 1) = Some (lp ! (p + 1))" using assms(3) by (intro rd_nth) simp
    then show ?thesis using r(4) [OF 4] b by (simp add: LP_ENCODING_12BIT_STR_LEN_def)
  next
    case 5
    then have "k = 5" using assms(1) k by simp
    then have "rd lp (p + 1) = Some (lp ! (p + 1))" "rd lp (p + 2) = Some (lp ! (p + 2))"
      "rd lp (p + 3) = Some (lp ! (p + 3))" "rd lp (p + 4) = Some (lp ! (p + 4))"
      using assms(3) by (auto intro!: rd_nth)
    then show ?thesis using r(5) [OF 5] by (simp add: LP_ENCODING_32BIT_STR_LEN_def)
  qed (use r in auto)
qed

lemma lpValidateNext_total:
  assumes "bytes \<le> length lp"
  shows "\<exists>r. lpValidateNext lp (Ptr p) bytes = Some r"
proof (cases "OUT_OF_RANGE bytes p")
  case False
  then have p: "LP_HDR_SIZE \<le> p" "p < length lp" using assms by (simp_all add: OUT_OF_RANGE_def)
  have b: "rd lp p = Some (lp ! p)" using p(2) by (rule rd_nth)
  obtain k where k: "lpCurrentEncodedSizeBytes lp p = Some k" using lpCurrentEncodedSizeBytes_ranges [OF b] by blast
  show ?thesis
  proof (cases "lp ! p = LP_EOF \<or> k = 0 \<or> OUT_OF_RANGE bytes (p + k)")
    case True
    then show ?thesis using False b k by (auto simp: lpValidateNext_def)
  next
    case f: False
    then have "p + k < length lp" using assms by (simp add: OUT_OF_RANGE_def)
    then obtain n where n: "lpCurrentEncodedSizeUnsafe lp p = Some n" using lpSize_total [OF k] f by auto
    let ?q = "p + (n + length (lpEncodeBacklen n))"
    show ?thesis
    proof (cases "OUT_OF_RANGE bytes ?q")
      case True
      then show ?thesis using False f b k n by (auto simp: lpValidateNext_def Let_def)
    next
      case g: False
      have "0 < length (lpEncodeBacklen n)" by simp
      then have q: "?q - 1 < length lp" "6 \<le> ?q - 1" using g p(1) assms unfolding OUT_OF_RANGE_def by linarith+
      have "28 < 7 * (?q - 1) + 0 + 7" using q(2) by linarith
      then obtain v where "lpDecodeBacklen lp (?q - 1) = Some v"
        using lpDecodeBacklen_loop_total [OF q(1), of 0 0] by (auto simp: lpDecodeBacklen_def)
      then show ?thesis using False f g b k n by (auto simp: lpValidateNext_def Let_def)
    qed
  qed
qed (auto simp: lpValidateNext_def)

lemma lpValidateNext_True:
  assumes "lpValidateNext lp (Ptr p) bytes = Some (True, q)" "rd lp p = Some b" "b \<noteq> LP_EOF"
  obtains q' where "q = Ptr q'" "lpSkip lp p = Some q'" "q' < bytes" "LP_HDR_SIZE \<le> q'" "LP_HDR_SIZE \<le> p"
proof -
  from assms obtain n where n: "lpCurrentEncodedSizeUnsafe lp p = Some n"
    "\<not> OUT_OF_RANGE bytes (p + (n + length (lpEncodeBacklen n)))" "q = Ptr (p + (n + length (lpEncodeBacklen n)))"
    "\<not> OUT_OF_RANGE bytes p"
    by (auto simp: lpValidateNext_def Let_def bind_eq_Some_conv split: if_splits)
  show thesis by (rule that [OF n(3)]) (use n in \<open>auto simp: lpSkip_def OUT_OF_RANGE_def\<close>)
qed

lemma lpValidate_loop_total:
  "bytes \<le> length lp \<Longrightarrow> (\<And>q. p = Ptr q \<Longrightarrow> q < bytes) \<Longrightarrow>
   \<exists>r. lpValidate_loop lp bytes numele cb count p = Some r"
proof (induction lp bytes numele cb count p rule: lpValidate_loop.induct)
  case (2 lp bytes numele cb count p)
  have p: "p < length lp" using "2.prems" by force
  have b: "rd lp p = Some (lp ! p)" using p by (rule rd_nth)
  show ?case
  proof (cases "lp ! p = LP_EOF")
    case True
    then show ?thesis using b by simp
  next
    case False
    obtain ok q where r: "lpValidateNext lp (Ptr p) bytes = Some (ok, q)"
      using lpValidateNext_total [OF "2.prems"(1), of p] by auto
    show ?thesis
    proof (cases "ok \<and> \<not> (case cb of NULL \<Rightarrow> False | Ptr c \<Rightarrow> \<not> c p numele)")
      case True
      then have ok: "ok" and c: "\<not> (case cb of NULL \<Rightarrow> False | Ptr c \<Rightarrow> \<not> c p numele)" by simp_all
      obtain q' where q': "q = Ptr q'" "q' < bytes" using lpValidateNext_True [of lp p bytes q] r ok b False by auto
      have "\<exists>r. lpValidate_loop lp bytes numele cb ((count + 1) mod 4294967296) q = Some r"
        using "2.prems"(1) q' ok c r by (intro "2.IH" [OF b False r]) auto
      then show ?thesis using b False r ok c by (auto split: nullable.split)
    qed (use b False r in \<open>auto split: nullable.split bool.split\<close>)
  qed
qed simp

text \<open>
  C5: the integrity check of a listpack payload reads only inside it, whatever its bytes are and
  whatever the entry callback answers.
\<close>

theorem lpValidateIntegrity_total: "\<exists>b. lpValidateIntegrity lp (length lp) deep entry_cb = Some b"
proof (cases "length lp < LP_HDR_SIZE + 1")
  case False
  then have len: "4 \<le> length lp" "6 \<le> length lp" "length lp \<noteq> 0" by linarith+
  obtain bytes where t: "lpGetTotalBytes lp = Some bytes" using lpGetTotalBytes_eq [OF len(1)] by blast
  obtain num where n: "lpGetNumElements lp = Some num" using lpGetNumElements_eq [OF len(2)] by blast
  obtain b where b: "rd lp (length lp - 1) = Some b" using rd_nth [of "length lp - 1" lp] len(3) by auto
  show ?thesis
  proof (cases "bytes = length lp")
    case True
    have "\<exists>r. lpValidate_loop lp (length lp) num entry_cb 0 (Ptr LP_HDR_SIZE) = Some r"
      by (rule lpValidate_loop_total) (use False in auto)
    then show ?thesis
      using t n b True False
      by (auto simp: lpValidateIntegrity_def simp del: lpValidate_loop.simps split: option.split prod.split)
  qed (use False t in \<open>auto simp: lpValidateIntegrity_def\<close>)
qed (auto simp: lpValidateIntegrity_def)

text \<open>What the scan accepts, \<open>lpNext\<close> walks over.\<close>

lemma lpValidate_loop_sound:
  "lpValidate_loop lp bytes numele cb count (Ptr p) = Some (Some (count', Ptr e)) \<Longrightarrow> lpBytes lp = Some bytes \<Longrightarrow>
   rd lp p = Some b \<Longrightarrow> b \<noteq> LP_EOF \<Longrightarrow>
   lpLength_loop lp count (Ptr p) = Some count' \<and> lpAssertValidEntry lp bytes p = Some ()"
proof (induction lp bytes numele cb count "Ptr p" arbitrary: p b rule: lpValidate_loop.induct)
  case (2 lp bytes numele cb count p)
  obtain q where r: "lpValidateNext lp (Ptr p) bytes = Some (True, q)"
    and c: "\<not> (case cb of NULL \<Rightarrow> False | Ptr c \<Rightarrow> \<not> c p numele)"
    and loop: "lpValidate_loop lp bytes numele cb ((count + 1) mod 4294967296) q = Some (Some (count', Ptr e))"
    using "2.prems" by (auto split: option.splits bool.splits prod.splits if_splits)
  obtain q' where q': "q = Ptr q'" "lpSkip lp p = Some q'" using lpValidateNext_True [OF r "2.prems"(3,4)] by metis
  obtain b' where b': "rd lp q' = Some b'" using loop q'(1) by (auto split: option.splits)
  have valid: "lpAssertValidEntry lp bytes p = Some ()" using r by (simp add: lpAssertValidEntry_def)
  show ?case
  proof (cases "b' = LP_EOF")
    case True
    then have "lpNext lp p = Some NULL" using q' b' by (simp add: lpNext_def)
    then show ?thesis using loop q'(1) b' True valid by simp
  next
    case False
    have "lpLength_loop lp ((count + 1) mod 4294967296) (Ptr q') = Some count' \<and> lpAssertValidEntry lp bytes q' = Some ()"
      by (rule "2.hyps" [OF "2.prems"(3,4) r [unfolded q'(1)] refl refl c loop [unfolded q'(1)] "2.prems"(2) b' False])
    moreover from this have "lpNext lp p = Some (Ptr q')" using q' b' False "2.prems"(2) by (simp add: lpNext_def)
    ultimately show ?thesis using valid by simp
  qed
qed

lemma lpValidate_loop_rep:
  assumes "lp_rep lp es" "i \<le> length es" "cnt + (length es - i) < 4294967296"
  shows "lpValidate_loop lp (lp_total es) num NULL cnt (Ptr (lp_off es i)) =
    Some (Some (cnt + (length es - i), Ptr (lp_off es (length es))))"
  using assms(2,3)
proof (induction "length es - i" arbitrary: i cnt)
  case 0
  then have "i = length es" by simp
  then show ?case using rd_off_hd [OF assms(1), of i] by auto
next
  case (Suc n)
  then have i: "i < length es" by simp
  obtain m slack where lp: "lp = lp_image es m slack" "lp_ok es" using assms(1) by (rule lp_repE)
  obtain b where b: "rd lp (lp_off es i) = Some b" "b \<noteq> LP_EOF" using rd_off_hd [OF assms(1), of i] i by auto
  have "lpValidate_loop lp (lp_total es) num NULL (cnt + 1) (Ptr (lp_off es (Suc i))) =
      Some (Some (cnt + 1 + (length es - Suc i), Ptr (lp_off es (length es))))"
    using Suc.hyps(2) Suc.prems i by (intro Suc.hyps(1)) simp_all
  moreover have "(cnt + 1) mod 4294967296 = cnt + 1" using Suc.prems i by simp
  moreover have "lpValidateNext lp (Ptr (lp_off es i)) (lp_total es) = Some (True, Ptr (lp_off es (Suc i)))"
    using lpValidateNext_off [OF lp(2) i, of m slack] lp(1) by simp
  ultimately show ?case
    using b i by (subst lpValidate_loop.simps) (simp del: lpValidate_loop.simps)
qed

lemma lpSetNumElements_total: "6 \<le> length lp \<Longrightarrow> \<exists>lp'. lpSetNumElements lp v = Some lp'"
proof -
  assume len: "6 \<le> length lp"
  have "take 2 (drop 4 lp) @ drop 6 lp = drop 4 lp" using append_take_drop_id [of 2 "drop 4 lp"] by simp
  then have "lp = take 4 lp @ take 2 (drop 4 lp) @ drop 6 lp" by simp
  moreover have "length (take 4 lp) = 4" "length (take 2 (drop 4 lp)) = 2" using len by simp_all
  ultimately show ?thesis by (metis lpSetNumElements_app)
qed

text \<open>
  C6: a payload that is the image of well-formed entries passes the deep check, and on a payload
  that passes it the forward traversal by \<open>lpFirst\<close> and \<open>lpNext\<close> meets no failing assertion
  and counts the entries the header announces.
\<close>

theorem lpValidateIntegrity_sound:
  "(lp_rep lp es \<and> length lp = lp_total es \<longrightarrow> lpValidateIntegrity lp (length lp) True NULL = Some True) \<and>
   (lpValidateIntegrity lp (length lp) True entry_cb = Some True \<longrightarrow>
      (\<exists>p n lp'. lpFirst lp = Some p \<and> lpLength_loop lp 0 p = Some n \<and> lpLength lp = Some (n, lp')))"
proof (intro conjI impI)
  assume a: "lp_rep lp es \<and> length lp = lp_total es"
  then obtain num slack where lp: "lp = lp_image es num slack" "num_ok num es" "num < 65536" by (auto elim: lp_repE)
  have n: "lpGetNumElements lp = Some num" using lp by (simp add: lpGetNumElements_image)
  have "lpValidate_loop lp (lp_total es) num NULL 0 (Ptr (lp_off es 0)) =
      Some (Some (0 + (length es - 0), Ptr (lp_off es (length es))))"
    using a lp_rep_length [of lp es] by (intro lpValidate_loop_rep) simp_all
  moreover have "rd lp (lp_total es - 1) = Some LP_EOF" "LP_HDR_SIZE + 1 \<le> lp_total es"
    using a rd_off_hd [of lp es "length es"] lp_end_rep(2) [of lp es] by (auto simp: lp_total_def)
  ultimately show "lpValidateIntegrity lp (length lp) True NULL = Some True"
    using a n lp(2) lp_end_rep [of lp es] by (auto simp: lpValidateIntegrity_def num_ok_def simp del: lpValidate_loop.simps)
next
  assume a: "lpValidateIntegrity lp (length lp) True entry_cb = Some True"
  have len: "6 < length lp" "6 \<le> length lp" using a by (auto simp: lpValidateIntegrity_def split: if_splits)
  obtain numele count where v: "lpGetTotalBytes lp = Some (length lp)" "lpGetNumElements lp = Some numele"
    "lpValidate_loop lp (length lp) numele entry_cb 0 (Ptr LP_HDR_SIZE) = Some (Some (count, Ptr (length lp - 1)))"
    "numele = LP_HDR_NUMELE_UNKNOWN \<or> numele = count"
    using a by (auto simp: lpValidateIntegrity_def bind_eq_Some_conv simp del: lpValidate_loop.simps split: if_splits option.splits)
  obtain b where b: "rd lp LP_HDR_SIZE = Some b" using rd_nth [OF len(1)] by simp
  obtain p where p: "lpFirst lp = Some p" "lpLength_loop lp 0 p = Some count"
  proof (cases "b = LP_EOF")
    case True
    then have "lpFirst lp = Some NULL" "count = 0" using b v(3) by (simp_all add: lpFirst_def)
    then show thesis using that by simp
  next
    case False
    from lpValidate_loop_sound [OF v(3) _ b False] v(1)
    have "lpLength_loop lp 0 (Ptr LP_HDR_SIZE) = Some count" "lpAssertValidEntry lp (length lp) LP_HDR_SIZE = Some ()"
      by (simp_all add: lpBytes_def)
    then show thesis using that b False v(1) by (simp add: lpFirst_def lpBytes_def)
  qed
  have "\<exists>lp'. lpLength lp = Some (count, lp')"
    using v p lpSetNumElements_total [OF len(2), of count] by (auto simp: lpLength_def simp del: lpValidate_loop.simps)
  with p show "\<exists>p n lp'. lpFirst lp = Some p \<and> lpLength_loop lp 0 p = Some n \<and> lpLength lp = Some (n, lp')" by blast
qed

theorem lpValidateIntegrity_sound_witness:
  "lpValidateIntegrity (lp_image [[1], [2]] 2 []) 11 True NULL = Some True \<and>
   (\<exists>p n lp'. lpFirst (lp_image [[1], [2]] 2 []) = Some p \<and> lpLength_loop (lp_image [[1], [2]] 2 []) 0 p = Some n \<and>
      lpLength (lp_image [[1], [2]] 2 []) = Some (n, lp'))"
proof -
  have "lp_rep (lp_image [[1], [2]] 2 []) [[1], [2]]" by (rule lp_repI; simp add: lp_example_simps)
  moreover have "length (lp_image [[1], [2]] 2 []) = 11" "lp_total [[1], [2]] = 11"
    by (simp_all add: length_lp_image lp_example_simps)
  ultimately show ?thesis
    using lpValidateIntegrity_sound [of "lp_image [[1], [2]] 2 []" "[[1], [2]]" NULL] by metis
qed

text \<open>
  C11: the deep check accepts a payload whose only entry has a back length that borrows bytes before
  it; prepending an element to the accepted listpack is a normal operation, after which \<open>lpLast\<close>
  fails an assertion.
\<close>

theorem lpValidateIntegrity_accepts_borrowed_backlen:
  "lpValidateIntegrity [9, 0, 0, 0, 1, 0, 0x80, 0x81, 0xFF] 9 True NULL = Some True \<and>
   (\<exists>lp. lpPrepend [9, 0, 0, 0, 1, 0, 0x80, 0x81, 0xFF] [0x31] = Some (Ptr lp) \<and> lpLast lp = None)"
  (is "?v \<and> ?l")
proof
  let ?lp = "[9, 0, 0, 0, 1, 0, 0x80, 0x81, 0xFF] :: buf"
  have hdr: "lpGetTotalBytes ?lp = Some 9" "lpGetNumElements ?lp = Some 1"
    by (simp_all add: lpGetTotalBytes_eq lpGetNumElements_eq)
  have b: "rd ?lp 6 = Some 0x80" by simp
  have size: "lpCurrentEncodedSizeUnsafe ?lp 6 = Some 1" "lpCurrentEncodedSizeBytes ?lp 6 = Some 1"
    using lpCurrentEncodedSizeUnsafe_ranges(2) [OF b] lpCurrentEncodedSizeBytes_ranges [OF b] by simp_all
  have dec: "lpDecodeBacklen ?lp 7 = Some 1"
    by (simp add: lpDecodeBacklen_def lpDecodeBacklen_loop.simps)
  have nxt: "lpValidateNext ?lp (Ptr 6) 9 = Some (True, Ptr 8)"
    using size dec by (simp add: lpValidateNext_def OUT_OF_RANGE_def)
  show ?v using hdr nxt by (simp add: lpValidateIntegrity_def)
  have first: "lpFirst ?lp = Some (Ptr 6)"
    using hdr nxt by (simp add: lpFirst_def lpBytes_def lpAssertValidEntry_def)
  have "dec_int 1 = [0x31]" by code_simp
  then have "string2ll [0x31] = Some 1" using string2ll_Some_iff [of "[0x31]" 1] by (simp add: is_int64_def)
  then have enc: "lpInsert_enc (Ptr [0x31]) NULL = (ENC_INT [1], 1)"
    by (simp add: lpInsert_enc_def lpEncodeGetType_def lpStringToInt64_eq lpEncodeIntegerGetType_def)
  let ?h = "[9, 0, 0, 0] :: buf"
  have split: "?lp = ?h @ le_bytes 2 1 @ [] @ [] @ [0x80, 0x81, 0xFF] @ []" by (simp add: le_bytes_unfold)
  have "\<exists>S'. lpInsert_apply ?lp 6 LP_BEFORE False (ENC_INT [1]) (length [1 :: byte]) (lpEncodeBacklen (length [1 :: byte]))
      (length ([] :: buf)) 9 11 False =
      Some (le_bytes 4 11 @ le_bytes 2 (if LP_BEFORE = LP_BEFORE \<and> (1 :: nat) \<noteq> LP_HDR_NUMELE_UNKNOWN then 1 + 1 else 1) @
        [] @ lp_entry [1] @ [0x80, 0x81, 0xFF] @ S', if False then Ptr 6 else NULL)"
    by (rule lpInsert_apply_store [OF split]) simp_all
  then obtain S where
    "lpInsert_apply ?lp 6 LP_BEFORE False (ENC_INT [1]) 1 (lpEncodeBacklen 1) 0 9 11 False =
      Some (le_bytes 4 11 @ le_bytes 2 2 @ lp_entry [1] @ [0x80, 0x81, 0xFF] @ S, NULL)"
    unfolding one_add_one by auto
  moreover have "le_bytes 4 11 @ le_bytes 2 2 @ lp_entry [1] @ [0x80, 0x81, 0xFF] @ S =
      [11, 0, 0, 0, 2, 0, 1, 1, 0x80, 0x81, 0xFF] @ S"
    by (simp add: le_bytes_unfold lp_entry_def lpEncodeBacklen_def)
  ultimately have "lpPrepend ?lp [0x31] = Some (Ptr ([11, 0, 0, 0, 2, 0, 1, 1, 0x80, 0x81, 0xFF] @ S))"
    using first enc hdr by (simp add: lpPrepend_def lpInsert_def lp_only_def)
  moreover have "lpLast ([11, 0, 0, 0, 2, 0, 1, 1, 0x80, 0x81, 0xFF] @ S) = None" (is "lpLast ?m = None")
  proof -
    have "lpGetTotalBytes ?m = Some 11" by (simp add: lpGetTotalBytes_eq)
    moreover have "lpDecodeBacklen ?m 9 = Some 16385"
      by (simp add: lpDecodeBacklen_def lpDecodeBacklen_loop.simps)
    ultimately show ?thesis by (simp add: lpLast_def lpPrev_def length_lpEncodeBacklen)
  qed
  ultimately show ?l by blast
qed


subsection \<open>Entries, navigation and insertion on any well-formed listpack\<close>

text \<open>
  C3: the entry written for a string decodes to that string wherever it stands in a block, its size
  is read back from its first bytes and, walking backwards, from its back length.
\<close>

theorem lp_entry_roundtrip:
  assumes "short s"
  shows "\<exists>v. lpGetValue (pre @ lp_entry (lp_encode s) @ rest) (length pre) = Some v \<and> value_string v = s \<and>
    lpSkip (pre @ lp_entry (lp_encode s) @ rest) (length pre) = Some (length (pre @ lp_entry (lp_encode s))) \<and>
    lpDecodeBacklen (pre @ lp_entry (lp_encode s) @ rest) (length (pre @ lp_entry (lp_encode s)) - 1) =
      Some (length (lp_encode s))"
proof -
  let ?e = "lp_encode s" and ?bl = "lpEncodeBacklen (length (lp_encode s))"
  note e = lp_encode_correct [OF assms]
  then have ok: "entry_ok ?e" by simp
  have lp: "pre @ lp_entry ?e @ rest = pre @ ?e @ (?bl @ rest)" by (simp add: lp_entry_def)
  have "lpCurrentEncodedSizeUnsafe ?e 0 = Some (length ?e)" using ok by (simp add: entry_ok_def)
  from lpCurrentEncodedSizeUnsafe_context [OF this, of pre "?bl @ rest"]
  have skip: "lpSkip (pre @ lp_entry ?e @ rest) (length pre) = Some (length (pre @ lp_entry ?e))"
    unfolding lp by (simp add: lpSkip_def lp_entry_def)
  have "length ?e < 2 ^ 35" using entry_ok_length [OF ok] by simp
  from lpDecodeBacklen_encode [OF this, of "pre @ ?e" rest]
  have dec: "lpDecodeBacklen (pre @ lp_entry ?e @ rest) (length (pre @ lp_entry ?e) - 1) = Some (length ?e)"
    unfolding lp by (simp add: lp_entry_def add.assoc)
  have get: "lpGet (pre @ ?e @ (?bl @ rest)) (length pre) NULL = Some (shift_ref (length pre) (entry_ref ?e))"
    by (simp only: lpGet_def lpGetWithSize_entry [OF ok] option.map fst_conv)
  have "\<exists>v. lpGetValue (pre @ ?e @ (?bl @ rest)) (length pre) = Some v \<and> value_string v = s"
  proof (cases "entry_ref ?e")
    case (LpStr off n)
    then have n: "off + n = length ?e" "n mod 4294967296 = n" using entry_ref_bounds [OF ok] entry_ok_length [OF ok] by simp_all
    have "rd_range (pre @ ?e @ (?bl @ rest)) (length pre + off) n = Some (take n (drop off ?e))"
      using n by (simp add: rd_range_def)
    then show ?thesis
      using get LpStr n(2) e entry_string_ref [OF ok] by (simp add: lpGetValue_def value_string_def)
  next
    case (LpInt v)
    then show ?thesis using get e entry_string_ref [OF ok] by (simp add: lpGetValue_def value_string_def)
  next
    case (LpBuf x y)
    then show ?thesis using entry_ref_bounds [OF ok] by simp
  qed
  with skip dec show ?thesis unfolding lp by blast
qed

theorem lp_entry_roundtrip_witness:
  "\<exists>v. lpGetValue ([1, 2] @ lp_entry (lp_encode [0x61]) @ [0xFF]) 2 = Some v \<and> value_string v = [0x61]"
  using lp_entry_roundtrip [of "[0x61]" "[1, 2]" "[0xFF]"] by (auto simp: numeral_2_eq_2)

text \<open>
  C4: on every well-formed listpack, the traversal functions walk the entries in order: a seek by
  a signed index lands on that entry or gives \<open>NULL\<close>, \<open>lpNext\<close> and \<open>lpPrev\<close> move one entry and
  give \<open>NULL\<close> past the ends, and \<open>lpLength\<close> is the number of entries.
\<close>

theorem listpack_navigation:
  assumes "lp_rep lp es" "i < length es"
  shows "lpSeek lp index =
      Some (case seek_index (length es) index of Some k \<Rightarrow> Ptr (lp_off es k) | None \<Rightarrow> NULL) \<and>
    lpFirst lp = Some (Ptr (lp_off es 0)) \<and>
    lpLast lp = Some (Ptr (lp_off es (length es - 1))) \<and>
    lpNext lp (lp_off es i) = Some (if Suc i < length es then Ptr (lp_off es (Suc i)) else NULL) \<and>
    lpPrev lp (lp_off es i) = Some (if i = 0 then NULL else Ptr (lp_off es (i - 1))) \<and>
    (\<exists>lp'. lpLength lp = Some (length es, lp') \<and> lp_rep lp' es)"
  using lpSeek_rep [OF assms(1)] lpFirst_rep [OF assms(1)] lpLast_rep [OF assms(1)] lpNext_rep [OF assms]
    lpPrev_rep [OF assms(1), of i] lpLength_rep [OF assms(1)] assms(2)
  by (auto simp: lp_ptr_def)

theorem listpack_navigation_witness:
  "lpSeek (lp_image [[1], [2], [3]] 65535 []) (- 1) = Some (Ptr 10) \<and>
   lpNext (lp_image [[1], [2], [3]] 65535 []) 8 = Some (Ptr 10) \<and>
   lpPrev (lp_image [[1], [2], [3]] 65535 []) 8 = Some (Ptr 6)"
proof -
  have "lp_rep (lp_image [[1], [2], [3]] 65535 []) [[1], [2], [3]]" by (rule lp_repI; simp add: lp_example_simps)
  from listpack_navigation [OF this, of 1 "- 1"] show ?thesis by (simp add: seek_index_def lp_off_def)
qed

text \<open>
  C2: \<open>lpInsert\<close> of a string before, after or in place of an entry, and its deletion, are the list
  operations on the entries; the new position comes back, and \<open>NULL\<close> is returned exactly when the
  result would exceed \<open>UINT32_MAX\<close> bytes.
\<close>

theorem lpInsert_correct:
  assumes "lp_rep lp es" "i < length es" "short s"
  shows "lp_yields (lpInsert lp (Ptr s) NULL (lp_off es i) LP_BEFORE True)
           (insert_at i (lp_encode s) es) (Ptr (lp_off es i)) \<and>
         lp_yields (lpInsert lp (Ptr s) NULL (lp_off es i) LP_AFTER True)
           (insert_at (Suc i) (lp_encode s) es) (Ptr (lp_off es (Suc i))) \<and>
         lp_yields (lpInsert lp (Ptr s) NULL (lp_off es i) LP_REPLACE True)
           (es[i := lp_encode s]) (Ptr (lp_off es i)) \<and>
         (\<exists>lp'. lpInsert lp NULL NULL (lp_off es i) LP_REPLACE True = Some (Ptr (lp', lp_ptr (remove_at i es) i)) \<and>
            lp_rep lp' (remove_at i es))"
  using lpInsert_before_rep [OF assms(1), of i "Ptr s" NULL True] lpInsert_after_rep [OF assms(1,2), of "Ptr s" NULL True]
    lpInsert_replace_rep [OF assms(1,2), of "Ptr s" NULL True] lpInsert_delete_rep [OF assms(1,2), of LP_REPLACE True]
    lp_encode_correct [OF assms(3)] assms(2)
  by simp

theorem lpInsert_correct_witness:
  "\<exists>lp. lpInsert (lp_image [[1], [2]] 2 []) (Ptr [0x61]) NULL 8 LP_BEFORE True = Some (Ptr (lp, Ptr 8)) \<and>
     lp_rep lp [[1], [0x81, 0x61], [2]]"
proof -
  have rep: "lp_rep (lp_image [[1], [2]] 2 []) [[1], [2]]" by (rule lp_repI; simp add: lp_example_simps)
  have enc: "lp_encode [0x61] = [0x81, 0x61]"
    by (simp add: lp_encode_def lpEncodeGetType_def lpStringToInt64_eq string2ll_def is_digit_def lpEncodeString_def)
  from lpInsert_correct [OF rep, of 1 "[0x61]"] show ?thesis
    by (simp add: enc lp_yields_def insert_at_def lp_off_def lp_total_def length_lpEncodeBacklen)
qed

end
