(* ===== verification/Glob.thy ===== *)
theory Glob
  imports Redis_Prelude
begin

text \<open>
  The glob matcher of \<open>util.c\<close>. The pattern is a block with a terminator after its \<open>patternLen\<close>
  bytes, read through offsets, and the string is what is left of it. The reference semantics
  parses the pattern into elements first; the matcher, with its bounded recursion and its pruning
  flag, is shown to agree with it.
\<close>


subsection \<open>Model\<close>

text \<open>Characters of the pattern language.\<close>

abbreviation (input) STAR :: byte where "STAR \<equiv> 42"
abbreviation (input) QMARK :: byte where "QMARK \<equiv> 63"
abbreviation (input) LBRACKET :: byte where "LBRACKET \<equiv> 91"
abbreviation (input) BACKSLASH :: byte where "BACKSLASH \<equiv> 92"
abbreviation (input) RBRACKET :: byte where "RBRACKET \<equiv> 93"
abbreviation (input) CARET :: byte where "CARET \<equiv> 94"
abbreviation (input) DASH :: byte where "DASH \<equiv> 45"

definition char_eq :: "bool \<Rightarrow> byte \<Rightarrow> byte \<Rightarrow> bool" where
  "char_eq nocase a b = (if \<not> nocase then a = b else tolower a = tolower b)"

text \<open>A range of a class; \<open>char\<close> is signed, and the ends are swapped before case folding.\<close>

definition range_match :: "bool \<Rightarrow> byte \<Rightarrow> byte \<Rightarrow> byte \<Rightarrow> bool" where
  "range_match nocase a b c =
     (let (start, end') = (if sint b < sint a then (b, a) else (a, b));
          (start, end', c) = (if nocase then (tolower start, tolower end', tolower c) else (start, end', c))
      in sint start \<le> sint c \<and> sint c \<le> sint end')"

text \<open>The \<open>while(1)\<close> loop over a class; \<open>c\<close> is \<open>string[0]\<close>. The result is the pattern pointer, its length and \<open>match\<close>.\<close>

function glob_class :: "buf \<Rightarrow> nat \<Rightarrow> int \<Rightarrow> byte \<Rightarrow> bool \<Rightarrow> bool \<Rightarrow> (nat \<times> int \<times> bool) option" where
  "glob_class P p n c nocase match =
     (case rd P p of
        None \<Rightarrow> None
      | Some x \<Rightarrow>
          if x = BACKSLASH \<and> 2 \<le> n then
            (case rd P (p + 1) of
               None \<Rightarrow> None
             | Some y \<Rightarrow> glob_class P (p + 2) (n - 2) c nocase (match \<or> y = c))
          else if x = RBRACKET then Some (p, n, match)
          else if n = 0 then (if p = 0 then None else Some (p - 1, n + 1, match))
          else if 3 \<le> n \<and> rd P (p + 1) = None then None
          else if 3 \<le> n \<and> rd P (p + 1) = Some DASH then
            (case rd P (p + 2) of
               None \<Rightarrow> None
             | Some y \<Rightarrow> glob_class P (p + 3) (n - 3) c nocase (match \<or> range_match nocase x y c))
          else glob_class P (p + 1) (n - 1) c nocase (match \<or> char_eq nocase x c))"
  by pat_completeness auto
termination
  by (relation "measure (\<lambda>(P, p, _). length P - p)") (auto simp: rd_def split: if_splits)

declare glob_class.simps [simp del]

text \<open>Collapsing repeated stars, and skipping stars once the string is exhausted.\<close>

function glob_collapse :: "buf \<Rightarrow> nat \<Rightarrow> int \<Rightarrow> (nat \<times> int) option" where
  "glob_collapse P p n =
     (if n = 0 then Some (p, n)
      else case rd P (p + 1) of
             None \<Rightarrow> None
           | Some x \<Rightarrow> if x = STAR then glob_collapse P (p + 1) (n - 1) else Some (p, n))"
  by pat_completeness auto
termination
  by (relation "measure (\<lambda>(P, p, _). length P - p)") (auto simp: rd_def split: if_splits)

function glob_tail :: "buf \<Rightarrow> nat \<Rightarrow> int \<Rightarrow> (nat \<times> int) option" where
  "glob_tail P p n =
     (case rd P p of
        None \<Rightarrow> None
      | Some x \<Rightarrow> if x = STAR then glob_tail P (p + 1) (n - 1) else Some (p, n))"
  by pat_completeness auto
termination
  by (relation "measure (\<lambda>(P, p, _). length P - p)") (auto simp: rd_def split: if_splits)

declare glob_collapse.simps [simp del]
declare glob_tail.simps [simp del]

text \<open>
  A matcher takes the pattern pointer and length, the string and \<open>*skipLongerMatches\<close>, and
  returns the result and the new \<open>*skipLongerMatches\<close>. The string is the rest of the string, so
  that \<open>stringLen\<close> is its length.
\<close>

type_synonym matcher = "nat \<Rightarrow> int \<Rightarrow> buf \<Rightarrow> bool \<Rightarrow> (bool \<times> bool) option"

text \<open>The inner loop of a star; \<open>impl\<close> is the recursive call with \<open>nesting + 1\<close>.\<close>

fun glob_star :: "matcher \<Rightarrow> nat \<Rightarrow> int \<Rightarrow> buf \<Rightarrow> bool \<Rightarrow> (bool \<times> bool) option" where
  "glob_star impl p n [] skip = Some (False, True)"
| "glob_star impl p n (c # s) skip = do {
     (r, skip) \<leftarrow> impl (p + 1) (n - 1) (c # s) skip;
     if r then Some (True, skip)
     else if skip then Some (False, skip)
     else glob_star impl p n s skip }"

text \<open>
  One character \<open>c\<close> of the string against one element of the pattern other than a star, \<open>x\<close> being
  \<open>pattern[0]\<close>: \<open>None\<close> for \<open>return 0\<close>, otherwise the pattern pointer and length before the common
  \<open>pattern++\<close>.
\<close>

definition glob_one :: "buf \<Rightarrow> bool \<Rightarrow> byte \<Rightarrow> nat \<Rightarrow> int \<Rightarrow> byte \<Rightarrow> (nat \<times> int) option option" where
  "glob_one P nocase x p n c =
     (if x = QMARK then Some (Some (p, n))
      else if x = LBRACKET then do {
        let p = p + 1;
        let n = n - 1;
        y \<leftarrow> rd P p;
        let neg = (y = CARET);
        let (p, n) = (if neg then (p + 1, n - 1) else (p, n));
        (p, n, match) \<leftarrow> glob_class P p n c nocase False;
        Some (if (if neg then \<not> match else match) then Some (p, n) else None) }
      else do {
        let (p, n) = (if x = BACKSLASH \<and> 2 \<le> n then (p + 1, n - 1) else (p, n));
        y \<leftarrow> rd P p;
        Some (if char_eq nocase y c then Some (p, n) else None) })"

text \<open>The outer loop.\<close>

fun glob_loop :: "matcher \<Rightarrow> buf \<Rightarrow> bool \<Rightarrow> matcher" where
  "glob_loop impl P nocase p n [] skip = Some (n = 0, skip)"
| "glob_loop impl P nocase p n (c # s) skip =
     (if n = 0 then Some (False, skip)
      else do {
        x \<leftarrow> rd P p;
        if x = STAR then do {
          (p, n) \<leftarrow> glob_collapse P p n;
          if n = 1 then Some (True, skip) else glob_star impl p n (c # s) skip }
        else do {
          r \<leftarrow> glob_one P nocase x p n c;
          case r of
            None \<Rightarrow> Some (False, skip)
          | Some (p, n) \<Rightarrow>
              if s = [] then do { (p, n) \<leftarrow> glob_tail P (p + 1) (n - 1); Some (n = 0, skip) }
              else glob_loop impl P nocase (p + 1) (n - 1) s skip
        } })"

text \<open>The first argument is \<open>1001 - nesting\<close>: at 0 the nesting exceeds 1000.\<close>

primrec stringmatchlen_impl :: "nat \<Rightarrow> buf \<Rightarrow> bool \<Rightarrow> matcher" where
  "stringmatchlen_impl 0 P nocase = (\<lambda>p n s skip. Some (False, skip))"
| "stringmatchlen_impl (Suc d) P nocase = glob_loop (stringmatchlen_impl d P nocase) P nocase"

text \<open>\<open>P\<close> is the block that holds the pattern, terminator included.\<close>

definition stringmatchlen :: "buf \<Rightarrow> int \<Rightarrow> buf \<Rightarrow> bool \<Rightarrow> bool option" where
  "stringmatchlen P patternLen string nocase =
     map_option fst (stringmatchlen_impl 1001 P nocase 0 patternLen string False)"

text \<open>On C strings: \<open>strlen\<close> is the index of the first 0.\<close>

definition stringmatch :: "buf \<Rightarrow> buf \<Rightarrow> bool \<Rightarrow> bool option" where
  "stringmatch P S nocase =
     (if 0 \<in> set P \<and> 0 \<in> set S
      then stringmatchlen P (int (length (takeWhile (\<lambda>c. c \<noteq> 0) P))) (takeWhile (\<lambda>c. c \<noteq> 0) S) nocase
      else None)"


subsection \<open>Reference semantics\<close>

text \<open>A pattern as a list of elements, and what each of them matches.\<close>

datatype gitem = GEsc byte | GRange byte byte | GChr byte
datatype gtok = GStar | GAny | GClass bool "gitem list" | GLit byte

function glob_items :: "buf \<Rightarrow> gitem list \<times> buf" where
  "glob_items [] = ([], [])"
| "glob_items (x # q) =
     (if x = BACKSLASH \<and> q \<noteq> [] then map_prod (Cons (GEsc (hd q))) id (glob_items (tl q))
      else if x = RBRACKET then ([], q)
      else if 2 \<le> length q \<and> hd q = DASH then map_prod (Cons (GRange x (q ! 1))) id (glob_items (drop 2 q))
      else map_prod (Cons (GChr x)) id (glob_items q))"
  by pat_completeness auto
termination by (relation "measure length") auto

lemma glob_items_length: "length (snd (glob_items q)) \<le> length q"
  by (induction q rule: glob_items.induct) auto

declare glob_items.simps(2) [simp del]

text \<open>The element that starts with \<open>x\<close>, not a star, and the rest of the pattern.\<close>

definition glob_elem :: "byte \<Rightarrow> buf \<Rightarrow> gtok \<times> buf" where
  "glob_elem x q =
     (if x = QMARK then (GAny, q)
      else if x = LBRACKET then
        (let neg = (q \<noteq> [] \<and> hd q = CARET) in apfst (GClass neg) (glob_items (if neg then tl q else q)))
      else if x = BACKSLASH \<and> q \<noteq> [] then (GLit (hd q), tl q)
      else (GLit x, q))"

lemma glob_elem_length: "length (snd (glob_elem x q)) \<le> length q"
  using glob_items_length [of q] glob_items_length [of "tl q"] by (auto simp: glob_elem_def Let_def)

lemma glob_elem_not_star: "fst (glob_elem x q) \<noteq> GStar"
  by (auto simp: glob_elem_def Let_def)

function glob_tokens :: "buf \<Rightarrow> gtok list" where
  "glob_tokens [] = []"
| "glob_tokens (x # q) =
     (if x = STAR then GStar # glob_tokens q
      else fst (glob_elem x q) # glob_tokens (snd (glob_elem x q)))"
  by pat_completeness auto
termination
  by (relation "measure length") (auto simp: glob_elem_length le_imp_less_Suc)

declare glob_tokens.simps(2) [simp del]

fun gitem_match :: "bool \<Rightarrow> byte \<Rightarrow> gitem \<Rightarrow> bool" where
  "gitem_match nocase c (GEsc y) \<longleftrightarrow> y = c"
| "gitem_match nocase c (GRange a b) \<longleftrightarrow> range_match nocase a b c"
| "gitem_match nocase c (GChr y) \<longleftrightarrow> char_eq nocase y c"

fun gtok_match :: "bool \<Rightarrow> gtok \<Rightarrow> byte \<Rightarrow> bool" where
  "gtok_match nocase GStar c \<longleftrightarrow> True"
| "gtok_match nocase GAny c \<longleftrightarrow> True"
| "gtok_match nocase (GClass neg items) c \<longleftrightarrow> neg \<noteq> list_ex (gitem_match nocase c) items"
| "gtok_match nocase (GLit y) c \<longleftrightarrow> char_eq nocase y c"

text \<open>A star stands for any number of characters, every other element for one.\<close>

fun glob_match :: "bool \<Rightarrow> gtok list \<Rightarrow> buf \<Rightarrow> bool" where
  "glob_match nocase [] s \<longleftrightarrow> s = []"
| "glob_match nocase (t # ts) s \<longleftrightarrow>
     (if t = GStar then \<exists>k\<le>length s. glob_match nocase ts (drop k s)
      else s \<noteq> [] \<and> gtok_match nocase t (hd s) \<and> glob_match nocase ts (tl s))"


subsection \<open>Correctness\<close>

declare glob_match.simps(2) [simp del]

lemma glob_match_tok:
  "t \<noteq> GStar \<Longrightarrow> glob_match nocase (t # ts) s \<longleftrightarrow> s \<noteq> [] \<and> gtok_match nocase t (hd s) \<and> glob_match nocase ts (tl s)"
  by (simp add: glob_match.simps(2))

lemma glob_match_star:
  "glob_match nocase (GStar # ts) s \<longleftrightarrow> (\<exists>k\<le>length s. glob_match nocase ts (drop k s))"
  by (simp add: glob_match.simps(2))

lemma glob_match_star_star: "glob_match nocase (GStar # GStar # ts) s \<longleftrightarrow> glob_match nocase (GStar # ts) s"
proof
  assume "glob_match nocase (GStar # GStar # ts) s"
  then obtain k j where "k \<le> length s" "j \<le> length (drop k s)" "glob_match nocase ts (drop j (drop k s))"
    by (auto simp: glob_match_star)
  then show "glob_match nocase (GStar # ts) s"
    by (auto simp: glob_match_star intro!: exI [of _ "j + k"])
next
  assume "glob_match nocase (GStar # ts) s"
  then show "glob_match nocase (GStar # GStar # ts) s"
    unfolding glob_match_star [of _ "GStar # ts"] by (intro exI [of _ 0]) simp
qed

abbreviation not_star :: "buf \<Rightarrow> buf" where
  "not_star q \<equiv> dropWhile (\<lambda>x. x = STAR) q"

lemma glob_match_stars:
  "glob_match nocase (GStar # glob_tokens q) s \<longleftrightarrow> glob_match nocase (GStar # glob_tokens (not_star q)) s"
  by (induction q) (simp_all add: glob_tokens.simps(2) glob_match_star_star)

lemma glob_tokens_not_star:
  assumes "x \<noteq> STAR"
  obtains t r where "glob_tokens (x # q) = t # glob_tokens r" "t \<noteq> GStar"
  using assms glob_elem_not_star [of x q] by (simp add: glob_tokens.simps(2))

lemma glob_match_Nil: "glob_match nocase (glob_tokens q) [] \<longleftrightarrow> not_star q = []"
proof (induction q)
  case (Cons x q)
  show ?case
  proof (cases "x = STAR")
    case True
    then show ?thesis using Cons by (simp add: glob_tokens.simps(2) glob_match_star)
  next
    case False
    obtain t r where "glob_tokens (x # q) = t # glob_tokens r" "t \<noteq> GStar" using False by (rule glob_tokens_not_star)
    then show ?thesis using False by (simp add: glob_match_tok)
  qed
qed simp

text \<open>Reading the pattern and its terminator.\<close>

lemma drop_Suc_tl: "drop p pat = x # q \<Longrightarrow> drop (Suc p) pat = q \<and> p < length pat"
  by (metis drop_Suc drop_all leI list.discI list.sel(3) tl_drop)

lemma rd_pat:
  "drop p pat = x # q \<Longrightarrow> rd (pat @ [0]) p = Some x"
  "p = length pat \<Longrightarrow> rd (pat @ [0]) p = Some 0"
  by (auto simp: rd_def nth_append dest: drop_Suc_tl) (metis drop_all hd_drop_conv_nth leI list.discI list.sel(1))

lemma rd_pat_hd: "p \<le> length pat \<Longrightarrow> rd (pat @ [0]) p = Some (case drop p pat of [] \<Rightarrow> 0 | x # q \<Rightarrow> x)"
  by (cases "drop p pat") (auto simp: rd_pat)

lemma glob_tail_correct:
  "drop p pat = q \<Longrightarrow> p \<le> length pat \<Longrightarrow>
   \<exists>p'. glob_tail (pat @ [0]) p (int (length q)) = Some (p', int (length (not_star q)))"
proof (induction q arbitrary: p)
  case Nil
  then show ?case by (subst glob_tail.simps) (simp add: rd_pat_hd)
next
  case (Cons x q)
  then have "drop (Suc p) pat = q" "Suc p \<le> length pat" using drop_Suc_tl [of p pat x q] by auto
  with Cons show ?case by (subst glob_tail.simps) (auto simp: rd_pat_hd)
qed

lemma glob_collapse_correct:
  "drop p pat = x # q \<Longrightarrow>
   \<exists>p'. glob_collapse (pat @ [0]) p (int (length (x # q))) = Some (p', int (length (not_star q)) + 1) \<and>
     drop (Suc p') pat = not_star q \<and> Suc p' \<le> length pat"
proof (induction q arbitrary: p x)
  case Nil
  then have "drop (Suc p) pat = []" "Suc p \<le> length pat" using drop_Suc_tl [of p pat x "[]"] by auto
  then show ?case by (subst glob_collapse.simps) (simp add: rd_pat_hd)
next
  case (Cons y q)
  then have d: "drop (Suc p) pat = y # q" "Suc p \<le> length pat" using drop_Suc_tl [of p pat x "y # q"] by auto
  show ?case
  proof (cases "y = STAR")
    case True
    then show ?thesis using Cons.IH [OF d(1)] d by (subst glob_collapse.simps) (simp add: rd_pat_hd add.commute)
  next
    case False
    then show ?thesis using d by (subst glob_collapse.simps) (simp add: rd_pat_hd)
  qed
qed

lemma glob_class_correct:
  "drop p pat = q \<Longrightarrow> 0 < p \<Longrightarrow> p \<le> length pat \<Longrightarrow>
   \<exists>p'. glob_class (pat @ [0]) p (int (length q)) c nocase m =
       Some (p', int (length (snd (glob_items q))) + 1, m \<or> list_ex (gitem_match nocase c) (fst (glob_items q))) \<and>
     drop (Suc p') pat = snd (glob_items q) \<and> Suc p' \<le> length pat"
proof (induction q arbitrary: p m rule: glob_items.induct)
  case 1
  then show ?case by (subst glob_class.simps) (simp add: rd_pat_hd)
next
  case (2 x q)
  have d1: "drop (Suc p) pat = q" "Suc p \<le> length pat" using drop_Suc_tl [OF "2.prems"(1)] by auto
  have r0: "rd (pat @ [0]) p = Some x" using "2.prems" by (simp add: rd_pat_hd)
  have r1: "rd (pat @ [0]) (p + 1) = Some (case q of [] \<Rightarrow> 0 | y # _ \<Rightarrow> y)" using rd_pat_hd [OF d1(2)] d1(1) by simp
  consider (esc) "x = BACKSLASH" "q \<noteq> []" | (close) "x = RBRACKET"
    | (range) "\<not> (x = BACKSLASH \<and> q \<noteq> [])" "x \<noteq> RBRACKET" "2 \<le> length q" "hd q = DASH"
    | (chr) "\<not> (x = BACKSLASH \<and> q \<noteq> [])" "x \<noteq> RBRACKET" "\<not> (2 \<le> length q \<and> hd q = DASH)" by blast
  then show ?case
  proof cases
    case esc
    then obtain y r where q: "q = y # r" by (cases q) auto
    have d2: "drop (p + 2) pat = r" "p + 2 \<le> length pat" using drop_Suc_tl [of "Suc p" pat y r] d1 q by auto
    have "int (length (x # q)) - 2 = int (length r)" using q by simp
    then show ?thesis
      using "2.IH"(1) [of "p + 2" "m \<or> y = c"] d2 esc r0 r1 q
      by (subst glob_class.simps) (simp add: glob_items.simps(2) disj_ac)
  next
    case close
    then show ?thesis using r0 d1 by (subst glob_class.simps) (simp add: glob_items.simps(2))
  next
    case range
    then obtain y z r where q: "q = y # z # r" "y = DASH" by (cases q; cases "tl q") auto
    have d2: "drop (p + 2) pat = z # r" "p + 2 \<le> length pat" using drop_Suc_tl [of "Suc p" pat y "z # r"] d1 q by auto
    have d3: "drop (p + 3) pat = r" "p + 3 \<le> length pat" using drop_Suc_tl [of "p + 2" pat z r] d2 by (auto simp: numeral_3_eq_3)
    have r2: "rd (pat @ [0]) (p + 2) = Some z" using rd_pat_hd [OF d2(2)] d2(1) by simp
    have "int (length (x # q)) - 3 = int (length r)" using q by simp
    then show ?thesis
      using "2.IH"(2) [of "p + 3" "m \<or> range_match nocase x z c"] d3 range r0 r1 r2 q
      by (subst glob_class.simps) (simp add: glob_items.simps(2) disj_ac)
  next
    case chr
    have len: "\<not> (3 \<le> int (length (x # q)) \<and> rd (pat @ [0]) (p + 1) = Some DASH)"
      "\<not> (3 \<le> int (length (x # q)) \<and> rd (pat @ [0]) (p + 1) = None)" "\<not> (x = BACKSLASH \<and> 2 \<le> int (length (x # q)))"
      using chr r1 by (cases q; auto)+
    have n: "int (length (x # q)) - 1 = int (length q)" "int (length (x # q)) \<noteq> 0" by simp_all
    have gc: "glob_class (pat @ [0]) p (int (length (x # q))) c nocase m =
        glob_class (pat @ [0]) (p + 1) (int (length q)) c nocase (m \<or> char_eq nocase x c)"
      by (subst glob_class.simps) (simp only: r0 option.case len n chr(2) if_False)
    have "glob_items (x # q) = map_prod (Cons (GChr x)) id (glob_items q)"
      by (subst glob_items.simps(2)) (simp only: chr if_False)
    then show ?thesis
      unfolding gc using "2.IH"(3) [OF chr, of "Suc p" "m \<or> char_eq nocase x c"] d1 by (simp add: disj_ac)
  qed
qed

lemma glob_one_correct:
  assumes "drop p pat = x # q" "x \<noteq> STAR"
  shows "\<exists>p'. glob_one (pat @ [0]) nocase x p (int (length (x # q))) c =
      Some (if gtok_match nocase (fst (glob_elem x q)) c then Some (p', int (length (snd (glob_elem x q))) + 1) else None) \<and>
    drop (Suc p') pat = snd (glob_elem x q) \<and> Suc p' \<le> length pat"
proof -
  have d1: "drop (Suc p) pat = q" "Suc p \<le> length pat" using drop_Suc_tl [OF assms(1)] by auto
  have r0: "rd (pat @ [0]) p = Some x" using assms(1) d1(2) by (simp add: rd_pat_hd)
  have r1: "rd (pat @ [0]) (Suc p) = Some (case q of [] \<Rightarrow> 0 | y # _ \<Rightarrow> y)" using rd_pat_hd [OF d1(2)] d1(1) by simp
  consider (any) "x = QMARK" | (cls) "x = LBRACKET" | (esc) "x = BACKSLASH" "q \<noteq> []"
    | (lit) "x \<noteq> QMARK" "x \<noteq> LBRACKET" "\<not> (x = BACKSLASH \<and> q \<noteq> [])" by blast
  then show ?thesis
  proof cases
    case any
    then show ?thesis using d1 by (simp add: glob_one_def glob_elem_def add.commute)
  next
    case cls
    define neg where "neg = (q \<noteq> [] \<and> hd q = CARET)"
    define q' p' where "q' = (if neg then tl q else q)" and "p' = (if neg then Suc (Suc p) else Suc p)"
    have y: "(case q of [] \<Rightarrow> 0 | y # _ \<Rightarrow> y) = CARET \<longleftrightarrow> neg" by (cases q) (simp_all add: neg_def)
    have d: "drop p' pat = q'" "0 < p'" "p' \<le> length pat"
    proof -
      have "drop (Suc p) pat = hd q # tl q" if neg using that d1(1) by (cases q) (simp_all add: neg_def)
      then show "drop p' pat = q'" "0 < p'" "p' \<le> length pat"
        using d1 drop_Suc_tl [of "Suc p" pat "hd q" "tl q"] by (auto simp: p'_def q'_def)
    qed
    have n: "(if neg then (Suc p + 1, int (length (x # q)) - 1 - 1) else (Suc p, int (length (x # q)) - 1)) = (p', int (length q'))"
      by (cases q) (auto simp: p'_def q'_def neg_def)
    have e: "fst (glob_elem x q) = GClass neg (fst (glob_items q'))" "snd (glob_elem x q) = snd (glob_items q')"
      using cls by (simp_all add: glob_elem_def Let_def neg_def q'_def)
    have "glob_one (pat @ [0]) nocase x p (int (length (x # q))) c =
        Option.bind (glob_class (pat @ [0]) p' (int (length q')) c nocase False)
          (\<lambda>(p, n, match). Some (if (if neg then \<not> match else match) then Some (p, n) else None))"
      using cls r1 y n by (cases neg) (simp_all add: glob_one_def Let_def)
    then show ?thesis using glob_class_correct [OF d, of c nocase False] e by auto
  next
    case esc
    then obtain y r where q: "q = y # r" by (cases q) auto
    have "drop (Suc (Suc p)) pat = r" "Suc (Suc p) \<le> length pat" using drop_Suc_tl [of "Suc p" pat y r] d1 q by auto
    then show ?thesis using esc q r1 by (auto simp: glob_one_def glob_elem_def intro!: exI [of _ "Suc p"])
  next
    case lit
    then have n: "\<not> (x = BACKSLASH \<and> 2 \<le> int (length (x # q)))" by (cases q) auto
    show ?thesis using lit n r0 d1 by (auto simp: glob_one_def glob_elem_def Let_def intro!: exI [of _ p])
  qed
qed

text \<open>
  What a matcher at depth \<open>d\<close> must return: it does not fault, and if there are fewer than \<open>d\<close> stars
  the answer is the reference answer, and \<open>*skipLongerMatches\<close> is set only when no later part of
  the string can match.
\<close>

definition stars :: "gtok list \<Rightarrow> nat" where
  "stars ts = length (filter (\<lambda>t. t = GStar) ts)"

definition good :: "nat \<Rightarrow> bool \<Rightarrow> gtok list \<Rightarrow> buf \<Rightarrow> (bool \<times> bool) option \<Rightarrow> bool" where
  "good d nocase ts s res \<longleftrightarrow>
     (\<exists>r k. res = Some (r, k) \<and>
        (stars ts < d \<longrightarrow> r = glob_match nocase ts s \<and> (k \<longrightarrow> (\<forall>j. \<not> glob_match nocase ts (drop j s)))))"

lemma goodI:
  "res = Some (r, k) \<Longrightarrow> (stars ts < d \<Longrightarrow> r = glob_match nocase ts s) \<Longrightarrow>
   (\<And>j. stars ts < d \<Longrightarrow> k \<Longrightarrow> \<not> glob_match nocase ts (drop j s)) \<Longrightarrow> good d nocase ts s res"
  by (auto simp: good_def)

lemma glob_match_star_Cons:
  "glob_match nocase (GStar # ts) (c # s) \<longleftrightarrow> glob_match nocase ts (c # s) \<or> glob_match nocase (GStar # ts) s"
proof
  assume "glob_match nocase (GStar # ts) (c # s)"
  then obtain k where k: "k \<le> length (c # s)" "glob_match nocase ts (drop k (c # s))" unfolding glob_match_star by blast
  then show "glob_match nocase ts (c # s) \<or> glob_match nocase (GStar # ts) s"
    by (cases k) (auto simp: glob_match_star)
next
  assume "glob_match nocase ts (c # s) \<or> glob_match nocase (GStar # ts) s"
  then show "glob_match nocase (GStar # ts) (c # s)"
  proof
    assume "glob_match nocase ts (c # s)"
    then show ?thesis unfolding glob_match_star by (intro exI [of _ 0]) simp
  next
    assume "glob_match nocase (GStar # ts) s"
    then obtain k where "k \<le> length s" "glob_match nocase ts (drop k s)" unfolding glob_match_star by blast
    then show ?thesis unfolding glob_match_star by (intro exI [of _ "Suc k"]) simp
  qed
qed

lemma no_star_match:
  assumes "\<And>j. \<not> glob_match nocase ts (drop j s)"
  shows "\<not> glob_match nocase (GStar # ts) (drop j s)"
  using assms by (auto simp: glob_match_star drop_drop)

lemma glob_star_good:
  assumes "\<And>s. s \<noteq> [] \<Longrightarrow> good d nocase ts s (impl (p + 1) (n - 1) s False)" "\<not> glob_match nocase ts []"
  shows "good (Suc d) nocase (GStar # ts) s (glob_star impl p n s False)"
proof (induction s)
  case Nil
  then show ?case using assms(2) by (auto simp: good_def glob_match_star)
next
  case (Cons c s)
  obtain r k where rk: "impl (p + 1) (n - 1) (c # s) False = Some (r, k)"
    "stars ts < d \<Longrightarrow> r = glob_match nocase ts (c # s)"
    "stars ts < d \<Longrightarrow> k \<Longrightarrow> \<not> glob_match nocase ts (drop j (c # s))" for j
    using assms(1) [of "c # s"] by (auto simp: good_def)
  have st: "stars (GStar # ts) < Suc d \<longleftrightarrow> stars ts < d" by (simp add: stars_def)
  show ?case
  proof (cases "r \<or> k")
    case True
    have "glob_star impl p n (c # s) False = Some (r, k)" using True rk(1) by auto
    moreover have "r = glob_match nocase (GStar # ts) (c # s) \<and> (k \<longrightarrow> (\<forall>j. \<not> glob_match nocase (GStar # ts) (drop j (c # s))))"
      if d: "stars ts < d"
    proof (cases k)
      case True
      have "\<not> glob_match nocase (GStar # ts) (drop j (c # s))" for j
        by (rule no_star_match) (rule rk(3) [OF d True])
      from this this [of 0] show ?thesis using rk(2) [OF d] by (auto simp: glob_match_star_Cons)
    next
      case False
      then show ?thesis using \<open>r \<or> k\<close> rk(2) [OF d] by (simp add: glob_match_star_Cons)
    qed
    ultimately show ?thesis unfolding good_def st by blast
  next
    case False
    then have eq: "glob_star impl p n (c # s) False = glob_star impl p n s False" using rk(1) by simp
    obtain r' k' where r': "glob_star impl p n s False = Some (r', k')"
      "stars ts < d \<Longrightarrow> r' = glob_match nocase (GStar # ts) s"
      "stars ts < d \<Longrightarrow> k' \<Longrightarrow> \<not> glob_match nocase (GStar # ts) (drop j s)" for j
      using Cons unfolding good_def st by auto
    have "\<not> glob_match nocase (GStar # ts) (drop j (c # s))" if "stars ts < d" "k'" for j
      using that False rk(2) r'(2) r'(3) [of 0] r'(3) [of "j - 1"] by (cases j) (auto simp: glob_match_star_Cons)
    then show ?thesis
      unfolding good_def st eq using r' rk(2) False by (auto simp: glob_match_star_Cons)
  qed
qed

lemma stars_tokens_not_star: "stars (glob_tokens (not_star q)) \<le> stars (glob_tokens q)"
  by (induction q) (simp_all add: glob_tokens.simps(2) stars_def)

lemma glob_loop_good:
  assumes impl: "\<And>p q s. drop p pat = q \<Longrightarrow> p \<le> length pat \<Longrightarrow> s \<noteq> [] \<Longrightarrow>
      good d nocase (glob_tokens q) s (impl p (int (length q)) s False)"
  shows "drop p pat = q \<Longrightarrow> p \<le> length pat \<Longrightarrow> s \<noteq> [] \<Longrightarrow>
    good (Suc d) nocase (glob_tokens q) s (glob_loop impl (pat @ [0]) nocase p (int (length q)) s False)"
proof (induction s arbitrary: p q)
  case (Cons c s)
  show ?case
  proof (cases q)
    case Nil
    then show ?thesis by (auto simp: good_def)
  next
    case (Cons x q')
    have q: "drop p pat = x # q'" using Cons.prems Cons by simp
    have rd: "rd (pat @ [0]) p = Some x" using q Cons.prems(2) by (simp add: rd_pat_hd)
    show ?thesis
    proof (cases "x = STAR")
      case True
      obtain p' where p': "glob_collapse (pat @ [0]) p (int (length (x # q'))) = Some (p', int (length (not_star q')) + 1)"
        "drop (Suc p') pat = not_star q'" "Suc p' \<le> length pat" using glob_collapse_correct [OF q] by blast
      have tok: "glob_tokens q = GStar # glob_tokens q'" using True Cons by (simp add: glob_tokens.simps(2))
      show ?thesis
      proof (cases "not_star q' = []")
        case True
        have "glob_loop impl (pat @ [0]) nocase p (int (length q)) (c # s) False = Some (True, False)"
          using \<open>x = STAR\<close> rd p'(1) True Cons by simp
        moreover have "glob_match nocase (GStar # glob_tokens q') (c # s)"
          by (subst glob_match_stars, unfold True glob_match_star, intro exI [of _ "length (c # s)"]) simp
        ultimately show ?thesis by (auto simp: good_def tok)
      next
        case False
        then have loop: "glob_loop impl (pat @ [0]) nocase p (int (length q)) (c # s) False =
            glob_star impl p' (int (length (not_star q')) + 1) (c # s) False"
          using \<open>x = STAR\<close> rd p'(1) Cons by auto
        have "good (Suc d) nocase (GStar # glob_tokens (not_star q')) (c # s)
            (glob_star impl p' (int (length (not_star q')) + 1) (c # s) False)"
        proof (rule glob_star_good)
          show "good d nocase (glob_tokens (not_star q')) s (impl (p' + 1) (int (length (not_star q')) + 1 - 1) s False)"
            if "s \<noteq> []" for s using impl [OF p'(2,3) that] by simp
          show "\<not> glob_match nocase (glob_tokens (not_star q')) []"
            using False by (simp add: glob_match_Nil dropWhile_idem)
        qed
        moreover have "glob_match nocase (GStar # glob_tokens q') = glob_match nocase (GStar # glob_tokens (not_star q'))"
          by (rule ext) (rule glob_match_stars)
        ultimately show ?thesis
          unfolding good_def tok loop using stars_tokens_not_star [of q'] by (auto simp: stars_def)
      qed
    next
      case False
      define t r where "t = fst (glob_elem x q')" and "r = snd (glob_elem x q')"
      have tok: "glob_tokens q = t # glob_tokens r" "t \<noteq> GStar"
        using False Cons glob_elem_not_star [of x q'] by (simp_all add: t_def r_def glob_tokens.simps(2))
      obtain p' where p': "glob_one (pat @ [0]) nocase x p (int (length (x # q'))) c =
          Some (if gtok_match nocase t c then Some (p', int (length r) + 1) else None)"
        "drop (Suc p') pat = r" "Suc p' \<le> length pat"
        using glob_one_correct [OF q False, of nocase c] unfolding t_def r_def by blast
      have m: "glob_match nocase (t # glob_tokens r) (c # s) \<longleftrightarrow> gtok_match nocase t c \<and> glob_match nocase (glob_tokens r) s"
        using tok(2) by (simp add: glob_match_tok)
      show ?thesis
      proof (cases "gtok_match nocase t c")
        case f: False
        have "glob_loop impl (pat @ [0]) nocase p (int (length q)) (c # s) False = Some (False, False)"
          using False f rd p'(1) Cons by simp
        then show ?thesis by (rule goodI) (simp_all add: tok(1) m f)
      next
        case True
        show ?thesis
        proof (cases "s = []")
          case s: True
          obtain p'' where "glob_tail (pat @ [0]) (Suc p') (int (length r)) = Some (p'', int (length (not_star r)))"
            using glob_tail_correct [OF p'(2,3)] by blast
          then have "glob_loop impl (pat @ [0]) nocase p (int (length q)) (c # s) False = Some (not_star r = [], False)"
            using False True s rd p'(1) Cons by simp
          moreover have "glob_match nocase (t # glob_tokens r) (c # s) \<longleftrightarrow> not_star r = []"
            using m True s by (simp only: glob_match_Nil simp_thms)
          ultimately show ?thesis by (intro goodI) (simp_all only: tok(1))
        next
          case s: False
          have loop: "glob_loop impl (pat @ [0]) nocase p (int (length q)) (c # s) False =
              glob_loop impl (pat @ [0]) nocase (Suc p') (int (length r)) s False"
            using False True s rd p'(1) Cons by simp
          have st: "stars (t # glob_tokens r) = stars (glob_tokens r)" using tok(2) by (simp add: stars_def)
          have "\<not> glob_match nocase (t # glob_tokens r) (drop j (c # s))" if "\<forall>j. \<not> glob_match nocase (glob_tokens r) (drop j s)" for j
          proof -
            have "tl (drop j (c # s)) = drop j s" by (simp add: tl_drop)
            then show ?thesis using that tok(2) by (simp add: glob_match_tok)
          qed
          then show ?thesis
            using Cons.IH [OF p'(2,3) s] True unfolding good_def loop tok(1) st m by blast
        qed
      qed
    qed
  qed
qed simp

lemma stringmatchlen_impl_good:
  "drop p pat = q \<Longrightarrow> p \<le> length pat \<Longrightarrow> s \<noteq> [] \<Longrightarrow>
   good d nocase (glob_tokens q) s (stringmatchlen_impl d (pat @ [0]) nocase p (int (length q)) s False)"
proof (induction d arbitrary: p q s)
  case 0
  then show ?case by (auto simp: good_def)
next
  case (Suc d)
  show ?case
    unfolding stringmatchlen_impl.simps
    by (rule glob_loop_good [where impl = "stringmatchlen_impl d (pat @ [0]) nocase" and d = d, OF Suc.IH Suc.prems])
qed

lemma stringmatchlen_cases:
  "\<exists>r. stringmatchlen (pat @ [0]) (int (length pat)) s nocase = Some r \<and>
     (stars (glob_tokens pat) \<le> 1000 \<longrightarrow> r = (if s = [] then pat = [] else glob_match nocase (glob_tokens pat) s))"
proof (cases "s = []")
  case True
  have "(1001 :: nat) = Suc 1000" by simp
  then have "stringmatchlen_impl 1001 (pat @ [0]) nocase 0 (int (length pat)) s False = Some (pat = [], False)"
    using True by (simp only: stringmatchlen_impl.simps) simp
  then show ?thesis using True by (simp add: stringmatchlen_def)
next
  case False
  from stringmatchlen_impl_good [of 0 pat pat s 1001 nocase] False show ?thesis
    by (auto simp: stringmatchlen_def good_def)
qed

text \<open>
  C22: on a pattern block that holds a terminator after its \<open>patternLen\<close> bytes, \<open>stringmatchlen\<close>
  never reads outside the block and always returns; when the pattern has at most 1000 stars the
  answer is that of the reference semantics, with the pruning by \<open>skipLongerMatches\<close> included,
  except that the empty string is matched by the empty pattern only.
\<close>

theorem stringmatchlen_correct:
  "\<exists>r. stringmatchlen (pat @ [0]) (int (length pat)) s nocase = Some r \<and>
     (stars (glob_tokens pat) \<le> 1000 \<longrightarrow> r = (if s = [] then pat = [] else glob_match nocase (glob_tokens pat) s))"
  by (rule stringmatchlen_cases)

theorem stringmatchlen_correct_witness:
  "stringmatchlen [104, 42, 108, 91, 97, 45, 111, 93, 0] 8 [104, 101, 108, 108, 111] False = Some True \<and>
   stringmatchlen [42, 0] 1 [] False = Some False"
proof -
  have 1: "glob_tokens [104, 42, 108, 91, 97, 45, 111, 93] = [GLit 104, GStar, GLit 108, GClass False [GRange 97 111]]"
    by (simp add: glob_tokens.simps(2) glob_elem_def glob_items.simps(2))
  have 2: "glob_match False [GLit 104, GStar, GLit 108, GClass False [GRange 97 111]] [104, 101, 108, 108, 111]"
    by (auto simp: glob_match_tok glob_match_star char_eq_def range_match_def intro!: exI [of _ 2])
  have 3: "glob_tokens [42] = [GStar]" by (simp add: glob_tokens.simps(2))
  show ?thesis
    using stringmatchlen_correct [of "[104, 42, 108, 91, 97, 45, 111, 93]" "[104, 101, 108, 108, 111]" False] 1 2
      stringmatchlen_correct [of "[42]" "[]" False] 3
    by (auto simp: stars_def)
qed

end
