(* ===== verification/Util_Str.thy ===== *)
theory Util_Str
  imports Util_Num
begin

text \<open>
  Further string functions of \<open>util.c\<close>: memory amounts with units, unsigned decimals, the
  hexadecimal parser used in signal handlers, searching for and mapping of character sets. The
  functions of the C library they call are modelled on the bytes of a C string without its
  terminator.
\<close>

subsection \<open>The C library functions used\<close>

definition isspace :: "byte \<Rightarrow> bool" where
  "isspace c \<longleftrightarrow> c = 32 \<or> 9 \<le> c \<and> c \<le> 13"

text \<open>
  \<open>strtoull\<close> in base 10 on the bytes of a C string: the value, the index \<open>endptr\<close> points to and
  whether \<open>errno\<close> is \<open>ERANGE\<close>. A minus sign negates modulo \<open>2 ^ 64\<close>.
\<close>

definition strtoull :: "buf \<Rightarrow> nat \<times> nat \<times> bool" where
  "strtoull s =
     (let r = dropWhile isspace s;
          neg = (r \<noteq> [] \<and> hd r = 45);
          r = (if r \<noteq> [] \<and> (hd r = 45 \<or> hd r = 43) then tl r else r);
          ds = takeWhile is_digit r;
          v = dec_val 0 ds
      in if ds = [] then (0, 0, False)
         else (if UINT64_MAX < v then UINT64_MAX else if neg then sub64 0 v else v,
               length s - length (dropWhile is_digit r), UINT64_MAX < v))"


subsection \<open>Model\<close>

text \<open>
  A memory amount. \<open>p\<close> is the string without its terminator; \<open>einval\<close> says whether the C library
  sets \<open>EINVAL\<close> when there is no digit to convert, which POSIX allows. The result is the value and
  \<open>*err\<close>.
\<close>

definition memtoull_unit :: "buf \<Rightarrow> nat option" where
  "memtoull_unit u =
     (let l = map tolower u in
      if l = [] \<or> l = [98] then Some 1
      else if l = [107] then Some 1000
      else if l = [107, 98] then Some 1024
      else if l = [109] then Some (1000 * 1000)
      else if l = [109, 98] then Some (1024 * 1024)
      else if l = [103] then Some (1000 * 1000 * 1000)
      else if l = [103, 98] then Some (1024 * 1024 * 1024)
      else None)"

definition memtoull :: "bool \<Rightarrow> buf \<Rightarrow> nat \<times> bool" where
  "memtoull einval p =
     (if p \<noteq> [] \<and> hd p = 45 then (0, True)
      else
        let u = dropWhile is_digit p in
        case memtoull_unit u of
          None \<Rightarrow> (0, True)
        | Some mul \<Rightarrow>
            let digits = length p - length u in
            if 128 \<le> digits then (0, True)
            else
              let b = take digits p; (val, endptr, erange) = strtoull b in
              if val = 0 \<and> digits = 0 \<and> einval \<or> endptr \<noteq> length b then (0, True)
              else (val * mul mod 18446744073709551616, False))"

text \<open>\<open>string2ull\<close> on the bytes of a C string; \<open>None\<close> is the return value 0.\<close>

definition string2ull :: "buf \<Rightarrow> nat option" where
  "string2ull s =
     (case string2ll s of
        Some ll \<Rightarrow> if ll < 0 then None else Some (nat ll)
      | None \<Rightarrow>
          let (val, endptr, erange) = strtoull s in
          if erange \<or> \<not> (s \<noteq> [] \<and> endptr = length s) then None else Some val)"

definition safe_is_c_in_range :: "byte \<Rightarrow> byte \<Rightarrow> byte \<Rightarrow> bool" where
  "safe_is_c_in_range c start end' \<longleftrightarrow> sint start \<le> sint c \<and> sint c \<le> sint end'"

definition base_16_char_type :: "byte \<Rightarrow> int" where
  "base_16_char_type c =
     (if safe_is_c_in_range c 48 57 then 0
      else if safe_is_c_in_range c 97 102 then 1
      else if safe_is_c_in_range c 65 70 then 2
      else - 1)"

text \<open>
  The hexadecimal parser: \<open>src[curr_char_idx]\<close> is read before the index is compared with \<open>slen\<close>.
  The outer \<open>None\<close> is a read outside the block, \<open>Inl ()\<close> the return value -1.
\<close>

function string2ul_base16_loop :: "buf \<Rightarrow> nat \<Rightarrow> nat \<Rightarrow> nat \<Rightarrow> (unit + nat) option" where
  "string2ul_base16_loop src slen idx result =
     (case rd src idx of
        None \<Rightarrow> None
      | Some c \<Rightarrow>
          if base_16_char_type c \<noteq> - 1 \<and> idx < slen then
            let curr_val = nat (sint c - [48, 87, 55] ! nat (base_16_char_type c)) in
            if UINT64_MAX div 16 < result \<or> (UINT64_MAX - curr_val) div 16 < result then Some (Inl ())
            else string2ul_base16_loop src slen (idx + 1) (result * 16 + curr_val)
          else Some (Inr result))"
  by pat_completeness auto
termination
  by (relation "measure (\<lambda>(src, _, idx, _). length src - idx)") (auto simp: rd_def split: if_splits)

declare string2ul_base16_loop.simps [simp del]

definition string2ul_base16_async_signal_safe :: "buf \<Rightarrow> nat \<Rightarrow> (unit + nat) option" where
  "string2ul_base16_async_signal_safe src slen = string2ul_base16_loop src slen 0 0"

text \<open>The first position in \<open>s\<close> of a byte of \<open>chars\<close>.\<close>

fun mempbrk :: "buf \<Rightarrow> buf \<Rightarrow> nat nullable" where
  "mempbrk [] chars = NULL"
| "mempbrk (c # s) chars =
     (if list_ex (\<lambda>x. c = x) chars then Ptr 0
      else case mempbrk s chars of NULL \<Rightarrow> NULL | Ptr j \<Rightarrow> Ptr (Suc j))"

text \<open>The inner loop over the two character sets, which have \<open>setlen\<close> bytes each.\<close>

fun memmapchar :: "byte \<Rightarrow> buf \<Rightarrow> buf \<Rightarrow> byte" where
  "memmapchar c (f # from') (t # to') = (if c = f then t else memmapchar c from' to')"
| "memmapchar c _ _ = c"

definition memmapchars :: "buf \<Rightarrow> buf \<Rightarrow> buf \<Rightarrow> buf" where
  "memmapchars s from' to' = map (\<lambda>c. memmapchar c from' to') s"


subsection \<open>Memory amounts\<close>

lemma takeWhile_dec [simp]: "takeWhile is_digit (dec n) = dec n" "dropWhile is_digit (dec n) = []"
  using dec_digits [of n] by (auto simp: list_all_iff takeWhile_eq_all_conv)

lemma hd_dec_digit: "is_digit (hd (dec n))"
  using dec_digits [of n] by (cases "dec n") auto

lemma digit_not_space: "is_digit c \<Longrightarrow> \<not> isspace c \<and> c \<noteq> 45 \<and> c \<noteq> 43"
  by (auto simp: is_digit_def isspace_def word_le_nat_alt)

lemma strtoull_dec:
  "strtoull (dec n) = (if UINT64_MAX < n then UINT64_MAX else n, length (dec n), UINT64_MAX < n)"
proof -
  obtain c cs where c: "dec n = c # cs" "is_digit c" using hd_dec_digit [of n] by (cases "dec n") auto
  then have "dropWhile isspace (dec n) = dec n" "hd (dec n) \<noteq> 45" "hd (dec n) \<noteq> 43"
    using digit_not_space by auto
  then show ?thesis by (simp add: strtoull_def)
qed

lemma memtoull_unit_not_digit: "memtoull_unit u = Some mul \<Longrightarrow> u = [] \<or> \<not> is_digit (hd u)"
proof -
  assume a: "memtoull_unit u = Some mul"
  show ?thesis
  proof (cases u)
    case (Cons c cs)
    then have "tolower c \<in> {98, 107, 109, 103}" using a by (auto simp: memtoull_unit_def Let_def split: if_splits)
    moreover have "tolower c = c" if "is_digit c" using that by (auto simp: tolower_def is_digit_def word_le_nat_alt)
    moreover have "\<not> is_digit c" if "c \<in> {98, 107, 109, 103}" using that by (auto simp: is_digit_def)
    ultimately show ?thesis using Cons by auto
  qed simp
qed

lemma memtoull_dec:
  assumes "memtoull_unit u = Some mul"
  shows "memtoull einval (dec n @ u) =
    (if 128 \<le> length (dec n) then (0, True) else ((if UINT64_MAX < n then UINT64_MAX else n) * mul mod 18446744073709551616, False))"
proof -
  have hd: "hd (dec n @ u) = hd (dec n)" "dec n @ u \<noteq> []" by simp_all
  have drop: "dropWhile is_digit (dec n @ u) = u"
    using memtoull_unit_not_digit [OF assms] dec_digits [of n] by (cases u) (auto simp: dropWhile_append list_all_iff)
  have "hd (dec n @ u) \<noteq> 45" using digit_not_space [OF hd_dec_digit] hd by simp
  then show ?thesis
    using length_dec_pos [of n] by (simp add: memtoull_def drop assms strtoull_dec del: dec_nonempty)
qed




subsection \<open>Unsigned decimals\<close>

lemma dec_int_eq_dec:
  assumes "dec n = dec_int v"
  shows "v = int n"
proof (cases "v < 0")
  case True
  then have "hd (dec n) = 45" using assms by (simp add: dec_int_def)
  then show ?thesis using digit_not_space [OF hd_dec_digit [of n]] by simp
next
  case False
  then have "dec_val 0 (dec n) = dec_val 0 (dec (nat v))" using assms by (simp add: dec_int_def)
  then show ?thesis using False by simp
qed




subsection \<open>Hexadecimals\<close>

text \<open>The value of hexadecimal digits.\<close>

definition hex_digit :: "byte \<Rightarrow> bool" where
  "hex_digit c \<longleftrightarrow> 48 \<le> unat c \<and> unat c \<le> 57 \<or> 97 \<le> unat c \<and> unat c \<le> 102 \<or> 65 \<le> unat c \<and> unat c \<le> 70"

definition hex_digit_val :: "byte \<Rightarrow> nat" where
  "hex_digit_val c = (if unat c \<le> 57 then unat c - 48 else if 97 \<le> unat c then unat c - 87 else unat c - 55)"

definition hex_val :: "nat \<Rightarrow> buf \<Rightarrow> nat" where
  "hex_val = foldl (\<lambda>a c. a * 16 + hex_digit_val c)"

lemma hex_val_simps [simp]: "hex_val a [] = a" "hex_val a (c # cs) = hex_val (a * 16 + hex_digit_val c) cs"
  by (simp_all add: hex_val_def)

lemma hex_val_mono: "a \<le> hex_val a cs"
proof (induction cs arbitrary: a)
  case (Cons c cs)
  have "a \<le> a * 16 + hex_digit_val c" by simp
  also have "\<dots> \<le> hex_val (a * 16 + hex_digit_val c) cs" by (rule Cons)
  finally show ?case by simp
qed simp

lemma safe_range_unat:
  assumes "unat a < 128" "unat b < 128"
  shows "safe_is_c_in_range c a b \<longleftrightarrow> unat a \<le> unat c \<and> unat c \<le> unat b"
proof (cases "unat c < 128")
  case True
  then show ?thesis using assms by (simp add: safe_is_c_in_range_def sint_byte del: of_nat_unat)
next
  case False
  then have "sint c < 0" using unat_byte_less [of c] by (simp add: sint_byte del: of_nat_unat unat_byte_less)
  moreover have "0 \<le> sint a" using assms(1) by (simp add: sint_byte)
  ultimately show ?thesis using False assms by (simp add: safe_is_c_in_range_def)
qed

lemma base_16_char_type_eq:
  "base_16_char_type c =
     (if 48 \<le> unat c \<and> unat c \<le> 57 then 0 else if 97 \<le> unat c \<and> unat c \<le> 102 then 1
      else if 65 \<le> unat c \<and> unat c \<le> 70 then 2 else - 1)"
  by (simp add: base_16_char_type_def safe_range_unat)

lemma base_16_hex:
  assumes "hex_digit c"
  shows "base_16_char_type c \<noteq> - 1" "nat (sint c - [48, 87, 55] ! nat (base_16_char_type c)) = hex_digit_val c" "hex_digit_val c < 16"
proof -
  from assms consider "48 \<le> unat c" "unat c \<le> 57" | "97 \<le> unat c" "unat c \<le> 102" | "65 \<le> unat c" "unat c \<le> 70"
    by (auto simp: hex_digit_def)
  then have "base_16_char_type c \<noteq> - 1 \<and> nat (sint c - [48, 87, 55] ! nat (base_16_char_type c)) = hex_digit_val c \<and> hex_digit_val c < 16"
    by cases (simp_all add: base_16_char_type_eq hex_digit_val_def sint_byte nat_diff_distrib del: of_nat_unat)
  then show "base_16_char_type c \<noteq> - 1" "nat (sint c - [48, 87, 55] ! nat (base_16_char_type c)) = hex_digit_val c" "hex_digit_val c < 16"
    by simp_all
qed

lemma base_16_other: "\<not> hex_digit c \<Longrightarrow> base_16_char_type c = - 1"
  unfolding hex_digit_def base_16_char_type_eq by auto

lemma hex_overflow:
  "v < 16 \<Longrightarrow> UINT64_MAX div 16 < r \<or> (UINT64_MAX - v) div 16 < r \<longleftrightarrow> UINT64_MAX < r * 16 + v"
  by (auto simp: div_less_iff_less_mult)

lemma string2ul_base16_loop_correct:
  "list_all hex_digit ds \<Longrightarrow> r \<le> UINT64_MAX \<Longrightarrow> length pre + length ds \<le> slen \<Longrightarrow>
   (length pre + length ds = slen \<and> tl' \<noteq> []) \<or> (tl' \<noteq> [] \<and> \<not> hex_digit (hd tl')) \<or> tl' = [] \<Longrightarrow>
   string2ul_base16_loop (pre @ ds @ tl') slen (length pre) r =
     (if UINT64_MAX < hex_val r ds then Some (Inl ()) else if tl' = [] then None else Some (Inr (hex_val r ds)))"
proof (induction ds arbitrary: pre r)
  case Nil
  then show ?case
  proof (cases tl')
    case Nil
    then show ?thesis using \<open>r \<le> UINT64_MAX\<close> by (subst string2ul_base16_loop.simps) (simp add: rd_def)
  next
    case (Cons c cs)
    then have "base_16_char_type c = - 1 \<or> \<not> length pre < slen" using Nil.prems(3,4) base_16_other by auto
    then show ?thesis using Cons Nil.prems(2) rd_append_at [of pre c cs]
      by (subst string2ul_base16_loop.simps) auto
  qed
next
  case (Cons c ds)
  note hex = base_16_hex [of c]
  have c: "hex_digit c" using Cons.prems(1) by simp
  have rd: "rd (pre @ c # ds @ tl') (length pre) = Some c" using rd_append_at [of pre c "ds @ tl'"] by simp
  let ?r = "r * 16 + hex_digit_val c"
  have step: "string2ul_base16_loop (pre @ (c # ds) @ tl') slen (length pre) r =
      (if UINT64_MAX < ?r then Some (Inl ()) else string2ul_base16_loop ((pre @ [c]) @ ds @ tl') slen (length (pre @ [c])) ?r)"
    using hex(1,2) [OF c] hex_overflow [OF hex(3) [OF c], of r] Cons.prems(3)
    by (subst string2ul_base16_loop.simps) (simp add: rd Let_def)
  show ?case
  proof (cases "UINT64_MAX < ?r")
    case True
    then have "UINT64_MAX < hex_val r (c # ds)" using hex_val_mono [of ?r ds] by simp
    then show ?thesis using step True by simp
  next
    case False
    have "string2ul_base16_loop ((pre @ [c]) @ ds @ tl') slen (length (pre @ [c])) ?r =
        (if UINT64_MAX < hex_val ?r ds then Some (Inl ()) else if tl' = [] then None else Some (Inr (hex_val ?r ds)))"
      by (rule Cons.IH) (use Cons.prems False in auto)
    then show ?thesis using step False by simp
  qed
qed

text \<open>
  C27: the hexadecimal parser returns the value of the leading digits when it fits 64 bits and -1 when
  it does not, provided a byte follows the digits; on a block that ends with the \<open>slen\<close> digits it
  reads one byte past them.
\<close>

theorem string2ul_base16_correct:
  assumes "list_all hex_digit ds"
  shows "string2ul_base16_async_signal_safe (ds @ c # rest) (length ds) =
      Some (if hex_val 0 ds \<le> UINT64_MAX then Inr (hex_val 0 ds) else Inl ()) \<and>
    (hex_val 0 ds \<le> UINT64_MAX \<longrightarrow> string2ul_base16_async_signal_safe ds (length ds) = None)"
  using string2ul_base16_loop_correct [OF assms, of 0 "[]" "length ds" "c # rest"]
    string2ul_base16_loop_correct [OF assms, of 0 "[]" "length ds" "[]"]
  by (auto simp: string2ul_base16_async_signal_safe_def)

theorem string2ul_base16_correct_witness:
  "string2ul_base16_async_signal_safe ([102, 70] @ 0 # []) (length [102 :: byte, 70]) = Some (Inr 255) \<and>
   string2ul_base16_async_signal_safe [102, 70] (length [102 :: byte, 70]) = None"
  using string2ul_base16_correct [of "[102, 70]" 0 "[]"] by (simp add: hex_digit_def hex_digit_val_def)


subsection \<open>Character sets\<close>

lemma mempbrk_find:
  "mempbrk s chars =
     (case List.find (\<lambda>j. s ! j \<in> set chars) [0..<length s] of None \<Rightarrow> NULL | Some j \<Rightarrow> Ptr j)"
proof (induction s)
  case (Cons c s)
  have "[0..<length (c # s)] = 0 # map Suc [0..<length s]" by (simp add: map_Suc_upt upt_conv_Cons del: upt_Suc)
  moreover have "List.find (\<lambda>j. (c # s) ! j \<in> set chars) (map Suc xs) = map_option Suc (List.find (\<lambda>j. s ! j \<in> set chars) xs)" for xs
    by (induction xs) auto
  ultimately show ?case using Cons by (auto simp: list_ex_iff split: option.split)
qed simp

lemma memmapchar_map_of:
  "length from' = length to' \<Longrightarrow> memmapchar c from' to' = (case map_of (zip from' to') c of None \<Rightarrow> c | Some t \<Rightarrow> t)"
  by (induction from' to' rule: list_induct2) auto

end
