(* ===== verification/Adlist.thy ===== *)
theory Adlist
  imports Seq_Interface "HOL-Library.Multiset"
begin

text \<open>
  The generic doubly linked list of \<open>adlist.c\<close>. Nodes live in a heap, a map from addresses to
  nodes; the list structure itself is a record that the operations return updated. An operation
  that allocates takes the result of \<open>zmalloc\<close> as an argument, so that running out of memory and
  every choice of a fresh address are covered. Calls of the \<open>free\<close> method are recorded in the
  heap as the sequence of freed values.
\<close>

type_synonym addr = nat

record 'v listNode =
  ln_prev :: "addr nullable"
  ln_next :: "addr nullable"
  ln_value :: 'v

record 'v al_heap =
  hp_nodes :: "addr \<rightharpoonup> 'v listNode"
  hp_freed :: "'v list"

datatype al_direction = AL_START_HEAD | AL_START_TAIL

record listIter =
  li_next :: "addr nullable"
  li_direction :: al_direction

text \<open>The \<open>free\<close> method only has an effect, so the field says whether one is set.\<close>

record 'v al_list =
  al_head :: "addr nullable"
  al_tail :: "addr nullable"
  al_dup :: "('v \<Rightarrow> 'v nullable) nullable"
  al_free :: bool
  al_match :: "('v \<Rightarrow> 'v \<Rightarrow> bool) nullable"
  al_len :: nat


subsection \<open>Access to nodes\<close>

fun ld :: "'v al_heap \<Rightarrow> addr nullable \<Rightarrow> 'v listNode option" where
  "ld h NULL = None"
| "ld h (Ptr a) = hp_nodes h a"

text \<open>Assignments to the fields of the node at an address.\<close>

definition upd_node :: "'v al_heap \<Rightarrow> addr nullable \<Rightarrow> ('v listNode \<Rightarrow> 'v listNode) \<Rightarrow> 'v al_heap option" where
  "upd_node h p f = (case p of
      NULL \<Rightarrow> None
    | Ptr a \<Rightarrow> (case hp_nodes h a of
          None \<Rightarrow> None
        | Some n \<Rightarrow> Some (h\<lparr>hp_nodes := (hp_nodes h)(a \<mapsto> f n)\<rparr>)))"

definition set_prev :: "'v al_heap \<Rightarrow> addr nullable \<Rightarrow> addr nullable \<Rightarrow> 'v al_heap option" where
  "set_prev h p q = upd_node h p (\<lambda>n. n\<lparr>ln_prev := q\<rparr>)"

definition set_next :: "'v al_heap \<Rightarrow> addr nullable \<Rightarrow> addr nullable \<Rightarrow> 'v al_heap option" where
  "set_next h p q = upd_node h p (\<lambda>n. n\<lparr>ln_next := q\<rparr>)"

text \<open>A new node at a fresh address; its links are set by the caller.\<close>

definition new_node :: "'v al_heap \<Rightarrow> addr \<Rightarrow> 'v \<Rightarrow> 'v al_heap option" where
  "new_node h a v =
     (if hp_nodes h a = None then Some (h\<lparr>hp_nodes := (hp_nodes h)(a \<mapsto> \<lparr>ln_prev = NULL, ln_next = NULL, ln_value = v\<rparr>)\<rparr>)
      else None)"

definition zfree_node :: "'v al_heap \<Rightarrow> addr \<Rightarrow> 'v al_heap option" where
  "zfree_node h a = (if hp_nodes h a = None then None else Some (h\<lparr>hp_nodes := (hp_nodes h)(a := None)\<rparr>))"

definition free_value :: "'v al_list \<Rightarrow> 'v al_heap \<Rightarrow> 'v \<Rightarrow> 'v al_heap" where
  "free_value l h v = (if al_free l then h\<lparr>hp_freed := hp_freed h @ [v]\<rparr> else h)"


subsection \<open>Operations\<close>

definition listCreate :: "'v al_list" where
  "listCreate = \<lparr>al_head = NULL, al_tail = NULL, al_dup = NULL, al_free = False, al_match = NULL, al_len = 0\<rparr>"

definition listLength :: "'v al_list \<Rightarrow> nat" where
  "listLength l = al_len l"

text \<open>The loop \<open>while(len--)\<close>.\<close>

fun listEmpty_loop :: "'v al_list \<Rightarrow> 'v al_heap \<Rightarrow> addr nullable \<Rightarrow> nat \<Rightarrow> 'v al_heap option" where
  "listEmpty_loop l h current 0 = Some h"
| "listEmpty_loop l h current (Suc len) = do {
     nd \<leftarrow> ld h current;
     let h = free_value l h (ln_value nd);
     h \<leftarrow> (case current of NULL \<Rightarrow> None | Ptr a \<Rightarrow> zfree_node h a);
     listEmpty_loop l h (ln_next nd) len }"

definition listEmpty :: "'v al_heap \<Rightarrow> 'v al_list \<Rightarrow> ('v al_heap \<times> 'v al_list) option" where
  "listEmpty h l = do {
     h \<leftarrow> listEmpty_loop l h (al_head l) (al_len l);
     Some (h, l\<lparr>al_head := NULL, al_tail := NULL, al_len := 0\<rparr>) }"

text \<open>Releasing also frees the list structure, of which nothing is left.\<close>

definition listRelease :: "'v al_heap \<Rightarrow> 'v al_list nullable \<Rightarrow> 'v al_heap option" where
  "listRelease h list = (case list of NULL \<Rightarrow> Some h | Ptr l \<Rightarrow> map_option fst (listEmpty h l))"

definition listLinkNodeHead :: "'v al_heap \<Rightarrow> 'v al_list \<Rightarrow> addr \<Rightarrow> ('v al_heap \<times> 'v al_list) option" where
  "listLinkNodeHead h l node =
     (if al_len l = 0 then do {
        let l = l\<lparr>al_tail := Ptr node, al_head := Ptr node\<rparr>;
        h \<leftarrow> set_next h (Ptr node) NULL;
        h \<leftarrow> set_prev h (Ptr node) NULL;
        Some (h, l\<lparr>al_len := (al_len l + 1) mod 18446744073709551616\<rparr>) }
      else do {
        h \<leftarrow> set_prev h (Ptr node) NULL;
        h \<leftarrow> set_next h (Ptr node) (al_head l);
        h \<leftarrow> set_prev h (al_head l) (Ptr node);
        let l = l\<lparr>al_head := Ptr node\<rparr>;
        Some (h, l\<lparr>al_len := (al_len l + 1) mod 18446744073709551616\<rparr>) })"

definition listAddNodeHead :: "addr nullable \<Rightarrow> 'v al_heap \<Rightarrow> 'v al_list \<Rightarrow> 'v \<Rightarrow> ('v al_heap \<times> 'v al_list) nullable option" where
  "listAddNodeHead alloc h l value = (case alloc of
      NULL \<Rightarrow> Some NULL
    | Ptr node \<Rightarrow> do {
        h \<leftarrow> new_node h node value;
        r \<leftarrow> listLinkNodeHead h l node;
        Some (Ptr r) })"

definition listLinkNodeTail :: "'v al_heap \<Rightarrow> 'v al_list \<Rightarrow> addr \<Rightarrow> ('v al_heap \<times> 'v al_list) option" where
  "listLinkNodeTail h l node =
     (if al_len l = 0 then do {
        let l = l\<lparr>al_tail := Ptr node, al_head := Ptr node\<rparr>;
        h \<leftarrow> set_next h (Ptr node) NULL;
        h \<leftarrow> set_prev h (Ptr node) NULL;
        Some (h, l\<lparr>al_len := (al_len l + 1) mod 18446744073709551616\<rparr>) }
      else do {
        h \<leftarrow> set_prev h (Ptr node) (al_tail l);
        h \<leftarrow> set_next h (Ptr node) NULL;
        h \<leftarrow> set_next h (al_tail l) (Ptr node);
        let l = l\<lparr>al_tail := Ptr node\<rparr>;
        Some (h, l\<lparr>al_len := (al_len l + 1) mod 18446744073709551616\<rparr>) })"

definition listAddNodeTail :: "addr nullable \<Rightarrow> 'v al_heap \<Rightarrow> 'v al_list \<Rightarrow> 'v \<Rightarrow> ('v al_heap \<times> 'v al_list) nullable option" where
  "listAddNodeTail alloc h l value = (case alloc of
      NULL \<Rightarrow> Some NULL
    | Ptr node \<Rightarrow> do {
        h \<leftarrow> new_node h node value;
        r \<leftarrow> listLinkNodeTail h l node;
        Some (Ptr r) })"

definition listInsertNode ::
  "addr nullable \<Rightarrow> 'v al_heap \<Rightarrow> 'v al_list \<Rightarrow> addr \<Rightarrow> 'v \<Rightarrow> bool \<Rightarrow> ('v al_heap \<times> 'v al_list) nullable option" where
  "listInsertNode alloc h l old_node value after = (case alloc of
      NULL \<Rightarrow> Some NULL
    | Ptr node \<Rightarrow> do {
        h \<leftarrow> new_node h node value;
        (h, l) \<leftarrow>
          (if after then do {
             h \<leftarrow> set_prev h (Ptr node) (Ptr old_node);
             old \<leftarrow> ld h (Ptr old_node);
             h \<leftarrow> set_next h (Ptr node) (ln_next old);
             Some (h, if al_tail l = Ptr old_node then l\<lparr>al_tail := Ptr node\<rparr> else l) }
           else do {
             h \<leftarrow> set_next h (Ptr node) (Ptr old_node);
             old \<leftarrow> ld h (Ptr old_node);
             h \<leftarrow> set_prev h (Ptr node) (ln_prev old);
             Some (h, if al_head l = Ptr old_node then l\<lparr>al_head := Ptr node\<rparr> else l) });
        n \<leftarrow> ld h (Ptr node);
        h \<leftarrow> (if ln_prev n \<noteq> NULL then set_next h (ln_prev n) (Ptr node) else Some h);
        n \<leftarrow> ld h (Ptr node);
        h \<leftarrow> (if ln_next n \<noteq> NULL then set_prev h (ln_next n) (Ptr node) else Some h);
        Some (Ptr (h, l\<lparr>al_len := (al_len l + 1) mod 18446744073709551616\<rparr>)) })"

definition listUnlinkNode :: "'v al_heap \<Rightarrow> 'v al_list \<Rightarrow> addr \<Rightarrow> ('v al_heap \<times> 'v al_list) option" where
  "listUnlinkNode h l node = do {
     n \<leftarrow> ld h (Ptr node);
     (h, l) \<leftarrow>
       (if ln_prev n \<noteq> NULL then do { h \<leftarrow> set_next h (ln_prev n) (ln_next n); Some (h, l) }
        else Some (h, l\<lparr>al_head := ln_next n\<rparr>));
     n \<leftarrow> ld h (Ptr node);
     (h, l) \<leftarrow>
       (if ln_next n \<noteq> NULL then do { h \<leftarrow> set_prev h (ln_next n) (ln_prev n); Some (h, l) }
        else Some (h, l\<lparr>al_tail := ln_prev n\<rparr>));
     h \<leftarrow> set_next h (Ptr node) NULL;
     h \<leftarrow> set_prev h (Ptr node) NULL;
     Some (h, l\<lparr>al_len := sub64 (al_len l) 1\<rparr>) }"

definition listDelNode :: "'v al_heap \<Rightarrow> 'v al_list \<Rightarrow> addr \<Rightarrow> ('v al_heap \<times> 'v al_list) option" where
  "listDelNode h l node = do {
     (h, l) \<leftarrow> listUnlinkNode h l node;
     n \<leftarrow> ld h (Ptr node);
     let h = free_value l h (ln_value n);
     h \<leftarrow> zfree_node h node;
     Some (h, l) }"

definition listGetIterator :: "'v al_list \<Rightarrow> al_direction \<Rightarrow> listIter" where
  "listGetIterator l direction =
     \<lparr>li_next = (if direction = AL_START_HEAD then al_head l else al_tail l), li_direction = direction\<rparr>"

definition listRewind :: "'v al_list \<Rightarrow> listIter" where
  "listRewind l = \<lparr>li_next = al_head l, li_direction = AL_START_HEAD\<rparr>"

definition listRewindTail :: "'v al_list \<Rightarrow> listIter" where
  "listRewindTail l = \<lparr>li_next = al_tail l, li_direction = AL_START_TAIL\<rparr>"

text \<open>The result is \<open>current\<close> and the iterator.\<close>

definition listNext :: "'v al_heap \<Rightarrow> listIter \<Rightarrow> (addr nullable \<times> listIter) option" where
  "listNext h iter = (case li_next iter of
      NULL \<Rightarrow> Some (NULL, iter)
    | Ptr a \<Rightarrow> do {
        n \<leftarrow> ld h (Ptr a);
        Some (Ptr a, iter\<lparr>li_next := (if li_direction iter = AL_START_HEAD then ln_next n else ln_prev n)\<rparr>) })"

text \<open>
  The loop of \<open>listDup\<close>; the first argument holds the results of \<open>zmalloc\<close>, one per node. A loop
  that does not end has no result.
\<close>

partial_function (option) listDup_loop ::
  "addr nullable list \<Rightarrow> 'v al_heap \<Rightarrow> listIter \<Rightarrow> 'v al_list \<Rightarrow> ('v al_heap \<times> 'v al_list nullable) option" where
  "listDup_loop allocs h iter copy = do {
     (node, iter) \<leftarrow> listNext h iter;
     if node = NULL then Some (h, Ptr copy)
     else do {
       n \<leftarrow> ld h node;
       case (case al_dup copy of Ptr dup \<Rightarrow> dup (ln_value n) | NULL \<Rightarrow> Ptr (ln_value n)) of
         NULL \<Rightarrow> do { h \<leftarrow> listRelease h (Ptr copy); Some (h, NULL) }
       | Ptr value \<Rightarrow>
           (case allocs of
              [] \<Rightarrow> None
            | alloc # allocs \<Rightarrow> do {
                r \<leftarrow> listAddNodeTail alloc h copy value;
                case r of
                  NULL \<Rightarrow> do { h \<leftarrow> listRelease (free_value copy h value) (Ptr copy); Some (h, NULL) }
                | Ptr (h, copy) \<Rightarrow> listDup_loop allocs h iter copy }) } }"

definition listDup :: "bool \<Rightarrow> addr nullable list \<Rightarrow> 'v al_heap \<Rightarrow> 'v al_list \<Rightarrow> ('v al_heap \<times> 'v al_list nullable) option" where
  "listDup created allocs h orig =
     (if \<not> created then Some (h, NULL)
      else listDup_loop allocs h (listRewind orig)
             (listCreate\<lparr>al_dup := al_dup orig, al_free := al_free orig, al_match := al_match orig\<rparr>))"

partial_function (option) listSearchKey_loop :: "'v al_heap \<Rightarrow> 'v al_list \<Rightarrow> 'v \<Rightarrow> listIter \<Rightarrow> addr nullable option" where
  "listSearchKey_loop h l key iter = do {
     (node, iter) \<leftarrow> listNext h iter;
     if node = NULL then Some NULL
     else do {
       n \<leftarrow> ld h node;
       if (case al_match l of Ptr match \<Rightarrow> match (ln_value n) key | NULL \<Rightarrow> key = ln_value n) then Some node
       else listSearchKey_loop h l key iter } }"

definition listSearchKey :: "'v al_heap \<Rightarrow> 'v al_list \<Rightarrow> 'v \<Rightarrow> addr nullable option" where
  "listSearchKey h l key = listSearchKey_loop h l key (listRewind l)"

text \<open>\<open>while(index-- && n)\<close> along one of the links.\<close>

fun listIndex_loop :: "'v al_heap \<Rightarrow> ('v listNode \<Rightarrow> addr nullable) \<Rightarrow> nat \<Rightarrow> addr nullable \<Rightarrow> addr nullable option" where
  "listIndex_loop h link 0 n = Some n"
| "listIndex_loop h link (Suc index) n =
     (if n = NULL then Some NULL else do { nd \<leftarrow> ld h n; listIndex_loop h link index (link nd) })"

text \<open>For the least \<open>long\<close> the negation overflows, which is undefined.\<close>

definition listIndex :: "'v al_heap \<Rightarrow> 'v al_list \<Rightarrow> int \<Rightarrow> addr nullable option" where
  "listIndex h l index =
     (if index < 0 then
        if index = - 9223372036854775808 then None
        else listIndex_loop h ln_prev (nat (- index - 1)) (al_tail l)
      else listIndex_loop h ln_next (nat index) (al_head l))"

definition listRotateTailToHead :: "'v al_heap \<Rightarrow> 'v al_list \<Rightarrow> ('v al_heap \<times> 'v al_list) option" where
  "listRotateTailToHead h l =
     (if listLength l \<le> 1 then Some (h, l)
      else do {
        let tail = al_tail l;
        t \<leftarrow> ld h tail;
        let l = l\<lparr>al_tail := ln_prev t\<rparr>;
        h \<leftarrow> set_next h (al_tail l) NULL;
        h \<leftarrow> set_prev h (al_head l) tail;
        h \<leftarrow> set_prev h tail NULL;
        h \<leftarrow> set_next h tail (al_head l);
        Some (h, l\<lparr>al_head := tail\<rparr>) })"

definition listRotateHeadToTail :: "'v al_heap \<Rightarrow> 'v al_list \<Rightarrow> ('v al_heap \<times> 'v al_list) option" where
  "listRotateHeadToTail h l =
     (if listLength l \<le> 1 then Some (h, l)
      else do {
        let head = al_head l;
        n \<leftarrow> ld h head;
        let l = l\<lparr>al_head := ln_next n\<rparr>;
        h \<leftarrow> set_prev h (al_head l) NULL;
        h \<leftarrow> set_next h (al_tail l) head;
        h \<leftarrow> set_next h head NULL;
        h \<leftarrow> set_prev h head (al_tail l);
        Some (h, l\<lparr>al_tail := head\<rparr>) })"

text \<open>The result is the heap and the two lists.\<close>

definition listJoin :: "'v al_heap \<Rightarrow> 'v al_list \<Rightarrow> 'v al_list \<Rightarrow> ('v al_heap \<times> 'v al_list \<times> 'v al_list) option" where
  "listJoin h l other =
     (if al_len other = 0 then Some (h, l, other)
      else do {
        h \<leftarrow> set_prev h (al_head other) (al_tail l);
        (h, l) \<leftarrow>
          (if al_tail l \<noteq> NULL then do { h \<leftarrow> set_next h (al_tail l) (al_head other); Some (h, l) }
           else Some (h, l\<lparr>al_head := al_head other\<rparr>));
        let l = l\<lparr>al_tail := al_tail other, al_len := (al_len l + al_len other) mod 18446744073709551616\<rparr>;
        Some (h, l, other\<lparr>al_head := NULL, al_tail := NULL, al_len := 0\<rparr>) })"

definition listInitNode :: "'v al_heap \<Rightarrow> addr \<Rightarrow> 'v \<Rightarrow> 'v al_heap option" where
  "listInitNode h node value = upd_node h (Ptr node) (\<lambda>n. n\<lparr>ln_prev := NULL, ln_next := NULL, ln_value := value\<rparr>)"


subsection \<open>Chains of nodes\<close>

text \<open>
  \<open>chain m p ns q\<close>: the nodes \<open>ns\<close>, as pairs of address and value, follow one another in the map
  \<open>m\<close>, with \<open>p\<close> before the first and \<open>q\<close> after the last.
\<close>

fun first_of :: "(addr \<times> 'v) list \<Rightarrow> addr nullable \<Rightarrow> addr nullable" where
  "first_of [] q = q"
| "first_of (x # _) q = Ptr (fst x)"

definition last_of :: "addr nullable \<Rightarrow> (addr \<times> 'v) list \<Rightarrow> addr nullable" where
  "last_of p ns = (if ns = [] then p else Ptr (fst (last ns)))"

fun chain :: "(addr \<rightharpoonup> 'v listNode) \<Rightarrow> addr nullable \<Rightarrow> (addr \<times> 'v) list \<Rightarrow> addr nullable \<Rightarrow> bool" where
  "chain m p [] q \<longleftrightarrow> True"
| "chain m p ((a, v) # ns) q \<longleftrightarrow>
     m a = Some \<lparr>ln_prev = p, ln_next = first_of ns q, ln_value = v\<rparr> \<and> chain m (Ptr a) ns q"

lemma last_of_simps [simp]:
  "last_of p [] = p" "last_of p (x # ns) = last_of (Ptr (fst x)) ns" "last_of p (ns @ [x]) = Ptr (fst x)"
  by (auto simp: last_of_def)

lemma last_of_append [simp]: "last_of p (xs @ ys) = last_of (last_of p xs) ys"
  by (auto simp: last_of_def)

lemma first_of_append [simp]: "first_of (xs @ ys) q = first_of xs (first_of ys q)"
  by (cases xs) auto

lemma chain_append [simp]: "chain m p (xs @ ys) q \<longleftrightarrow> chain m p xs (first_of ys q) \<and> chain m (last_of p xs) ys q"
  by (induction m p xs "first_of ys q" rule: chain.induct) auto

lemma chain_frame [simp]: "a \<notin> fst ` set ns \<Longrightarrow> chain (m(a := x)) p ns q = chain m p ns q"
  by (induction m p ns q rule: chain.induct) auto

lemma chain_dom: "chain m p ns q \<Longrightarrow> x \<in> set ns \<Longrightarrow> m (fst x) \<noteq> None"
  by (induction m p ns q rule: chain.induct) auto

lemma first_of_NULL_iff [simp]: "first_of ns q = NULL \<longleftrightarrow> ns = [] \<and> q = NULL"
  by (cases ns) auto

lemma last_of_NULL_iff [simp]: "last_of p ns = NULL \<longleftrightarrow> ns = [] \<and> p = NULL"
  by (simp add: last_of_def)

text \<open>A list represents the nodes \<open>ns\<close>.\<close>

definition al_rep :: "'v al_heap \<Rightarrow> 'v al_list \<Rightarrow> (addr \<times> 'v) list \<Rightarrow> bool" where
  "al_rep h l ns \<longleftrightarrow>
     distinct (map fst ns) \<and> chain (hp_nodes h) NULL ns NULL \<and>
     al_head l = first_of ns NULL \<and> al_tail l = last_of NULL ns \<and> al_len l = length ns \<and>
     length ns < 18446744073709551616"

definition same_methods :: "'v al_list \<Rightarrow> 'v al_list \<Rightarrow> bool" where
  "same_methods l l' \<longleftrightarrow> al_dup l' = al_dup l \<and> al_free l' = al_free l \<and> al_match l' = al_match l"

lemmas node_simps = set_prev_def set_next_def upd_node_def new_node_def zfree_node_def

text \<open>Adding and inserting.\<close>

lemma listAddNodeHead_rep:
  assumes "al_rep h l ns" "hp_nodes h a = None" "length ns + 1 < 18446744073709551616"
  shows "\<exists>h' l'. listAddNodeHead (Ptr a) h l v = Some (Ptr (h', l')) \<and> al_rep h' l' ((a, v) # ns) \<and>
    (\<forall>b. b \<noteq> a \<longrightarrow> b \<notin> fst ` set ns \<longrightarrow> hp_nodes h' b = hp_nodes h b) \<and> hp_freed h' = hp_freed h \<and> same_methods l l'"
proof -
  have a: "a \<notin> fst ` set ns" using assms(1,2) chain_dom by (fastforce simp: al_rep_def)
  show ?thesis
  proof (cases ns)
    case Nil
    then show ?thesis using assms a
      by (auto simp: listAddNodeHead_def listLinkNodeHead_def al_rep_def node_simps same_methods_def Let_def)
  next
    case (Cons x xs)
    obtain b w where x: "x = (b, w)" by (cases x)
    show ?thesis using assms a unfolding Cons x
      by (auto simp: listAddNodeHead_def listLinkNodeHead_def al_rep_def node_simps same_methods_def Let_def image_iff)
  qed
qed

lemma listAddNodeTail_rep:
  assumes "al_rep h l ns" "hp_nodes h a = None" "length ns + 1 < 18446744073709551616"
  shows "\<exists>h' l'. listAddNodeTail (Ptr a) h l v = Some (Ptr (h', l')) \<and> al_rep h' l' (ns @ [(a, v)]) \<and>
    (\<forall>b. b \<noteq> a \<longrightarrow> b \<notin> fst ` set ns \<longrightarrow> hp_nodes h' b = hp_nodes h b) \<and> hp_freed h' = hp_freed h \<and> same_methods l l'"
proof -
  have a: "a \<notin> fst ` set ns" using assms(1,2) chain_dom by (fastforce simp: al_rep_def)
  show ?thesis
  proof (cases ns rule: rev_cases)
    case Nil
    then show ?thesis using assms a
      by (auto simp: listAddNodeTail_def listLinkNodeTail_def al_rep_def node_simps same_methods_def Let_def)
  next
    case (snoc xs x)
    obtain b w where x: "x = (b, w)" by (cases x)
    show ?thesis using assms a unfolding snoc x
      by (auto simp: listAddNodeTail_def listLinkNodeTail_def al_rep_def node_simps same_methods_def Let_def image_iff)
  qed
qed

lemmas insert_simps = listInsertNode_def al_rep_def node_simps same_methods_def Let_def image_iff

text \<open>The neighbours of a node in the middle of the list.\<close>

lemma pair_rev_cases:
  obtains "xs = []" | xs' b w where "xs = xs' @ [(b, w)]"
  by (cases xs rule: rev_cases) auto

lemma pair_cases:
  obtains "ys = []" | b w ys' where "ys = (b, w) # ys'"
  by (cases ys) auto

lemma al_rep_fresh: "al_rep h l ns \<Longrightarrow> hp_nodes h a = None \<Longrightarrow> a \<notin> fst ` set ns"
  using chain_dom by (fastforce simp: al_rep_def)

lemma listInsertNode_after_rep:
  assumes "al_rep h l (xs @ (c, u) # ys)" "hp_nodes h a = None" "length xs + length ys + 2 < 18446744073709551616"
  shows "\<exists>h' l'. listInsertNode (Ptr a) h l c v True = Some (Ptr (h', l')) \<and> al_rep h' l' (xs @ (c, u) # (a, v) # ys) \<and>
    (\<forall>b. b \<noteq> a \<longrightarrow> b \<notin> fst ` set (xs @ (c, u) # ys) \<longrightarrow> hp_nodes h' b = hp_nodes h b) \<and>
    hp_freed h' = hp_freed h \<and> same_methods l l'"
proof -
  have a: "a \<notin> fst ` set (xs @ (c, u) # ys)" using al_rep_fresh [OF assms(1,2)] .
  show ?thesis
  proof (cases ys rule: pair_cases)
    case 1
    show ?thesis using assms a unfolding 1 by (auto simp: insert_simps)
  next
    case (2 b w ys')
    show ?thesis using assms a unfolding 2 by (auto simp: insert_simps last_of_def)
  qed
qed

lemma listInsertNode_before_rep:
  assumes "al_rep h l (xs @ (c, u) # ys)" "hp_nodes h a = None" "length xs + length ys + 2 < 18446744073709551616"
  shows "\<exists>h' l'. listInsertNode (Ptr a) h l c v False = Some (Ptr (h', l')) \<and> al_rep h' l' (xs @ (a, v) # (c, u) # ys) \<and>
    (\<forall>b. b \<noteq> a \<longrightarrow> b \<notin> fst ` set (xs @ (c, u) # ys) \<longrightarrow> hp_nodes h' b = hp_nodes h b) \<and>
    hp_freed h' = hp_freed h \<and> same_methods l l'"
proof -
  have a: "a \<notin> fst ` set (xs @ (c, u) # ys)" using al_rep_fresh [OF assms(1,2)] .
  show ?thesis
  proof (cases xs rule: pair_rev_cases)
    case 1
    show ?thesis using assms a unfolding 1 by (cases ys rule: pair_cases) (auto simp: insert_simps)
  next
    case (2 xs' b w)
    have "first_of xs' (Ptr b) \<noteq> Ptr c" using assms(1) unfolding 2 by (cases xs') (auto simp: al_rep_def)
    then show ?thesis using assms a unfolding 2 by (auto simp: insert_simps)
  qed
qed

lemmas unlink_simps = listUnlinkNode_def listDelNode_def free_value_def al_rep_def node_simps same_methods_def Let_def image_iff

lemma listUnlinkNode_rep:
  assumes "al_rep h l (xs @ (c, u) # ys)"
  shows "\<exists>h' l'. listUnlinkNode h l c = Some (h', l') \<and> al_rep h' l' (xs @ ys) \<and>
    hp_nodes h' c = Some \<lparr>ln_prev = NULL, ln_next = NULL, ln_value = u\<rparr> \<and>
    (\<forall>b. b \<notin> fst ` set (xs @ (c, u) # ys) \<longrightarrow> hp_nodes h' b = hp_nodes h b) \<and>
    hp_freed h' = hp_freed h \<and> same_methods l l'"
  using assms
  by (cases xs rule: pair_rev_cases; cases ys rule: pair_cases) (auto simp: unlink_simps)

lemma listDelNode_rep:
  assumes "al_rep h l (xs @ (c, u) # ys)"
  shows "\<exists>h' l'. listDelNode h l c = Some (h', l') \<and> al_rep h' l' (xs @ ys) \<and> hp_nodes h' c = None \<and>
    (\<forall>b. b \<notin> fst ` set (xs @ (c, u) # ys) \<longrightarrow> hp_nodes h' b = hp_nodes h b) \<and>
    hp_freed h' = hp_freed h @ (if al_free l then [u] else []) \<and> same_methods l l'"
proof -
  obtain h1 l1 where u: "listUnlinkNode h l c = Some (h1, l1)" "al_rep h1 l1 (xs @ ys)"
    "hp_nodes h1 c = Some \<lparr>ln_prev = NULL, ln_next = NULL, ln_value = u\<rparr>"
    "\<forall>b. b \<notin> fst ` set (xs @ (c, u) # ys) \<longrightarrow> hp_nodes h1 b = hp_nodes h b" "hp_freed h1 = hp_freed h" "same_methods l l1"
    using listUnlinkNode_rep [OF assms] by blast
  have "c \<notin> fst ` set xs" "c \<notin> fst ` set ys" using assms by (auto simp: al_rep_def image_iff)
  then show ?thesis using u
    by (auto simp: listDelNode_def free_value_def zfree_node_def al_rep_def same_methods_def)
qed

lemma listEmpty_loop_rep:
  assumes "chain (hp_nodes h) p ns NULL" "distinct (map fst ns)"
  shows "\<exists>h'. listEmpty_loop l h (first_of ns NULL) (length ns) = Some h' \<and>
    hp_nodes h' = (\<lambda>b. if b \<in> fst ` set ns then None else hp_nodes h b) \<and>
    hp_freed h' = hp_freed h @ (if al_free l then map snd ns else [])"
  using assms
proof (induction ns arbitrary: h p)
  case (Cons x ns)
  obtain a v where x: "x = (a, v)" by (cases x)
  let ?h = "(free_value l h v)\<lparr>hp_nodes := (hp_nodes h)(a := None)\<rparr>"
  have c: "chain (hp_nodes ?h) (Ptr a) ns NULL" and d: "distinct (map fst ns)" using Cons.prems by (auto simp: x image_iff)
  obtain h' where
    "listEmpty_loop l ?h (first_of ns NULL) (length ns) = Some h'"
    "hp_nodes h' = (\<lambda>b. if b \<in> fst ` set ns then None else hp_nodes ?h b)"
    "hp_freed h' = hp_freed ?h @ (if al_free l then map snd ns else [])" using Cons.IH [OF c d] by blast
  then show ?case using Cons.prems by (auto simp: x zfree_node_def free_value_def fun_eq_iff)
qed (auto simp: fun_eq_iff)

lemma listEmpty_rep:
  assumes "al_rep h l ns"
  shows "\<exists>h' l'. listEmpty h l = Some (h', l') \<and> al_rep h' l' [] \<and>
    hp_nodes h' = (\<lambda>b. if b \<in> fst ` set ns then None else hp_nodes h b) \<and>
    hp_freed h' = hp_freed h @ (if al_free l then map snd ns else []) \<and> same_methods l l'"
  using listEmpty_loop_rep [of h NULL ns l] assms by (auto simp: listEmpty_def al_rep_def same_methods_def)

lemmas rotate_simps = listRotateTailToHead_def listRotateHeadToTail_def listLength_def al_rep_def node_simps
  same_methods_def Let_def image_iff

lemma listRotateTailToHead_rep:
  assumes "al_rep h l ns"
  shows "\<exists>h' l'. listRotateTailToHead h l = Some (h', l') \<and>
    al_rep h' l' (if ns = [] then [] else last ns # butlast ns) \<and>
    (\<forall>b. b \<notin> fst ` set ns \<longrightarrow> hp_nodes h' b = hp_nodes h b) \<and> hp_freed h' = hp_freed h \<and> same_methods l l'"
proof (cases ns rule: pair_rev_cases)
  case 1
  then show ?thesis using assms by (auto simp: rotate_simps)
next
  case (2 xs a v)
  have rot: "(if ns = [] then [] else last ns # butlast ns) = (a, v) # xs" by (simp add: 2)
  show ?thesis
  proof (cases xs)
    case Nil
    then show ?thesis using assms unfolding rot unfolding 2 by (auto simp: rotate_simps)
  next
    case (Cons x xs')
    obtain b w where x: "x = (b, w)" by (cases x)
    show ?thesis using assms unfolding rot unfolding 2 Cons x
      by (cases xs' rule: pair_rev_cases) (auto simp: rotate_simps)
  qed
qed

lemma listRotateHeadToTail_rep:
  assumes "al_rep h l ns"
  shows "\<exists>h' l'. listRotateHeadToTail h l = Some (h', l') \<and>
    al_rep h' l' (if ns = [] then [] else tl ns @ [hd ns]) \<and>
    (\<forall>b. b \<notin> fst ` set ns \<longrightarrow> hp_nodes h' b = hp_nodes h b) \<and> hp_freed h' = hp_freed h \<and> same_methods l l'"
proof (cases ns rule: pair_cases)
  case 1
  then show ?thesis using assms by (auto simp: rotate_simps)
next
  case (2 a v xs)
  show ?thesis
  proof (cases xs rule: pair_rev_cases)
    case 1
    then show ?thesis using assms unfolding 2 by (auto simp: rotate_simps)
  next
    case (2 xs' b w)
    show ?thesis using assms unfolding \<open>ns = (a, v) # xs\<close> 2
      by (cases xs' rule: pair_cases) (auto simp: rotate_simps)
  qed
qed

lemma chain_cong: "(\<And>x. x \<in> set ns \<Longrightarrow> m' (fst x) = m (fst x)) \<Longrightarrow> chain m' p ns q = chain m p ns q"
proof (induction ns arbitrary: p)
  case (Cons x ns)
  then have "m' (fst x) = m (fst x)" "\<And>p. chain m' p ns q = chain m p ns q" by auto
  then show ?case by (cases x) simp
qed simp

lemma listJoin_rep:
  assumes l: "al_rep h l ns" and l2: "al_rep h other ms" and d: "fst ` set ns \<inter> fst ` set ms = {}"
    and "length ns + length ms < 18446744073709551616"
  shows "\<exists>h' l' other'. listJoin h l other = Some (h', l', other') \<and> al_rep h' l' (ns @ ms) \<and> al_rep h' other' [] \<and>
    (\<forall>b. b \<notin> fst ` set ns \<union> fst ` set ms \<longrightarrow> hp_nodes h' b = hp_nodes h b) \<and> hp_freed h' = hp_freed h \<and>
    same_methods l l' \<and> same_methods other other'"
proof (cases ms rule: pair_cases)
  case 1
  then show ?thesis using assms by (auto simp: listJoin_def al_rep_def same_methods_def)
next
  case ms: (2 b w ms')
  show ?thesis
  proof (cases ns rule: pair_rev_cases)
    case 1
    then show ?thesis using assms unfolding ms
      by (auto simp: listJoin_def al_rep_def node_simps same_methods_def Let_def image_iff)
  next
    case (2 ns' a v)
    have x: "b \<notin> fst ` set ns'" "a \<notin> fst ` set ms'" "a \<noteq> b" using d unfolding ms 2 by auto
    show ?thesis using assms x unfolding ms 2
      by (auto simp: listJoin_def al_rep_def node_simps same_methods_def Let_def image_iff)
  qed
qed

text \<open>Walking the links.\<close>

lemma listIndex_forward:
  "chain (hp_nodes h) p ns NULL \<Longrightarrow>
   listIndex_loop h ln_next k (first_of ns NULL) = Some (if k < length ns then Ptr (fst (ns ! k)) else NULL)"
proof (induction k arbitrary: p ns)
  case 0
  then show ?case by (cases ns) auto
next
  case (Suc k)
  then show ?case by (cases ns rule: pair_cases) auto
qed

lemma listIndex_backward:
  "chain (hp_nodes h) NULL ns q \<Longrightarrow>
   listIndex_loop h ln_prev k (last_of NULL ns) = Some (if k < length ns then Ptr (fst (ns ! (length ns - Suc k))) else NULL)"
proof (induction k arbitrary: q ns)
  case 0
  then show ?case by (cases ns rule: rev_cases) auto
next
  case (Suc k)
  show ?case
  proof (cases ns rule: pair_rev_cases)
    case (2 xs b w)
    then show ?thesis using Suc.IH [of xs "Ptr b"] Suc.prems by (auto simp: nth_append)
  qed (simp)
qed

lemma listIndex_rep:
  assumes "al_rep h l ns" "- 9223372036854775808 < i"
  shows "listIndex h l i = Some (case seek_index (length ns) i of None \<Rightarrow> NULL | Some k \<Rightarrow> Ptr (fst (ns ! k)))"
proof (cases "i < 0")
  case True
  have "nat (- i - 1) < length ns \<longleftrightarrow> nat (- i) \<le> length ns" "Suc (nat (- i - 1)) = nat (- i)" using True by linarith+
  then show ?thesis using assms listIndex_backward [of h ns NULL "nat (- i - 1)"] True
    by (simp add: listIndex_def al_rep_def seek_index_def)
next
  case False
  then show ?thesis using assms listIndex_forward [of h NULL ns "nat i"]
    by (simp add: listIndex_def al_rep_def seek_index_def)
qed

definition al_matches :: "'v al_list \<Rightarrow> 'v \<Rightarrow> 'v \<Rightarrow> bool" where
  "al_matches l key v = (case al_match l of Ptr match \<Rightarrow> match v key | NULL \<Rightarrow> key = v)"

lemma listSearchKey_loop_rep:
  "chain (hp_nodes h) p ns NULL \<Longrightarrow>
   listSearchKey_loop h l key \<lparr>li_next = first_of ns NULL, li_direction = AL_START_HEAD\<rparr> =
   Some (case List.find (\<lambda>x. al_matches l key (snd x)) ns of None \<Rightarrow> NULL | Some x \<Rightarrow> Ptr (fst x))"
proof (induction ns arbitrary: p)
  case Nil
  then show ?case by (subst listSearchKey_loop.simps) (simp add: listNext_def)
next
  case (Cons x ns)
  obtain a v where x: "x = (a, v)" by (cases x)
  have "chain (hp_nodes h) (Ptr a) ns NULL" using Cons.prems by (simp add: x)
  from Cons.IH [OF this] show ?case using Cons.prems
    by (subst listSearchKey_loop.simps) (auto simp: listNext_def x al_matches_def split: nullable.splits)
qed

lemma listSearchKey_rep:
  assumes "al_rep h l ns"
  shows "listSearchKey h l key =
    Some (case List.find (\<lambda>x. al_matches l key (snd x)) ns of None \<Rightarrow> NULL | Some x \<Rightarrow> Ptr (fst x))"
  using listSearchKey_loop_rep [of h NULL ns] assms by (simp add: listSearchKey_def listRewind_def al_rep_def)

text \<open>Copying.\<close>

definition dup_value :: "'v al_list \<Rightarrow> 'v \<Rightarrow> 'v nullable" where
  "dup_value l v = (case al_dup l of Ptr dup \<Rightarrow> dup v | NULL \<Rightarrow> Ptr v)"

text \<open>What the copying loop leaves behind when it started with \<open>cs\<close> in the copy and \<open>ns\<close> to go.\<close>

definition dup_result where
  "dup_result h copy cs ns allocs h' r \<longleftrightarrow> (case r of
       NULL \<Rightarrow> hp_nodes h' = (\<lambda>b. if b \<in> fst ` set cs then None else hp_nodes h b) \<and>
         (NULL \<in> set (take (length ns) allocs) \<or> NULL \<in> dup_value copy ` snd ` set ns)
     | Ptr copy' \<Rightarrow> \<exists>new. al_rep h' copy' (cs @ new) \<and> map (Ptr \<circ> snd) new = map (dup_value copy \<circ> snd) ns \<and>
         map (Ptr \<circ> fst) new = take (length ns) allocs \<and> same_methods copy copy' \<and>
         (\<forall>b. b \<notin> fst ` set (cs @ new) \<longrightarrow> hp_nodes h' b = hp_nodes h b))"

definition fresh_allocs :: "'v al_heap \<Rightarrow> addr nullable list \<Rightarrow> bool" where
  "fresh_allocs h allocs \<longleftrightarrow> distinct (filter (\<lambda>p. p \<noteq> NULL) allocs) \<and> (\<forall>a. Ptr a \<in> set allocs \<longrightarrow> hp_nodes h a = None)"

lemma dup_result_step:
  assumes "dup_result h1 c1 (cs @ [(a, w)]) ns als h' r" "dup_value copy v = Ptr w" "same_methods copy c1"
    "hp_nodes h a = None" "\<forall>b. b \<noteq> a \<longrightarrow> b \<notin> fst ` set cs \<longrightarrow> hp_nodes h1 b = hp_nodes h b"
  shows "dup_result h copy cs ((b, v) # ns) (Ptr a # als) h' r"
proof (cases r)
  case NULL
  have "dup_value c1 = dup_value copy" using assms(3) by (auto simp: same_methods_def dup_value_def fun_eq_iff)
  then show ?thesis using assms unfolding NULL by (auto simp: dup_result_def fun_eq_iff)
next
  case (Ptr copy')
  have dv: "dup_value c1 = dup_value copy" using assms(3) by (auto simp: same_methods_def dup_value_def fun_eq_iff)
  from assms(1) obtain new where
    "al_rep h' copy' ((cs @ [(a, w)]) @ new)" "map (Ptr \<circ> snd) new = map (dup_value copy \<circ> snd) ns"
    "map (Ptr \<circ> fst) new = take (length ns) als" "same_methods c1 copy'"
    "\<forall>b. b \<notin> fst ` set ((cs @ [(a, w)]) @ new) \<longrightarrow> hp_nodes h' b = hp_nodes h1 b"
    unfolding dup_result_def Ptr dv by auto
  then show ?thesis using assms(2,3,5) unfolding dup_result_def Ptr
    by (auto simp: same_methods_def intro!: exI [of _ "(a, w) # new"])
qed

lemma listDup_loop_rep:
  assumes "chain (hp_nodes h) p ns NULL" "al_rep h copy cs" "fst ` set cs \<inter> fst ` set ns = {}"
    "length ns \<le> length allocs" "length cs + length ns < 18446744073709551616" "fresh_allocs h allocs"
  shows "\<exists>h' r. listDup_loop allocs h \<lparr>li_next = first_of ns NULL, li_direction = AL_START_HEAD\<rparr> copy = Some (h', r) \<and>
    dup_result h copy cs ns allocs h' r"
  using assms
proof (induction ns arbitrary: h p copy cs allocs)
  case Nil
  then show ?case
    by (subst listDup_loop.simps) (auto simp: listNext_def same_methods_def dup_result_def intro!: exI [of _ "[]"])
next
  case (Cons x ns)
  obtain b v where x: "x = (b, v)" by (cases x)
  obtain al als where als: "allocs = al # als" using Cons.prems(4) by (cases allocs) auto
  have nd: "hp_nodes h b = Some \<lparr>ln_prev = p, ln_next = first_of ns NULL, ln_value = v\<rparr>" "chain (hp_nodes h) (Ptr b) ns NULL"
    using Cons.prems(1) by (auto simp: x)
  let ?it = "\<lparr>li_next = first_of ns NULL, li_direction = AL_START_HEAD\<rparr>"
  have unf: "listDup_loop allocs h \<lparr>li_next = first_of (x # ns) NULL, li_direction = AL_START_HEAD\<rparr> copy =
    (case dup_value copy v of
         NULL \<Rightarrow> do { h \<leftarrow> listRelease h (Ptr copy); Some (h, NULL) }
       | Ptr value \<Rightarrow> do {
                r \<leftarrow> listAddNodeTail al h copy value;
                case r of
                  NULL \<Rightarrow> do { h \<leftarrow> listRelease (free_value copy h value) (Ptr copy); Some (h, NULL) }
                | Ptr (h, copy) \<Rightarrow> listDup_loop als h ?it copy })"
    by (subst listDup_loop.simps) (simp add: listNext_def x nd als dup_value_def split: nullable.split)
  show ?case
  proof (cases "dup_value copy v")
    case NULL
    then show ?thesis using listEmpty_rep [OF Cons.prems(2)] unfolding unf by (auto simp: listRelease_def x dup_result_def)
  next
    case dup: (Ptr w)
    show ?thesis
    proof (cases al)
      case NULL
      have fv: "hp_nodes (free_value copy h w) = hp_nodes h" by (simp add: free_value_def)
      have "al_rep (free_value copy h w) copy cs" using Cons.prems(2) by (simp add: al_rep_def free_value_def)
      from listEmpty_rep [OF this, unfolded fv] show ?thesis unfolding unf
        by (auto simp: dup NULL listAddNodeTail_def listRelease_def als fv dup_result_def)
    next
      case (Ptr a)
      have fresh: "hp_nodes h a = None" using Cons.prems(6) by (simp add: als Ptr fresh_allocs_def)
      obtain h1 c1 where s: "listAddNodeTail al h copy w = Some (Ptr (h1, c1))" "al_rep h1 c1 (cs @ [(a, w)])"
        "\<forall>b. b \<noteq> a \<longrightarrow> b \<notin> fst ` set cs \<longrightarrow> hp_nodes h1 b = hp_nodes h b" "same_methods copy c1"
        using listAddNodeTail_rep [OF Cons.prems(2) fresh, of w] Cons.prems(5) unfolding Ptr by auto
      have ns: "fst y \<noteq> a \<and> fst y \<notin> fst ` set cs" if "y \<in> set ns" for y
        using chain_dom [OF nd(2) that] fresh Cons.prems(3) that by auto
      have "chain (hp_nodes h1) (Ptr b) ns NULL"
        using nd(2) chain_cong [of ns "hp_nodes h1" "hp_nodes h"] s(3) ns by auto
      moreover have "fst ` set (cs @ [(a, w)]) \<inter> fst ` set ns = {}"
        using Cons.prems(3) ns by (force simp: disjoint_iff image_iff)
      moreover have "hp_nodes h1 c = None" if "Ptr c \<in> set als" for c
      proof -
        have "hp_nodes h c = None" "c \<noteq> a" using Cons.prems(6) that by (auto simp: fresh_allocs_def als Ptr)
        then show ?thesis using al_rep_fresh [OF Cons.prems(2)] s(3) by auto
      qed
      then have "fresh_allocs h1 als" using Cons.prems(6) by (auto simp: fresh_allocs_def als split: if_splits)
      ultimately obtain h' r where "listDup_loop als h1 ?it c1 = Some (h', r)" "dup_result h1 c1 (cs @ [(a, w)]) ns als h' r"
        using Cons.IH [of h1 "Ptr b" c1 "cs @ [(a, w)]" als] s(2) Cons.prems(4,5) by (auto simp: als)
      then show ?thesis using dup_result_step [OF _ dup s(4) fresh s(3)] unfolding unf
        using s(1) by (simp add: dup als Ptr x)
    qed
  qed
qed


subsection \<open>Sequences of operations\<close>

text \<open>
  Operations a client performs on a list; a node is found by its index, and an operation that
  allocates names the fresh address. On the side of the specification a list is the sequence of
  its nodes.
\<close>

datatype 'v al_op =
    Add_head addr 'v | Add_tail addr 'v | Insert_at int addr 'v bool | Delete_at int | Delete_key 'v
  | Rotate_tail | Rotate_head | Empty_all

type_synonym 'v al_state = "'v al_heap \<times> 'v al_list"

definition al_added :: "'v al_state \<Rightarrow> 'v al_state nullable option \<Rightarrow> 'v al_state option" where
  "al_added s r = map_option (case_nullable s id) r"

definition al_node :: "'v al_state \<Rightarrow> addr nullable option \<Rightarrow> (addr \<Rightarrow> 'v al_state option) \<Rightarrow> 'v al_state option" where
  "al_node s p f = Option.bind p (case_nullable (Some s) f)"

fun al_exec :: "'v al_state \<Rightarrow> 'v al_op \<Rightarrow> 'v al_state option" where
  "al_exec (h, l) (Add_head a v) = al_added (h, l) (listAddNodeHead (Ptr a) h l v)"
| "al_exec (h, l) (Add_tail a v) = al_added (h, l) (listAddNodeTail (Ptr a) h l v)"
| "al_exec (h, l) (Insert_at i a v after) =
     al_node (h, l) (listIndex h l i) (\<lambda>n. al_added (h, l) (listInsertNode (Ptr a) h l n v after))"
| "al_exec (h, l) (Delete_at i) = al_node (h, l) (listIndex h l i) (listDelNode h l)"
| "al_exec (h, l) (Delete_key v) = al_node (h, l) (listSearchKey h l v) (listDelNode h l)"
| "al_exec (h, l) Rotate_tail = listRotateTailToHead h l"
| "al_exec (h, l) Rotate_head = listRotateHeadToTail h l"
| "al_exec (h, l) Empty_all = listEmpty h l"

text \<open>The position of the first node that matches, and the effect on the sequence of nodes.\<close>

fun find_index :: "('a \<Rightarrow> bool) \<Rightarrow> 'a list \<Rightarrow> nat option" where
  "find_index P [] = None"
| "find_index P (x # xs) = (if P x then Some 0 else map_option Suc (find_index P xs))"

fun al_spec :: "('v \<Rightarrow> 'v \<Rightarrow> bool) \<Rightarrow> (addr \<times> 'v) list \<Rightarrow> 'v al_op \<Rightarrow> (addr \<times> 'v) list" where
  "al_spec M ns (Add_head a v) = (a, v) # ns"
| "al_spec M ns (Add_tail a v) = ns @ [(a, v)]"
| "al_spec M ns (Insert_at i a v after) = (case seek_index (length ns) i of
     None \<Rightarrow> ns | Some k \<Rightarrow> insert_at (if after then Suc k else k) (a, v) ns)"
| "al_spec M ns (Delete_at i) = (case seek_index (length ns) i of None \<Rightarrow> ns | Some k \<Rightarrow> remove_at k ns)"
| "al_spec M ns (Delete_key v) = (case find_index (\<lambda>x. M v (snd x)) ns of None \<Rightarrow> ns | Some k \<Rightarrow> remove_at k ns)"
| "al_spec M ns Rotate_tail = (if ns = [] then [] else last ns # butlast ns)"
| "al_spec M ns Rotate_head = (if ns = [] then [] else tl ns @ [hd ns])"
| "al_spec M ns Empty_all = []"

text \<open>
  What an operation needs: a fresh address, room in the \<open>unsigned long\<close> counter, and an index
  whose negation is a \<open>long\<close>.
\<close>

fun al_allowed :: "(addr \<times> 'v) list \<Rightarrow> 'v al_op \<Rightarrow> bool" where
  "al_allowed ns (Add_head a v) \<longleftrightarrow> a \<notin> fst ` set ns \<and> length ns + 1 < 18446744073709551616"
| "al_allowed ns (Add_tail a v) \<longleftrightarrow> a \<notin> fst ` set ns \<and> length ns + 1 < 18446744073709551616"
| "al_allowed ns (Insert_at i a v after) \<longleftrightarrow>
     a \<notin> fst ` set ns \<and> length ns + 1 < 18446744073709551616 \<and> - 9223372036854775808 < i"
| "al_allowed ns (Delete_at i) \<longleftrightarrow> - 9223372036854775808 < i"
| "al_allowed ns _ \<longleftrightarrow> True"

text \<open>The values an operation hands over to the list.\<close>

fun al_given :: "(addr \<times> 'v) list \<Rightarrow> 'v al_op \<Rightarrow> 'v multiset" where
  "al_given ns (Add_head a v) = {#v#}"
| "al_given ns (Add_tail a v) = {#v#}"
| "al_given ns (Insert_at i a v after) = (if seek_index (length ns) i = None then {#} else {#v#})"
| "al_given ns _ = {#}"

text \<open>
  The heap holds the nodes of the list and nothing else, the methods are as set, and when there is
  a \<open>free\<close> method, each of the values \<open>vs\<close> handed over is either in the list or was freed once.
\<close>

definition al_owns :: "'v al_list \<Rightarrow> 'v multiset \<Rightarrow> 'v al_state \<Rightarrow> (addr \<times> 'v) list \<Rightarrow> bool" where
  "al_owns l0 vs s ns \<longleftrightarrow>
     al_rep (fst s) (snd s) ns \<and> dom (hp_nodes (fst s)) = fst ` set ns \<and> same_methods l0 (snd s) \<and>
     (al_free l0 \<longrightarrow> mset (hp_freed (fst s)) + mset (map snd ns) = vs)"

lemma al_owns_step:
  assumes "al_owns l0 vs (h, l) ns" "al_rep h' l' ms" "fst ` set ms = A \<union> (fst ` set ns - D)"
    "\<forall>b. b \<notin> A \<longrightarrow> b \<notin> fst ` set ns \<longrightarrow> hp_nodes h' b = hp_nodes h b" "\<forall>b \<in> D - A. hp_nodes h' b = None" "same_methods l l'"
    "al_free l \<longrightarrow> mset (hp_freed h') + mset (map snd ms) = mset (hp_freed h) + mset (map snd ns) + w"
  shows "al_owns l0 (vs + w) (h', l') ms"
proof -
  have c: "chain (hp_nodes h') NULL ms NULL" using assms(2) by (simp add: al_rep_def)
  have "b \<in> fst ` set ms" if "hp_nodes h' b \<noteq> None" for b
  proof (rule ccontr)
    assume n: "b \<notin> fst ` set ms"
    then have b: "b \<notin> A" "b \<notin> fst ` set ns \<or> b \<in> D" using assms(3) by auto
    then have "b \<notin> fst ` set ns" using assms(5) that by auto
    then have "hp_nodes h b \<noteq> None" using assms(4) b(1) that by auto
    then show False using assms(1) \<open>b \<notin> fst ` set ns\<close> by (auto simp: al_owns_def)
  qed
  then have "dom (hp_nodes h') = fst ` set ms" using chain_dom [OF c] by (auto simp: dom_def)
  then show ?thesis using assms(1,2,6,7) by (auto simp: al_owns_def same_methods_def)
qed

lemma find_index_find:
  "List.find P xs = map_option (\<lambda>k. xs ! k) (find_index P xs)"
  by (induction xs) (auto simp: option.map_comp o_def)

lemma find_index_less: "find_index P xs = Some k \<Longrightarrow> k < length xs"
  by (induction xs arbitrary: k) (auto split: if_splits)

lemma split_at: "k < length ns \<Longrightarrow> ns = take k ns @ (fst (ns ! k), snd (ns ! k)) # drop (Suc k) ns"
  by (simp add: id_take_nth_drop)

lemma al_insert_owns:
  assumes own: "al_owns l0 vs (h, l) ns" and k: "k < length ns" and a: "a \<notin> fst ` set ns" "length ns + 1 < 18446744073709551616"
  shows "\<exists>s. listInsertNode (Ptr a) h l (fst (ns ! k)) v after = Some (Ptr s) \<and>
    al_owns l0 (vs + {#v#}) s (insert_at (if after then Suc k else k) (a, v) ns)"
proof -
  let ?c = "fst (ns ! k)" and ?u = "snd (ns ! k)" and ?xs = "take k ns" and ?ys = "drop (Suc k) ns"
  have ns: "ns = ?xs @ (?c, ?u) # ?ys" using split_at [OF k] .
  have rep: "al_rep h l (?xs @ (?c, ?u) # ?ys)" and f: "hp_nodes h a = None"
    using own a(1) ns by (auto simp: al_owns_def dom_def)
  have len: "length ?xs + length ?ys + 2 < 18446744073709551616" using a(2) k by simp
  have ins: "insert_at (if after then Suc k else k) (a, v) ns =
      (if after then ?xs @ (?c, ?u) # (a, v) # ?ys else ?xs @ (a, v) # (?c, ?u) # ?ys)"
    using k by (auto simp: insert_at_def take_Suc_conv_app_nth Cons_nth_drop_Suc)
  obtain h' l' where "listInsertNode (Ptr a) h l ?c v after = Some (Ptr (h', l'))"
    and rep': "al_rep h' l' (insert_at (if after then Suc k else k) (a, v) ns)"
    and "\<forall>b. b \<noteq> a \<longrightarrow> b \<notin> fst ` set ns \<longrightarrow> hp_nodes h' b = hp_nodes h b" "same_methods l l'" "hp_freed h' = hp_freed h"
    using listInsertNode_after_rep [OF rep f len, of v] listInsertNode_before_rep [OF rep f len, of v]
    unfolding ns [symmetric] ins by (cases after) auto
  moreover have "fst ` set (insert_at (if after then Suc k else k) (a, v) ns) = {a} \<union> (fst ` set ns - {})"
    unfolding ins by (subst (6) ns) auto
  moreover have "mset (map snd (insert_at (if after then Suc k else k) (a, v) ns)) = mset (map snd ns) + {#v#}"
    unfolding ins by (subst (6) ns) auto
  ultimately show ?thesis using al_owns_step [OF own rep', of "{a}" "{}" "{#v#}"] by auto
qed

lemma al_delete_owns:
  assumes own: "al_owns l0 vs (h, l) ns" and k: "k < length ns"
  shows "\<exists>s. listDelNode h l (fst (ns ! k)) = Some s \<and> al_owns l0 vs s (remove_at k ns)"
proof -
  let ?c = "fst (ns ! k)" and ?u = "snd (ns ! k)" and ?xs = "take k ns" and ?ys = "drop (Suc k) ns"
  have ns: "ns = ?xs @ (?c, ?u) # ?ys" using split_at [OF k] .
  have rep: "al_rep h l (?xs @ (?c, ?u) # ?ys)" using own ns by (simp add: al_owns_def)
  obtain h' l' where d: "listDelNode h l ?c = Some (h', l')" "al_rep h' l' (remove_at k ns)" "hp_nodes h' ?c = None"
    "\<forall>b. b \<notin> fst ` set ns \<longrightarrow> hp_nodes h' b = hp_nodes h b" "same_methods l l'"
    "hp_freed h' = hp_freed h @ (if al_free l then [?u] else [])"
    using listDelNode_rep [OF rep] unfolding ns [symmetric] by (auto simp: remove_at_def)
  have "distinct (map fst (?xs @ (?c, ?u) # ?ys))" using rep by (simp only: al_rep_def)
  then have "fst ` set (?xs @ ?ys) = fst ` set (?xs @ (?c, ?u) # ?ys) - {?c}" by (simp add: image_Un)
  then have "fst ` set (remove_at k ns) = {} \<union> (fst ` set ns - {?c})" unfolding ns [symmetric] by (simp add: remove_at_def)
  moreover have "mset (map snd ns) = mset (map snd (remove_at k ns)) + {#?u#}"
    by (subst (1) ns) (simp add: remove_at_def)
  ultimately show ?thesis using al_owns_step [OF own d(2), of "{}" "{?c}" "{#}"] d by auto
qed

lemma al_exec_owns:
  assumes own: "al_owns l0 vs s ns" and ok: "al_allowed ns op"
  shows "\<exists>s'. al_exec s op = Some s' \<and> al_owns l0 (vs + al_given ns op) s' (al_spec (al_matches l0) ns op)"
proof -
  obtain h l where s: "s = (h, l)" by (cases s)
  have rep: "al_rep h l ns" and dom: "\<And>a. a \<notin> fst ` set ns \<Longrightarrow> hp_nodes h a = None"
    and m: "al_matches l = al_matches l0"
    using own by (auto simp: s al_owns_def dom_def al_matches_def same_methods_def fun_eq_iff)
  note step = al_owns_step [OF own [unfolded s]]
  show ?thesis
  proof (cases op)
    case (Add_head a v)
    then show ?thesis using listAddNodeHead_rep [OF rep dom, of a v] ok step [of _ _ "(a, v) # ns" "{a}" "{}" "{#v#}"]
      by (auto simp: s al_added_def)
  next
    case (Add_tail a v)
    then show ?thesis using listAddNodeTail_rep [OF rep dom, of a v] ok step [of _ _ "ns @ [(a, v)]" "{a}" "{}" "{#v#}"]
      by (auto simp: s al_added_def)
  next
    case (Insert_at i a v after)
    show ?thesis
    proof (cases "seek_index (length ns) i")
      case None
      then show ?thesis using Insert_at ok own by (simp add: s al_node_def listIndex_rep [OF rep])
    next
      case (Some k)
      obtain s' where "listInsertNode (Ptr a) h l (fst (ns ! k)) v after = Some (Ptr s')"
        "al_owns l0 (vs + {#v#}) s' (insert_at (if after then Suc k else k) (a, v) ns)"
        using al_insert_owns [OF own [unfolded s] seek_index_less [OF Some], of a v after] ok Insert_at by auto
      then show ?thesis using Insert_at ok Some by (simp add: s al_node_def al_added_def listIndex_rep [OF rep])
    qed
  next
    case (Delete_at i)
    then show ?thesis using ok own al_delete_owns [OF own [unfolded s]] seek_index_less [of "length ns" i]
      by (auto simp: s al_node_def listIndex_rep [OF rep] split: option.splits)
  next
    case (Delete_key v)
    then show ?thesis
      using own al_delete_owns [OF own [unfolded s]] find_index_less [of "\<lambda>x. al_matches l0 v (snd x)" ns]
      by (auto simp: s al_node_def listSearchKey_rep [OF rep] find_index_find m split: option.splits)
  next
    case Rotate_tail
    have "fst ` set (if ns = [] then [] else last ns # butlast ns) = {} \<union> (fst ` set ns - {})"
      "mset (map snd (if ns = [] then [] else last ns # butlast ns)) = mset (map snd ns)"
      by (cases ns rule: rev_cases; auto)+
    then show ?thesis using Rotate_tail listRotateTailToHead_rep [OF rep] step [of _ _ _ "{}" "{}" "{#}"] by (fastforce simp: s)
  next
    case Rotate_head
    have "fst ` set (if ns = [] then [] else tl ns @ [hd ns]) = {} \<union> (fst ` set ns - {})"
      "mset (map snd (if ns = [] then [] else tl ns @ [hd ns])) = mset (map snd ns)" by (cases ns; auto)+
    then show ?thesis using Rotate_head listRotateHeadToTail_rep [OF rep] step [of _ _ _ "{}" "{}" "{#}"] by (fastforce simp: s)
  next
    case Empty_all
    then show ?thesis using listEmpty_rep [OF rep] step [of _ _ "[]" "{}" "fst ` set ns" "{#}"] by (auto simp: s)
  qed
qed

fun al_run :: "'v al_state \<Rightarrow> 'v al_op list \<Rightarrow> 'v al_state option" where
  "al_run s [] = Some s"
| "al_run s (op # ops) = Option.bind (al_exec s op) (\<lambda>s. al_run s ops)"

fun al_allowed_all :: "('v \<Rightarrow> 'v \<Rightarrow> bool) \<Rightarrow> (addr \<times> 'v) list \<Rightarrow> 'v al_op list \<Rightarrow> bool" where
  "al_allowed_all M ns [] \<longleftrightarrow> True"
| "al_allowed_all M ns (op # ops) \<longleftrightarrow> al_allowed ns op \<and> al_allowed_all M (al_spec M ns op) ops"

definition no_nodes :: "'v al_heap" where
  "no_nodes = \<lparr>hp_nodes = Map.empty, hp_freed = []\<rparr>"

text \<open>A new list with the methods a client sets.\<close>

definition al_new :: "('v \<Rightarrow> 'v nullable) nullable \<Rightarrow> bool \<Rightarrow> ('v \<Rightarrow> 'v \<Rightarrow> bool) nullable \<Rightarrow> 'v al_list" where
  "al_new dup free match = listCreate\<lparr>al_dup := dup, al_free := free, al_match := match\<rparr>"

lemma al_owns_new: "al_owns (al_new d f m) {#} (no_nodes, al_new d f m) []"
  by (simp add: al_owns_def al_rep_def no_nodes_def al_new_def listCreate_def same_methods_def)

lemma al_run_owns:
  assumes "al_owns l0 vs s ns" "al_allowed_all (al_matches l0) ns ops"
  shows "\<exists>s' vs'. al_run s ops = Some s' \<and> al_owns l0 vs' s' (foldl (al_spec (al_matches l0)) ns ops)"
  using assms
proof (induction ops arbitrary: vs s ns)
  case (Cons op ops)
  then obtain s' where "al_exec s op = Some s'" "al_owns l0 (vs + al_given ns op) s' (al_spec (al_matches l0) ns op)"
    using al_exec_owns [of l0 vs s ns op] by auto
  with Cons.IH [OF this(2)] Cons.prems(2) show ?case by auto
qed auto

text \<open>
  C28: any sequence of additions at both ends, insertions beside a node, deletions by index and by key,
  rotations and emptyings of a new list, with fresh addresses from the allocator, runs without a
  fault and leaves the doubly linked list of exactly the nodes the sequence prescribes.
\<close>

theorem adlist_ops_refine_list:
  assumes "l0 = al_new dup free match" "al_allowed_all (al_matches l0) [] ops"
    "ns = foldl (al_spec (al_matches l0)) [] ops"
  shows "\<exists>h l. al_run (no_nodes, l0) ops = Some (h, l) \<and> al_rep h l ns \<and> listLength l = length ns \<and>
    (\<forall>i. - 9223372036854775808 < i \<longrightarrow>
       listIndex h l i = Some (case seek_index (length ns) i of None \<Rightarrow> NULL | Some k \<Rightarrow> Ptr (fst (ns ! k)))) \<and>
    (\<forall>key. listSearchKey h l key =
       Some (case List.find (\<lambda>x. al_matches l0 key (snd x)) ns of None \<Rightarrow> NULL | Some x \<Rightarrow> Ptr (fst x)))"
proof -
  obtain h l vs where run: "al_run (no_nodes, l0) ops = Some (h, l)" and own: "al_owns l0 vs (h, l) ns"
    using al_run_owns [OF al_owns_new [of dup free match]] assms by (metis surj_pair)
  then have rep: "al_rep h l ns" and m: "al_matches l = al_matches l0"
    by (auto simp: al_owns_def al_matches_def same_methods_def fun_eq_iff)
  show ?thesis
    using run rep listIndex_rep [OF rep] listSearchKey_rep [OF rep] unfolding m
    by (auto simp: listLength_def al_rep_def)
qed

theorem adlist_ops_refine_list_witness:
  "\<exists>h l. al_run (no_nodes, al_new NULL True NULL)
      [Add_tail 1 ''a'', Add_head 2 ''b'', Insert_at (- 1) 3 ''c'' False, Rotate_tail, Delete_key ''b''] = Some (h, l) \<and>
    al_rep h l [(1, ''a''), (3, ''c'')] \<and> listIndex h l (- 1) = Some (Ptr 3)"
proof -
  let ?l0 = "al_new NULL True NULL :: string al_list"
  let ?ops = "[Add_tail 1 ''a'', Add_head 2 ''b'', Insert_at (- 1) 3 ''c'' False, Rotate_tail, Delete_key ''b'']"
  have m: "al_matches ?l0 = (=)" by (simp add: al_matches_def al_new_def fun_eq_iff)
  have ns: "[(1, ''a''), (3, ''c'')] = foldl (al_spec (al_matches ?l0)) [] ?ops" "al_allowed_all (al_matches ?l0) [] ?ops"
    unfolding m by (simp_all add: seek_index_def insert_at_def remove_at_def)
  from adlist_ops_refine_list [OF refl ns(2,1)] show ?thesis by (fastforce simp: seek_index_def)
qed

text \<open>States a client can reach, with the values handed over so far.\<close>

fun op_addrs :: "'v al_op \<Rightarrow> addr set" where
  "op_addrs (Add_head a v) = {a}"
| "op_addrs (Add_tail a v) = {a}"
| "op_addrs (Insert_at i a v after) = {a}"
| "op_addrs _ = {}"

fun op_value :: "'v al_state \<Rightarrow> 'v al_op \<Rightarrow> 'v multiset" where
  "op_value s (Add_head a v) = {#v#}"
| "op_value s (Add_tail a v) = {#v#}"
| "op_value (h, l) (Insert_at i a v after) = (if listIndex h l i = Some NULL then {#} else {#v#})"
| "op_value s _ = {#}"

fun op_index :: "'v al_op \<Rightarrow> int" where
  "op_index (Insert_at i a v after) = i"
| "op_index (Delete_at i) = i"
| "op_index _ = 0"

inductive al_reach :: "'v al_list \<Rightarrow> 'v al_state \<Rightarrow> 'v multiset \<Rightarrow> bool" for l0 where
  al_init: "al_reach l0 (no_nodes, l0) {#}"
| al_step: "al_reach l0 s vs \<Longrightarrow> \<forall>a \<in> op_addrs op. hp_nodes (fst s) a = None \<Longrightarrow>
    al_len (snd s) + 1 < 18446744073709551616 \<Longrightarrow> - 9223372036854775808 < op_index op \<Longrightarrow> al_exec s op = Some s' \<Longrightarrow> al_reach l0 s' (vs + op_value s op)"

lemma al_allowed_step:
  assumes own: "al_owns l0 vs s ns" and step: "\<forall>a \<in> op_addrs op. hp_nodes (fst s) a = None"
    "al_len (snd s) + 1 < 18446744073709551616" "- 9223372036854775808 < op_index op"
  shows "al_allowed ns op \<and> op_value s op = al_given ns op"
proof -
  obtain h l where s: "s = (h, l)" by (cases s)
  have rep: "al_rep h l ns" using own by (simp add: s al_owns_def)
  have len: "length ns + 1 < 18446744073709551616" using step(2) rep by (simp add: s al_rep_def)
  have f: "\<forall>a \<in> op_addrs op. a \<notin> fst ` set ns" using al_rep_fresh [OF rep] step(1) by (simp add: s)
  show ?thesis
  proof (cases op)
    case (Insert_at i a v after)
    then show ?thesis using f len step(3) listIndex_rep [OF rep, of i] by (auto simp: s split: option.splits)
  qed (use f len step(3) in \<open>auto simp: s\<close>)
qed

lemma al_reach_owns:
  assumes "al_reach l0 s vs" "l0 = al_new dup free match"
  shows "\<exists>ns. al_owns l0 vs s ns"
  using assms
proof (induction rule: al_reach.induct)
  case al_init
  then show ?case using al_owns_new by metis
next
  case (al_step s vs op s')
  then obtain ns where ns: "al_owns l0 vs s ns" by blast
  have ok: "al_allowed ns op" "op_value s op = al_given ns op" using al_allowed_step [OF ns al_step.hyps(2-4)] by auto
  from al_exec_owns [OF ns ok(1)] al_step.hyps(5) show ?case unfolding ok(2) by auto
qed

text \<open>
  C29: in every state that is reachable from a new list the links form a doubly linked list with the
  recorded length, the heap holds its nodes and nothing else, and when a \<open>free\<close> method is set, every
  value handed over is either in the list or was freed exactly once.
\<close>

theorem adlist_invariant:
  assumes "al_reach (al_new dup free match) (h, l) vs"
  shows "\<exists>ns. al_rep h l ns \<and> dom (hp_nodes h) = fst ` set ns \<and> al_len l = length ns \<and>
    (free \<longrightarrow> mset (hp_freed h) + mset (map snd ns) = vs)"
  using al_reach_owns [OF assms refl] by (auto simp: al_owns_def al_rep_def al_new_def)

theorem adlist_invariant_witness:
  "al_reach (al_new NULL True NULL) (no_nodes\<lparr>hp_freed := [''x'']\<rparr>, al_new NULL True NULL) {#''x''#} \<and>
   (\<exists>ns. al_rep (no_nodes\<lparr>hp_freed := [''x'']\<rparr>) (al_new NULL True NULL) ns \<and> ns = [])"
proof -
  let ?l0 = "al_new NULL True NULL :: string al_list"
  let ?n = "\<lparr>ln_prev = NULL, ln_next = NULL, ln_value = ''x''\<rparr>"
  let ?s1 = "(\<lparr>hp_nodes = [7 \<mapsto> ?n], hp_freed = []\<rparr>, ?l0\<lparr>al_tail := Ptr 7, al_head := Ptr 7, al_len := 1\<rparr>)"
  have 1: "al_exec (no_nodes, ?l0) (Add_head 7 ''x'') = Some ?s1"
    by (simp add: al_added_def listAddNodeHead_def listLinkNodeHead_def node_simps no_nodes_def al_new_def listCreate_def)
  have 2: "al_exec ?s1 (Delete_at 0) = Some (no_nodes\<lparr>hp_freed := [''x'']\<rparr>, ?l0)"
    by (simp add: al_node_def listIndex_def unlink_simps no_nodes_def al_new_def listCreate_def)
  have "al_reach ?l0 ?s1 ({#} + op_value (no_nodes, ?l0) (Add_head 7 ''x''))"
    by (rule al_reach.al_step [OF al_reach.al_init _ _ _ 1]) (simp_all add: no_nodes_def al_new_def listCreate_def)
  then have "al_reach ?l0 (no_nodes\<lparr>hp_freed := [''x'']\<rparr>, ?l0) ({#} + op_value (no_nodes, ?l0) (Add_head 7 ''x'') + op_value ?s1 (Delete_at 0))"
    by (rule al_reach.al_step [OF _ _ _ _ 2]) simp_all
  then have r: "al_reach ?l0 (no_nodes\<lparr>hp_freed := [''x'']\<rparr>, ?l0) {#''x''#}" by simp
  from adlist_invariant [OF this] show ?thesis using r by (auto simp: no_nodes_def)
qed

text \<open>
  C30: \<open>listDup\<close> of a list ends; it returns a copy at the allocated addresses with the values the
  \<open>dup\<close> method returns, or NULL when the method or the allocator failed for some node, and then
  every node of the partial copy has been released. In both cases the original list is intact.
\<close>

theorem listDup_copies:
  assumes "al_rep h orig ns" "length ns \<le> length allocs" "fresh_allocs h allocs"
  shows "\<exists>h' r. listDup True allocs h orig = Some (h', r) \<and> al_rep h' orig ns \<and>
    (case r of
       NULL \<Rightarrow> hp_nodes h' = hp_nodes h \<and> (NULL \<in> set (take (length ns) allocs) \<or> NULL \<in> dup_value orig ` snd ` set ns)
     | Ptr copy \<Rightarrow> \<exists>new. al_rep h' copy new \<and> map (Ptr \<circ> snd) new = map (dup_value orig \<circ> snd) ns \<and>
         map (Ptr \<circ> fst) new = take (length ns) allocs)"
proof -
  let ?c = "listCreate\<lparr>al_dup := al_dup orig, al_free := al_free orig, al_match := al_match orig\<rparr>"
  have c: "al_rep h ?c []" by (simp add: al_rep_def listCreate_def)
  have dv: "dup_value ?c = dup_value orig" by (simp add: dup_value_def fun_eq_iff)
  obtain h' r where dup: "listDup True allocs h orig = Some (h', r)" and r: "dup_result h ?c [] ns allocs h' r"
    using listDup_loop_rep [OF _ c, of NULL ns allocs] assms by (auto simp: listDup_def listRewind_def al_rep_def)
  show ?thesis
  proof (cases r)
    case NULL
    then show ?thesis using dup r assms(1) unfolding dup_result_def dv by (auto simp: al_rep_def)
  next
    case (Ptr copy)
    then obtain new where new: "al_rep h' copy new" "map (Ptr \<circ> snd) new = map (dup_value orig \<circ> snd) ns"
      "map (Ptr \<circ> fst) new = take (length ns) allocs" "\<forall>b. b \<notin> fst ` set new \<longrightarrow> hp_nodes h' b = hp_nodes h b"
      using r unfolding dup_result_def dv by auto
    have "fst x \<notin> fst ` set new" if "x \<in> set ns" for x
    proof
      assume "fst x \<in> fst ` set new"
      then have "Ptr (fst x) \<in> set (map (Ptr \<circ> fst) new)" by auto
      then have "Ptr (fst x) \<in> set allocs" unfolding new(3) by (rule in_set_takeD)
      then have "hp_nodes h (fst x) = None" using assms(3) by (simp add: fresh_allocs_def)
      then show False using assms(1) chain_dom [OF _ that] unfolding al_rep_def by blast
    qed
    then have "al_rep h' orig ns"
      using assms(1) chain_cong [of ns "hp_nodes h'" "hp_nodes h"] new(4) by (auto simp: al_rep_def)
    then show ?thesis using dup Ptr new by auto
  qed
qed

theorem listDup_copies_witness:
  "\<exists>h' r. listDup True [Ptr 5, NULL] \<lparr>hp_nodes = [7 \<mapsto> \<lparr>ln_prev = NULL, ln_next = NULL, ln_value = ''x''\<rparr>], hp_freed = []\<rparr>
     (al_new NULL True NULL\<lparr>al_head := Ptr 7, al_tail := Ptr 7, al_len := 1\<rparr>) = Some (h', r) \<and> r \<noteq> NULL \<and>
   al_rep h' (al_new NULL True NULL\<lparr>al_head := Ptr 7, al_tail := Ptr 7, al_len := 1\<rparr>) [(7, ''x'')]"
  using listDup_copies [of "\<lparr>hp_nodes = [7 \<mapsto> \<lparr>ln_prev = NULL, ln_next = NULL, ln_value = ''x''\<rparr>], hp_freed = []\<rparr>"
    "al_new NULL True NULL\<lparr>al_head := Ptr 7, al_tail := Ptr 7, al_len := 1\<rparr>" "[(7, ''x'')]" "[Ptr 5, NULL]"]
  by (auto simp: al_rep_def fresh_allocs_def dup_value_def al_new_def listCreate_def)

end
