(* ===== verification/Rio.thy ===== *)
theory Rio
  imports Util_Num
begin

text \<open>
  The stream layer (\<open>rio.h\<close>, \<open>rio.c\<close>). A stream is a record of the backend's functions and the
  common state; \<open>rioRead\<close> and \<open>rioWrite\<close> process the data in chunks and keep the checksum, the
  error flags and the byte count. Three backends are modelled: the in-memory buffer, the
  connection that a replica reads from, and the pipe a master writes to. What the operating system
  does on a connection or pipe is a list of events; a call that would wait for ever has no result.
\<close>

record 's rio =
  rio_read :: "'s \<Rightarrow> nat \<Rightarrow> (buf nullable \<times> 's) option"
  rio_write :: "'s \<Rightarrow> buf \<Rightarrow> (bool \<times> 's) option"
  rio_update_cksum :: "(64 word \<Rightarrow> buf \<Rightarrow> 64 word) nullable"
  rio_cksum :: "64 word"
  rio_read_error :: bool
  rio_write_error :: bool
  rio_processed :: nat
  rio_chunk :: nat
  rio_io :: 's

text \<open>The chunk of \<open>len\<close> bytes that is processed next.\<close>

definition rio_next :: "'s rio \<Rightarrow> nat \<Rightarrow> nat" where
  "rio_next r len = (if rio_chunk r \<noteq> 0 \<and> rio_chunk r < len then rio_chunk r else len)"

definition rio_sum :: "'s rio \<Rightarrow> buf \<Rightarrow> 's rio" where
  "rio_sum r b = (case rio_update_cksum r of NULL \<Rightarrow> r | Ptr f \<Rightarrow> r\<lparr>rio_cksum := f (rio_cksum r) b\<rparr>)"

lemma rio_next_pos: "0 < len \<Longrightarrow> 0 < rio_next r len"
  by (simp add: rio_next_def)

lemma rio_next_le: "rio_next r len \<le> len"
  by (simp add: rio_next_def)

function rioWrite_loop :: "'s rio \<Rightarrow> buf \<Rightarrow> (bool \<times> 's rio) option" where
  "rioWrite_loop r b =
     (if b = [] then Some (True, r)
      else (let n = rio_next r (length b); r = rio_sum r (take n b) in
        case rio_write r (rio_io r) (take n b) of
          None \<Rightarrow> None
        | Some (ok, io) \<Rightarrow>
            if \<not> ok then Some (False, r\<lparr>rio_io := io, rio_write_error := True\<rparr>)
            else rioWrite_loop (r\<lparr>rio_io := io, rio_processed := (rio_processed r + n) mod 18446744073709551616\<rparr>) (drop n b)))"
  by pat_completeness auto
termination
  by (relation "measure (\<lambda>(r, b). length b)") (auto simp: rio_next_pos)

declare rioWrite_loop.simps [simp del]

definition rioWrite :: "'s rio \<Rightarrow> buf \<Rightarrow> (bool \<times> 's rio) option" where
  "rioWrite r b = (if rio_write_error r then Some (False, r) else rioWrite_loop r b)"

text \<open>The bytes read so far are the third argument; \<open>NULL\<close> is the return value 0.\<close>

function rioRead_loop :: "'s rio \<Rightarrow> nat \<Rightarrow> buf \<Rightarrow> (buf nullable \<times> 's rio) option" where
  "rioRead_loop r len acc =
     (if len = 0 then Some (Ptr acc, r)
      else (let n = rio_next r len in
        case rio_read r (rio_io r) n of
          None \<Rightarrow> None
        | Some (NULL, io) \<Rightarrow> Some (NULL, r\<lparr>rio_io := io, rio_read_error := True\<rparr>)
        | Some (Ptr b, io) \<Rightarrow>
            rioRead_loop ((rio_sum (r\<lparr>rio_io := io\<rparr>) b)\<lparr>rio_processed := (rio_processed r + n) mod 18446744073709551616\<rparr>)
              (len - n) (acc @ b)))"
  by pat_completeness auto
termination
  by (relation "measure (\<lambda>(r, len, acc). len)") (auto simp: rio_next_pos)

declare rioRead_loop.simps [simp del]

definition rioRead :: "'s rio \<Rightarrow> nat \<Rightarrow> (buf nullable \<times> 's rio) option" where
  "rioRead r len = (if rio_read_error r then Some (NULL, r) else rioRead_loop r len [])"


subsection \<open>The buffer backend\<close>

record rio_buffer =
  rb_ptr :: buf
  rb_pos :: nat

definition rioBufferWrite :: "rio_buffer \<Rightarrow> buf \<Rightarrow> (bool \<times> rio_buffer) option" where
  "rioBufferWrite s b = Some (True, s\<lparr>rb_ptr := rb_ptr s @ b, rb_pos := rb_pos s + length b\<rparr>)"

definition rioBufferRead :: "rio_buffer \<Rightarrow> nat \<Rightarrow> (buf nullable \<times> rio_buffer) option" where
  "rioBufferRead s len =
     (if sub64 (length (rb_ptr s)) (rb_pos s) < len then Some (NULL, s)
      else do {
        b \<leftarrow> rd_range (rb_ptr s) (rb_pos s) len;
        Some (Ptr b, s\<lparr>rb_pos := rb_pos s + len\<rparr>) })"

definition rioBufferTell :: "rio_buffer \<Rightarrow> nat" where
  "rioBufferTell s = rb_pos s"

definition rioBufferIO :: "rio_buffer rio" where
  "rioBufferIO = \<lparr>rio_read = rioBufferRead, rio_write = rioBufferWrite, rio_update_cksum = NULL, rio_cksum = 0,
     rio_read_error = False, rio_write_error = False, rio_processed = 0, rio_chunk = 0,
     rio_io = \<lparr>rb_ptr = [], rb_pos = 0\<rparr>\<rparr>"

definition rioInitWithBuffer :: "buf \<Rightarrow> rio_buffer rio" where
  "rioInitWithBuffer s = rioBufferIO\<lparr>rio_io := \<lparr>rb_ptr = s, rb_pos = 0\<rparr>\<rparr>"


subsection \<open>The connection backend\<close>

text \<open>What the next reads of the connection meet: available data, a retryable error, the end, an error.\<close>

datatype conn_event = Chunk buf | Retry | Closed | Failed

record rio_conn =
  rc_events :: "conn_event list"
  rc_pos :: nat
  rc_buf :: buf
  rc_cap :: nat
  rc_limit :: nat
  rc_so_far :: nat

abbreviation PROTO_IOBUF_LEN :: nat where "PROTO_IOBUF_LEN \<equiv> 16384"

text \<open>
  The capacity of an \<open>sds\<close> of length \<open>len\<close> and capacity \<open>cap\<close> after \<open>sdsMakeRoomFor\<close>; the allocator
  may give more than was asked for (\<open>usable\<close>).
\<close>

definition sdsMakeRoomFor_cap :: "(nat \<Rightarrow> nat) \<Rightarrow> nat \<Rightarrow> nat \<Rightarrow> nat \<Rightarrow> nat" where
  "sdsMakeRoomFor_cap usable len cap addlen =
     (if addlen \<le> cap - len then cap
      else (let newlen = len + addlen
            in usable (if newlen < 1048576 then newlen * 2 else newlen + 1048576)))"

text \<open>How much one read asks for.\<close>

definition rioConn_toread :: "rio_conn \<Rightarrow> nat \<Rightarrow> nat" where
  "rioConn_toread s len =
     (let buffered = length (rc_buf s) - rc_pos s;
          needs = len - buffered;
          toread = (if needs < PROTO_IOBUF_LEN then PROTO_IOBUF_LEN else needs);
          toread = (if rc_cap s - length (rc_buf s) < toread then rc_cap s - length (rc_buf s) else toread)
      in if rc_limit s \<noteq> 0 \<and> rc_limit s < rc_so_far s + buffered + toread
         then rc_limit s - rc_so_far s - buffered else toread)"

text \<open>The loop that fills the buffer: whether enough was read, and the state.\<close>

fun events_size :: "conn_event list \<Rightarrow> nat" where
  "events_size [] = 0"
| "events_size (Chunk b # es) = length b + 1 + events_size es"
| "events_size (_ # es) = 1 + events_size es"

function rioConn_fill :: "conn_event list \<Rightarrow> rio_conn \<Rightarrow> nat \<Rightarrow> (bool \<times> rio_conn) option" where
  "rioConn_fill evs s len =
     (if length (rc_buf s) - rc_pos s < len then
        (case evs of
           [] \<Rightarrow> None
         | Chunk b # es \<Rightarrow>
             (let got = take (rioConn_toread s len) b; left = drop (rioConn_toread s len) b in
              if got = [] then Some (False, s\<lparr>rc_events := es\<rparr>)
              else rioConn_fill (if left = [] then es else Chunk left # es) (s\<lparr>rc_buf := rc_buf s @ got\<rparr>) len)
         | Closed # es \<Rightarrow> Some (False, s\<lparr>rc_events := es\<rparr>)
         | Retry # es \<Rightarrow> rioConn_fill es s len
         | Failed # es \<Rightarrow> Some (False, s\<lparr>rc_events := es\<rparr>))
      else Some (True, s\<lparr>rc_events := evs\<rparr>))"
  by pat_completeness auto
termination
  by (relation "measure (\<lambda>(evs, s, len). events_size evs)") (auto simp: neq_Nil_conv)

declare rioConn_fill.simps [simp del]

definition rioConnRead :: "(nat \<Rightarrow> nat) \<Rightarrow> rio_conn \<Rightarrow> nat \<Rightarrow> (buf nullable \<times> rio_conn) option" where
  "rioConnRead usable s len =
     (let avail = length (rc_buf s) - rc_pos s;
          s = (if rc_cap s < len
               then s\<lparr>rc_cap := sdsMakeRoomFor_cap usable (length (rc_buf s)) (rc_cap s) (len - length (rc_buf s))\<rparr> else s);
          s = (if avail < len \<and> rc_cap s - length (rc_buf s) < len - avail
               then s\<lparr>rc_buf := drop (rc_pos s) (rc_buf s), rc_pos := 0\<rparr> else s)
      in if rc_limit s \<noteq> 0 \<and> rc_limit s < rc_so_far s + len then Some (NULL, s)
         else do {
           (ok, s) \<leftarrow> rioConn_fill (rc_events s) s len;
           if \<not> ok then Some (NULL, s)
           else do {
             b \<leftarrow> rd_range (rc_buf s) (rc_pos s) len;
             Some (Ptr b, s\<lparr>rc_so_far := rc_so_far s + len, rc_pos := rc_pos s + len\<rparr>) } })"

definition rioConnWrite :: "rio_conn \<Rightarrow> buf \<Rightarrow> (bool \<times> rio_conn) option" where
  "rioConnWrite s b = Some (False, s)"

definition rioConnTell :: "rio_conn \<Rightarrow> nat" where
  "rioConnTell s = rc_so_far s"

definition rioConnIO :: "(nat \<Rightarrow> nat) \<Rightarrow> rio_conn \<Rightarrow> rio_conn rio" where
  "rioConnIO usable s = \<lparr>rio_read = rioConnRead usable, rio_write = rioConnWrite, rio_update_cksum = NULL, rio_cksum = 0,
     rio_read_error = False, rio_write_error = False, rio_processed = 0, rio_chunk = 0, rio_io = s\<rparr>"

definition rioInitWithConn :: "(nat \<Rightarrow> nat) \<Rightarrow> conn_event list \<Rightarrow> nat \<Rightarrow> rio_conn rio" where
  "rioInitWithConn usable evs read_limit = rioConnIO usable
     \<lparr>rc_events = evs, rc_pos = 0, rc_buf = [], rc_cap = usable PROTO_IOBUF_LEN, rc_limit = read_limit, rc_so_far = 0\<rparr>"

text \<open>The unread data handed back when the stream is released.\<close>

definition rioFreeConn :: "rio_conn \<Rightarrow> buf nullable" where
  "rioFreeConn s = (if rc_pos s < length (rc_buf s) then Ptr (drop (rc_pos s) (rc_buf s)) else NULL)"


subsection \<open>The pipe backend\<close>

text \<open>The results of \<open>write\<close>: some bytes accepted, an interrupted call, an error.\<close>

datatype fd_event = Accept nat | Interrupted | Write_failed

record rio_fd =
  rf_events :: "fd_event list"
  rf_sent :: buf
  rf_pos :: nat
  rf_buf :: buf

fun rioFd_send :: "fd_event list \<Rightarrow> rio_fd \<Rightarrow> buf \<Rightarrow> (bool \<times> rio_fd) option" where
  "rioFd_send evs s p =
     (if p = [] then Some (True, s\<lparr>rf_events := evs\<rparr>)
      else (case evs of
         [] \<Rightarrow> None
       | Accept n # es \<Rightarrow>
           if n = 0 then Some (False, s\<lparr>rf_events := es\<rparr>)
           else rioFd_send es (s\<lparr>rf_sent := rf_sent s @ take n p\<rparr>) (drop n p)
       | Interrupted # es \<Rightarrow> rioFd_send es s p
       | Write_failed # es \<Rightarrow> Some (False, s\<lparr>rf_events := es\<rparr>)))"

declare rioFd_send.simps [simp del]

text \<open>Sending the pending buffer, and the common end of \<open>rioFdWrite\<close>.\<close>

definition rioFdFlush :: "rio_fd \<Rightarrow> (bool \<times> rio_fd) option" where
  "rioFdFlush s = do {
     (ok, s') \<leftarrow> rioFd_send (rf_events s) s (rf_buf s);
     if ok then Some (True, s'\<lparr>rf_pos := rf_pos s' + length (rf_buf s), rf_buf := []\<rparr>) else Some (False, s') }"

definition rioFdWrite :: "rio_fd \<Rightarrow> buf \<Rightarrow> (bool \<times> rio_fd) option" where
  "rioFdWrite s b =
     (if PROTO_IOBUF_LEN < length b then do {
        (ok, s) \<leftarrow> (if rf_buf s \<noteq> [] then rioFdFlush s else Some (True, s));
        if \<not> ok then Some (False, s)
        else do {
          (ok, s) \<leftarrow> rioFd_send (rf_events s) s b;
          if ok then Some (True, s\<lparr>rf_pos := rf_pos s + length b, rf_buf := []\<rparr>) else Some (False, s) } }
      else if b \<noteq> [] then
        (let s = s\<lparr>rf_buf := rf_buf s @ b\<rparr> in
         if PROTO_IOBUF_LEN < length (rf_buf s) then rioFdFlush s else Some (True, s))
      else rioFdFlush s)"

definition rioFdRead :: "rio_fd \<Rightarrow> nat \<Rightarrow> (buf nullable \<times> rio_fd) option" where
  "rioFdRead s len = Some (NULL, s)"

definition rioFdTell :: "rio_fd \<Rightarrow> nat" where
  "rioFdTell s = rf_pos s"

definition rioFdIO :: "rio_fd \<Rightarrow> rio_fd rio" where
  "rioFdIO s = \<lparr>rio_read = rioFdRead, rio_write = rioFdWrite, rio_update_cksum = NULL, rio_cksum = 0,
     rio_read_error = False, rio_write_error = False, rio_processed = 0, rio_chunk = 0, rio_io = s\<rparr>"

definition rioInitWithFd :: "fd_event list \<Rightarrow> rio_fd rio" where
  "rioInitWithFd evs = rioFdIO \<lparr>rf_events = evs, rf_sent = [], rf_pos = 0, rf_buf = []\<rparr>"


subsection \<open>Bulk strings of the append only file\<close>

text \<open>The block \<open>cbuf\<close> of 128 bytes starts with arbitrary contents. A count is a \<open>long\<close>.\<close>

definition rioWriteBulkCount :: "buf \<Rightarrow> 's rio \<Rightarrow> byte \<Rightarrow> int \<Rightarrow> (nat \<times> 's rio) option" where
  "rioWriteBulkCount cbuf r prefix count = do {
     cbuf \<leftarrow> wr cbuf 0 prefix;
     (n, rest) \<leftarrow> ll2string (drop 1 cbuf) (length cbuf - 1) count;
     let cbuf = take 1 cbuf @ rest;
     let clen = 1 + n;
     cbuf \<leftarrow> wr cbuf clen 13;
     cbuf \<leftarrow> wr cbuf (clen + 1) 10;
     b \<leftarrow> rd_range cbuf 0 (clen + 2);
     (ok, r) \<leftarrow> rioWrite r b;
     Some (if ok then clen + 2 else 0, r) }"

definition rioWriteBulkString :: "buf \<Rightarrow> 's rio \<Rightarrow> buf \<Rightarrow> (nat \<times> 's rio) option" where
  "rioWriteBulkString cbuf r b = do {
     (nwritten, r) \<leftarrow> rioWriteBulkCount cbuf r 36 (int (length b));
     if nwritten = 0 then Some (0, r)
     else do {
       (ok, r) \<leftarrow> (if 0 < length b then rioWrite r b else Some (True, r));
       if \<not> ok then Some (0, r)
       else do {
         (ok, r) \<leftarrow> rioWrite r [13, 10];
         if \<not> ok then Some (0, r) else Some (nwritten + length b + 2, r) } } }"

definition rioWriteBulkLongLong :: "buf \<Rightarrow> buf \<Rightarrow> 's rio \<Rightarrow> int \<Rightarrow> (nat \<times> 's rio) option" where
  "rioWriteBulkLongLong lbuf cbuf r l = do {
     (llen, lbuf) \<leftarrow> ll2string lbuf 32 l;
     b \<leftarrow> rd_range lbuf 0 llen;
     rioWriteBulkString cbuf r b }"


subsection \<open>The contracts of a backend\<close>

text \<open>
  A source delivers the bytes of \<open>contents\<close> in order. A sink that reports success has appended the
  bytes to \<open>written\<close>; a reliable sink always succeeds.
\<close>

definition rio_source ::
  "('s \<Rightarrow> nat \<Rightarrow> (buf nullable \<times> 's) option) \<Rightarrow> ('s \<Rightarrow> bool) \<Rightarrow> ('s \<Rightarrow> buf) \<Rightarrow> 's rio \<Rightarrow> buf \<Rightarrow> bool" where
  "rio_source read invar contents r xs \<longleftrightarrow>
     rio_read r = read \<and> \<not> rio_read_error r \<and> invar (rio_io r) \<and> contents (rio_io r) = xs"

definition rio_sink ::
  "('s \<Rightarrow> buf \<Rightarrow> (bool \<times> 's) option) \<Rightarrow> ('s \<Rightarrow> bool) \<Rightarrow> ('s \<Rightarrow> buf) \<Rightarrow> 's rio \<Rightarrow> buf \<Rightarrow> bool" where
  "rio_sink put invar written r xs \<longleftrightarrow> rio_write r = put \<and> invar (rio_io r) \<and> written (rio_io r) = xs"

lemma rio_sum_simps [simp]:
  "rio_read (rio_sum r b) = rio_read r" "rio_write (rio_sum r b) = rio_write r" "rio_io (rio_sum r b) = rio_io r"
  "rio_read_error (rio_sum r b) = rio_read_error r" "rio_write_error (rio_sum r b) = rio_write_error r"
  "rio_chunk (rio_sum r b) = rio_chunk r" "rio_processed (rio_sum r b) = rio_processed r"
  "rio_update_cksum (rio_sum r b) = rio_update_cksum r"
  by (simp_all add: rio_sum_def split: nullable.split)

locale byte_source =
  fixes read :: "'s \<Rightarrow> nat \<Rightarrow> (buf nullable \<times> 's) option"
    and invar :: "'s \<Rightarrow> bool"
    and contents :: "'s \<Rightarrow> buf"
  assumes read_law: "invar s \<Longrightarrow> 0 < n \<Longrightarrow> n \<le> length (contents s) \<Longrightarrow>
    \<exists>s'. read s n = Some (Ptr (take n (contents s)), s') \<and> invar s' \<and> contents s' = drop n (contents s)"
begin

lemma rioRead_loop_delivers:
  "rio_source read invar contents r (xs @ ys) \<Longrightarrow>
   \<exists>r'. rioRead_loop r (length xs) acc = Some (Ptr (acc @ xs), r') \<and> rio_source read invar contents r' ys"
proof (induction "length xs" arbitrary: r xs acc rule: less_induct)
  case less
  show ?case
  proof (cases "xs = []")
    case True
    then show ?thesis using less.prems by (simp add: rioRead_loop.simps)
  next
    case False
    let ?n = "rio_next r (length xs)"
    have n: "0 < ?n" "?n \<le> length xs" using False rio_next_pos rio_next_le by auto
    have src: "invar (rio_io r)" "contents (rio_io r) = xs @ ys" "rio_read r = read" "\<not> rio_read_error r"
      using less.prems by (auto simp: rio_source_def)
    obtain s where s: "read (rio_io r) ?n = Some (Ptr (take ?n xs), s)" "invar s" "contents s = drop ?n xs @ ys"
      using read_law [OF src(1) n(1)] n(2) src(2) by auto
    let ?r = "(rio_sum (r\<lparr>rio_io := s\<rparr>) (take ?n xs))\<lparr>rio_processed := (rio_processed r + ?n) mod 18446744073709551616\<rparr>"
    have "rio_source read invar contents ?r (drop ?n xs @ ys)" using src s by (simp add: rio_source_def)
    then obtain r' where "rioRead_loop ?r (length (drop ?n xs)) (acc @ take ?n xs) = Some (Ptr (acc @ take ?n xs @ drop ?n xs), r')"
      "rio_source read invar contents r' ys"
      using less.hyps [of "drop ?n xs" ?r "acc @ take ?n xs"] n False by auto
    moreover have "rioRead_loop r (length xs) acc = rioRead_loop ?r (length xs - ?n) (acc @ take ?n xs)"
      using False s(1) src(3) by (subst rioRead_loop.simps) (simp add: Let_def)
    ultimately show ?thesis by simp
  qed
qed

text \<open>Reading in chunks of any size delivers the next bytes and leaves the rest.\<close>

lemma rioRead_delivers:
  "rio_source read invar contents r (xs @ ys) \<Longrightarrow>
   \<exists>r'. rioRead r (length xs) = Some (Ptr xs, r') \<and> rio_source read invar contents r' ys"
  using rioRead_loop_delivers [of r xs ys "[]"] by (simp add: rioRead_def rio_source_def)

end

locale byte_sink =
  fixes put :: "'s \<Rightarrow> buf \<Rightarrow> (bool \<times> 's) option"
    and invar :: "'s \<Rightarrow> bool"
    and written :: "'s \<Rightarrow> buf"
  assumes write_law: "invar s \<Longrightarrow> b \<noteq> [] \<Longrightarrow> put s b = Some (ok, s') \<Longrightarrow> invar s' \<and> (ok \<longrightarrow> written s' = written s @ b)"
begin

lemma rioWrite_loop_appends:
  "rio_sink put invar written r xs \<Longrightarrow> rioWrite_loop r b = Some (True, r') \<Longrightarrow> rio_sink put invar written r' (xs @ b)"
proof (induction "length b" arbitrary: r xs b rule: less_induct)
  case less
  show ?case
  proof (cases "b = []")
    case True
    then show ?thesis using less.prems by (simp add: rioWrite_loop.simps)
  next
    case False
    let ?n = "rio_next r (length b)"
    have n: "0 < ?n" "?n \<le> length b" using False rio_next_pos rio_next_le by auto
    have snk: "rio_write r = put" "invar (rio_io r)" "written (rio_io r) = xs" using less.prems by (auto simp: rio_sink_def)
    obtain io where io: "put (rio_io r) (take ?n b) = Some (True, io)"
      "rioWrite_loop ((rio_sum r (take ?n b))\<lparr>rio_io := io, rio_processed := (rio_processed r + ?n) mod 18446744073709551616\<rparr>) (drop ?n b) = Some (True, r')"
      using less.prems(2) False snk(1) by (subst (asm) rioWrite_loop.simps) (auto simp: Let_def split: option.splits if_splits)
    then have "rio_sink put invar written r' ((xs @ take ?n b) @ drop ?n b)"
      using less.hyps [OF _ _ io(2)] write_law [OF snk(2) _ io(1)] n False snk by (auto simp: rio_sink_def)
    then show ?thesis by simp
  qed
qed

text \<open>A write that reports success has appended its bytes, whatever the chunk size.\<close>

lemma rioWrite_appends:
  "rio_sink put invar written r xs \<Longrightarrow> rioWrite r b = Some (True, r') \<Longrightarrow> rio_sink put invar written r' (xs @ b)"
  by (auto simp: rioWrite_def rioWrite_loop_appends split: if_splits)

end

locale reliable_sink = byte_sink +
  assumes write_ok: "invar s \<Longrightarrow> \<exists>s'. put s b = Some (True, s')"
begin

lemma rioWrite_loop_succeeds:
  "rio_sink put invar written r xs \<Longrightarrow> \<not> rio_write_error r \<Longrightarrow> \<exists>r'. rioWrite_loop r b = Some (True, r') \<and> \<not> rio_write_error r'"
proof (induction "length b" arbitrary: r xs b rule: less_induct)
  case less
  show ?case
  proof (cases "b = []")
    case True
    then show ?thesis using less.prems by (simp add: rioWrite_loop.simps)
  next
    case False
    let ?n = "rio_next r (length b)"
    have n: "0 < ?n" "?n \<le> length b" using False rio_next_pos rio_next_le by auto
    have snk: "rio_write r = put" "invar (rio_io r)" "written (rio_io r) = xs" using less.prems by (auto simp: rio_sink_def)
    obtain io where io: "put (rio_io r) (take ?n b) = Some (True, io)" using write_ok [OF snk(2)] by blast
    let ?r = "(rio_sum r (take ?n b))\<lparr>rio_io := io, rio_processed := (rio_processed r + ?n) mod 18446744073709551616\<rparr>"
    have "rio_sink put invar written ?r (xs @ take ?n b)"
      using write_law [OF snk(2) _ io] n False snk by (auto simp: rio_sink_def)
    then have "\<exists>r'. rioWrite_loop ?r (drop ?n b) = Some (True, r') \<and> \<not> rio_write_error r'"
      using less.hyps [of "drop ?n b" ?r] less.prems(2) n False by auto
    then show ?thesis using False io snk(1) by (subst rioWrite_loop.simps) (simp add: Let_def)
  qed
qed

lemma rioWrite_succeeds:
  assumes "rio_sink put invar written r xs" "\<not> rio_write_error r"
  shows "\<exists>r'. rioWrite r b = Some (True, r') \<and> rio_sink put invar written r' (xs @ b) \<and> \<not> rio_write_error r'"
  using rioWrite_loop_succeeds [OF assms, of b] rioWrite_loop_appends [OF assms(1)] assms(2) by (auto simp: rioWrite_def)

end


subsection \<open>The backends meet the contracts\<close>

definition rb_inv :: "rio_buffer \<Rightarrow> bool" where
  "rb_inv s \<longleftrightarrow> rb_pos s \<le> length (rb_ptr s) \<and> length (rb_ptr s) < 18446744073709551616"

definition rb_contents :: "rio_buffer \<Rightarrow> buf" where
  "rb_contents s = drop (rb_pos s) (rb_ptr s)"

interpretation buffer_src: byte_source rioBufferRead rb_inv rb_contents
  by unfold_locales (auto simp: rioBufferRead_def rb_inv_def rb_contents_def rd_range_def add.commute)

interpretation buffer_snk: reliable_sink rioBufferWrite "\<lambda>_. True" rb_ptr
  by unfold_locales (auto simp: rioBufferWrite_def)

text \<open>The pipe: what was accepted and what is pending.\<close>

lemma rioFd_send_sends:
  "rioFd_send evs s p = Some (ok, s') \<Longrightarrow>
   rf_buf s' = rf_buf s \<and> rf_pos s' = rf_pos s \<and> (ok \<longrightarrow> rf_sent s' = rf_sent s @ p)"
proof (induction evs arbitrary: s p)
  case Nil
  then show ?case by (subst (asm) rioFd_send.simps) (auto split: if_splits)
next
  case (Cons e evs)
  show ?case
  proof (cases "p = []")
    case True
    then show ?thesis using Cons.prems by (subst (asm) rioFd_send.simps) auto
  next
    case False
    note step = Cons.prems [unfolded rioFd_send.simps [of "e # evs"] if_not_P [OF False] list.case]
    show ?thesis
    proof (cases e)
      case (Accept n)
      show ?thesis
      proof (cases "n = 0")
        case False
        from Cons.IH [of "s\<lparr>rf_sent := rf_sent s @ take n p\<rparr>" "drop n p"] step show ?thesis
          by (simp add: Accept False)
      qed (use step in \<open>auto simp: Accept\<close>)
    next
      case Interrupted
      then show ?thesis using Cons.IH [of s p] step by simp
    next
      case Write_failed
      then show ?thesis using step by auto
    qed
  qed
qed

definition rf_written :: "rio_fd \<Rightarrow> buf" where
  "rf_written s = rf_sent s @ rf_buf s"

lemma rioFdFlush_written:
  assumes "rioFdFlush s = Some (True, s')"
  shows "rf_written s' = rf_written s \<and> rf_buf s' = []"
proof -
  obtain ok1 s1 where s1: "rioFd_send (rf_events s) s (rf_buf s) = Some (ok1, s1)"
    "(if ok1 then Some (True, s1\<lparr>rf_pos := rf_pos s1 + length (rf_buf s), rf_buf := []\<rparr>) else Some (False, s1)) = Some (True, s')"
    using assms by (auto simp: rioFdFlush_def bind_eq_Some_conv)
  then have "ok1" "s' = s1\<lparr>rf_pos := rf_pos s1 + length (rf_buf s), rf_buf := []\<rparr>" by (auto split: if_splits)
  then show ?thesis using rioFd_send_sends [OF s1(1)] by (simp add: rf_written_def)
qed

lemma rioFdWrite_written:
  assumes "b \<noteq> []" "rioFdWrite s b = Some (True, s')"
  shows "rf_written s' = rf_written s @ b"
proof (cases "PROTO_IOBUF_LEN < length b")
  case True
  let ?send = "\<lambda>s1. do {
      (ok, s) \<leftarrow> rioFd_send (rf_events s1) s1 b;
      if ok then Some (True, s\<lparr>rf_pos := rf_pos s + length b, rf_buf := []\<rparr>) else Some (False, s) }"
  obtain s1 where s1: "s1 = s \<and> rf_buf s = [] \<or> rioFdFlush s = Some (True, s1)" and "?send s1 = Some (True, s')"
  proof (cases "rf_buf s = []")
    case empty: True
    then show thesis using that [of s] assms(2) True by (simp add: rioFdWrite_def)
  next
    case False
    then obtain ok1 s1 where f: "rioFdFlush s = Some (ok1, s1)" "(if \<not> ok1 then Some (False, s1) else ?send s1) = Some (True, s')"
      using assms(2) True by (auto simp: rioFdWrite_def bind_eq_Some_conv)
    then show thesis using that [of s1] by (cases ok1) auto
  qed
  then obtain ok2 s2 where s2: "rioFd_send (rf_events s1) s1 b = Some (ok2, s2)"
    "(if ok2 then Some (True, s2\<lparr>rf_pos := rf_pos s2 + length b, rf_buf := []\<rparr>) else Some (False, s2)) = Some (True, s')"
    by (auto simp: bind_eq_Some_conv)
  then have "ok2" "s' = s2\<lparr>rf_pos := rf_pos s2 + length b, rf_buf := []\<rparr>" by (auto split: if_splits)
  moreover have "rf_written s1 = rf_written s" "rf_buf s1 = []" using s1 rioFdFlush_written [of s s1] by auto
  ultimately show ?thesis using rioFd_send_sends [OF s2(1)] by (simp add: rf_written_def)
next
  case False
  let ?s = "s\<lparr>rf_buf := rf_buf s @ b\<rparr>"
  have "rioFdWrite s b = (if PROTO_IOBUF_LEN < length (rf_buf ?s) then rioFdFlush ?s else Some (True, ?s))"
    using False assms(1) by (simp add: rioFdWrite_def Let_def)
  then show ?thesis using assms(2) rioFdFlush_written [of ?s s'] by (auto simp: rf_written_def split: if_splits)
qed

interpretation fd_snk: byte_sink rioFdWrite "\<lambda>_. True" rf_written
proof unfold_locales
  fix s b ok s'
  assume "b \<noteq> []" "rioFdWrite s b = Some (ok, s')"
  then show "True \<and> (ok \<longrightarrow> rf_written s' = rf_written s @ b)"
    using rioFdWrite_written [of b s s'] by (cases ok) simp_all
qed

text \<open>The connection: the bytes that arrive before the end or an error.\<close>

fun net_bytes :: "conn_event list \<Rightarrow> buf" where
  "net_bytes [] = []"
| "net_bytes (Chunk b # es) = b @ net_bytes es"
| "net_bytes (Retry # es) = net_bytes es"
| "net_bytes (_ # es) = []"

definition rc_all :: "rio_conn \<Rightarrow> buf" where
  "rc_all s = drop (rc_pos s) (rc_buf s) @ net_bytes (rc_events s)"

definition rc_contents :: "rio_conn \<Rightarrow> buf" where
  "rc_contents s = (if rc_limit s = 0 then rc_all s else take (rc_limit s - rc_so_far s) (rc_all s))"

definition rc_inv :: "rio_conn \<Rightarrow> bool" where
  "rc_inv s \<longleftrightarrow> rc_pos s \<le> length (rc_buf s) \<and> length (rc_buf s) \<le> rc_cap s \<and> Chunk [] \<notin> set (rc_events s)"

lemma rioConn_toread_pos:
  assumes "length (rc_buf s) - rc_pos s < len" "len - (length (rc_buf s) - rc_pos s) \<le> rc_cap s - length (rc_buf s)"
    "rc_limit s = 0 \<or> rc_so_far s + len \<le> rc_limit s" "length (rc_buf s) \<le> rc_cap s"
  shows "0 < rioConn_toread s len" "rioConn_toread s len \<le> rc_cap s - length (rc_buf s)"
proof -
  define B where "B = length (rc_buf s) - rc_pos s"
  define room where "room = rc_cap s - length (rc_buf s)"
  show "0 < rioConn_toread s len" "rioConn_toread s len \<le> rc_cap s - length (rc_buf s)"
    using assms unfolding rioConn_toread_def Let_def B_def [symmetric] room_def [symmetric] by auto
qed

lemma rioConn_fill_fills:
  assumes "rc_pos s \<le> length (rc_buf s)" "length (rc_buf s) \<le> rc_cap s" "Chunk [] \<notin> set evs"
    "len \<le> length (drop (rc_pos s) (rc_buf s) @ net_bytes evs)"
    "len - (length (rc_buf s) - rc_pos s) \<le> rc_cap s - length (rc_buf s)"
    "rc_limit s = 0 \<or> rc_so_far s + len \<le> rc_limit s"
  shows "\<exists>es b. rioConn_fill evs s len = Some (True, s\<lparr>rc_events := es, rc_buf := rc_buf s @ b\<rparr>) \<and>
    net_bytes evs = b @ net_bytes es \<and> length (rc_buf s @ b) \<le> rc_cap s \<and> Chunk [] \<notin> set es \<and>
    len \<le> length (rc_buf s @ b) - rc_pos s"
  using assms
proof (induction "events_size evs" arbitrary: evs s rule: less_induct)
  case less
  show ?case
  proof (cases "length (rc_buf s) - rc_pos s < len")
    case False
    then have "rioConn_fill evs s len = Some (True, s\<lparr>rc_events := evs, rc_buf := rc_buf s @ []\<rparr>)"
      by (subst rioConn_fill.simps) simp
    then show ?thesis using less.prems False by (intro exI [of _ evs] exI [of _ "[]"]) simp
  next
    case True
    then have ne: "net_bytes evs \<noteq> []" using less.prems(4) by auto
    then obtain e es where evs: "evs = e # es" by (cases evs) auto
    note tr = rioConn_toread_pos [OF True less.prems(5,6,2)]
    show ?thesis
    proof (cases e)
      case (Chunk d)
      let ?t = "rioConn_toread s len"
      let ?got = "take ?t d" and ?left = "drop ?t d"
      let ?es = "if ?left = [] then es else Chunk ?left # es"
      let ?s = "s\<lparr>rc_buf := rc_buf s @ ?got\<rparr>"
      have d: "d \<noteq> []" using less.prems(3) by (auto simp: evs Chunk)
      then have got: "?got \<noteq> []" using tr(1) by simp
      have nb: "net_bytes evs = ?got @ net_bytes ?es" by (simp add: evs Chunk append_assoc [symmetric] del: append_assoc)
      have "length ?got + (length ?left) = length d" by simp
      then have sz: "events_size ?es < events_size evs" using got by (auto simp: evs Chunk neq_Nil_conv)
      have g: "length ?got \<le> rc_cap s - length (rc_buf s)" using tr(2) by simp
      have l4: "len \<le> length (drop (rc_pos ?s) (rc_buf ?s) @ net_bytes ?es)"
        using less.prems(1,4) unfolding nb by simp
      have l5: "len - (length (rc_buf ?s) - rc_pos ?s) \<le> rc_cap ?s - length (rc_buf ?s)"
        using less.prems(1,2,5) g by simp
      have c: "Chunk [] \<notin> set ?es" using less.prems(3) by (auto simp: evs)
      have "\<exists>es' b. rioConn_fill ?es ?s len = Some (True, ?s\<lparr>rc_events := es', rc_buf := rc_buf ?s @ b\<rparr>) \<and>
          net_bytes ?es = b @ net_bytes es' \<and> length (rc_buf ?s @ b) \<le> rc_cap ?s \<and> Chunk [] \<notin> set es' \<and>
          len \<le> length (rc_buf ?s @ b) - rc_pos ?s"
        by (rule less.hyps [OF sz _ _ c l4 l5]) (use less.prems g in auto)
      then obtain es' b where r: "rioConn_fill ?es ?s len = Some (True, ?s\<lparr>rc_events := es', rc_buf := rc_buf ?s @ b\<rparr>)"
          "net_bytes ?es = b @ net_bytes es'" "length (rc_buf ?s @ b) \<le> rc_cap ?s" "Chunk [] \<notin> set es'"
          "len \<le> length (rc_buf ?s @ b) - rc_pos ?s" by blast
      have f: "rioConn_fill evs s len = rioConn_fill ?es ?s len"
        using True got by (subst rioConn_fill.simps) (simp add: evs Chunk Let_def)
      show ?thesis unfolding f nb using r by (intro exI [of _ es'] exI [of _ "?got @ b"]) simp
    next
      case Retry
      have "rioConn_fill evs s len = rioConn_fill es s len" using True by (subst rioConn_fill.simps) (simp add: evs Retry)
      then show ?thesis using less.hyps [of es s] less.prems by (simp add: evs Retry)
    qed (use ne evs in auto)
  qed
qed

lemma rioConnRead_delivers:
  assumes usable: "\<And>n. n \<le> usable n" and inv: "rc_inv s" and n: "n \<le> length (rc_contents s)" "0 < n"
  shows "\<exists>s'. rioConnRead usable s n = Some (Ptr (take n (rc_contents s)), s') \<and> rc_inv s' \<and>
    rc_contents s' = drop n (rc_contents s)"
proof -
  let ?avail = "length (rc_buf s) - rc_pos s"
  define s1 where "s1 = (if rc_cap s < n
      then s\<lparr>rc_cap := sdsMakeRoomFor_cap usable (length (rc_buf s)) (rc_cap s) (n - length (rc_buf s))\<rparr> else s)"
  define s2 where "s2 = (if ?avail < n \<and> rc_cap s1 - length (rc_buf s1) < n - ?avail
      then s1\<lparr>rc_buf := drop (rc_pos s1) (rc_buf s1), rc_pos := 0\<rparr> else s1)"
  have i: "rc_pos s \<le> length (rc_buf s)" "length (rc_buf s) \<le> rc_cap s" "Chunk [] \<notin> set (rc_events s)"
    using inv by (auto simp: rc_inv_def)
  have s1: "rc_buf s1 = rc_buf s" "rc_pos s1 = rc_pos s" "rc_events s1 = rc_events s" "rc_limit s1 = rc_limit s"
    "rc_so_far s1 = rc_so_far s" by (auto simp: s1_def)
  have cap: "n \<le> rc_cap s1 \<and> length (rc_buf s1) \<le> rc_cap s1"
  proof (cases "rc_cap s < n")
    case True
    let ?g = "if n < 1048576 then n * 2 else n + 1048576"
    have "\<not> n - length (rc_buf s) \<le> rc_cap s - length (rc_buf s)" "length (rc_buf s) + (n - length (rc_buf s)) = n"
      using True i(2) by auto
    then have "rc_cap s1 = usable ?g" using True by (simp add: s1_def sdsMakeRoomFor_cap_def)
    moreover have "?g \<le> usable ?g" by (rule usable)
    ultimately show ?thesis using True i(2) s1(1) by (auto split: if_splits)
  qed (use i(2) in \<open>simp add: s1_def\<close>)
  have s2: "drop (rc_pos s2) (rc_buf s2) = drop (rc_pos s) (rc_buf s)" "rc_pos s2 \<le> length (rc_buf s2)" "length (rc_buf s2) \<le> rc_cap s2"
    "rc_events s2 = rc_events s" "rc_limit s2 = rc_limit s" "rc_so_far s2 = rc_so_far s"
    "n - (length (rc_buf s2) - rc_pos s2) \<le> rc_cap s2 - length (rc_buf s2)"
    using cap i s1 by (auto simp: s2_def)
  have lim: "rc_limit s2 = 0 \<or> rc_so_far s2 + n \<le> rc_limit s2" using n s2(5,6) by (auto simp: rc_contents_def split: if_splits)
  have len: "n \<le> length (rc_all s)" using n by (auto simp: rc_contents_def split: if_splits)
  have c: "Chunk [] \<notin> set (rc_events s2)" using i(3) s2(4) by simp
  have l: "n \<le> length (drop (rc_pos s2) (rc_buf s2) @ net_bytes (rc_events s2))"
    using len by (simp add: s2 rc_all_def)
  obtain es b where f: "rioConn_fill (rc_events s2) s2 n = Some (True, s2\<lparr>rc_events := es, rc_buf := rc_buf s2 @ b\<rparr>)"
    "net_bytes (rc_events s2) = b @ net_bytes es" "length (rc_buf s2 @ b) \<le> rc_cap s2" "Chunk [] \<notin> set es"
    "n \<le> length (rc_buf s2 @ b) - rc_pos s2"
    using rioConn_fill_fills [OF s2(2,3) c l s2(7) lim] by blast
  have all: "rc_all s = drop (rc_pos s2) (rc_buf s2 @ b) @ net_bytes es"
    using f(2) s2(1,2,4) by (simp add: rc_all_def)
  let ?s = "s2\<lparr>rc_events := es, rc_buf := rc_buf s2 @ b, rc_so_far := rc_so_far s2 + n, rc_pos := rc_pos s2 + n\<rparr>"
  have t: "take n (drop (rc_pos s2) (rc_buf s2 @ b)) = take n (rc_all s)" unfolding all using f(5) by simp
  have "rioConnRead usable s n = Some (Ptr (take n (rc_all s)), ?s)"
    unfolding rioConnRead_def Let_def s1_def [symmetric] s2_def [symmetric]
    using lim f(1,5) t s2(2) by (auto simp: rd_range_def)
  moreover have "take n (rc_contents s) = take n (rc_all s)" using n by (auto simp: rc_contents_def min_def split: if_splits)
  moreover have "rc_inv ?s" using f(3-5) s2(2) by (simp add: rc_inv_def)
  moreover have "rc_all ?s = drop n (rc_all s)" unfolding all using f(5) s2(2) by (simp add: rc_all_def add.commute)
  then have "rc_contents ?s = drop n (rc_contents s)" using s2 by (simp add: rc_contents_def drop_take)
  ultimately show ?thesis by auto
qed

text \<open>The allocator gives what was asked for.\<close>

interpretation conn_src: byte_source "rioConnRead id" rc_inv rc_contents
  by unfold_locales (rule rioConnRead_delivers, auto)

text \<open>
  C31: reading from a connection returns as soon as the bytes have arrived: however the data is
  fragmented, interleaved with retryable errors and processed in chunks, \<open>rioRead\<close> returns exactly
  the next \<open>n\<close> bytes sent, and the following reads continue after them.
\<close>

theorem rioConn_delivers:
  assumes "\<And>n. n \<le> usable n" "Chunk [] \<notin> set evs" "net_bytes evs = xs @ ys"
    "read_limit = 0 \<or> length (xs @ ys) \<le> read_limit"
  shows "\<exists>r'. rioRead (rioInitWithConn usable evs read_limit \<lparr>rio_chunk := chunk\<rparr>) (length xs) = Some (Ptr xs, r') \<and>
    rio_source (rioConnRead usable) rc_inv rc_contents r' ys"
proof -
  have "byte_source (rioConnRead usable) rc_inv rc_contents"
    by unfold_locales (rule rioConnRead_delivers, auto simp: assms(1))
  moreover have "rio_source (rioConnRead usable) rc_inv rc_contents (rioInitWithConn usable evs read_limit \<lparr>rio_chunk := chunk\<rparr>) (xs @ ys)"
    using assms(2-4) by (auto simp: rio_source_def rioInitWithConn_def rioConnIO_def rc_inv_def rc_contents_def rc_all_def)
  ultimately show ?thesis by (rule byte_source.rioRead_delivers)
qed

theorem rioConn_delivers_witness:
  "\<exists>r'. rioRead (rioInitWithConn id [Chunk [1, 2], Retry, Chunk [3, 4, 5], Closed] 0 \<lparr>rio_chunk := 2\<rparr>) (length [1 :: byte, 2, 3]) =
     Some (Ptr [1, 2, 3], r') \<and> rio_source (rioConnRead id) rc_inv rc_contents r' [4, 5]"
  by (rule rioConn_delivers) auto

end
