(* ===== verification/Lzf.thy ===== *)
theory Lzf
  imports Redis_Prelude
begin

text \<open>
  The LZF compressor and decompressor (\<open>lzf_c.c\<close>, \<open>lzf_d.c\<close>, with the settings of \<open>lzfP.h\<close>:
  \<open>VERY_FAST\<close>, \<open>CHECK_INPUT\<close>, no \<open>INIT_HTAB\<close>, 16 bits of hash). Input and output are blocks; the
  hash table of the compressor starts with arbitrary contents, as in the code.
\<close>


subsection \<open>Decompression\<close>

datatype lzf_errno = LZF_OK | LZF_E2BIG | LZF_EINVAL

text \<open>Copying octet by octet, which repeats the source when the areas overlap.\<close>

fun lzf_copy :: "buf \<Rightarrow> nat \<Rightarrow> nat \<Rightarrow> nat \<Rightarrow> buf option" where
  "lzf_copy out op ref 0 = Some out"
| "lzf_copy out op ref (Suc n) = do {
     b \<leftarrow> rd out ref;
     out \<leftarrow> wr out op b;
     lzf_copy out (op + 1) (ref + 1) n }"

text \<open>The copy of a back reference whose length field is \<open>len\<close>.\<close>

definition lzf_backref :: "buf \<Rightarrow> nat \<Rightarrow> nat \<Rightarrow> nat \<Rightarrow> buf option" where
  "lzf_backref out op ref len =
     (if 9 < len \<and> ref + (len + 2) \<le> op
      then do { c \<leftarrow> rd_range out ref (len + 2); wr_range out op c }
      else lzf_copy out op ref (len + 2))"

text \<open>
  One iteration: \<open>Inl\<close> is an error return, otherwise the new input and output positions and the
  output block. \<open>ref\<close> is a pointer that may lie before the output and is compared as such.
\<close>

definition lzf_decompress_step :: "buf \<Rightarrow> nat \<Rightarrow> nat \<Rightarrow> buf \<Rightarrow> (lzf_errno + nat \<times> nat \<times> buf) option" where
  "lzf_decompress_step inp ip op out = do {
     c \<leftarrow> rd inp ip;
     let ctrl = unat c;
     let ip = ip + 1;
     if ctrl < 32 then do {
       let ctrl = ctrl + 1;
       if length out < op + ctrl then Some (Inl LZF_E2BIG)
       else if length inp < ip + ctrl then Some (Inl LZF_EINVAL)
       else do {
         lit \<leftarrow> rd_range inp ip ctrl;
         out \<leftarrow> wr_range out op lit;
         Some (Inr (ip + ctrl, op + ctrl, out)) } }
     else do {
       let len = drop_bit 5 ctrl;
       let ref = int op - int (push_bit 8 (ctrl AND 31)) - 1;
       if length inp \<le> ip then Some (Inl LZF_EINVAL)
       else do {
         l \<leftarrow> rd inp ip;
         let (ip, len) = (if len = 7 then (ip + 1, len + unat l) else (ip, len));
         if length inp \<le> ip then Some (Inl LZF_EINVAL)
         else do {
           o' \<leftarrow> rd inp ip;
           let ip = ip + 1;
           let ref = ref - int (unat o');
           if length out < op + len + 2 then Some (Inl LZF_E2BIG)
           else if ref < 0 then Some (Inl LZF_EINVAL)
           else do {
             out \<leftarrow> lzf_backref out op (nat ref) len;
             Some (Inr (ip, op + len + 2, out)) } } } } }"

lemma lzf_decompress_step_gt:
  assumes "lzf_decompress_step inp ip op out = Some (Inr (ip', op', out'))"
  shows "ip < ip'" "ip < length inp"
  using assms
  by (auto simp: lzf_decompress_step_def Let_def bind_eq_Some_conv rd_def split: if_splits prod.splits)

text \<open>The loop; the result is the return value, the output block and \<open>errno\<close>.\<close>

function lzf_decompress_loop :: "buf \<Rightarrow> nat \<Rightarrow> nat \<Rightarrow> buf \<Rightarrow> (nat \<times> buf \<times> lzf_errno) option" where
  "lzf_decompress_loop inp ip op out =
     (if ip < length inp
      then case lzf_decompress_step inp ip op out of
             None \<Rightarrow> None
           | Some (Inl e) \<Rightarrow> Some (0, out, e)
           | Some (Inr (ip', op', out')) \<Rightarrow> lzf_decompress_loop inp ip' op' out'
      else Some (op, out, LZF_OK))"
  by pat_completeness auto
termination
proof (relation "measure (\<lambda>(inp, ip, _). length inp - ip)", goal_cases)
  case (2 inp ip op out r s ip' t op' out')
  then show ?case using lzf_decompress_step_gt [of inp ip op out ip' op' out'] by auto
qed simp

declare lzf_decompress_loop.simps [simp del]

definition lzf_decompress :: "buf \<Rightarrow> buf \<Rightarrow> (nat \<times> buf \<times> lzf_errno) option" where
  "lzf_decompress inp out = lzf_decompress_loop inp 0 0 out"


subsection \<open>Compression\<close>

abbreviation HSIZE :: nat where "HSIZE \<equiv> 65536"
abbreviation MAX_LIT :: nat where "MAX_LIT \<equiv> 32"
abbreviation MAX_OFF :: nat where "MAX_OFF \<equiv> 8192"
abbreviation MAX_REF :: nat where "MAX_REF \<equiv> 264"

definition FRST :: "buf \<Rightarrow> nat \<Rightarrow> 32 word option" where
  "FRST inp p = do {
     a \<leftarrow> rd inp p;
     b \<leftarrow> rd inp (p + 1);
     Some (push_bit 8 (ucast a) OR ucast b) }"

definition NEXT :: "buf \<Rightarrow> 32 word \<Rightarrow> nat \<Rightarrow> 32 word option" where
  "NEXT inp v p = do {
     c \<leftarrow> rd inp (p + 2);
     Some (push_bit 8 v OR ucast c) }"

definition IDX :: "32 word \<Rightarrow> nat" where
  "IDX h = unat ((drop_bit 8 h - h * 5) AND 0xFFFF)"

text \<open>
  The variables of \<open>lzf_compress\<close>: positions in the input and the output, the run length, the
  rolling hash, the output block and the hash table, whose slots hold pointers relative to the
  input. The table is not initialised, so a slot may hold any integer.
\<close>

record lzf_state =
  lz_ip :: nat
  lz_op :: nat
  lz_lit :: nat
  lz_hval :: "32 word"
  lz_out :: buf
  lz_htab :: "nat \<Rightarrow> int"

text \<open>The sixteen unrolled comparisons: \<open>len\<close> and whether one of them left the loop.\<close>

fun lzf_unrolled :: "buf \<Rightarrow> nat \<Rightarrow> nat \<Rightarrow> nat \<Rightarrow> nat \<Rightarrow> (nat \<times> bool) option" where
  "lzf_unrolled inp ref p 0 len = Some (len, False)"
| "lzf_unrolled inp ref p (Suc k) len = do {
     let len = len + 1;
     a \<leftarrow> rd inp (ref + len);
     b \<leftarrow> rd inp (p + len);
     if a \<noteq> b then Some (len, True) else lzf_unrolled inp ref p k len }"

text \<open>The \<open>do ... while\<close> loop.\<close>

function lzf_extend :: "buf \<Rightarrow> nat \<Rightarrow> nat \<Rightarrow> nat \<Rightarrow> nat \<Rightarrow> nat option" where
  "lzf_extend inp ref p maxlen len =
     (if len + 1 < maxlen
      then do {
        a \<leftarrow> rd inp (ref + (len + 1));
        b \<leftarrow> rd inp (p + (len + 1));
        if a = b then lzf_extend inp ref p maxlen (len + 1) else Some (len + 1) }
      else Some (len + 1))"
  by pat_completeness auto
termination by (relation "measure (\<lambda>(_, _, _, maxlen, len). maxlen - len)") auto

declare lzf_extend.simps [simp del]

definition lzf_match_len :: "buf \<Rightarrow> nat \<Rightarrow> nat \<Rightarrow> nat \<Rightarrow> nat option" where
  "lzf_match_len inp ref p maxlen = do {
     (len, stop) \<leftarrow> (if 16 < maxlen then lzf_unrolled inp ref p 16 2 else Some (2, False));
     if stop then Some len else lzf_extend inp ref p maxlen len }"

text \<open>\<open>op [- lit - 1] = lit - 1\<close>.\<close>

definition lzf_stop_run :: "buf \<Rightarrow> nat \<Rightarrow> nat \<Rightarrow> buf option" where
  "lzf_stop_run out op lit = (if op < lit + 1 then None else wr out (op - lit - 1) (of_int (int lit - 1)))"

text \<open>Writing a back reference; the result is the output block and the position after it.\<close>

definition lzf_put_ref :: "buf \<Rightarrow> nat \<Rightarrow> nat \<Rightarrow> nat \<Rightarrow> (buf \<times> nat) option" where
  "lzf_put_ref out op off len = do {
     (out, op) \<leftarrow>
       (if len < 7 then do { o1 \<leftarrow> wr out op (of_nat (drop_bit 8 off + push_bit 5 len)); Some (o1, op + 1) }
        else do {
          o1 \<leftarrow> wr out op (of_nat (drop_bit 8 off + push_bit 5 7));
          o2 \<leftarrow> wr o1 (op + 1) (of_nat (len - 7));
          Some (o2, op + 2) });
     out \<leftarrow> wr out op (of_nat off);
     Some (out, op + 1) }"

text \<open>After a match: go back two octets and enter them into the table.\<close>

definition lzf_rehash :: "buf \<Rightarrow> lzf_state \<Rightarrow> lzf_state option" where
  "lzf_rehash inp st = do {
     let p = lz_ip st - 2;
     h0 \<leftarrow> FRST inp p;
     h1 \<leftarrow> NEXT inp h0 p;
     h2 \<leftarrow> NEXT inp h1 (p + 1);
     Some (st\<lparr>lz_hval := h2, lz_htab := (lz_htab st)(IDX h1 := int p, IDX h2 := int (p + 1)), lz_ip := p + 2\<rparr>) }"

text \<open>
  The branch of a match at \<open>ref\<close>, \<open>off + 1\<close> octets back: \<open>Inl\<close> is \<open>return 0\<close>, otherwise the state
  and whether the loop is left by \<open>break\<close>.
\<close>

definition lzf_emit_ref :: "buf \<Rightarrow> lzf_state \<Rightarrow> nat \<Rightarrow> nat \<Rightarrow> (lzf_state + lzf_state \<times> bool) option" where
  "lzf_emit_ref inp st ref off = do {
     let notlit = (if lz_lit st = 0 then 1 else 0);
     let maxlen = length inp - lz_ip st - 2;
     let maxlen = (if MAX_REF < maxlen then MAX_REF else maxlen);
     if length (lz_out st) \<le> lz_op st + 3 + 1 \<and> length (lz_out st) + notlit \<le> lz_op st + 3 + 1 then Some (Inl st)
     else do {
       out \<leftarrow> lzf_stop_run (lz_out st) (lz_op st) (lz_lit st);
       len \<leftarrow> lzf_match_len inp ref (lz_ip st) maxlen;
       let len = len - 2;
       (out, op) \<leftarrow> lzf_put_ref out (lz_op st - notlit) off len;
       let st = st\<lparr>lz_lit := 0, lz_op := op + 1, lz_out := out, lz_ip := lz_ip st + 1 + (len + 1)\<rparr>;
       if length inp \<le> lz_ip st + 2 then Some (Inr (st, True))
       else do { st \<leftarrow> lzf_rehash inp st; Some (Inr (st, False)) } } }"

text \<open>Copying one literal, and ending the run when it is full.\<close>

definition lzf_literal :: "buf \<Rightarrow> lzf_state \<Rightarrow> lzf_state option" where
  "lzf_literal inp st = do {
     b \<leftarrow> rd inp (lz_ip st);
     o1 \<leftarrow> wr (lz_out st) (lz_op st) b;
     let st = st\<lparr>lz_lit := lz_lit st + 1, lz_out := o1, lz_op := lz_op st + 1, lz_ip := lz_ip st + 1\<rparr>;
     if lz_lit st = MAX_LIT then do {
       o2 \<leftarrow> lzf_stop_run (lz_out st) (lz_op st) (lz_lit st);
       Some (st\<lparr>lz_lit := 0, lz_out := o2, lz_op := lz_op st + 1\<rparr>) }
     else Some st }"

text \<open>The condition of a match: the slot points into the window and three octets agree.\<close>

definition lzf_found :: "buf \<Rightarrow> nat \<Rightarrow> int \<Rightarrow> int \<Rightarrow> bool option" where
  "lzf_found inp p ref off =
     (if 0 \<le> off \<and> off < int MAX_OFF \<and> 0 < ref then do {
        r0 \<leftarrow> rd inp (nat ref); r1 \<leftarrow> rd inp (nat ref + 1); r2 \<leftarrow> rd inp (nat ref + 2);
        i0 \<leftarrow> rd inp p; i1 \<leftarrow> rd inp (p + 1); i2 \<leftarrow> rd inp (p + 2);
        Some (r2 = i2 \<and> r0 = i0 \<and> r1 = i1) }
      else Some False)"

text \<open>One iteration of the main loop.\<close>

definition lzf_step :: "buf \<Rightarrow> lzf_state \<Rightarrow> (lzf_state + lzf_state \<times> bool) option" where
  "lzf_step inp st = do {
     h \<leftarrow> NEXT inp (lz_hval st) (lz_ip st);
     let slot = IDX h;
     let ref = lz_htab st slot;
     let st = st\<lparr>lz_hval := h, lz_htab := (lz_htab st)(slot := int (lz_ip st))\<rparr>;
     let off = int (lz_ip st) - ref - 1;
     found \<leftarrow> lzf_found inp (lz_ip st) ref off;
     if found then lzf_emit_ref inp st (nat ref) (nat off)
     else if length (lz_out st) \<le> lz_op st then Some (Inl st)
     else do { st \<leftarrow> lzf_literal inp st; Some (Inr (st, False)) } }"

lemma lzf_emit_ref_gt:
  "lzf_emit_ref inp st ref off = Some (Inr (st', brk)) \<Longrightarrow> lz_ip st < lz_ip st'"
  by (auto simp: lzf_emit_ref_def lzf_rehash_def Let_def bind_eq_Some_conv split: if_splits)

lemma lzf_literal_gt: "lzf_literal inp st = Some st' \<Longrightarrow> lz_ip st' = lz_ip st + 1"
  by (auto simp: lzf_literal_def Let_def bind_eq_Some_conv split: if_splits)

lemma lzf_step_gt: "lzf_step inp st = Some (Inr (st', brk)) \<Longrightarrow> lz_ip st < lz_ip st'"
  by (auto simp: lzf_step_def Let_def bind_eq_Some_conv split: if_splits dest!: lzf_emit_ref_gt lzf_literal_gt)

function lzf_loop :: "buf \<Rightarrow> lzf_state \<Rightarrow> (lzf_state + lzf_state) option" where
  "lzf_loop inp st =
     (if lz_ip st + 2 < length inp
      then case lzf_step inp st of
             None \<Rightarrow> None
           | Some (Inl st') \<Rightarrow> Some (Inl st')
           | Some (Inr (st', brk)) \<Rightarrow> if brk then Some (Inr st') else lzf_loop inp st'
      else Some (Inr st))"
  by pat_completeness auto
termination
proof (relation "measure (\<lambda>(inp, st). length inp - lz_ip st)", goal_cases)
  case (2 inp st r s st' brk)
  then show ?case using lzf_step_gt [of inp st st' brk] by auto
qed simp

declare lzf_loop.simps [simp del]

text \<open>The loop that copies the last octets.\<close>

function lzf_rest :: "buf \<Rightarrow> lzf_state \<Rightarrow> lzf_state option" where
  "lzf_rest inp st =
     (if lz_ip st < length inp
      then case lzf_literal inp st of None \<Rightarrow> None | Some st' \<Rightarrow> lzf_rest inp st'
      else Some st)"
  by pat_completeness auto
termination
proof (relation "measure (\<lambda>(inp, st). length inp - lz_ip st)", goal_cases)
  case (2 inp st st')
  then show ?case using lzf_literal_gt [of inp st st'] by auto
qed simp

declare lzf_rest.simps [simp del]

text \<open>
  \<open>out\<close> is the caller's output block and \<open>htab0\<close> the contents the hash table happens to have. The
  result is the return value and the output block.
\<close>

definition lzf_compress :: "(nat \<Rightarrow> int) \<Rightarrow> buf \<Rightarrow> buf \<Rightarrow> (nat \<times> buf) option" where
  "lzf_compress htab0 inp out =
     (if length inp = 0 \<or> length out = 0 then Some (0, out)
      else do {
        h \<leftarrow> FRST inp 0;
        r \<leftarrow> lzf_loop inp \<lparr>lz_ip = 0, lz_op = 1, lz_lit = 0, lz_hval = h, lz_out = out, lz_htab = htab0\<rparr>;
        case r of
          Inl st \<Rightarrow> Some (0, lz_out st)
        | Inr st \<Rightarrow>
            if length (lz_out st) < lz_op st + 3 then Some (0, lz_out st)
            else do {
              st \<leftarrow> lzf_rest inp st;
              out \<leftarrow> lzf_stop_run (lz_out st) (lz_op st) (lz_lit st);
              Some (lz_op st - (if lz_lit st = 0 then 1 else 0), out) } })"


subsection \<open>The compressed format\<close>

text \<open>A compressed stream is a sequence of literal runs and back references.\<close>

datatype lz_tok = Lit buf | Ref nat nat

text \<open>\<open>Ref off n\<close> copies \<open>n\<close> octets from \<open>off + 1\<close> back.\<close>

fun lz_repeat :: "buf \<Rightarrow> nat \<Rightarrow> nat \<Rightarrow> buf" where
  "lz_repeat acc off 0 = acc"
| "lz_repeat acc off (Suc n) = lz_repeat (acc @ [acc ! (length acc - off - 1)]) off n"

fun tok_apply :: "buf \<Rightarrow> lz_tok \<Rightarrow> buf" where
  "tok_apply acc (Lit s) = acc @ s"
| "tok_apply acc (Ref off n) = lz_repeat acc off n"

fun tok_ok :: "buf \<Rightarrow> lz_tok \<Rightarrow> bool" where
  "tok_ok acc (Lit s) \<longleftrightarrow> 0 < length s \<and> length s \<le> MAX_LIT"
| "tok_ok acc (Ref off n) \<longleftrightarrow> off < length acc \<and> off < MAX_OFF \<and> 3 \<le> n \<and> n \<le> MAX_REF"

fun tok_bytes :: "lz_tok \<Rightarrow> buf" where
  "tok_bytes (Lit s) = of_nat (length s - 1) # s"
| "tok_bytes (Ref off n) =
     (if n - 2 < 7 then [of_nat (off div 256 + 32 * (n - 2)), of_nat off]
      else [of_nat (off div 256 + 224), of_nat (n - 9), of_nat off])"

fun toks_ok :: "buf \<Rightarrow> lz_tok list \<Rightarrow> bool" where
  "toks_ok acc [] \<longleftrightarrow> True"
| "toks_ok acc (t # ts) \<longleftrightarrow> tok_ok acc t \<and> toks_ok (tok_apply acc t) ts"

abbreviation toks_bytes :: "lz_tok list \<Rightarrow> buf" where
  "toks_bytes ts \<equiv> concat (map tok_bytes ts)"

abbreviation toks_apply :: "buf \<Rightarrow> lz_tok list \<Rightarrow> buf" where
  "toks_apply acc ts \<equiv> foldl tok_apply acc ts"

lemma toks_ok_append [simp]: "toks_ok acc (ts @ us) \<longleftrightarrow> toks_ok acc ts \<and> toks_ok (toks_apply acc ts) us"
  by (induction ts arbitrary: acc) auto

lemma length_lz_repeat [simp]: "length (lz_repeat acc off n) = length acc + n"
  by (induction n arbitrary: acc) auto

lemma length_tok_apply: "length acc \<le> length (tok_apply acc t)"
  by (cases t) auto

lemma length_toks_apply: "length acc \<le> length (toks_apply acc ts)"
proof (induction ts arbitrary: acc)
  case (Cons t ts)
  have "length acc \<le> length (tok_apply acc t)" by (rule length_tok_apply)
  also have "\<dots> \<le> length (toks_apply (tok_apply acc t) ts)" by (rule Cons)
  finally show ?case by simp
qed simp

lemma lz_repeat_eqI:
  assumes "take (length acc) R = acc" "length R = length acc + n" "off < length acc"
    and "\<And>i. length acc \<le> i \<Longrightarrow> i < length R \<Longrightarrow> R ! i = R ! (i - off - 1)"
  shows "lz_repeat acc off n = R"
  using assms
proof (induction n arbitrary: acc)
  case 0
  then show ?case by simp
next
  case (Suc n)
  have "R ! length acc = R ! (length acc - off - 1)" using Suc.prems by simp
  also have "\<dots> = take (length acc) R ! (length acc - off - 1)" using Suc.prems(3) by simp
  also have "\<dots> = acc ! (length acc - off - 1)" by (simp only: Suc.prems(1))
  finally have "take (Suc (length acc)) R = acc @ [acc ! (length acc - off - 1)]"
    using Suc.prems by (simp add: take_Suc_conv_app_nth)
  then have "lz_repeat (acc @ [acc ! (length acc - off - 1)]) off n = R"
    using Suc.prems by (intro Suc.IH) auto
  then show ?case by simp
qed

text \<open>Octet-wise copying and the block copy of disjoint areas are both \<open>lz_repeat\<close>.\<close>

lemma lzf_copy_repeat:
  "off < length acc \<Longrightarrow> n \<le> length junk \<Longrightarrow>
   lzf_copy (acc @ junk) (length acc) (length acc - off - 1) n = Some (lz_repeat acc off n @ drop n junk)"
proof (induction n arbitrary: acc junk)
  case (Suc n)
  then obtain j js where junk: "junk = j # js" by (cases junk) auto
  let ?b = "acc ! (length acc - off - 1)"
  have "rd (acc @ junk) (length acc - off - 1) = Some ?b" using Suc.prems(1) by (intro rd_append_left) simp
  moreover have "wr (acc @ junk) (length acc) ?b = Some ((acc @ [?b]) @ js)" by (simp add: junk wr_def)
  moreover have "lzf_copy ((acc @ [?b]) @ js) (length (acc @ [?b])) (length (acc @ [?b]) - off - 1) n =
      Some (lz_repeat (acc @ [?b]) off n @ drop n js)"
    using Suc.prems by (intro Suc.IH) (auto simp: junk)
  moreover have "length (acc @ [?b]) - off - 1 = length acc - off - 1 + 1" using Suc.prems(1) by simp
  ultimately show ?case by (simp add: junk)
qed simp

lemma lz_repeat_disjoint:
  assumes "n \<le> off + 1" "off < length acc"
  shows "lz_repeat acc off n = acc @ take n (drop (length acc - off - 1) acc)"
proof (rule lz_repeat_eqI)
  fix i assume i: "length acc \<le> i" "i < length (acc @ take n (drop (length acc - off - 1) acc))"
  then have "i - off - 1 < length acc" using assms by auto
  moreover have "length acc - off - 1 + (i - length acc) = i - off - 1" using i(1) assms(2) by simp
  ultimately show "(acc @ take n (drop (length acc - off - 1) acc)) ! i =
      (acc @ take n (drop (length acc - off - 1) acc)) ! (i - off - 1)"
    using i assms by (simp add: nth_append)
qed (use assms in auto)

lemma lzf_backref_repeat:
  assumes "off < length acc" "len + 2 \<le> length junk"
  shows "lzf_backref (acc @ junk) (length acc) (length acc - off - 1) len =
    Some (lz_repeat acc off (len + 2) @ drop (len + 2) junk)"
proof (cases "9 < len \<and> length acc - off - 1 + (len + 2) \<le> length acc")
  case True
  then have n: "len + 2 \<le> off + 1" using assms(1) by linarith
  let ?c = "take (len + 2) (drop (length acc - off - 1) acc)"
  have "rd_range (acc @ junk) (length acc - off - 1) (len + 2) = Some ?c"
    using True by (simp add: rd_range_def)
  moreover have "length ?c = len + 2" using True assms(1) n by (auto simp: min_def)
  then have "wr_range (acc @ junk) (length acc) ?c = Some (acc @ ?c @ drop (len + 2) junk)"
    using assms(2) by (simp add: wr_range_def)
  ultimately show ?thesis
    using True lz_repeat_disjoint [OF n assms(1)] by (simp add: lzf_backref_def)
next
  case False
  then show ?thesis using lzf_copy_repeat [OF assms] by (auto simp: lzf_backref_def)
qed

lemma toks_bytes_nonempty: "tok_bytes t \<noteq> []"
  by (cases t) auto

text \<open>Decompressing one token, and a whole stream.\<close>

lemma ctrl_split:
  assumes "off < MAX_OFF" "k < 8"
  shows "unat (of_nat (off div 256 + 32 * k) :: byte) = off div 256 + 32 * k"
    and "drop_bit 5 (off div 256 + 32 * k) = k"
    and "push_bit 8 ((off div 256 + 32 * k) AND 31) = 256 * (off div 256)"
proof -
  have o: "off div 256 < 32" using assms(1) by simp
  show "unat (of_nat (off div 256 + 32 * k) :: byte) = off div 256 + 32 * k"
    using o assms(2) by (subst unat_of_nat_byte) simp
  show "drop_bit 5 (off div 256 + 32 * k) = k" using o by (simp add: drop_bit_eq_div)
  have "(off div 256 + 32 * k) AND 31 = off div 256"
    using o take_bit_eq_mask [of 5 "off div 256 + 32 * k"]
    by (simp add: take_bit_eq_mod mask_eq_exp_minus_1)
  then show "push_bit 8 ((off div 256 + 32 * k) AND 31) = 256 * (off div 256)"
    by (simp add: push_bit_eq_mult)
qed

lemma lzf_step_lit:
  assumes "0 < length s" "length s \<le> MAX_LIT" "length s \<le> length junk"
  shows "lzf_decompress_step (pre @ tok_bytes (Lit s) @ post) (length pre) (length acc) (acc @ junk) =
    Some (Inr (length pre + length (tok_bytes (Lit s)), length acc + length s, acc @ s @ drop (length s) junk))"
proof -
  define h :: byte where "h = of_nat (length s - 1)"
  have l: "length s - 1 < 32" "length s - 1 + 1 = length s" using assms by linarith+
  have c: "unat h = length s - 1" using l(1) unfolding h_def by (subst unat_of_nat_byte) simp
  have "rd_range (pre @ (h # s) @ post) (length pre + 1) (length s) = Some s"
    by (simp add: rd_range_def)
  moreover have "wr_range (acc @ junk) (length acc) s = Some (acc @ s @ drop (length s) junk)"
    using assms(3) by (simp add: wr_range_def)
  ultimately show ?thesis
    using assms c l unfolding tok_bytes.simps h_def [symmetric]
    by (simp add: lzf_decompress_step_def rd_append_at Let_def)
qed

lemma lzf_step_ref:
  assumes "off < length acc" "off < MAX_OFF" "3 \<le> n" "n \<le> MAX_REF" "n \<le> length junk"
  shows "lzf_decompress_step (pre @ tok_bytes (Ref off n) @ post) (length pre) (length acc) (acc @ junk) =
    Some (Inr (length pre + length (tok_bytes (Ref off n)), length acc + n, lz_repeat acc off n @ drop n junk))"
proof -
  have n2: "n - 2 + 2 = n" using assms(3) by simp
  have b: "lzf_backref (acc @ junk) (length acc) (length acc - off - 1) (n - 2) =
      Some (lz_repeat acc off n @ drop n junk)"
    using lzf_backref_repeat [of off acc "n - 2" junk, unfolded n2] assms by blast
  have o: "256 * (off div 256) + unat (of_nat off :: byte) = off"
    by (simp add: unat_of_nat_byte)
  have r: "nat (int (length acc) - int (256 * (off div 256)) - 1 - int (unat (of_nat off :: byte))) = length acc - off - 1"
    "\<not> int (length acc) - int (256 * (off div 256)) - 1 - int (unat (of_nat off :: byte)) < 0"
    using o assms(1) by linarith+
  show ?thesis
  proof (cases "n - 2 < 7")
    case True
    have "\<not> off div 256 + 32 * (n - 2) < 32" "n - 2 \<noteq> 7" using True assms(3) by auto
    moreover have "length acc + (n - 2) + 2 \<le> length (acc @ junk)" using assms by simp
    ultimately show ?thesis
      using True ctrl_split [OF assms(2), of "n - 2"] b r n2 assms(3,5)
      by (simp add: lzf_decompress_step_def rd_append_at rd_append_right Let_def del: of_nat_add of_nat_mult) arith
  next
    case False
    define h :: byte where "h = of_nat (n - 9)"
    have l: "unat h = n - 9" using assms(4) unfolding h_def by (subst unat_of_nat_byte) simp
    have bytes: "tok_bytes (Ref off n) = [of_nat (off div 256 + 224), h, of_nat off]" using False by (simp add: h_def)
    have "7 + (n - 9) = n - 2" using False by simp
    moreover have "length acc + (n - 2) + 2 \<le> length (acc @ junk)" using assms by simp
    ultimately show ?thesis
      using ctrl_split [OF assms(2), of 7] b r l n2 assms(3,5) unfolding bytes
      by (simp add: lzf_decompress_step_def rd_append_at rd_append_right Let_def del: of_nat_add of_nat_mult) arith
  qed
qed

lemma lzf_step_tok:
  assumes "tok_ok acc t" "length (tok_apply acc t) \<le> length acc + length junk"
  shows "\<exists>junk'. length junk' + length (tok_apply acc t) = length acc + length junk \<and>
    lzf_decompress_step (pre @ tok_bytes t @ post) (length pre) (length acc) (acc @ junk) =
    Some (Inr (length pre + length (tok_bytes t), length (tok_apply acc t), tok_apply acc t @ junk'))"
proof (cases t)
  case (Lit s)
  then show ?thesis using assms lzf_step_lit [of s junk pre post acc]
    by (intro exI [of _ "drop (length s) junk"]) simp
next
  case (Ref off n)
  then show ?thesis using assms lzf_step_ref [of off acc n junk pre post]
    by (intro exI [of _ "drop n junk"]) (simp del: tok_bytes.simps)
qed

lemma lzf_decompress_loop_toks:
  assumes "toks_ok acc ts" "length (toks_apply acc ts) \<le> length acc + length junk"
  shows "\<exists>junk'. lzf_decompress_loop (pre @ toks_bytes ts) (length pre) (length acc) (acc @ junk) =
    Some (length (toks_apply acc ts), toks_apply acc ts @ junk', LZF_OK)"
  using assms
proof (induction ts arbitrary: pre acc junk)
  case Nil
  then show ?case by (simp add: lzf_decompress_loop.simps)
next
  case (Cons t ts)
  have "length (tok_apply acc t) \<le> length (toks_apply acc (t # ts))" by (simp add: length_toks_apply)
  then have fit: "length (tok_apply acc t) \<le> length acc + length junk" using Cons.prems(2) by linarith
  obtain junk1 where j: "length junk1 + length (tok_apply acc t) = length acc + length junk"
    and step: "lzf_decompress_step (pre @ tok_bytes t @ toks_bytes ts) (length pre) (length acc) (acc @ junk) =
      Some (Inr (length (pre @ tok_bytes t), length (tok_apply acc t), tok_apply acc t @ junk1))"
    using lzf_step_tok [OF _ fit] Cons.prems(1) by fastforce
  obtain junk' where "lzf_decompress_loop ((pre @ tok_bytes t) @ toks_bytes ts) (length (pre @ tok_bytes t))
      (length (tok_apply acc t)) (tok_apply acc t @ junk1) =
      Some (length (toks_apply acc (t # ts)), toks_apply acc (t # ts) @ junk', LZF_OK)"
    using Cons.IH [of "tok_apply acc t" junk1 "pre @ tok_bytes t"] Cons.prems j by auto
  then show ?case
    using step toks_bytes_nonempty [of t] by (auto simp: lzf_decompress_loop.simps [of "pre @ _"])
qed

lemma lzf_decompress_toks:
  assumes "toks_ok [] ts" "length (toks_apply [] ts) \<le> length out"
  shows "\<exists>junk. lzf_decompress (toks_bytes ts) out =
    Some (length (toks_apply [] ts), toks_apply [] ts @ junk, LZF_OK)"
  using lzf_decompress_loop_toks [of "[]" ts out "[]"] assms by (simp add: lzf_decompress_def)

text \<open>Whatever the input, one iteration stays inside both blocks.\<close>

lemma lzf_copy_total:
  "ref + n \<le> length out \<Longrightarrow> op + n \<le> length out \<Longrightarrow> \<exists>out'. lzf_copy out op ref n = Some out' \<and> length out' = length out"
proof (induction n arbitrary: out op ref)
  case (Suc n)
  then have "\<exists>out'. lzf_copy (out[op := out ! ref]) (op + 1) (ref + 1) n = Some out' \<and> length out' = length out"
    using Suc.IH [of "ref + 1" "out[op := out ! ref]" "op + 1"] by simp
  then show ?case using Suc.prems by (simp add: rd_def wr_def)
qed simp

lemma lzf_backref_total:
  assumes "ref < op" "op + len + 2 \<le> length out"
  shows "\<exists>out'. lzf_backref out op ref len = Some out' \<and> length out' = length out"
  using assms lzf_copy_total [of ref "len + 2" out op]
  by (auto simp: lzf_backref_def rd_range_def wr_range_def)

lemma lzf_decompress_step_total:
  assumes "ip < length inp" "op \<le> length out"
  shows "(\<exists>e. lzf_decompress_step inp ip op out = Some (Inl e)) \<or>
    (\<exists>ip' op' out'. lzf_decompress_step inp ip op out = Some (Inr (ip', op', out')) \<and>
       op' \<le> length out' \<and> length out' = length out)"
proof (cases "unat (inp ! ip) < 32")
  case True
  then show ?thesis
    using assms by (auto simp: lzf_decompress_step_def rd_def rd_range_def wr_range_def Let_def)
next
  case big: False
  define P where "P r \<longleftrightarrow> (\<exists>e. r = Some (Inl e)) \<or>
    (\<exists>ip' op' out'. r = Some (Inr (ip', op', out')) \<and> op' \<le> length out' \<and> length out' = length out)"
    for r :: "(lzf_errno + nat \<times> nat \<times> buf) option"
  have E: "P (Some (Inl e))" for e by (simp add: P_def)
  have B: "P (if length out < op + len + 2 then Some (Inl LZF_E2BIG)
      else if ref < 0 then Some (Inl LZF_EINVAL)
      else lzf_backref out op (nat ref) len \<bind> (\<lambda>out'. Some (Inr (ip', op + len + 2, out'))))"
    if "ref < int op" for ref len ip'
  proof (cases "length out < op + len + 2 \<or> ref < 0")
    case False
    then have "nat ref < op" "op + len + 2 \<le> length out" using \<open>ref < int op\<close> by linarith+
    then obtain out' where "lzf_backref out op (nat ref) len = Some out'" "length out' = length out"
      using lzf_backref_total by blast
    then show ?thesis using False by (simp add: P_def)
  qed (auto simp: E)
  have C: "P (if length inp \<le> ipa then Some (Inl LZF_EINVAL)
      else rd inp ipa \<bind> (\<lambda>o'. if length out < op + len + 2 then Some (Inl LZF_E2BIG)
        else if int op - int k - 1 - int (unat o') < 0 then Some (Inl LZF_EINVAL)
        else lzf_backref out op (nat (int op - int k - 1 - int (unat o'))) len \<bind>
          (\<lambda>out'. Some (Inr (ipa + 1, op + len + 2, out')))))" for ipa len k
  proof (cases "length inp \<le> ipa")
    case False
    then have r: "rd inp ipa = Some (inp ! ipa)" by (simp add: rd_nth)
    have "int op - int k - 1 - int (unat (inp ! ipa)) < int op" by linarith
    from B [OF this, of len "ipa + 1"] False show ?thesis by (simp only: r Option.bind.simps if_False)
  qed (simp add: E)
  have "P (lzf_decompress_step inp ip op out)"
  proof (cases "length inp \<le> ip + 1")
    case False
    note C1 = C [of "ip + 1 + 1" "drop_bit 5 (unat (inp ! ip)) + unat (inp ! (ip + 1))" "push_bit 8 (unat (inp ! ip) AND 31)"]
    note C2 = C [of "ip + 1" "drop_bit 5 (unat (inp ! ip))" "push_bit 8 (unat (inp ! ip) AND 31)"]
    have "rd inp ip = Some (inp ! ip)" "rd inp (ip + 1) = Some (inp ! (ip + 1))"
      using assms(1) False by (auto simp: rd_def)
    with False big C1 C2 show ?thesis unfolding lzf_decompress_step_def Let_def
      by (cases "drop_bit 5 (unat (inp ! ip)) = 7") (simp_all only: Option.bind.simps simp_thms if_False if_True prod.case)
  qed (use assms(1) big in \<open>simp add: lzf_decompress_step_def Let_def rd_nth E\<close>)
  then show ?thesis by (simp add: P_def)
qed

lemma lzf_decompress_loop_total:
  "op \<le> length out \<Longrightarrow>
   \<exists>n out' e. lzf_decompress_loop inp ip op out = Some (n, out', e) \<and> n \<le> length out \<and> length out' = length out"
proof (induction inp ip op out rule: lzf_decompress_loop.induct)
  case (1 inp ip op out)
  show ?case
  proof (cases "ip < length inp")
    case True
    from lzf_decompress_step_total [OF True 1(2)] show ?thesis
    proof (elim disjE exE conjE)
      fix e assume "lzf_decompress_step inp ip op out = Some (Inl e)"
      then show ?thesis using True by (simp add: lzf_decompress_loop.simps [of inp ip])
    next
      fix ip' op' out'
      assume s: "lzf_decompress_step inp ip op out = Some (Inr (ip', op', out'))"
        and l: "op' \<le> length out'" "length out' = length out"
      show ?thesis using 1(1) [OF True s refl refl refl] s l True by (simp add: lzf_decompress_loop.simps [of inp ip])
    qed
  next
    case False
    then show ?thesis using 1(2) by (simp add: lzf_decompress_loop.simps [of inp ip])
  qed
qed


subsection \<open>The compressor writes a stream of the input\<close>

text \<open>
  What holds between iterations: the output starts with the tokens \<open>ts\<close>, which decode to the input
  up to the current run; then comes the reserved header of the run and the \<open>lz_lit\<close> literals. An
  octet of the input costs at most two octets of the output.
\<close>

definition lz_inv :: "buf \<Rightarrow> lzf_state \<Rightarrow> lz_tok list \<Rightarrow> bool" where
  "lz_inv inp st ts \<longleftrightarrow>
     toks_ok [] ts \<and> lz_lit st < MAX_LIT \<and> lz_lit st \<le> lz_ip st \<and> lz_ip st \<le> length inp \<and>
     toks_apply [] ts = take (lz_ip st - lz_lit st) inp \<and>
     lz_op st = length (toks_bytes ts) + lz_lit st + 1 \<and> lz_op st \<le> 2 * lz_ip st + 1 \<and>
     (lz_out st = toks_bytes ts \<and> lz_lit st = 0 \<or>
      (\<exists>h R. lz_out st = toks_bytes ts @ h # take (lz_lit st) (drop (lz_ip st - lz_lit st) inp) @ R))"

text \<open>Ending the run yields a stream of everything read so far.\<close>

lemma of_int_pred: "0 < n \<Longrightarrow> (of_int (int n - 1) :: byte) = of_nat (n - 1)"
  by (simp add: of_nat_diff)

lemma run_extends:
  assumes "n \<le> p" "p \<le> length inp"
  shows "take (p - n) inp @ take n (drop (p - n) inp) = take p inp"
  using assms by (metis le_add_diff_inverse2 take_add)

lemma lzf_stop_run_toks:
  assumes inv: "lz_inv inp st ts" and room: "length (toks_bytes ts) < length (lz_out st)"
  shows "\<exists>out1 ts1 R. lzf_stop_run (lz_out st) (lz_op st) (lz_lit st) = Some out1 \<and>
    length out1 = length (lz_out st) \<and> toks_ok [] ts1 \<and> toks_apply [] ts1 = take (lz_ip st) inp \<and>
    out1 = toks_bytes ts1 @ R \<and>
    length (toks_bytes ts1) = lz_op st - (if lz_lit st = 0 then 1 else 0)"
proof -
  let ?l = "lz_lit st" and ?A = "toks_bytes ts"
  let ?S = "take ?l (drop (lz_ip st - ?l) inp)"
  have l: "?l \<le> lz_ip st" "lz_ip st \<le> length inp" "?l < MAX_LIT" "lz_op st = length ?A + ?l + 1"
    and ok: "toks_ok [] ts" "toks_apply [] ts = take (lz_ip st - ?l) inp"
    using inv by (auto simp: lz_inv_def)
  obtain h R where out: "lz_out st = ?A @ h # ?S @ R" using inv room by (auto simp: lz_inv_def)
  have S: "length ?S = ?l" using l by simp
  have run: "lzf_stop_run (lz_out st) (lz_op st) ?l = Some (?A @ of_int (int ?l - 1) # ?S @ R)"
    by (simp add: lzf_stop_run_def l(4) out wr_def)
  show ?thesis
  proof (cases "?l = 0")
    case True
    then show ?thesis using run ok l out by (intro exI [of _ "?A @ of_int (int ?l - 1) # ?S @ R"] exI [of _ ts]
        exI [of _ "of_int (int ?l - 1) # ?S @ R"]) auto
  next
    case False
    have "tok_ok (toks_apply [] ts) (Lit ?S)" using False l S by simp
    moreover have "toks_apply [] (ts @ [Lit ?S]) = take (lz_ip st) inp"
      using ok(2) run_extends [OF l(1,2)] by simp
    moreover have "?A @ of_int (int ?l - 1) # ?S @ R = toks_bytes (ts @ [Lit ?S]) @ R"
      using False S by (simp add: of_int_pred)
    moreover have "length (toks_bytes (ts @ [Lit ?S])) = lz_op st" using S l(4) by simp
    ultimately show ?thesis using run ok(1) False out
      by (intro exI [of _ "?A @ of_int (int ?l - 1) # ?S @ R"] exI [of _ "ts @ [Lit ?S]"] exI [of _ R]) auto
  qed
qed

lemma lzf_literal_inv:
  assumes inv: "lz_inv inp st ts" and i: "lz_ip st < length inp" and o: "lz_op st < length (lz_out st)"
  shows "\<exists>st' ts'. lzf_literal inp st = Some st' \<and> lz_inv inp st' ts' \<and>
    length (lz_out st') = length (lz_out st) \<and> lz_ip st' = lz_ip st + 1 \<and>
    (if lz_lit st + 1 = MAX_LIT then lz_lit st' = 0 \<and> lz_op st' = lz_op st + 2
     else lz_lit st' = lz_lit st + 1 \<and> lz_op st' = lz_op st + 1)"
proof -
  let ?l = "lz_lit st" and ?A = "toks_bytes ts"
  let ?S = "take ?l (drop (lz_ip st - ?l) inp)"
  have l: "?l \<le> lz_ip st" "?l < MAX_LIT" "lz_op st = length ?A + ?l + 1"
    using inv by (auto simp: lz_inv_def)
  obtain h R where "lz_out st = ?A @ h # ?S @ R" using inv o by (auto simp: lz_inv_def)
  moreover have S: "length ?S = ?l" using l i by simp
  ultimately obtain r R' where out: "lz_out st = ?A @ h # ?S @ r # R'"
    using o l(3) by (cases R) auto
  let ?b = "inp ! lz_ip st"
  let ?o1 = "?A @ h # (?S @ [?b]) @ R'"
  let ?st1 = "st\<lparr>lz_lit := ?l + 1, lz_out := ?o1, lz_op := lz_op st + 1, lz_ip := lz_ip st + 1\<rparr>"
  have S1: "?S @ [?b] = take (?l + 1) (drop (lz_ip st - ?l) inp)"
    using l(1) i take_Suc_conv_app_nth [of ?l "drop (lz_ip st - ?l) inp"] by simp
  have w: "rd inp (lz_ip st) = Some ?b" "wr (lz_out st) (lz_op st) ?b = Some ?o1"
    using i S by (auto simp: rd_def wr_def out l(3) list_update_append)
  show ?thesis
  proof (cases "?l + 1 = MAX_LIT")
    case False
    then have "lzf_literal inp st = Some ?st1" using w by (simp add: lzf_literal_def)
    moreover have "lz_inv inp ?st1 ts"
      using inv False i l S1 by (auto simp: lz_inv_def)
    ultimately show ?thesis using False S by (intro exI [of _ ?st1]) (auto simp: out)
  next
    case True
    let ?ts = "ts @ [Lit (?S @ [?b])]"
    let ?o2 = "?A @ of_int (int (?l + 1) - 1) # (?S @ [?b]) @ R'"
    let ?st2 = "?st1\<lparr>lz_lit := 0, lz_out := ?o2, lz_op := lz_op st + 2\<rparr>"
    have "lzf_stop_run ?o1 (lz_op st + 1) (?l + 1) = Some ?o2"
      by (simp add: lzf_stop_run_def l(3) wr_def)
    then have "lzf_literal inp st = Some ?st2" using w True by (simp add: lzf_literal_def)
    moreover have o2: "?o2 = toks_bytes ?ts @ R'" using S by (simp add: of_int_pred)
    have "toks_apply [] ?ts = take (lz_ip st + 1) inp"
      using inv i l(1) run_extends [of "?l + 1" "lz_ip st + 1" inp] S1 by (simp add: lz_inv_def)
    then have "lz_inv inp ?st2 ?ts"
      using inv True i l(3) S o2 by (cases R') (auto simp: lz_inv_def)
    ultimately show ?thesis using True S
      by (intro exI [of _ ?st2] exI [of _ ?ts]) (auto simp: out)
  qed
qed

text \<open>The match length counts octets that agree and stays inside the input.\<close>

lemma lzf_unrolled_spec:
  assumes "ref < p" "p + len + k < length inp" "\<And>j. j \<le> len \<Longrightarrow> inp ! (ref + j) = inp ! (p + j)"
  shows "\<exists>n stop. lzf_unrolled inp ref p k len = Some (n, stop) \<and> n \<le> len + k \<and> len \<le> n \<and>
    (if stop then len < n \<and> (\<forall>j<n. inp ! (ref + j) = inp ! (p + j))
     else n = len + k \<and> (\<forall>j\<le>n. inp ! (ref + j) = inp ! (p + j)))"
  using assms
proof (induction k arbitrary: len)
  case 0
  then show ?case by auto
next
  case (Suc k)
  have rd: "rd inp (ref + (len + 1)) = Some (inp ! (ref + (len + 1)))" "rd inp (p + (len + 1)) = Some (inp ! (p + (len + 1)))"
    using Suc.prems by (auto simp: rd_def)
  show ?case
  proof (cases "inp ! (ref + (len + 1)) = inp ! (p + (len + 1))")
    case True
    have "inp ! (ref + j) = inp ! (p + j)" if "j \<le> len + 1" for j
      using Suc.prems(3) [of j] True that by (cases "j = len + 1") auto
    then obtain n stop where n: "lzf_unrolled inp ref p k (len + 1) = Some (n, stop)" "n \<le> len + 1 + k" "len + 1 \<le> n"
      "if stop then len + 1 < n \<and> (\<forall>j<n. inp ! (ref + j) = inp ! (p + j))
       else n = len + 1 + k \<and> (\<forall>j\<le>n. inp ! (ref + j) = inp ! (p + j))"
      using Suc.IH [of "len + 1"] Suc.prems by auto
    then show ?thesis using rd True by (auto split: if_splits)
  next
    case False
    then show ?thesis using rd Suc.prems(3) by (auto simp: less_Suc_eq_le)
  qed
qed

lemma lzf_extend_spec:
  assumes "ref < p" "p + maxlen \<le> length inp" "\<And>j. j \<le> len \<Longrightarrow> inp ! (ref + j) = inp ! (p + j)"
  shows "\<exists>n. lzf_extend inp ref p maxlen len = Some n \<and> len < n \<and> n \<le> max maxlen (len + 1) \<and>
    (\<forall>j<n. inp ! (ref + j) = inp ! (p + j))"
  using assms
proof (induction inp ref p maxlen len rule: lzf_extend.induct)
  case (1 inp ref p maxlen len)
  show ?case
  proof (cases "len + 1 < maxlen \<and> inp ! (ref + (len + 1)) = inp ! (p + (len + 1))")
    case True
    have rd: "rd inp (ref + (len + 1)) = Some (inp ! (ref + (len + 1)))" "rd inp (p + (len + 1)) = Some (inp ! (p + (len + 1)))"
      using 1 True by (auto simp: rd_def)
    have "inp ! (ref + j) = inp ! (p + j)" if "j \<le> len + 1" for j
      using 1(4) [of j] True that by (cases "j = len + 1") auto
    then show ?thesis using 1(1) [OF _ rd] 1(2,3) True rd
      by (subst lzf_extend.simps) force
  next
    case False
    have "len + 1 < maxlen \<Longrightarrow> rd inp (ref + (len + 1)) = Some (inp ! (ref + (len + 1)))"
      "len + 1 < maxlen \<Longrightarrow> rd inp (p + (len + 1)) = Some (inp ! (p + (len + 1)))"
      using 1(2,3) by (auto simp: rd_def)
    then have "lzf_extend inp ref p maxlen len = Some (len + 1)"
      using False by (subst lzf_extend.simps) auto
    then show ?thesis using 1(4) by (auto simp: less_Suc_eq_le)
  qed
qed

lemma lzf_match_len_spec:
  assumes "ref < p" "p + 2 < length inp" "\<And>j. j \<le> 2 \<Longrightarrow> inp ! (ref + j) = inp ! (p + j)"
    and "maxlen = min MAX_REF (length inp - p - 2)"
  shows "\<exists>n. lzf_match_len inp ref p maxlen = Some n \<and> 3 \<le> n \<and> n \<le> MAX_REF \<and> p + n \<le> length inp \<and>
    (\<forall>j<n. inp ! (ref + j) = inp ! (p + j))"
proof (cases "16 < maxlen")
  case True
  then have l: "p + 2 + 16 < length inp" using assms(4) by simp
  obtain n stop where n: "lzf_unrolled inp ref p 16 2 = Some (n, stop)" "n \<le> 18" "2 \<le> n"
    "if stop then 2 < n \<and> (\<forall>j<n. inp ! (ref + j) = inp ! (p + j))
     else n = 18 \<and> (\<forall>j\<le>n. inp ! (ref + j) = inp ! (p + j))"
    using lzf_unrolled_spec [OF assms(1) l assms(3)] by auto
  show ?thesis
  proof (cases stop)
    case True
    then show ?thesis using n assms(4) \<open>16 < maxlen\<close> by (auto simp: lzf_match_len_def)
  next
    case False
    have m: "p + maxlen \<le> length inp" "max maxlen 19 \<le> MAX_REF" "p + max maxlen 19 \<le> length inp"
      using l assms(4) by (auto simp: max_def)
    have "lzf_match_len inp ref p maxlen = lzf_extend inp ref p maxlen 18" "\<forall>j\<le>18. inp ! (ref + j) = inp ! (p + j)"
      using n False \<open>16 < maxlen\<close> by (auto simp: lzf_match_len_def)
    then obtain k where "lzf_match_len inp ref p maxlen = Some k" "18 < k" "k \<le> max maxlen 19"
      "\<forall>j<k. inp ! (ref + j) = inp ! (p + j)"
      using lzf_extend_spec [OF assms(1) m(1), of 18] by auto
    then show ?thesis using m by auto
  qed
next
  case False
  have m: "p + maxlen \<le> length inp" "max maxlen 3 \<le> MAX_REF" "p + max maxlen 3 \<le> length inp"
    using assms(2,4) False by (auto simp: max_def)
  then show ?thesis
    using False lzf_extend_spec [OF assms(1) m(1), of 2] assms(3) by (fastforce simp: lzf_match_len_def)
qed

text \<open>Writing a back reference of \<open>n\<close> octets.\<close>

lemma lzf_put_ref_bytes:
  assumes "out = A @ R" "length A + 4 < length out" "3 \<le> n" "off < MAX_OFF"
  shows "\<exists>R'. lzf_put_ref out (length A) off (n - 2) =
       Some (A @ tok_bytes (Ref off n) @ R', length A + length (tok_bytes (Ref off n))) \<and>
     length R = length (tok_bytes (Ref off n)) + length R'"
proof -
  have "3 \<le> length R" using assms by simp
  then obtain a b c R1 where R: "R = a # b # c # R1" by (auto simp: numeral_3_eq_3 Suc_le_length_iff)
  show ?thesis
  proof (cases "n - 2 < 7")
    case True
    then show ?thesis unfolding assms(1) R lzf_put_ref_def
      by (intro exI [of _ "c # R1"]) (simp add: wr_def list_update_append drop_bit_eq_div push_bit_eq_mult mult.commute)
  next
    case False
    have "n - 2 - 7 = n - 9" by simp
    then show ?thesis using False unfolding assms(1) R lzf_put_ref_def
      by (intro exI [of _ R1]) (simp add: wr_def list_update_append drop_bit_eq_div push_bit_eq_mult)
  qed
qed

lemma lzf_rehash_total:
  assumes "2 \<le> lz_ip st" "lz_ip st + 1 < length inp"
  shows "\<exists>h t. lzf_rehash inp st = Some (st\<lparr>lz_hval := h, lz_htab := t\<rparr>)"
proof -
  have "lz_ip st - 2 + 2 = lz_ip st" using assms(1) by simp
  then show ?thesis using assms
    by (auto simp: lzf_rehash_def FRST_def NEXT_def rd_def Let_def intro!: exI)
qed

lemma match_extends:
  assumes "ref < p" "p + n \<le> length inp" "\<forall>j<n. inp ! (ref + j) = inp ! (p + j)"
  shows "lz_repeat (take p inp) (p - ref - 1) n = take (p + n) inp"
proof (rule lz_repeat_eqI)
  fix i assume i: "length (take p inp) \<le> i" "i < length (take (p + n) inp)"
  then have "i - p < n" "ref + (i - p) = i - (p - ref - 1) - 1" "p + (i - p) = i" using assms(1,2) by auto
  then show "take (p + n) inp ! i = take (p + n) inp ! (i - (p - ref - 1) - 1)"
    using assms(3) i by (metis diff_le_self le_less_trans length_take min_less_iff_conj nth_take)
qed (use assms in auto)

lemma lzf_emit_ref_inv:
  assumes inv: "lz_inv inp st ts" and p: "lz_ip st + 2 < length inp" "ref < lz_ip st"
    and eq: "\<And>j. j \<le> 2 \<Longrightarrow> inp ! (ref + j) = inp ! (lz_ip st + j)"
    and off: "off = lz_ip st - ref - 1" "off < MAX_OFF"
  shows "lzf_emit_ref inp st ref off = Some (Inl st) \<and> length (lz_out st) \<le> lz_op st + 4 \<or>
    (\<exists>st' brk ts'. lzf_emit_ref inp st ref off = Some (Inr (st', brk)) \<and> lz_inv inp st' ts' \<and>
       length (lz_out st') = length (lz_out st) \<and> (brk \<longrightarrow> length inp \<le> lz_ip st' + 2))"
proof -
  define notlit :: nat where "notlit = (if lz_lit st = 0 then 1 else 0)"
  define maxlen where "maxlen = min MAX_REF (length inp - lz_ip st - 2)"
  have mx: "(if MAX_REF < length inp - lz_ip st - 2 then MAX_REF else length inp - lz_ip st - 2) = maxlen"
    by (simp add: maxlen_def min_def)
  have op: "lz_op st = length (toks_bytes ts) + lz_lit st + 1" "lz_op st \<le> 2 * lz_ip st + 1"
    using inv by (auto simp: lz_inv_def)
  show ?thesis
  proof (cases "length (lz_out st) \<le> lz_op st + 3 + 1 \<and> length (lz_out st) + notlit \<le> lz_op st + 3 + 1")
    case True
    then show ?thesis by (simp add: lzf_emit_ref_def notlit_def [symmetric])
  next
    case room: False
    then have "length (toks_bytes ts) < length (lz_out st)" using op by (auto simp: notlit_def split: if_splits)
    from lzf_stop_run_toks [OF inv this] obtain out1 ts1 R where
      s: "lzf_stop_run (lz_out st) (lz_op st) (lz_lit st) = Some out1" "length out1 = length (lz_out st)" and
      t: "toks_ok [] ts1" "toks_apply [] ts1 = take (lz_ip st) inp" "out1 = toks_bytes ts1 @ R"
        "length (toks_bytes ts1) = lz_op st - notlit"
      by (auto simp: notlit_def)
    obtain n where n: "lzf_match_len inp ref (lz_ip st) maxlen = Some n" "3 \<le> n" "n \<le> MAX_REF"
      "lz_ip st + n \<le> length inp" "\<forall>j<n. inp ! (ref + j) = inp ! (lz_ip st + j)"
      using lzf_match_len_spec [OF p(2,1) eq maxlen_def] by blast
    have "length (toks_bytes ts1) + 4 < length out1" using room s(2) t(4) op by (auto simp: notlit_def split: if_splits)
    from lzf_put_ref_bytes [OF t(3) this n(2) off(2)] obtain R' where
      w: "lzf_put_ref out1 (lz_op st - notlit) off (n - 2) =
        Some (toks_bytes ts1 @ tok_bytes (Ref off n) @ R', length (toks_bytes ts1) + length (tok_bytes (Ref off n)))"
      and R': "length R = length (tok_bytes (Ref off n)) + length R'"
      unfolding t(4) by blast
    let ?ts = "ts1 @ [Ref off n]"
    let ?out = "toks_bytes ?ts @ R'"
    have ap: "toks_apply [] ?ts = take (lz_ip st + n) inp"
      using match_extends [OF p(2) n(4,5)] off(1) t(2) by simp
    have ok: "toks_ok [] ?ts" using t(1,2) off n p by simp
    have inv': "lz_inv inp st' ?ts" if "lz_ip st' = lz_ip st + n" "lz_lit st' = 0" "lz_out st' = ?out"
        "lz_op st' = length (toks_bytes ?ts) + 1" for st'
      using that ap ok n(2,4) op(2) t(4) by (cases R') (auto simp: lz_inv_def)
    let ?st = "st\<lparr>lz_lit := 0, lz_op := length (toks_bytes ?ts) + 1, lz_out := ?out, lz_ip := lz_ip st + n\<rparr>"
    have len: "length ?out = length (lz_out st)" using s(2) t(3) R' by simp
    have ip: "lz_ip st + 1 + (n - 2 + 1) = lz_ip st + n" using n(2) by simp
    have e: "lzf_emit_ref inp st ref off =
      (if length inp \<le> lz_ip st + n + 2 then Some (Inr (?st, True))
       else do { st \<leftarrow> lzf_rehash inp ?st; Some (Inr (st, False)) })"
      unfolding lzf_emit_ref_def notlit_def [symmetric] Let_def mx if_not_P [OF room] s(1) n(1) Option.bind.simps w prod.case ip
      by (simp del: tok_bytes.simps)
    show ?thesis
    proof (cases "length inp \<le> lz_ip st + n + 2")
      case True
      then show ?thesis using e inv' [of ?st] len by (auto simp del: tok_bytes.simps)
    next
      case False
      then obtain h tb where "lzf_rehash inp ?st = Some (?st\<lparr>lz_hval := h, lz_htab := tb\<rparr>)"
        using lzf_rehash_total [of ?st inp] n(2) by auto
      then show ?thesis using False e inv' [of "?st\<lparr>lz_hval := h, lz_htab := tb\<rparr>"] len by (auto simp del: tok_bytes.simps)
    qed
  qed
qed

text \<open>An iteration of the main loop, the loop, and the copying of the last octets.\<close>

lemma lzf_found_spec:
  assumes "p + 2 < length inp"
  obtains "lzf_found inp p ref (int p - ref - 1) = Some False"
  | "lzf_found inp p ref (int p - ref - 1) = Some True" "nat ref < p" "nat (int p - ref - 1) = p - nat ref - 1"
    "nat (int p - ref - 1) < MAX_OFF" "\<And>j. j \<le> 2 \<Longrightarrow> inp ! (nat ref + j) = inp ! (p + j)"
proof (cases "0 \<le> int p - ref - 1 \<and> int p - ref - 1 < int MAX_OFF \<and> 0 < ref")
  case True
  then have b: "nat ref < p" "nat (int p - ref - 1) = p - nat ref - 1" "nat (int p - ref - 1) < MAX_OFF" by auto
  let ?m = "inp ! (nat ref + 2) = inp ! (p + 2) \<and> inp ! nat ref = inp ! p \<and> inp ! (nat ref + 1) = inp ! (p + 1)"
  have f: "lzf_found inp p ref (int p - ref - 1) = Some ?m"
    unfolding lzf_found_def if_P [OF True] using b(1) assms by (simp add: rd_nth)
  show thesis
  proof (cases ?m)
    case m: True
    have j: "inp ! (nat ref + j) = inp ! (p + j)" if "j \<le> 2" for j
    proof -
      have "j = 0 \<or> j = 1 \<or> j = 2" using that by linarith
      then show ?thesis using m by auto
    qed
    have "lzf_found inp p ref (int p - ref - 1) = Some True" unfolding f using m by blast
    from that(2) [OF this b j] show thesis .
  qed (use that(1) f in auto)
next
  case False
  then show thesis using that(1) by (simp only: lzf_found_def if_False)
qed

lemma lzf_step_inv:
  assumes inv: "lz_inv inp st ts" and p: "lz_ip st + 2 < length inp"
  shows "(\<exists>st'. lzf_step inp st = Some (Inl st') \<and> length (lz_out st') = length (lz_out st) \<and>
       length (lz_out st') < 2 * length inp) \<or>
    (\<exists>st' brk ts'. lzf_step inp st = Some (Inr (st', brk)) \<and> lz_inv inp st' ts' \<and>
       length (lz_out st') = length (lz_out st) \<and> (brk \<longrightarrow> length inp \<le> lz_ip st' + 2))"
proof -
  obtain h where h: "NEXT inp (lz_hval st) (lz_ip st) = Some h" using p by (simp add: NEXT_def rd_nth)
  let ?ref = "lz_htab st (IDX h)"
  let ?st = "st\<lparr>lz_hval := h, lz_htab := (lz_htab st)(IDX h := int (lz_ip st))\<rparr>"
  have inv': "lz_inv inp ?st ts" using inv by (simp add: lz_inv_def)
  have op: "lz_op st + 4 < 2 * length inp" using inv p by (simp add: lz_inv_def)
  have step: "lzf_step inp st = do {
      found \<leftarrow> lzf_found inp (lz_ip st) ?ref (int (lz_ip st) - ?ref - 1);
      if found then lzf_emit_ref inp ?st (nat ?ref) (nat (int (lz_ip st) - ?ref - 1))
      else if length (lz_out st) \<le> lz_op st then Some (Inl ?st)
      else do { st \<leftarrow> lzf_literal inp ?st; Some (Inr (st, False)) } }"
    by (simp add: lzf_step_def h Let_def cong: if_cong)
  from lzf_found_spec [OF p, of ?ref] show ?thesis
  proof cases
    case 1
    show ?thesis
    proof (cases "length (lz_out st) \<le> lz_op st")
      case False
      then obtain st' ts' where "lzf_literal inp ?st = Some st'" "lz_inv inp st' ts'" "length (lz_out st') = length (lz_out st)"
        using lzf_literal_inv [OF inv'] p by auto
      then have "lzf_step inp st = Some (Inr (st', False)) \<and> lz_inv inp st' ts' \<and>
          length (lz_out st') = length (lz_out st) \<and> (False \<longrightarrow> length inp \<le> lz_ip st' + 2)"
        using False by (simp add: step 1)
      then show ?thesis by blast
    qed (use op in \<open>simp add: step 1\<close>)
  next
    case 2
    have "lzf_step inp st = lzf_emit_ref inp ?st (nat ?ref) (nat (int (lz_ip st) - ?ref - 1))" by (simp add: step 2(1))
    then show ?thesis
      using lzf_emit_ref_inv [OF inv', of "nat ?ref" "nat (int (lz_ip st) - ?ref - 1)"] p op 2(2-) by auto
  qed
qed

lemma lzf_loop_inv:
  assumes "lz_inv inp st ts"
  shows "\<exists>r. lzf_loop inp st = Some r \<and>
    (case r of Inl st' \<Rightarrow> length (lz_out st') = length (lz_out st) \<and> length (lz_out st') < 2 * length inp
     | Inr st' \<Rightarrow> length (lz_out st') = length (lz_out st) \<and> length inp \<le> lz_ip st' + 2 \<and> (\<exists>ts'. lz_inv inp st' ts'))"
  using assms
proof (induction inp st arbitrary: ts rule: lzf_loop.induct)
  case (1 inp st)
  show ?case
  proof (cases "lz_ip st + 2 < length inp")
    case True
    from lzf_step_inv [OF 1(2) True] show ?thesis
    proof (elim disjE exE conjE)
      fix st' assume "lzf_step inp st = Some (Inl st')" "length (lz_out st') = length (lz_out st)" "length (lz_out st') < 2 * length inp"
      then show ?thesis using True by (subst lzf_loop.simps) simp
    next
      fix st' brk ts'
      assume s: "lzf_step inp st = Some (Inr (st', brk))" and i: "lz_inv inp st' ts'"
        and l: "length (lz_out st') = length (lz_out st)" and b: "brk \<longrightarrow> length inp \<le> lz_ip st' + 2"
      show ?thesis
      proof (cases brk)
        case True
        then show ?thesis using s i l b \<open>lz_ip st + 2 < length inp\<close> by (subst lzf_loop.simps) auto
      next
        case False
        then have "lzf_loop inp st = lzf_loop inp st'" using s \<open>lz_ip st + 2 < length inp\<close> by (subst lzf_loop.simps) simp
        then show ?thesis using 1(1) [OF True s refl refl False i] unfolding l by simp
      qed
    qed
  next
    case False
    then show ?thesis using 1(2) by (subst lzf_loop.simps) auto
  qed
qed

lemma lzf_rest_inv:
  assumes "lz_inv inp st ts" "length inp - lz_ip st \<le> 2"
    "lz_op st + (length inp - lz_ip st) + (if MAX_LIT \<le> lz_lit st + (length inp - lz_ip st) then 1 else 0) \<le> length (lz_out st)"
  shows "\<exists>st' ts'. lzf_rest inp st = Some st' \<and> lz_inv inp st' ts' \<and> lz_ip st' = length inp \<and>
    length (lz_out st') = length (lz_out st) \<and> lz_op st' \<le> length (lz_out st')"
  using assms
proof (induction inp st arbitrary: ts rule: lzf_rest.induct)
  case (1 inp st)
  show ?case
  proof (cases "lz_ip st < length inp")
    case True
    then have "lz_op st < length (lz_out st)" using 1(4) by linarith
    from lzf_literal_inv [OF 1(2) True this] obtain st' ts' where
      st': "lzf_literal inp st = Some st'" "lz_inv inp st' ts'" "length (lz_out st') = length (lz_out st)" "lz_ip st' = lz_ip st + 1"
      and c: "if lz_lit st + 1 = MAX_LIT then lz_lit st' = 0 \<and> lz_op st' = lz_op st + 2
        else lz_lit st' = lz_lit st + 1 \<and> lz_op st' = lz_op st + 1" by blast
    have "lz_op st' + (length inp - lz_ip st') + (if MAX_LIT \<le> lz_lit st' + (length inp - lz_ip st') then 1 else 0) \<le> length (lz_out st')"
      using 1(3,4) c True st'(3,4) by (auto split: if_splits)
    then show ?thesis using 1(1) [OF True st'(1) st'(2)] 1(3) st' True by (subst lzf_rest.simps) simp
  next
    case False
    then have "lz_ip st = length inp" using 1(2) by (simp add: lz_inv_def)
    then show ?thesis using 1(2,4) by (subst lzf_rest.simps) auto
  qed
qed

text \<open>
  Compressing at least two octets never leaves the blocks, whatever the hash table holds at the
  start, and a positive result is the length of a stream that decodes to the input.
\<close>

lemma lzf_compress_toks:
  assumes "2 \<le> length inp"
  shows "\<exists>n out'. lzf_compress htab0 inp out = Some (n, out') \<and> length out' = length out \<and> n \<le> length out \<and>
    (if n = 0 then length out < 2 * length inp + 4 else (\<exists>ts. toks_ok [] ts \<and> toks_apply [] ts = inp \<and> take n out' = toks_bytes ts))"
proof (cases "length out = 0")
  case False
  have f: "\<exists>h. FRST inp 0 = Some h" using assms by (auto simp: FRST_def rd_def)
  then obtain h where h: "FRST inp 0 = Some h" by blast
  let ?st = "\<lparr>lz_ip = 0, lz_op = 1, lz_lit = 0, lz_hval = h, lz_out = out, lz_htab = htab0\<rparr>"
  have "lz_inv inp ?st []" using False by (cases out) (auto simp: lz_inv_def)
  from lzf_loop_inv [OF this, unfolded lzf_state.select_convs] obtain r where r: "lzf_loop inp ?st = Some r" and
    rs: "case r of Inl st' \<Rightarrow> length (lz_out st') = length out \<and> length (lz_out st') < 2 * length inp
      | Inr st' \<Rightarrow> length (lz_out st') = length out \<and> length inp \<le> lz_ip st' + 2 \<and> (\<exists>ts'. lz_inv inp st' ts')" by blast
  have c: "lzf_compress htab0 inp out = (case r of
      Inl st \<Rightarrow> Some (0, lz_out st)
    | Inr st \<Rightarrow>
        if length (lz_out st) < lz_op st + 3 then Some (0, lz_out st)
        else do {
          st \<leftarrow> lzf_rest inp st;
          out \<leftarrow> lzf_stop_run (lz_out st) (lz_op st) (lz_lit st);
          Some (lz_op st - (if lz_lit st = 0 then 1 else 0), out) })"
    using assms False h r by (auto simp: lzf_compress_def)
  show ?thesis
  proof (cases r)
    case (Inl st)
    then show ?thesis using c rs by simp
  next
    case (Inr st)
    then obtain ts where st: "lz_inv inp st ts" "length (lz_out st) = length out" "length inp \<le> lz_ip st + 2"
      using rs by auto
    show ?thesis
    proof (cases "length (lz_out st) < lz_op st + 3")
      case True
      moreover have "lz_op st \<le> 2 * length inp + 1" using st(1) by (simp add: lz_inv_def)
      ultimately show ?thesis using c Inr st(2) by simp
    next
      case False
      have "length inp - lz_ip st \<le> 2" using st(3) by simp
      moreover have "lz_op st + (length inp - lz_ip st) +
          (if MAX_LIT \<le> lz_lit st + (length inp - lz_ip st) then 1 else 0) \<le> length (lz_out st)"
        using False st(3) by auto
      ultimately obtain st1 ts1 where s1: "lzf_rest inp st = Some st1" "lz_inv inp st1 ts1" "lz_ip st1 = length inp"
        "length (lz_out st1) = length out" "lz_op st1 \<le> length out"
        using lzf_rest_inv [OF st(1)] st(2) by auto
      have "length (toks_bytes ts1) < length (lz_out st1)" using s1 by (simp add: lz_inv_def)
      from lzf_stop_run_toks [OF s1(2) this] obtain out1 ts2 R where t2:
        "lzf_stop_run (lz_out st1) (lz_op st1) (lz_lit st1) = Some out1" "length out1 = length out" "toks_ok [] ts2"
        "toks_apply [] ts2 = inp" "out1 = toks_bytes ts2 @ R" "length (toks_bytes ts2) = lz_op st1 - (if lz_lit st1 = 0 then 1 else 0)"
        using s1(3,4) by auto
      moreover have "toks_bytes ts2 \<noteq> []" using t2(4) assms toks_bytes_nonempty by (cases ts2) auto
      ultimately show ?thesis using c Inr False s1
        by (intro exI [of _ "length (toks_bytes ts2)"] exI [of _ out1]) auto
    qed
  qed
qed (simp add: lzf_compress_def)

text \<open>
  C23. \<open>lzf_compress\<close> on at least two octets, with any output block and any initial hash table,
  returns without a fault; when it reports a length \<open>n > 0\<close>, decompressing the first \<open>n\<close> octets of
  the output into any block that is large enough restores the input. It reports 0 only when the
  output block has fewer than \<open>2 * in_len + 4\<close> octets.
\<close>

theorem lzf_roundtrip:
  assumes "2 \<le> length inp" "length inp \<le> length dst"
  shows "\<exists>n out'. lzf_compress htab0 inp out = Some (n, out') \<and> length out' = length out \<and> n \<le> length out \<and>
    (if n = 0 then length out < 2 * length inp + 4 else \<exists>rest. lzf_decompress (take n out') dst = Some (length inp, inp @ rest, LZF_OK))"
proof -
  from lzf_compress_toks [OF assms(1)] obtain n out' where
    c: "lzf_compress htab0 inp out = Some (n, out')" "length out' = length out" "n \<le> length out"
    and t: "if n = 0 then length out < 2 * length inp + 4 else (\<exists>ts. toks_ok [] ts \<and> toks_apply [] ts = inp \<and> take n out' = toks_bytes ts)" by blast
  have "if n = 0 then length out < 2 * length inp + 4
      else \<exists>rest. lzf_decompress (take n out') dst = Some (length inp, inp @ rest, LZF_OK)"
    using t lzf_decompress_toks assms(2) by (fastforce split: if_splits)
  with c show ?thesis by blast
qed

theorem lzf_roundtrip_witness:
  "\<exists>n out'. lzf_compress (\<lambda>_. - 7) (replicate 20 (65 :: byte)) (replicate 48 0) = Some (n, out') \<and> length out' = 48 \<and> n \<le> 48 \<and>
    (if n = 0 then (48 :: nat) < 2 * 20 + 4 else \<exists>rest. lzf_decompress (take n out') (replicate 24 0) = Some (20, replicate 20 65 @ rest, LZF_OK))"
  using lzf_roundtrip [of "replicate 20 (65 :: byte)" "replicate 24 0" "\<lambda>_. - 7" "replicate 48 0"]
  unfolding length_replicate by (rule meta_mp [OF meta_mp]) simp_all

text \<open>
  C24. \<open>lzf_decompress\<close> of arbitrary octets never reads outside the input and never reads or writes
  outside the output block: it returns an error or a length within the block.
\<close>

theorem lzf_decompress_safe:
  "\<exists>n out' e. lzf_decompress inp out = Some (n, out', e) \<and> n \<le> length out \<and> length out' = length out"
  using lzf_decompress_loop_total [of 0 out inp 0] by (simp add: lzf_decompress_def)

end
