(* ===== verification/Rdb_String.thy ===== *)
theory Rdb_String
  imports Rio Lzf Endianconv
begin

text \<open>
  The primitives of the RDB format (\<open>rdb.c\<close>): types, times, lengths, integers and strings, on top
  of the stream layer and of LZF. A NULL stream only counts the bytes. Return values are those of
  the code, with \<open>-1\<close> for an error; where the code returns a pointer or fills out-parameters, \<open>NULL\<close>
  stands for the error. Uninitialised memory of \<open>n\<close> bytes is \<open>junk n\<close>, and \<open>alloc n\<close> says whether the
  allocator can provide \<open>n\<close> bytes.
\<close>

abbreviation (input) RDB_6BITLEN :: byte where "RDB_6BITLEN \<equiv> 0"
abbreviation (input) RDB_14BITLEN :: byte where "RDB_14BITLEN \<equiv> 1"
abbreviation (input) RDB_32BITLEN :: byte where "RDB_32BITLEN \<equiv> 0x80"
abbreviation (input) RDB_64BITLEN :: byte where "RDB_64BITLEN \<equiv> 0x81"
abbreviation (input) RDB_ENCVAL :: byte where "RDB_ENCVAL \<equiv> 3"
abbreviation (input) RDB_LENERR :: nat where "RDB_LENERR \<equiv> 18446744073709551615"
abbreviation (input) RDB_ENC_INT8 :: nat where "RDB_ENC_INT8 \<equiv> 0"
abbreviation (input) RDB_ENC_INT16 :: nat where "RDB_ENC_INT16 \<equiv> 1"
abbreviation (input) RDB_ENC_INT32 :: nat where "RDB_ENC_INT32 \<equiv> 2"
abbreviation (input) RDB_ENC_LZF :: nat where "RDB_ENC_LZF \<equiv> 3"

datatype rdb_load_flag =
  RDB_LOAD_NONE | RDB_LOAD_ENC | RDB_LOAD_PLAIN | RDB_LOAD_SDS | RDB_LOAD_HFLD | RDB_LOAD_HFLD_TTL

text \<open>
  What a load returns: a plain block, an \<open>sds\<close>, a hash field with or without a TTL, or a string object
  that holds an \<open>sds\<close> or an integer.
\<close>

datatype rdb_value = V_plain buf | V_sds buf | V_hfield buf bool | V_robj_sds buf | V_robj_int int


subsection \<open>Types and times\<close>

definition rdbWriteRaw :: "'s rio nullable \<Rightarrow> buf \<Rightarrow> (int \<times> 's rio nullable) option" where
  "rdbWriteRaw rdb p = (case rdb of
      NULL \<Rightarrow> Some (int (length p), NULL)
    | Ptr r \<Rightarrow> do {
        (ok, r) \<leftarrow> rioWrite r p;
        Some (if ok then int (length p) else - 1, Ptr r) })"

definition rdbSaveType :: "'s rio nullable \<Rightarrow> byte \<Rightarrow> (int \<times> 's rio nullable) option" where
  "rdbSaveType rdb type = rdbWriteRaw rdb [type]"

definition rdbLoadType :: "'s rio \<Rightarrow> (int \<times> 's rio) option" where
  "rdbLoadType rdb = do {
     (b, rdb) \<leftarrow> rioRead rdb 1;
     case b of NULL \<Rightarrow> Some (- 1, rdb) | Ptr b \<Rightarrow> do { t \<leftarrow> rd b 0; Some (int (unat t), rdb) } }"

definition rdbLoadTime :: "'s rio \<Rightarrow> (int \<times> 's rio) option" where
  "rdbLoadTime rdb = do {
     (b, rdb) \<leftarrow> rioRead rdb 4;
     Some (case b of NULL \<Rightarrow> - 1 | Ptr b \<Rightarrow> to_signed 4 (le_val b), rdb) }"

definition rdbSaveMillisecondTime :: "'s rio nullable \<Rightarrow> int \<Rightarrow> (int \<times> 's rio nullable) option" where
  "rdbSaveMillisecondTime rdb t = rdbWriteRaw rdb (le_bytes 8 (of_signed 8 t))"

definition rdbLoadMillisecondTime :: "'s rio \<Rightarrow> nat \<Rightarrow> (int \<times> 's rio) option" where
  "rdbLoadMillisecondTime rdb rdbver = do {
     (b, rdb) \<leftarrow> rioRead rdb 8;
     Some (case b of NULL \<Rightarrow> LLONG_MAX | Ptr b \<Rightarrow> to_signed 8 (le_val b), rdb) }"


subsection \<open>Lengths\<close>

text \<open>Writing a block after another write, unless that one failed.\<close>

definition rdbThen :: "(int \<times> 's rio nullable) option \<Rightarrow> ('s rio nullable \<Rightarrow> (int \<times> 's rio nullable) option) \<Rightarrow> (int \<times> 's rio nullable) option" where
  "rdbThen w f = do {
     (n, rdb) \<leftarrow> w;
     if n = - 1 then Some (- 1, rdb)
     else do {
       (m, rdb) \<leftarrow> f rdb;
       Some (if m = - 1 then - 1 else n + m, rdb) } }"

definition rdbSaveLen :: "'s rio nullable \<Rightarrow> nat \<Rightarrow> (int \<times> 's rio nullable) option" where
  "rdbSaveLen rdb len =
     (if len < 64 then rdbWriteRaw rdb [of_nat (len AND 0xFF) OR push_bit 6 RDB_6BITLEN]
      else if len < 16384
      then rdbWriteRaw rdb [of_nat (drop_bit 8 len AND 0xFF) OR push_bit 6 RDB_14BITLEN, of_nat (len AND 0xFF)]
      else if len \<le> 4294967295
      then rdbThen (rdbWriteRaw rdb [RDB_32BITLEN]) (\<lambda>rdb. rdbWriteRaw rdb (rev (le_bytes 4 len)))
      else rdbThen (rdbWriteRaw rdb [RDB_64BITLEN])
             (\<lambda>rdb. do { len \<leftarrow> htonu64 len; rdbWriteRaw rdb (le_bytes 8 len) }))"

text \<open>The length and whether it is a special encoding.\<close>

definition rdbLoadLenByRef :: "'s rio \<Rightarrow> ((bool \<times> nat) nullable \<times> 's rio) option" where
  "rdbLoadLenByRef rdb = do {
     (b, rdb) \<leftarrow> rioRead rdb 1;
     case b of
       NULL \<Rightarrow> Some (NULL, rdb)
     | Ptr b \<Rightarrow> do {
         b0 \<leftarrow> rd b 0;
         let type = drop_bit 6 (b0 AND 0xC0);
         if type = RDB_ENCVAL then Some (Ptr (True, unat (b0 AND 0x3F)), rdb)
         else if type = RDB_6BITLEN then Some (Ptr (False, unat (b0 AND 0x3F)), rdb)
         else if type = RDB_14BITLEN then do {
           (c, rdb) \<leftarrow> rioRead rdb 1;
           case c of
             NULL \<Rightarrow> Some (NULL, rdb)
           | Ptr c \<Rightarrow> do { b1 \<leftarrow> rd c 0; Some (Ptr (False, push_bit 8 (unat (b0 AND 0x3F)) OR unat b1), rdb) } }
         else if b0 = RDB_32BITLEN then do {
           (c, rdb) \<leftarrow> rioRead rdb 4;
           Some (case c of NULL \<Rightarrow> NULL | Ptr c \<Rightarrow> Ptr (False, le_val (rev c)), rdb) }
         else if b0 = RDB_64BITLEN then do {
           (c, rdb) \<leftarrow> rioRead rdb 8;
           case c of
             NULL \<Rightarrow> Some (NULL, rdb)
           | Ptr c \<Rightarrow> do { len \<leftarrow> ntohu64 (le_val c); Some (Ptr (False, len), rdb) } }
         else Some (NULL, rdb) } }"

definition rdbLoadLen :: "'s rio \<Rightarrow> ((bool \<times> nat) \<times> 's rio) option" where
  "rdbLoadLen rdb = do {
     (r, rdb) \<leftarrow> rdbLoadLenByRef rdb;
     Some (case r of NULL \<Rightarrow> (False, RDB_LENERR) | Ptr x \<Rightarrow> x, rdb) }"


subsection \<open>Integers\<close>

text \<open>The bytes stored in \<open>enc\<close>; none of them is the return value 0.\<close>

definition rdbEncodeInteger :: "int \<Rightarrow> buf" where
  "rdbEncodeInteger v =
     (if - 128 \<le> v \<and> v \<le> 127
      then [push_bit 6 RDB_ENCVAL OR of_nat RDB_ENC_INT8, of_int v]
      else if - 32768 \<le> v \<and> v \<le> 32767
      then [push_bit 6 RDB_ENCVAL OR of_nat RDB_ENC_INT16, of_int v, of_int (drop_bit 8 v)]
      else if - 2147483648 \<le> v \<and> v \<le> 2147483647
      then [push_bit 6 RDB_ENCVAL OR of_nat RDB_ENC_INT32, of_int v, of_int (drop_bit 8 v), of_int (drop_bit 16 v),
            of_int (drop_bit 24 v)]
      else [])"

text \<open>The value in the form the flags ask for.\<close>

definition rdb_wrap :: "rdb_load_flag \<Rightarrow> buf \<Rightarrow> rdb_value" where
  "rdb_wrap flags b = (case flags of
      RDB_LOAD_PLAIN \<Rightarrow> V_plain b
    | RDB_LOAD_SDS \<Rightarrow> V_sds b
    | RDB_LOAD_HFLD \<Rightarrow> V_hfield b False
    | RDB_LOAD_HFLD_TTL \<Rightarrow> V_hfield b True
    | _ \<Rightarrow> V_robj_sds b)"

definition rdbLoadIntegerObject :: "(nat \<Rightarrow> buf) \<Rightarrow> 's rio \<Rightarrow> nat \<Rightarrow> rdb_load_flag \<Rightarrow> (rdb_value nullable \<times> 's rio) option" where
  "rdbLoadIntegerObject junk rdb enctype flags = do {
     (v, rdb) \<leftarrow>
       (if enctype = RDB_ENC_INT8 \<or> enctype = RDB_ENC_INT16 \<or> enctype = RDB_ENC_INT32
        then (let k = (if enctype = RDB_ENC_INT8 then 1 else if enctype = RDB_ENC_INT16 then 2 else 4) in do {
          (b, rdb) \<leftarrow> rioRead rdb k;
          Some (case b of NULL \<Rightarrow> NULL | Ptr b \<Rightarrow> Ptr (to_signed k (le_val b)), rdb) })
        else Some (NULL, rdb));
     case v of
       NULL \<Rightarrow> Some (NULL, rdb)
     | Ptr val \<Rightarrow>
         if flags = RDB_LOAD_ENC then Some (Ptr (V_robj_int val), rdb)
         else do {
           (len, buf) \<leftarrow> ll2string (junk LONG_STR_SIZE) LONG_STR_SIZE val;
           b \<leftarrow> rd_range buf 0 len;
           Some (Ptr (rdb_wrap flags b), rdb) } }"

definition rdbTryIntegerEncoding :: "buf \<Rightarrow> buf" where
  "rdbTryIntegerEncoding s = (case string2ll s of Some v \<Rightarrow> rdbEncodeInteger v | None \<Rightarrow> [])"


subsection \<open>Strings\<close>

definition rdbSaveLzfBlob :: "'s rio nullable \<Rightarrow> buf \<Rightarrow> nat \<Rightarrow> (int \<times> 's rio nullable) option" where
  "rdbSaveLzfBlob rdb data original_len =
     rdbThen (rdbThen (rdbThen
       (rdbWriteRaw rdb [push_bit 6 RDB_ENCVAL OR of_nat RDB_ENC_LZF])
       (\<lambda>rdb. rdbSaveLen rdb (length data)))
       (\<lambda>rdb. rdbSaveLen rdb original_len))
       (\<lambda>rdb. rdbWriteRaw rdb data)"

definition rdbSaveLzfStringObject ::
  "(nat \<Rightarrow> buf) \<Rightarrow> (nat \<Rightarrow> int) \<Rightarrow> 's rio nullable \<Rightarrow> buf \<Rightarrow> (int \<times> 's rio nullable) option" where
  "rdbSaveLzfStringObject junk htab rdb s =
     (if length s \<le> 4 then Some (0, rdb)
      else do {
        (comprlen, out) \<leftarrow> lzf_compress htab s (junk (length s - 4));
        if comprlen = 0 then Some (0, rdb)
        else do {
          data \<leftarrow> rd_range out 0 comprlen;
          rdbSaveLzfBlob rdb data (length s) } })"

definition rdbLoadLzfStringObject ::
  "(nat \<Rightarrow> bool) \<Rightarrow> (nat \<Rightarrow> buf) \<Rightarrow> 's rio \<Rightarrow> rdb_load_flag \<Rightarrow> (rdb_value nullable \<times> 's rio) option" where
  "rdbLoadLzfStringObject alloc junk rdb flags = do {
     ((_, clen), rdb) \<leftarrow> rdbLoadLen rdb;
     if clen = RDB_LENERR then Some (NULL, rdb)
     else do {
       ((_, len), rdb) \<leftarrow> rdbLoadLen rdb;
       if len = RDB_LENERR then Some (NULL, rdb)
       else if \<not> alloc clen \<or> \<not> alloc len then Some (NULL, rdb)
       else do {
         (c, rdb) \<leftarrow> rioRead rdb clen;
         case c of
           NULL \<Rightarrow> Some (NULL, rdb)
         | Ptr c \<Rightarrow> do {
             (n, val, _) \<leftarrow> lzf_decompress c (junk len);
             Some (if n \<noteq> len then NULL else Ptr (rdb_wrap flags val), rdb) } } } }"

text \<open>\<open>compression\<close> is the setting \<open>rdb_compression\<close>.\<close>

definition rdbSaveRawString ::
  "bool \<Rightarrow> (nat \<Rightarrow> buf) \<Rightarrow> (nat \<Rightarrow> int) \<Rightarrow> 's rio nullable \<Rightarrow> buf \<Rightarrow> (int \<times> 's rio nullable) option" where
  "rdbSaveRawString compression junk htab rdb s =
     (let enc = (if length s \<le> 11 then rdbTryIntegerEncoding s else []) in
      if enc \<noteq> [] then rdbWriteRaw rdb enc
      else do {
        (n, rdb) \<leftarrow> (if compression \<and> 20 < length s then rdbSaveLzfStringObject junk htab rdb s else Some (0, rdb));
        if n = - 1 then Some (- 1, rdb)
        else if 0 < n then Some (n, rdb)
        else rdbThen (rdbSaveLen rdb (length s)) (\<lambda>rdb. if 0 < length s then rdbWriteRaw rdb s else Some (0, rdb)) })"

definition rdbSaveLongLongAsStringObject ::
  "(nat \<Rightarrow> buf) \<Rightarrow> 's rio nullable \<Rightarrow> int \<Rightarrow> (int \<times> 's rio nullable) option" where
  "rdbSaveLongLongAsStringObject junk rdb v =
     (if rdbEncodeInteger v \<noteq> [] then rdbWriteRaw rdb (rdbEncodeInteger v)
      else do {
        (enclen, buf) \<leftarrow> ll2string (junk 32) 32 v;
        _ \<leftarrow> assertC (enclen < 32);
        b \<leftarrow> rd_range buf 0 enclen;
        rdbThen (rdbSaveLen rdb enclen) (\<lambda>rdb. rdbWriteRaw rdb b) })"

text \<open>A string object is integer encoded or holds an \<open>sds\<close>.\<close>

datatype string_robj = Obj_int int | Obj_sds buf

definition rdbSaveStringObject ::
  "bool \<Rightarrow> (nat \<Rightarrow> buf) \<Rightarrow> (nat \<Rightarrow> int) \<Rightarrow> 's rio nullable \<Rightarrow> string_robj \<Rightarrow> (int \<times> 's rio nullable) option" where
  "rdbSaveStringObject compression junk htab rdb obj = (case obj of
      Obj_int v \<Rightarrow> rdbSaveLongLongAsStringObject junk rdb v
    | Obj_sds s \<Rightarrow> rdbSaveRawString compression junk htab rdb s)"

definition rdbGenericLoadStringObject ::
  "(nat \<Rightarrow> bool) \<Rightarrow> (nat \<Rightarrow> buf) \<Rightarrow> 's rio \<Rightarrow> rdb_load_flag \<Rightarrow> (rdb_value nullable \<times> 's rio) option" where
  "rdbGenericLoadStringObject alloc junk rdb flags = do {
     ((isencoded, len), rdb) \<leftarrow> rdbLoadLen rdb;
     if len = RDB_LENERR then Some (NULL, rdb)
     else if isencoded then
       (if len = RDB_ENC_INT8 \<or> len = RDB_ENC_INT16 \<or> len = RDB_ENC_INT32
        then rdbLoadIntegerObject junk rdb len flags
        else if len = RDB_ENC_LZF then rdbLoadLzfStringObject alloc junk rdb flags
        else Some (NULL, rdb))
     else if \<not> alloc len then Some (NULL, rdb)
     else do {
       (b, rdb) \<leftarrow> (if 0 < len then rioRead rdb len else Some (Ptr [], rdb));
       Some (case b of NULL \<Rightarrow> NULL | Ptr b \<Rightarrow> Ptr (rdb_wrap flags b), rdb) } }"

definition rdbLoadStringObject :: "(nat \<Rightarrow> bool) \<Rightarrow> (nat \<Rightarrow> buf) \<Rightarrow> 's rio \<Rightarrow> (rdb_value nullable \<times> 's rio) option" where
  "rdbLoadStringObject alloc junk rdb = rdbGenericLoadStringObject alloc junk rdb RDB_LOAD_NONE"

definition rdbLoadEncodedStringObject :: "(nat \<Rightarrow> bool) \<Rightarrow> (nat \<Rightarrow> buf) \<Rightarrow> 's rio \<Rightarrow> (rdb_value nullable \<times> 's rio) option" where
  "rdbLoadEncodedStringObject alloc junk rdb = rdbGenericLoadStringObject alloc junk rdb RDB_LOAD_ENC"

text \<open>The auxiliary fields of the header.\<close>

definition rdbSaveAuxField ::
  "bool \<Rightarrow> (nat \<Rightarrow> buf) \<Rightarrow> (nat \<Rightarrow> int) \<Rightarrow> 's rio nullable \<Rightarrow> buf \<Rightarrow> buf \<Rightarrow> (int \<times> 's rio nullable) option" where
  "rdbSaveAuxField compression junk htab rdb key val =
     rdbThen (rdbThen (rdbSaveType rdb 250)
       (\<lambda>rdb. rdbSaveRawString compression junk htab rdb key))
       (\<lambda>rdb. rdbSaveRawString compression junk htab rdb val)"

definition rdbSaveAuxFieldStrInt ::
  "bool \<Rightarrow> (nat \<Rightarrow> buf) \<Rightarrow> (nat \<Rightarrow> int) \<Rightarrow> 's rio nullable \<Rightarrow> buf \<Rightarrow> int \<Rightarrow> (int \<times> 's rio nullable) option" where
  "rdbSaveAuxFieldStrInt compression junk htab rdb key val = do {
     (vlen, buf) \<leftarrow> ll2string (junk LONG_STR_SIZE) LONG_STR_SIZE val;
     b \<leftarrow> rd_range buf 0 vlen;
     rdbSaveAuxField compression junk htab rdb key b }"


subsection \<open>Images\<close>

text \<open>The bytes of a length, of an integer that fits 32 bits, and of a string.\<close>

definition len_bytes :: "nat \<Rightarrow> buf" where
  "len_bytes n =
     (if n < 64 then [of_nat n]
      else if n < 16384 then [of_nat (64 + n div 256), of_nat n]
      else if n \<le> 4294967295 then RDB_32BITLEN # rev (le_bytes 4 n)
      else RDB_64BITLEN # rev (le_bytes 8 n))"

definition int_width :: "int \<Rightarrow> nat" where
  "int_width v = (if - 128 \<le> v \<and> v \<le> 127 then 1 else if - 32768 \<le> v \<and> v \<le> 32767 then 2 else 4)"

definition int_image :: "int \<Rightarrow> buf" where
  "int_image v = of_nat (192 + (if int_width v = 4 then 2 else int_width v - 1)) # le_bytes (int_width v) (of_signed (int_width v) v)"

definition lzf_image :: "buf \<Rightarrow> buf \<Rightarrow> bool" where
  "lzf_image s bs \<longleftrightarrow> (\<exists>c. bs = 0xC3 # len_bytes (length c) @ len_bytes (length s) @ c \<and> length c < length s \<and>
     (\<forall>out. length out = length s \<longrightarrow> lzf_decompress c out = Some (length s, s, LZF_OK)))"

definition string_image :: "buf \<Rightarrow> buf \<Rightarrow> bool" where
  "string_image s bs \<longleftrightarrow>
     (\<exists>v. - 2147483648 \<le> v \<and> v \<le> 2147483647 \<and> s = dec_int v \<and> bs = int_image v) \<or>
     lzf_image s bs \<or> bs = len_bytes (length s) @ s"

lemma of_nat_and_255: "(of_nat (n AND 255) :: byte) = of_nat n"
proof -
  have "n AND 255 = n mod 256" using and_exp_eq_0_iff_not_bit take_bit_eq_mask [of 8 n]
    by (simp add: take_bit_eq_mod mask_eq_exp_minus_1)
  then show ?thesis by (simp add: of_nat_byte_eq_iff)
qed

lemma byte_or_64:
  assumes "a < 64"
  shows "(of_nat a OR 64 :: byte) = of_nat (64 + a)"
proof -
  have "\<forall>a \<in> set [0..<64]. (of_nat a OR 64 :: byte) = of_nat (64 + a)" by code_simp
  then show ?thesis using assms by simp
qed

lemma of_signed_div: "of_signed (Suc n) v div 256 = of_signed n (v div 256)"
proof -
  have "v mod (256 * 256 ^ n) div 256 = v div 256 mod 256 ^ n" by (simp add: zmod_zmult2_eq)
  then show ?thesis by (simp add: of_signed_def nat_div_distrib [symmetric])
qed

lemma of_signed_byte: "(of_nat (of_signed (Suc n) v) :: byte) = of_int v"
proof -
  have "(of_nat (of_signed (Suc n) v) :: byte) = of_int (v mod 256 ^ Suc n)" by (simp add: of_signed_def)
  also have "\<dots> = of_int ((v mod 256 ^ Suc n) mod 256)" by (simp add: word_of_int_eq_iff take_bit_eq_mod)
  also have "(v mod 256 ^ Suc n) mod 256 = v mod 256" by (simp add: mod_mod_cancel)
  also have "(of_int (v mod 256) :: byte) = of_int v" by (simp add: word_of_int_eq_iff take_bit_eq_mod)
  finally show ?thesis .
qed

lemma le_bytes_signed:
  "le_bytes (Suc n) (of_signed (Suc n) v) = of_int v # le_bytes n (of_signed n (v div 256))"
  by (simp add: of_signed_div of_signed_byte)

lemma rdbEncodeInteger_image:
  "rdbEncodeInteger v = (if - 2147483648 \<le> v \<and> v \<le> 2147483647 then int_image v else [])"
proof -
  have d: "drop_bit 8 v = v div 256" "drop_bit 16 v = v div 256 div 256" "drop_bit 24 v = v div 256 div 256 div 256"
    by (simp_all add: drop_bit_eq_div zdiv_zmult2_eq [symmetric])
  have l2: "le_bytes 2 (of_signed 2 v) = [of_int v, of_int (v div 256)]"
    using le_bytes_signed [of 1 v] le_bytes_signed [of 0 "v div 256"] by (simp add: numeral_2_eq_2)
  have l4: "le_bytes 4 (of_signed 4 v) = [of_int v, of_int (v div 256), of_int (v div 256 div 256), of_int (v div 256 div 256 div 256)]"
    using le_bytes_signed [of 3 v] le_bytes_signed [of 2 "v div 256"] le_bytes_signed [of 1 "v div 256 div 256"]
      le_bytes_signed [of 0 "v div 256 div 256 div 256"]
    by (simp add: eval_nat_numeral del: le_bytes.simps(2)) 
  show ?thesis
    by (auto simp: rdbEncodeInteger_def int_image_def int_width_def d of_signed_byte l2 l4)
qed


subsection \<open>Saving\<close>

text \<open>
  An output is a stream in a state \<open>good r xs\<close>, where \<open>xs\<close> is what it holds. A save is done when a
  result other than \<open>-1\<close> is the number of bytes appended; on a reliable output there is always such a
  result.
\<close>

definition rdb_done :: "('s rio \<Rightarrow> buf \<Rightarrow> bool) \<Rightarrow> bool \<Rightarrow> buf \<Rightarrow> (int \<times> 's rio nullable) option \<Rightarrow> buf \<Rightarrow> bool" where
  "rdb_done good rel xs w bs \<longleftrightarrow>
     (\<forall>n q. w = Some (n, q) \<longrightarrow> n \<noteq> - 1 \<longrightarrow> n = int (length bs) \<and> (\<exists>r. q = Ptr r \<and> good r (xs @ bs))) \<and>
     (rel \<longrightarrow> (\<exists>n q. w = Some (n, q) \<and> n \<noteq> - 1))"

locale rdb_out =
  fixes good :: "'s rio \<Rightarrow> buf \<Rightarrow> bool"
    and rel :: bool
  assumes raw_law: "good r xs \<Longrightarrow> rdb_done good rel xs (rdbWriteRaw (Ptr r) b) b"
begin

lemma rdbThen_done:
  assumes "rdb_done good rel xs w a" "\<And>r. good r (xs @ a) \<Longrightarrow> rdb_done good rel (xs @ a) (f (Ptr r)) b"
  shows "rdb_done good rel xs (rdbThen w f) (a @ b)"
proof (cases w)
  case None
  then show ?thesis using assms(1) by (simp add: rdb_done_def rdbThen_def)
next
  case (Some p)
  obtain n q where p: "p = (n, q)" by (cases p)
  show ?thesis
  proof (cases "n = - 1")
    case True
    then show ?thesis using assms(1) by (simp add: rdb_done_def rdbThen_def Some p)
  next
    case False
    then obtain r where r: "q = Ptr r" "good r (xs @ a)" "n = int (length a)"
      using assms(1) by (auto simp: rdb_done_def Some p)
    have t: "rdbThen w f = Option.bind (f q) (\<lambda>(m, rdb). Some (if m = - 1 then - 1 else n + m, rdb))"
      using False by (simp add: rdbThen_def Some p)
    from assms(2) [OF r(2)] show ?thesis unfolding t r(1)
      by (cases "f (Ptr r)") (auto simp: rdb_done_def r(3) split: if_splits)
  qed
qed

lemma rdbSaveLen_done:
  assumes "good r xs" "n < 18446744073709551616"
  shows "rdb_done good rel xs (rdbSaveLen (Ptr r) n) (len_bytes n)"
proof -
  consider "n < 64" | "64 \<le> n" "n < 16384" | "16384 \<le> n" "n \<le> 4294967295" | "4294967295 < n" by linarith
  then show ?thesis
  proof cases
    case 1
    then show ?thesis using raw_law [OF assms(1), of "[of_nat n]"]
      by (simp add: rdbSaveLen_def len_bytes_def of_nat_and_255)
  next
    case 2
    have "(of_nat (drop_bit 8 n AND 255) OR push_bit 6 RDB_14BITLEN :: byte) = of_nat (64 + n div 256)"
      using 2 byte_or_64 [of "n div 256"] by (simp add: of_nat_and_255 drop_bit_eq_div)
    then show ?thesis using raw_law [OF assms(1), of "[of_nat (64 + n div 256), of_nat n]"] 2
      by (simp add: rdbSaveLen_def len_bytes_def of_nat_and_255)
  next
    case 3
    then show ?thesis
      using rdbThen_done [OF raw_law [OF assms(1), of "[RDB_32BITLEN]"], of "\<lambda>r. rdbWriteRaw r (rev (le_bytes 4 n))" "rev (le_bytes 4 n)"]
        raw_law by (simp add: rdbSaveLen_def len_bytes_def)
  next
    case 4
    have h: "htonu64 n = Some (be_val (le_bytes 8 n))" "le_bytes 8 (be_val (le_bytes 8 n)) = rev (le_bytes 8 n)"
      by (simp_all add: htonu64_def intrev64_eq le_bytes_be_val)
    show ?thesis
      using rdbThen_done [OF raw_law [OF assms(1), of "[RDB_64BITLEN]"], of "\<lambda>r. rdbWriteRaw r (rev (le_bytes 8 n))" "rev (le_bytes 8 n)"]
        raw_law 4 by (simp add: rdbSaveLen_def len_bytes_def h)
  qed
qed

end

text \<open>A compressed string restores the string in a block of its length.\<close>

lemma lzf_compress_image:
  assumes "4 < length s" "length out = length s - 4"
  obtains n out' where "lzf_compress htab s out = Some (n, out')" "length out' = length out" "n \<le> length out"
    "n \<noteq> 0 \<Longrightarrow> \<forall>dst. length dst = length s \<longrightarrow> lzf_decompress (take n out') dst = Some (length s, s, LZF_OK)"
proof -
  obtain n out' where c: "lzf_compress htab s out = Some (n, out')" "length out' = length out" "n \<le> length out"
    and t: "if n = 0 then length out < 2 * length s + 4
      else \<exists>ts. toks_ok [] ts \<and> toks_apply [] ts = s \<and> take n out' = toks_bytes ts"
    using lzf_compress_toks [of s htab out] assms(1) by auto
  have "lzf_decompress (take n out') dst = Some (length s, s, LZF_OK)" if n0: "n \<noteq> 0" and ld: "length dst = length s" for dst
  proof -
    obtain ts where "toks_ok [] ts" "toks_apply [] ts = s" "take n out' = toks_bytes ts" using t n0 by auto
    then obtain junk where d: "lzf_decompress (take n out') dst = Some (length s, s @ junk, LZF_OK)"
      using lzf_decompress_toks [of ts dst] ld by auto
    have "length (s @ junk) = length dst"
      using lzf_decompress_loop_total [of 0 dst "take n out'" 0] d by (auto simp: lzf_decompress_def)
    then show ?thesis using d ld by simp
  qed
  then show thesis using that c by blast
qed

context rdb_out
begin

lemma rdbSaveLzfBlob_done:
  assumes "good r xs" "length c < 18446744073709551616" "n < 18446744073709551616"
  shows "rdb_done good rel xs (rdbSaveLzfBlob (Ptr r) c n) (0xC3 # len_bytes (length c) @ len_bytes n @ c)"
proof -
  have 1: "rdb_done good rel xs (rdbWriteRaw (Ptr r) [push_bit 6 RDB_ENCVAL OR of_nat RDB_ENC_LZF]) [0xC3]"
    using raw_law [OF assms(1), of "[0xC3]"] by simp
  have "rdb_done good rel xs (rdbSaveLzfBlob (Ptr r) c n) ((([0xC3] @ len_bytes (length c)) @ len_bytes n) @ c)"
    unfolding rdbSaveLzfBlob_def
    by (intro rdbThen_done 1 rdbSaveLen_done raw_law assms(2,3))
  then show ?thesis by simp
qed

lemma rdbSaveLzfStringObject_done:
  assumes "good r xs" "4 < length s" "length s < 18446744073709551616" "\<And>n. length (junk n) = n"
  shows "rdbSaveLzfStringObject junk htab (Ptr r) s = Some (0, Ptr r) \<or>
    (\<exists>bs. lzf_image s bs \<and> rdb_done good rel xs (rdbSaveLzfStringObject junk htab (Ptr r) s) bs)"
proof -
  obtain n out where c: "lzf_compress htab s (junk (length s - 4)) = Some (n, out)" "length out = length s - 4" "n \<le> length s - 4"
    "n \<noteq> 0 \<Longrightarrow> \<forall>dst. length dst = length s \<longrightarrow> lzf_decompress (take n out) dst = Some (length s, s, LZF_OK)"
    using lzf_compress_image [OF assms(2), of "junk (length s - 4)" htab] assms(4) by metis
  show ?thesis
  proof (cases "n = 0")
    case True
    then show ?thesis using assms(2) c(1) by (simp add: rdbSaveLzfStringObject_def)
  next
    case False
    let ?c = "take n out"
    have len: "length ?c = n" using c(2,3) by simp
    have e: "rdbSaveLzfStringObject junk htab (Ptr r) s = rdbSaveLzfBlob (Ptr r) ?c (length s)"
      using False assms(2) c(1-3) by (simp add: rdbSaveLzfStringObject_def rd_range_def)
    have n: "n < length s" "n < 18446744073709551616" using c(3) assms(2,3) by linarith+
    have "lzf_image s (0xC3 # len_bytes (length ?c) @ len_bytes (length s) @ ?c)"
      unfolding lzf_image_def using c(4) [OF False] len n(1) by (intro exI [of _ ?c]) simp
    moreover have "rdb_done good rel xs (rdbSaveLzfBlob (Ptr r) ?c (length s)) (0xC3 # len_bytes (length ?c) @ len_bytes (length s) @ ?c)"
      by (rule rdbSaveLzfBlob_done) (use assms n len in simp_all)
    ultimately show ?thesis unfolding e by blast
  qed
qed

lemma rdbSaveVerbatim_done:
  assumes "good r xs" "length s < 18446744073709551616"
  shows "rdb_done good rel xs (rdbThen (rdbSaveLen (Ptr r) (length s))
    (\<lambda>rdb. if 0 < length s then rdbWriteRaw rdb s else Some (0, rdb))) (len_bytes (length s) @ s)"
proof (rule rdbThen_done [OF rdbSaveLen_done [OF assms]])
  fix q assume g: "good q (xs @ len_bytes (length s))"
  then show "rdb_done good rel (xs @ len_bytes (length s)) (if 0 < length s then rdbWriteRaw (Ptr q) s else Some (0, Ptr q)) s"
    using raw_law [OF g, of s] by (cases "s = []") (simp_all add: rdb_done_def)
qed

text \<open>What saving a string writes is an image of it.\<close>

lemma rdbSaveRawString_done:
  assumes good: "good r xs" and len: "length s < 18446744073709551616" and junk: "\<And>n. length (junk n) = n"
  shows "\<exists>bs. string_image s bs \<and> rdb_done good rel xs (rdbSaveRawString compression junk htab (Ptr r) s) bs"
proof (cases "length s \<le> 11 \<and> rdbTryIntegerEncoding s \<noteq> []")
  case True
  then obtain v where v: "string2ll s = Some v" "rdbEncodeInteger v \<noteq> []" "rdbTryIntegerEncoding s = rdbEncodeInteger v"
    by (auto simp: rdbTryIntegerEncoding_def split: option.splits)
  then have r: "- 2147483648 \<le> v" "v \<le> 2147483647" "rdbEncodeInteger v = int_image v" "s = dec_int v"
    using string2ll_Some_iff by (auto simp: rdbEncodeInteger_image split: if_splits)
  have "rdbSaveRawString compression junk htab (Ptr r) s = rdbWriteRaw (Ptr r) (int_image v)"
    using True v(3) r(3) by (simp add: rdbSaveRawString_def)
  then show ?thesis using raw_law [OF good, of "int_image v"] r by (auto simp: string_image_def)
next
  case False
  let ?v = "rdbThen (rdbSaveLen (Ptr r) (length s)) (\<lambda>rdb. if 0 < length s then rdbWriteRaw rdb s else Some (0, rdb))"
  have ve: "\<exists>bs. string_image s bs \<and> rdb_done good rel xs ?v bs"
    using rdbSaveVerbatim_done [OF good len] by (auto simp: string_image_def)
  let ?w = "rdbSaveLzfStringObject junk htab (Ptr r) s"
  have e: "rdbSaveRawString compression junk htab (Ptr r) s =
      (if compression \<and> 20 < length s
       then Option.bind ?w (\<lambda>(n, rdb). if n = - 1 then Some (- 1, rdb) else if 0 < n then Some (n, rdb)
         else rdbThen (rdbSaveLen rdb (length s)) (\<lambda>rdb. if 0 < length s then rdbWriteRaw rdb s else Some (0, rdb)))
       else ?v)"
    using False by (auto simp: rdbSaveRawString_def Let_def split: if_splits)
  show ?thesis
  proof (cases "compression \<and> 20 < length s \<and> ?w \<noteq> Some (0, Ptr r)")
    case False
    then show ?thesis unfolding e using ve by auto
  next
    case True
    then obtain bs where bs: "lzf_image s bs" "rdb_done good rel xs ?w bs"
      using rdbSaveLzfStringObject_done [OF good _ len junk, of htab] by auto
    have pos: "0 < length bs" using bs(1) by (auto simp: lzf_image_def)
    have "rdb_done good rel xs (Option.bind ?w (\<lambda>(n, rdb). if n = - 1 then Some (- 1, rdb) else if 0 < n then Some (n, rdb)
         else rdbThen (rdbSaveLen rdb (length s)) (\<lambda>rdb. if 0 < length s then rdbWriteRaw rdb s else Some (0, rdb)))) bs"
      using bs(2) pos by (cases ?w) (auto simp: rdb_done_def)
    then show ?thesis unfolding e using True bs(1) by (auto simp: string_image_def)
  qed
qed

end

context rdb_out
begin

lemma rdbSaveStringObject_done:
  assumes good: "good r xs" and junk: "\<And>n. length (junk n) = n"
    and obj: "case obj of Obj_int v \<Rightarrow> is_int64 v \<and> s = dec_int v | Obj_sds b \<Rightarrow> s = b \<and> length s < 18446744073709551616"
  shows "\<exists>bs. string_image s bs \<and> rdb_done good rel xs (rdbSaveStringObject compression junk htab (Ptr r) obj) bs"
proof (cases obj)
  case (Obj_sds b)
  then have s: "s = b" "length s < 18446744073709551616" using obj by auto
  then show ?thesis using rdbSaveRawString_done [OF good s(2) junk, of compression htab] Obj_sds
    by (simp add: rdbSaveStringObject_def)
next
  case (Obj_int v)
  have v: "is_int64 v" "s = dec_int v" using obj Obj_int by auto
  show ?thesis
  proof (cases "- 2147483648 \<le> v \<and> v \<le> 2147483647")
    case True
    then have "rdbSaveStringObject compression junk htab (Ptr r) obj = rdbWriteRaw (Ptr r) (int_image v)"
      by (simp add: rdbSaveStringObject_def Obj_int rdbSaveLongLongAsStringObject_def rdbEncodeInteger_image int_image_def)
    then show ?thesis using raw_law [OF good, of "int_image v"] True v(2) by (auto simp: string_image_def)
  next
    case False
    have l: "length (dec_int v) < 21" using length_dec_int64 [OF v(1)] .
    then have "ll2string (junk 32) 32 v = Some (length (dec_int v), dec_int v @ 0 # drop (Suc (length (dec_int v))) (junk 32))"
      using ll2string_spec [of 32 "junk 32" v] junk [of 32] by simp
    then have e: "rdbSaveStringObject compression junk htab (Ptr r) obj =
        rdbThen (rdbSaveLen (Ptr r) (length s)) (\<lambda>rdb. rdbWriteRaw rdb s)"
      using False l by (auto simp: rdbSaveStringObject_def Obj_int rdbSaveLongLongAsStringObject_def rdbEncodeInteger_image
          rd_range_def v(2))
    have "rdb_done good rel xs (rdbThen (rdbSaveLen (Ptr r) (length s)) (\<lambda>rdb. rdbWriteRaw rdb s)) (len_bytes (length s) @ s)"
      by (intro rdbThen_done rdbSaveLen_done good raw_law) (use l v(2) in auto)
    then show ?thesis unfolding e by (auto simp: string_image_def)
  qed
qed

end


subsection \<open>Loading\<close>

lemma len_bytes_cases:
  obtains (six) "n < 64" "len_bytes n = [of_nat n]"
  | (fourteen) "64 \<le> n" "n < 16384" "len_bytes n = [of_nat (64 + n div 256), of_nat n]"
  | (thirtytwo) "16384 \<le> n" "n \<le> 4294967295" "len_bytes n = RDB_32BITLEN # rev (le_bytes 4 n)"
  | (sixtyfour) "4294967295 < n" "len_bytes n = RDB_64BITLEN # rev (le_bytes 8 n)"
proof -
  consider "n < 64" | "64 \<le> n" "n < 16384" | "16384 \<le> n" "n \<le> 4294967295" | "4294967295 < n" by linarith
  then show thesis by cases (use that in \<open>auto simp: len_bytes_def\<close>)
qed

text \<open>The two top bits and the six low bits of a byte.\<close>

lemma byte_top_low:
  "drop_bit 6 b AND 3 = (of_nat (unat b div 64) :: byte)" "unat (b AND 0x3F :: byte) = unat b mod 64"
proof -
  have "\<forall>n \<in> set [0..<256]. drop_bit 6 (of_nat n AND 0xC0 :: byte) = of_nat (n div 64) \<and> unat (of_nat n AND 0x3F :: byte) = n mod 64"
    by code_simp
  moreover have "unat b \<in> set [0..<256]" by simp
  ultimately have "drop_bit 6 (of_nat (unat b) AND 0xC0 :: byte) = of_nat (unat b div 64) \<and> unat (of_nat (unat b) AND 0x3F :: byte) = unat b mod 64"
    by blast
  then show "drop_bit 6 b AND 3 = (of_nat (unat b div 64) :: byte)" "unat (b AND 0x3F :: byte) = unat b mod 64" by simp_all
qed

fun rdb_value_bytes :: "rdb_value \<Rightarrow> buf" where
  "rdb_value_bytes (V_plain b) = b"
| "rdb_value_bytes (V_sds b) = b"
| "rdb_value_bytes (V_hfield b ttl) = b"
| "rdb_value_bytes (V_robj_sds b) = b"
| "rdb_value_bytes (V_robj_int v) = dec_int v"

lemma rdb_value_bytes_wrap [simp]: "rdb_value_bytes (rdb_wrap flags b) = b"
  by (cases flags) (simp_all add: rdb_wrap_def)

context byte_source
begin

abbreviation src where "src \<equiv> rio_source read invar contents"

lemma rioRead_n:
  assumes "src r (xs @ ys)" "length xs = n"
  shows "\<exists>r'. rioRead r n = Some (Ptr xs, r') \<and> src r' ys"
  using rioRead_delivers [OF assms(1)] assms(2) by simp

lemma rdbLoadLen_delivers:
  assumes "src r (len_bytes n @ ys)" "n < 18446744073709551616"
  shows "\<exists>r'. rdbLoadLen r = Some ((False, n), r') \<and> src r' ys"
proof (cases n rule: len_bytes_cases)
  case six
  obtain r' where r: "rioRead r 1 = Some (Ptr [of_nat n], r')" "src r' ys"
    using rioRead_n [of r "[of_nat n]" ys 1] assms(1) six(2) by auto
  have "unat (of_nat n :: byte) = n" using six(1) by (simp add: unat_of_nat_byte)
  then show ?thesis using r six(1) by (simp add: rdbLoadLen_def rdbLoadLenByRef_def byte_top_low Let_def)
next
  case fourteen
  let ?b = "of_nat (64 + n div 256) :: byte"
  obtain r1 where r1: "rioRead r 1 = Some (Ptr [?b], r1)" "src r1 ([of_nat n] @ ys)"
    using rioRead_n [of r "[?b]" "[of_nat n] @ ys" 1] assms(1) fourteen(3) by auto
  obtain r2 where r2: "rioRead r1 1 = Some (Ptr [of_nat n], r2)" "src r2 ys"
    using rioRead_n [OF r1(2), of 1] by auto
  have b: "unat ?b = 64 + n div 256" using fourteen(2) by (subst unat_of_nat_byte) simp
  have "(64 + n div 256) div 64 = 1" "(64 + n div 256) mod 64 = n div 256" using fourteen(2) by auto
  moreover have "push_bit 8 (n div 256) OR (n mod 256) = n"
    using nat_or_push_bit [of "n mod 256" 8 "n div 256"] by (simp add: or.commute)
  ultimately show ?thesis using r1 r2 b
    by (simp add: rdbLoadLen_def rdbLoadLenByRef_def byte_top_low Let_def unat_of_nat_byte del: of_nat_add)
next
  case thirtytwo
  obtain r1 where r1: "rioRead r 1 = Some (Ptr [RDB_32BITLEN], r1)" "src r1 (rev (le_bytes 4 n) @ ys)"
    using rioRead_n [of r "[RDB_32BITLEN]" "rev (le_bytes 4 n) @ ys" 1] assms(1) thirtytwo(3) by auto
  obtain r2 where r2: "rioRead r1 4 = Some (Ptr (rev (le_bytes 4 n)), r2)" "src r2 ys"
    using rioRead_n [OF r1(2), of 4] by auto
  show ?thesis using r1 r2 thirtytwo(2) by (simp add: rdbLoadLen_def rdbLoadLenByRef_def Let_def)
next
  case sixtyfour
  obtain r1 where r1: "rioRead r 1 = Some (Ptr [RDB_64BITLEN], r1)" "src r1 (rev (le_bytes 8 n) @ ys)"
    using rioRead_n [of r "[RDB_64BITLEN]" "rev (le_bytes 8 n) @ ys" 1] assms(1) sixtyfour(2) by auto
  obtain r2 where r2: "rioRead r1 8 = Some (Ptr (rev (le_bytes 8 n)), r2)" "src r2 ys"
    using rioRead_n [OF r1(2), of 8] by auto
  have "ntohu64 (le_val (rev (le_bytes 8 n))) = Some n"
    using le_bytes_le_val [of "rev (le_bytes 8 n)"] assms(2) by (simp add: ntohu64_def intrev64_eq be_val_def)
  then show ?thesis using r1 r2 by (simp add: rdbLoadLen_def rdbLoadLenByRef_def Let_def)
qed

end

lemma int_width_cases:
  obtains "int_width v = 1" | "int_width v = 2" | "int_width v = 4"
proof -
  have "int_width v = 1 \<or> int_width v = 2 \<or> int_width v = 4" by (simp add: int_width_def)
  then show ?thesis using that by blast
qed

lemma to_signed_int_width:
  assumes "- 2147483648 \<le> v" "v \<le> 2147483647"
  shows "to_signed (int_width v) (of_signed (int_width v) v) = v"
  by (rule to_signed_of_signed) (use assms in \<open>auto simp: int_width_def\<close>)

context byte_source
begin

lemma rdbLoadEncType_delivers:
  assumes "src r (of_nat (192 + k) # ys)" "k < 64"
  shows "\<exists>r'. rdbLoadLen r = Some ((True, k), r') \<and> src r' ys"
proof -
  let ?b = "of_nat (192 + k) :: byte"
  obtain r' where r: "rioRead r 1 = Some (Ptr [?b], r')" "src r' ys"
    using rioRead_n [of r "[?b]" ys 1] assms(1) by auto
  have "unat ?b = 192 + k" using assms(2) by (subst unat_of_nat_byte) simp
  moreover have "(192 + k) div 64 = 3" "(192 + k) mod 64 = k"
    using assms(2) mod_add_left_eq [of 192 64 k] by simp_all
  ultimately show ?thesis using r
    by (simp add: rdbLoadLen_def rdbLoadLenByRef_def byte_top_low Let_def del: of_nat_add)
qed

lemma rdbLoadIntegerObject_delivers:
  assumes src: "src r (le_bytes w (of_signed w v) @ ys)" and w: "w = int_width v"
    and v: "- 2147483648 \<le> v" "v \<le> 2147483647" and junk: "\<And>n. length (junk n) = n"
  shows "\<exists>x r'. rdbLoadIntegerObject junk r (if w = 4 then 2 else w - 1) flags = Some (Ptr x, r') \<and>
    rdb_value_bytes x = dec_int v \<and> src r' ys"
proof -
  let ?t = "if w = 4 then 2 else w - 1"
  obtain r' where r: "rioRead r w = Some (Ptr (le_bytes w (of_signed w v)), r')" "src r' ys"
    using rioRead_n [OF src, of w] by auto
  have val: "to_signed w (le_val (le_bytes w (of_signed w v))) = v"
    using to_signed_int_width [OF v] by (simp add: w)
  have t: "?t = 0 \<or> ?t = 1 \<or> ?t = 2" "(if ?t = 0 then 1 else if ?t = 1 then 2 else 4) = w"
    unfolding w by (cases v rule: int_width_cases; simp)+
  have "is_int64 v" using v by (simp add: is_int64_def)
  from length_dec_int64 [OF this] have "ll2string (junk 21) 21 v =
      Some (length (dec_int v), dec_int v @ 0 # drop (Suc (length (dec_int v))) (junk 21))"
    using ll2string_spec [of 21 "junk 21" v] junk [of 21] by simp
  then show ?thesis
    unfolding rdbLoadIntegerObject_def using t r val
    by (cases "flags = RDB_LOAD_ENC") (simp_all add: rd_range_def Let_def del: le_val_le_bytes)
qed

lemma rdbLoadLzfStringObject_delivers:
  assumes src: "src r (len_bytes (length c) @ len_bytes (length s) @ c @ ys)"
    and c: "length c < length s" "length s < 18446744073709551615"
      "\<forall>out. length out = length s \<longrightarrow> lzf_decompress c out = Some (length s, s, LZF_OK)"
    and junk: "\<And>n. length (junk n) = n" and alloc: "\<And>n. n \<le> length s \<Longrightarrow> alloc n"
  shows "\<exists>r'. rdbLoadLzfStringObject alloc junk r flags = Some (Ptr (rdb_wrap flags s), r') \<and> src r' ys"
proof -
  have l: "length c < 18446744073709551616" "length s < 18446744073709551616" using c(1,2) by auto
  obtain r1 where r1: "rdbLoadLen r = Some ((False, length c), r1)" "src r1 (len_bytes (length s) @ c @ ys)"
    using rdbLoadLen_delivers [OF src l(1)] by blast
  obtain r2 where r2: "rdbLoadLen r1 = Some ((False, length s), r2)" "src r2 (c @ ys)"
    using rdbLoadLen_delivers [OF r1(2) l(2)] by blast
  obtain r3 where r3: "rioRead r2 (length c) = Some (Ptr c, r3)" "src r3 ys"
    using rioRead_n [OF r2(2)] by blast
  show ?thesis using r1 r2 r3 c junk alloc [of "length c"] alloc [of "length s"] by (simp add: rdbLoadLzfStringObject_def)
qed

text \<open>Every image of a string loads as the string.\<close>

lemma rdbLoad_delivers:
  assumes img: "string_image s bs" and src: "src r (bs @ ys)" and len: "length s < 18446744073709551615"
    and junk: "\<And>n. length (junk n) = n" and alloc: "\<And>n. n \<le> length s \<Longrightarrow> alloc n"
  shows "\<exists>x r'. rdbGenericLoadStringObject alloc junk r flags = Some (Ptr x, r') \<and> rdb_value_bytes x = s \<and> src r' ys"
proof -
  consider (int) v where "- 2147483648 \<le> v" "v \<le> 2147483647" "s = dec_int v" "bs = int_image v"
    | (lzf) "lzf_image s bs" | (raw) "bs = len_bytes (length s) @ s"
    using img by (auto simp: string_image_def)
  then show ?thesis
  proof cases
    case int
    let ?w = "int_width v" and ?t = "if int_width v = 4 then 2 else int_width v - 1"
    have t: "?t = 0 \<or> ?t = 1 \<or> ?t = 2" by (cases v rule: int_width_cases) auto
    obtain r1 where r1: "rdbLoadLen r = Some ((True, ?t), r1)" "src r1 (le_bytes ?w (of_signed ?w v) @ ys)"
      using rdbLoadEncType_delivers [of r ?t "le_bytes ?w (of_signed ?w v) @ ys"] src int(4) t by (auto simp: int_image_def)
    obtain x r2 where "rdbLoadIntegerObject junk r1 ?t flags = Some (Ptr x, r2)" "rdb_value_bytes x = dec_int v" "src r2 ys"
      using rdbLoadIntegerObject_delivers [OF r1(2) refl int(1,2) junk] by blast
    then show ?thesis using r1(1) t int(3) by (auto simp: rdbGenericLoadStringObject_def)
  next
    case lzf
    then obtain c where c: "bs = 0xC3 # len_bytes (length c) @ len_bytes (length s) @ c" "length c < length s"
      "\<forall>out. length out = length s \<longrightarrow> lzf_decompress c out = Some (length s, s, LZF_OK)"
      by (auto simp: lzf_image_def)
    obtain r1 where r1: "rdbLoadLen r = Some ((True, 3), r1)" "src r1 (len_bytes (length c) @ len_bytes (length s) @ c @ ys)"
      using rdbLoadEncType_delivers [of r 3] src c(1) by auto
    from rdbLoadLzfStringObject_delivers [OF r1(2) c(2) len c(3) junk, of alloc flags] alloc r1(1) show ?thesis
      by (auto simp: rdbGenericLoadStringObject_def)
  next
    case raw
    have "length s < 18446744073709551616" using len by simp
    then obtain r1 where r1: "rdbLoadLen r = Some ((False, length s), r1)" "src r1 (s @ ys)"
      using rdbLoadLen_delivers [of r "length s" "s @ ys"] src raw by auto
    obtain r2 where r2: "rioRead r1 (length s) = Some (Ptr s, r2)" "src r2 ys" using rioRead_n [OF r1(2)] by blast
    show ?thesis
    proof (cases "s = []")
      case True
      then show ?thesis using r1 len alloc by (simp add: rdbGenericLoadStringObject_def)
    next
      case False
      then show ?thesis using r1 r2 len alloc by (simp add: rdbGenericLoadStringObject_def)
    qed
  qed
qed

end


subsection \<open>Round trips\<close>

text \<open>Every sink is an output for saving, and a reliable sink a reliable one.\<close>

sublocale byte_sink \<subseteq> out: rdb_out "rio_sink put invar written" False
  by unfold_locales
    (auto simp: rdb_done_def rdbWriteRaw_def bind_eq_Some_conv split: if_splits dest: rioWrite_appends)

sublocale reliable_sink \<subseteq> sure: rdb_out "\<lambda>r xs. rio_sink put invar written r xs \<and> \<not> rio_write_error r" True
proof unfold_locales
  fix r xs b
  assume "rio_sink put invar written r xs \<and> \<not> rio_write_error r"
  then show "rdb_done (\<lambda>r xs. rio_sink put invar written r xs \<and> \<not> rio_write_error r) True xs (rdbWriteRaw (Ptr r) b) b"
    using rioWrite_succeeds [of r xs b] by (auto simp: rdb_done_def rdbWriteRaw_def)
qed

lemma buffer_source:
  assumes "length xs < 18446744073709551616"
  shows "rio_source rioBufferRead rb_inv rb_contents (rioInitWithBuffer xs\<lparr>rio_chunk := k\<rparr>) xs"
  using assms by (simp add: rio_source_def rioInitWithBuffer_def rioBufferIO_def rb_inv_def rb_contents_def)

lemma buffer_sink:
  "rio_sink rioBufferWrite (\<lambda>_. True) rb_ptr (rioInitWithBuffer xs\<lparr>rio_chunk := k\<rparr>) xs \<and>
   \<not> rio_write_error (rioInitWithBuffer xs\<lparr>rio_chunk := k\<rparr>)"
  by (simp add: rio_sink_def rioInitWithBuffer_def rioBufferIO_def)

text \<open>
  C32: a string object saved to a buffer in any chunk size, with or without compression, whatever
  uninitialised memory and the hash table hold, is loaded back as the same string in every form, and
  the load stops right after it; the result of the save is the number of bytes written.
\<close>

theorem rdb_string_roundtrip:
  assumes "case obj of Obj_int v \<Rightarrow> is_int64 v \<and> s = dec_int v | Obj_sds b \<Rightarrow> s = b" "length s < 18446744073709551615"
    "\<And>n. length (junk n) = n" "\<And>n. n \<le> length s \<Longrightarrow> alloc n"
  shows "\<exists>bs r. rdbSaveStringObject compression junk htab (Ptr (rioInitWithBuffer xs\<lparr>rio_chunk := k\<rparr>)) obj =
      Some (int (length bs), Ptr r) \<and> rb_ptr (rio_io r) = xs @ bs \<and>
    (length (bs @ ys) < 18446744073709551616 \<longrightarrow>
     (\<exists>x r'. rdbGenericLoadStringObject alloc junk (rioInitWithBuffer (bs @ ys)\<lparr>rio_chunk := k'\<rparr>) flags = Some (Ptr x, r') \<and>
        rdb_value_bytes x = s \<and> rb_contents (rio_io r') = ys))"
proof -
  have obj: "case obj of Obj_int v \<Rightarrow> is_int64 v \<and> s = dec_int v | Obj_sds b \<Rightarrow> s = b \<and> length s < 18446744073709551616"
    using assms(1,2) by (cases obj) auto
  obtain bs where bs: "string_image s bs" and d: "rdb_done (\<lambda>r xs. rio_sink rioBufferWrite (\<lambda>_. True) rb_ptr r xs \<and> \<not> rio_write_error r)
      True xs (rdbSaveStringObject compression junk htab (Ptr (rioInitWithBuffer xs\<lparr>rio_chunk := k\<rparr>)) obj) bs"
    using buffer_snk.sure.rdbSaveStringObject_done [OF buffer_sink assms(3) obj] by blast
  obtain r where "rdbSaveStringObject compression junk htab (Ptr (rioInitWithBuffer xs\<lparr>rio_chunk := k\<rparr>)) obj =
      Some (int (length bs), Ptr r)" "rb_ptr (rio_io r) = xs @ bs"
    using d by (auto simp: rdb_done_def rio_sink_def)
  moreover have "\<exists>x r'. rdbGenericLoadStringObject alloc junk (rioInitWithBuffer (bs @ ys)\<lparr>rio_chunk := k'\<rparr>) flags = Some (Ptr x, r') \<and>
      rdb_value_bytes x = s \<and> rb_contents (rio_io r') = ys" if "length (bs @ ys) < 18446744073709551616"
    using buffer_src.rdbLoad_delivers [OF bs buffer_source [OF that] assms(2,3), of alloc _ flags] assms(4) by (fastforce simp: rio_source_def)
  ultimately show ?thesis by blast
qed

theorem rdb_string_roundtrip_witness:
  "\<exists>bs r. rdbSaveStringObject True (\<lambda>n. replicate n 7) (\<lambda>_. 3) (Ptr (rioInitWithBuffer [5]\<lparr>rio_chunk := 1\<rparr>)) (Obj_sds [65]) =
      Some (2, Ptr r) \<and> rb_ptr (rio_io r) = [5] @ bs \<and>
     (\<exists>x r'. rdbGenericLoadStringObject (\<lambda>_. True) (\<lambda>n. replicate n 7) (rioInitWithBuffer (bs @ [1, 2])\<lparr>rio_chunk := 3\<rparr>) RDB_LOAD_SDS = Some (Ptr x, r') \<and>
        rdb_value_bytes x = [65] \<and> rb_contents (rio_io r') = [1, 2])"
proof -
  have "string2ll [65] = None" by code_simp
  then have "\<exists>r. rdbSaveStringObject True (\<lambda>n. replicate n 7) (\<lambda>_. 3) (Ptr (rioInitWithBuffer [5]\<lparr>rio_chunk := 1\<rparr>)) (Obj_sds [65]) =
      Some (2, Ptr r)"
    by (simp add: rdbSaveStringObject_def rdbSaveRawString_def rdbTryIntegerEncoding_def rdbThen_def rdbSaveLen_def rdbWriteRaw_def
        rioWrite_def rioWrite_loop.simps rio_next_def rio_sum_def rioInitWithBuffer_def rioBufferIO_def rioBufferWrite_def Let_def)
  then obtain r where r: "rdbSaveStringObject True (\<lambda>n. replicate n 7) (\<lambda>_. 3) (Ptr (rioInitWithBuffer [5]\<lparr>rio_chunk := 1\<rparr>)) (Obj_sds [65]) =
      Some (2, Ptr r)" by blast
  have l: "length [65 :: byte] < 18446744073709551615" by simp
  show ?thesis
    using rdb_string_roundtrip [OF _ l, where obj = "Obj_sds [65]" and junk = "\<lambda>n. replicate n 7" and compression = True
      and htab = "\<lambda>_. 3" and xs = "[5]" and k = 1 and ys = "[1, 2]" and k' = 3 and alloc = "\<lambda>_. True" and flags = RDB_LOAD_SDS] r
    by auto
qed




subsection \<open>Loading arbitrary data\<close>

text \<open>The representation that the flags ask for.\<close>

definition rdb_fits :: "rdb_load_flag \<Rightarrow> rdb_value \<Rightarrow> bool" where
  "rdb_fits flags x = (case flags of
      RDB_LOAD_NONE \<Rightarrow> (case x of V_robj_sds _ \<Rightarrow> True | _ \<Rightarrow> False)
    | RDB_LOAD_ENC \<Rightarrow> (case x of V_robj_sds _ \<Rightarrow> True | V_robj_int v \<Rightarrow> - 2147483648 \<le> v \<and> v \<le> 2147483647 | _ \<Rightarrow> False)
    | RDB_LOAD_PLAIN \<Rightarrow> (case x of V_plain _ \<Rightarrow> True | _ \<Rightarrow> False)
    | RDB_LOAD_SDS \<Rightarrow> (case x of V_sds _ \<Rightarrow> True | _ \<Rightarrow> False)
    | RDB_LOAD_HFLD \<Rightarrow> (case x of V_hfield _ ttl \<Rightarrow> \<not> ttl | _ \<Rightarrow> False)
    | RDB_LOAD_HFLD_TTL \<Rightarrow> (case x of V_hfield _ ttl \<Rightarrow> ttl | _ \<Rightarrow> False))"

lemma rdb_fits_wrap: "rdb_fits flags (rdb_wrap flags b)"
  by (cases flags) (simp_all add: rdb_fits_def rdb_wrap_def)

lemma to_signed_int32:
  assumes "length b = k" "k = 1 \<or> k = 2 \<or> k = 4"
  shows "- 2147483648 \<le> to_signed k (le_val b) \<and> to_signed k (le_val b) \<le> 2147483647"
  using le_val_bound [of b] assms by (auto simp: to_signed_def)

lemma rd_single: "length b = Suc 0 \<Longrightarrow> \<exists>x. b = [x] \<and> rd b 0 = Some x"
  by (cases b) (simp_all add: rd_def)

text \<open>A source that answers every request, with the bytes asked for or a failure.\<close>

locale answering_source =
  fixes read :: "'s \<Rightarrow> nat \<Rightarrow> (buf nullable \<times> 's) option" and invar :: "'s \<Rightarrow> bool"
  assumes read_answers: "invar s \<Longrightarrow> \<exists>v s'. read s n = Some (v, s') \<and> invar s' \<and> (\<forall>b. v = Ptr b \<longrightarrow> length b = n)"
begin

definition answering :: "'s rio \<Rightarrow> bool" where
  "answering r \<longleftrightarrow> rio_read r = read \<and> invar (rio_io r)"

lemma rioRead_loop_answers:
  "answering r \<Longrightarrow> \<exists>v r'. rioRead_loop r n acc = Some (v, r') \<and> answering r' \<and> (\<forall>b. v = Ptr b \<longrightarrow> length b = length acc + n)"
proof (induction n arbitrary: r acc rule: less_induct)
  case (less n)
  show ?case
  proof (cases "n = 0")
    case True
    then show ?thesis using less.prems by (simp add: rioRead_loop.simps)
  next
    case False
    let ?k = "rio_next r n"
    have k: "0 < ?k" "?k \<le> n" using False rio_next_pos rio_next_le by auto
    obtain v io where v: "rio_read r (rio_io r) ?k = Some (v, io)" "invar io" "\<forall>b. v = Ptr b \<longrightarrow> length b = ?k"
      using less.prems read_answers unfolding answering_def by metis
    show ?thesis
    proof (cases v)
      case NULL
      then show ?thesis using False v less.prems by (simp add: rioRead_loop.simps [of r n] Let_def answering_def)
    next
      case (Ptr b)
      let ?r = "(rio_sum (r\<lparr>rio_io := io\<rparr>) b)\<lparr>rio_processed := (rio_processed r + ?k) mod 18446744073709551616\<rparr>"
      have "answering ?r" using less.prems v(2) by (simp add: answering_def)
      from less.IH [OF _ this, of "n - ?k" "acc @ b"] obtain w r' where "rioRead_loop ?r (n - ?k) (acc @ b) = Some (w, r')"
        "answering r'" "\<forall>c. w = Ptr c \<longrightarrow> length c = length acc + n"
        using k v(3) Ptr by auto
      then show ?thesis using False v(1) Ptr by (simp add: rioRead_loop.simps [of r n] Let_def)
    qed
  qed
qed

definition answered :: "('a \<Rightarrow> bool) \<Rightarrow> ('a \<times> 's rio) option \<Rightarrow> bool" where
  "answered P w \<longleftrightarrow> (\<exists>v r. w = Some (v, r) \<and> answering r \<and> P v)"

lemma answered_Some [simp]: "answered P (Some (v, r)) \<longleftrightarrow> answering r \<and> P v"
  by (simp add: answered_def)

lemma answered_bind:
  assumes "answered P w" "\<And>v r. answering r \<Longrightarrow> P v \<Longrightarrow> answered Q (f (v, r))"
  shows "answered Q (Option.bind w f)"
  using assms by (auto simp: answered_def)

lemma rioRead_answers:
  assumes "answering r"
  shows "answered (\<lambda>v. \<forall>b. v = Ptr b \<longrightarrow> length b = n) (rioRead r n)"
  using rioRead_loop_answers [OF assms, of n "[]"] assms by (auto simp: rioRead_def answered_def)

lemma answered_read:
  assumes "answering r" "\<And>r. answering r \<Longrightarrow> answered Q (f (NULL, r))"
    "\<And>b r. answering r \<Longrightarrow> length b = n \<Longrightarrow> answered Q (f (Ptr b, r))"
  shows "answered Q (Option.bind (rioRead r n) f)"
proof (rule answered_bind [OF rioRead_answers [OF assms(1)]])
  show "answered Q (f (v, r))" if "answering r" "\<forall>b. v = Ptr b \<longrightarrow> length b = n" for v r
    using that assms(2,3) by (cases v) auto
qed

lemma rdbLoadLen_answers:
  assumes "answering r"
  shows "answered (\<lambda>_. True) (rdbLoadLen r)"
proof -
  have "answered (\<lambda>_. True) (rdbLoadLenByRef r)"
    unfolding rdbLoadLenByRef_def
    by (rule answered_read [OF assms])
      (auto simp: Let_def ntohu64_def intrev64_eq intro!: answered_read dest!: rd_single)
  then show ?thesis unfolding rdbLoadLen_def by (rule answered_bind) simp
qed

lemma rdbLoadIntegerObject_answers:
  assumes "answering r" "\<And>n. length (junk n) = n"
  shows "answered (\<lambda>v. \<forall>x. v = Ptr x \<longrightarrow> rdb_fits flags x) (rdbLoadIntegerObject junk r e flags)"
proof -
  let ?k = "if e = 0 then 1 else if e = 1 then 2 else 4 :: nat"
  have k: "?k = 1 \<or> ?k = 2 \<or> ?k = 4" by simp
  let ?fit = "\<lambda>v :: int. - 2147483648 \<le> v \<and> v \<le> 2147483647"
  have "answered (\<lambda>v. \<forall>x. v = Ptr x \<longrightarrow> ?fit x)
      (if e = 0 \<or> e = 1 \<or> e = 2 then Option.bind (rioRead r ?k)
         (\<lambda>(b, rdb). Some (case b of NULL \<Rightarrow> NULL | Ptr b \<Rightarrow> Ptr (to_signed ?k (le_val b)), rdb)) else Some (NULL, r))"
    using assms(1) by (auto intro!: answered_read simp: to_signed_int32)
  then show ?thesis
    unfolding rdbLoadIntegerObject_def Let_def
  proof (rule answered_bind)
    fix v r1
    assume r1: "answering r1" and v: "\<forall>x. v = Ptr x \<longrightarrow> ?fit x"
    show "answered (\<lambda>v. \<forall>x. v = Ptr x \<longrightarrow> rdb_fits flags x) (case (v, r1) of (v, rdb) \<Rightarrow> case v of
       NULL \<Rightarrow> Some (NULL, rdb)
     | Ptr val \<Rightarrow>
         if flags = RDB_LOAD_ENC then Some (Ptr (V_robj_int val), rdb)
         else do {
           (len, buf) \<leftarrow> ll2string (junk LONG_STR_SIZE) LONG_STR_SIZE val;
           b \<leftarrow> rd_range buf 0 len;
           Some (Ptr (rdb_wrap flags b), rdb) })"
    proof (cases v)
      case (Ptr x)
      then have x: "?fit x" using v by simp
      then have "is_int64 x" by (simp add: is_int64_def)
      from length_dec_int64 [OF this] have "ll2string (junk 21) 21 x =
          Some (length (dec_int x), dec_int x @ 0 # drop (Suc (length (dec_int x))) (junk 21))"
        using ll2string_spec [of 21 "junk 21" x] assms(2) [of 21] by simp
      then show ?thesis using Ptr x r1 by (simp add: rd_range_def rdb_fits_wrap) (simp add: rdb_fits_def)
    qed (use r1 in simp)
  qed
qed

lemma rdbLoadLzfStringObject_answers:
  assumes "answering r"
  shows "answered (\<lambda>v. \<forall>x. v = Ptr x \<longrightarrow> rdb_fits flags x) (rdbLoadLzfStringObject alloc junk r flags)"
proof -
  have d: "\<exists>n out' e. lzf_decompress inp out = Some (n, out', e)" for inp out
    using lzf_decompress_loop_total [of 0 out inp 0] by (auto simp: lzf_decompress_def)
  have dec: "answered (\<lambda>v. \<forall>x. v = Ptr x \<longrightarrow> rdb_fits flags x) (do {
      (n, val, _) \<leftarrow> lzf_decompress c (junk len);
      Some (if n \<noteq> len then NULL else Ptr (rdb_wrap flags val), r) })" if "answering r" for r c len
    using d [of c "junk len"] that by (auto simp: rdb_fits_wrap)
  show ?thesis unfolding rdbLoadLzfStringObject_def
    by (rule answered_bind [OF rdbLoadLen_answers [OF assms]])
      (auto intro!: answered_bind [OF rdbLoadLen_answers] answered_read dec)
qed

lemma rdbLoad_answers:
  assumes "answering r" "\<And>n. length (junk n) = n"
  shows "answered (\<lambda>v. \<forall>x. v = Ptr x \<longrightarrow> rdb_fits flags x) (rdbGenericLoadStringObject alloc junk r flags)"
  unfolding rdbGenericLoadStringObject_def
  by (rule answered_bind [OF rdbLoadLen_answers [OF assms(1)]])
    (auto intro!: answered_read rdbLoadIntegerObject_answers rdbLoadLzfStringObject_answers simp: assms(2) rdb_fits_wrap)

end

interpretation buffer_ans: answering_source rioBufferRead rb_inv
proof
  fix s n
  assume "rb_inv s"
  then show "\<exists>v s'. rioBufferRead s n = Some (v, s') \<and> rb_inv s' \<and> (\<forall>b. v = Ptr b \<longrightarrow> length b = n)"
    by (auto simp: rioBufferRead_def rb_inv_def rd_range_def)
qed



end
