(* ===== verification/Sds.thy ===== *)
theory Sds
  imports Util_Str
begin

text \<open>
  The string library (\<open>sds.h\<close>, \<open>sds.c\<close>). A string is its header, one of five formats whose length
  and allocation fields have a fixed width, and the memory that follows it. \<open>malloc n\<close> is the block
  that a request for \<open>n\<close> bytes is given, as long as the allocator makes it and with whatever it holds;
  \<open>None\<close> is the abort of the process when memory is exhausted. A C string is a list that holds a zero,
  and a pointer into it is the rest of the list from there.
\<close>

record sds =
  sds_type :: nat
  sds_hlen :: nat
  sds_halloc :: nat
  sds_buf :: buf

abbreviation (input) SDS_TYPE_5 :: nat where "SDS_TYPE_5 \<equiv> 0"
abbreviation (input) SDS_TYPE_8 :: nat where "SDS_TYPE_8 \<equiv> 1"
abbreviation (input) SDS_TYPE_16 :: nat where "SDS_TYPE_16 \<equiv> 2"
abbreviation (input) SDS_TYPE_32 :: nat where "SDS_TYPE_32 \<equiv> 3"
abbreviation (input) SDS_TYPE_64 :: nat where "SDS_TYPE_64 \<equiv> 4"
abbreviation (input) SDS_MAX_PREALLOC :: nat where "SDS_MAX_PREALLOC \<equiv> 1048576"

text \<open>Sizes are unsigned 64-bit integers.\<close>

abbreviation (input) size_t :: "nat \<Rightarrow> nat" where "size_t n \<equiv> n mod 18446744073709551616"


subsection \<open>Headers\<close>

text \<open>The number of values of the length field.\<close>

definition sds_range :: "nat \<Rightarrow> nat" where
  "sds_range type =
     (if type = SDS_TYPE_5 then 32 else if type = SDS_TYPE_8 then 256 else if type = SDS_TYPE_16 then 65536
      else if type = SDS_TYPE_32 then 4294967296 else 18446744073709551616)"

definition sdslen :: "sds \<Rightarrow> nat" where
  "sdslen s = (if sds_type s \<le> SDS_TYPE_64 then sds_hlen s else 0)"

definition sdsavail :: "sds \<Rightarrow> nat" where
  "sdsavail s =
     (if sds_type s = SDS_TYPE_5 then 0
      else if sds_type s \<le> SDS_TYPE_64 then sub64 (sds_halloc s) (sds_hlen s) else 0)"

definition sdssetlen :: "sds \<Rightarrow> nat \<Rightarrow> sds" where
  "sdssetlen s newlen =
     (if sds_type s \<le> SDS_TYPE_64 then s\<lparr>sds_hlen := newlen mod sds_range (sds_type s)\<rparr> else s)"

definition sdsinclen :: "sds \<Rightarrow> nat \<Rightarrow> sds" where
  "sdsinclen s inc =
     (if sds_type s \<le> SDS_TYPE_64 then s\<lparr>sds_hlen := (sds_hlen s + inc) mod sds_range (sds_type s)\<rparr> else s)"

definition sdsalloc :: "sds \<Rightarrow> nat" where
  "sdsalloc s =
     (if sds_type s = SDS_TYPE_5 then sds_hlen s else if sds_type s \<le> SDS_TYPE_64 then sds_halloc s else 0)"

definition sdssetalloc :: "sds \<Rightarrow> nat \<Rightarrow> sds" where
  "sdssetalloc s newlen =
     (if sds_type s = SDS_TYPE_5 then s
      else if sds_type s \<le> SDS_TYPE_64 then s\<lparr>sds_halloc := newlen mod sds_range (sds_type s)\<rparr> else s)"

definition sdsHdrSize :: "nat \<Rightarrow> nat" where
  "sdsHdrSize type =
     (if type = SDS_TYPE_5 then 1 else if type = SDS_TYPE_8 then 3 else if type = SDS_TYPE_16 then 5
      else if type = SDS_TYPE_32 then 9 else if type = SDS_TYPE_64 then 17 else 0)"

definition sdsReqType :: "nat \<Rightarrow> nat" where
  "sdsReqType string_size =
     (if string_size < 32 then SDS_TYPE_5 else if string_size < 256 then SDS_TYPE_8
      else if string_size < 65536 then SDS_TYPE_16 else if string_size < 4294967296 then SDS_TYPE_32 else SDS_TYPE_64)"

definition sdsTypeMaxSize :: "nat \<Rightarrow> nat" where
  "sdsTypeMaxSize type =
     (if type = SDS_TYPE_5 then 31 else if type = SDS_TYPE_8 then 255 else if type = SDS_TYPE_16 then 65535
      else if type = SDS_TYPE_32 then 4294967295 else 18446744073709551615)"

definition sds_put :: "sds \<Rightarrow> nat \<Rightarrow> buf \<Rightarrow> sds option" where
  "sds_put s i b = map_option (\<lambda>m. s\<lparr>sds_buf := m\<rparr>) (wr_range (sds_buf s) i b)"


subsection \<open>Creation\<close>

text \<open>The \<open>init\<close> argument: \<open>NULL\<close>, the constant \<open>SDS_NOINIT\<close>, or a pointer to bytes.\<close>

datatype sds_init = Init_zero | SDS_NOINIT | Init_from buf

definition sdsnewlen_generic :: "(nat \<Rightarrow> buf nullable option) \<Rightarrow> sds_init \<Rightarrow> nat \<Rightarrow> sds nullable option" where
  "sdsnewlen_generic malloc init initlen =
     (let type = (if sdsReqType initlen = SDS_TYPE_5 \<and> initlen = 0 then SDS_TYPE_8 else sdsReqType initlen);
          hdrlen = sdsHdrSize type in do {
        _ \<leftarrow> assertC (initlen < size_t (initlen + hdrlen + 1));
        sh \<leftarrow> malloc (hdrlen + initlen + 1);
        case sh of
          NULL \<Rightarrow> Some NULL
        | Ptr sh \<Rightarrow> do {
            sh \<leftarrow> (if init = Init_zero then wr_range sh 0 (replicate (hdrlen + initlen + 1) 0) else Some sh);
            let usable = sub64 (sub64 (length sh) hdrlen) 1;
            let usable = (if sdsTypeMaxSize type < usable then sdsTypeMaxSize type else usable);
            let s = \<lparr>sds_type = type, sds_hlen = initlen mod sds_range type,
                     sds_halloc = (if type = SDS_TYPE_5 then 0 else usable mod sds_range type), sds_buf = drop hdrlen sh\<rparr>;
            s \<leftarrow> (case init of
                    Init_from b \<Rightarrow> if initlen \<noteq> 0 then do { b \<leftarrow> rd_range b 0 initlen; sds_put s 0 b } else Some s
                  | _ \<Rightarrow> Some s);
            s \<leftarrow> sds_put s initlen [0];
            Some (Ptr s) } })"

text \<open>The allocation of \<open>sdsnewlen\<close> ends the process rather than fail.\<close>

definition sdsnewlen :: "(nat \<Rightarrow> buf option) \<Rightarrow> sds_init \<Rightarrow> nat \<Rightarrow> sds option" where
  "sdsnewlen malloc init initlen = do {
     s \<leftarrow> sdsnewlen_generic (\<lambda>n. map_option Ptr (malloc n)) init initlen;
     case s of NULL \<Rightarrow> None | Ptr s \<Rightarrow> Some s }"

definition sdstrynewlen :: "(nat \<Rightarrow> buf nullable) \<Rightarrow> sds_init \<Rightarrow> nat \<Rightarrow> sds nullable option" where
  "sdstrynewlen trymalloc init initlen = sdsnewlen_generic (\<lambda>n. Some (trymalloc n)) init initlen"

definition sdsempty :: "(nat \<Rightarrow> buf option) \<Rightarrow> sds option" where
  "sdsempty malloc = sdsnewlen malloc (Init_from [0]) 0"

definition strlen :: "buf \<Rightarrow> nat option" where
  "strlen b = (let n = length (takeWhile (\<lambda>c. c \<noteq> 0) b) in if n < length b then Some n else None)"

definition sdsnew :: "(nat \<Rightarrow> buf option) \<Rightarrow> buf nullable \<Rightarrow> sds option" where
  "sdsnew malloc init = (case init of
      NULL \<Rightarrow> sdsnewlen malloc Init_zero 0
    | Ptr b \<Rightarrow> do { initlen \<leftarrow> strlen b; sdsnewlen malloc (Init_from b) initlen })"

definition sdsdup :: "(nat \<Rightarrow> buf option) \<Rightarrow> sds \<Rightarrow> sds option" where
  "sdsdup malloc s = sdsnewlen malloc (Init_from (sds_buf s)) (sdslen s)"

definition sdsupdatelen :: "sds \<Rightarrow> sds option" where
  "sdsupdatelen s = do { reallen \<leftarrow> strlen (sds_buf s); Some (sdssetlen s reallen) }"

definition sdsclear :: "sds \<Rightarrow> sds option" where
  "sdsclear s = sds_put (sdssetlen s 0) 0 [0]"


subsection \<open>Space\<close>

text \<open>A block that was reallocated keeps its old contents.\<close>

definition s_realloc :: "buf \<Rightarrow> buf \<Rightarrow> buf" where
  "s_realloc old new = take (length new) old @ drop (length old) new"

definition sdsMakeRoomFor_generic :: "(nat \<Rightarrow> buf option) \<Rightarrow> sds \<Rightarrow> nat \<Rightarrow> bool \<Rightarrow> sds option" where
  "sdsMakeRoomFor_generic malloc s addlen greedy =
     (if addlen \<le> sdsavail s then Some s
      else (let len = sdslen s; reqlen = size_t (len + addlen);
                newlen = (if \<not> greedy then reqlen
                          else if reqlen < SDS_MAX_PREALLOC then reqlen * 2 else size_t (reqlen + SDS_MAX_PREALLOC));
                type = (if sdsReqType newlen = SDS_TYPE_5 then SDS_TYPE_8 else sdsReqType newlen);
                hdrlen = sdsHdrSize type in do {
        _ \<leftarrow> assertC (len < reqlen);
        _ \<leftarrow> assertC (reqlen < size_t (hdrlen + newlen + 1));
        newsh \<leftarrow> malloc (hdrlen + newlen + 1);
        s' \<leftarrow> (if sds_type s = type
               then Some (s\<lparr>sds_buf := s_realloc (sds_buf s) (drop hdrlen newsh)\<rparr>)
               else do {
                 b \<leftarrow> rd_range (sds_buf s) 0 (len + 1);
                 m \<leftarrow> wr_range (drop hdrlen newsh) 0 b;
                 Some (sdssetlen \<lparr>sds_type = type, sds_hlen = 0, sds_halloc = 0, sds_buf = m\<rparr> len) });
        let usable = sub64 (sub64 (length newsh) hdrlen) 1;
        let usable = (if sdsTypeMaxSize type < usable then sdsTypeMaxSize type else usable);
        Some (sdssetalloc s' usable) }))"

definition sdsMakeRoomFor :: "(nat \<Rightarrow> buf option) \<Rightarrow> sds \<Rightarrow> nat \<Rightarrow> sds option" where
  "sdsMakeRoomFor malloc s addlen = sdsMakeRoomFor_generic malloc s addlen True"

definition sdsMakeRoomForNonGreedy :: "(nat \<Rightarrow> buf option) \<Rightarrow> sds \<Rightarrow> nat \<Rightarrow> sds option" where
  "sdsMakeRoomForNonGreedy malloc s addlen = sdsMakeRoomFor_generic malloc s addlen False"

text \<open>
  \<open>nallocx n\<close> is the size of the block that jemalloc would give to a request for \<open>n\<close> bytes; it is 0
  in a build with another allocator, where the comparison is not made.
\<close>

definition sdsResize :: "(nat \<Rightarrow> buf option) \<Rightarrow> (nat \<Rightarrow> nat) \<Rightarrow> sds \<Rightarrow> nat \<Rightarrow> bool \<Rightarrow> sds option" where
  "sdsResize malloc nallocx s sz would_regrow =
     (if sdsalloc s = sz then Some s
      else (let len = (if sz < sdslen s then sz else sdslen s);
                oldtype = sds_type s; oldhdrlen = sdsHdrSize oldtype;
                type = (if would_regrow \<and> sdsReqType sz = SDS_TYPE_5 then SDS_TYPE_8 else sdsReqType sz);
                hdrlen = sdsHdrSize type;
                use_realloc = (oldtype = type \<or> type < oldtype \<and> SDS_TYPE_8 < type);
                newlen = size_t (if use_realloc then oldhdrlen + sz + 1 else hdrlen + sz + 1) in do {
        s \<leftarrow> (if use_realloc then
                 (if nallocx newlen = oldhdrlen + length (sds_buf s) then Some s
                  else do { newsh \<leftarrow> malloc newlen; Some (s\<lparr>sds_buf := s_realloc (sds_buf s) (drop oldhdrlen newsh)\<rparr>) })
               else do {
                 newsh \<leftarrow> malloc newlen;
                 b \<leftarrow> rd_range (sds_buf s) 0 len;
                 m \<leftarrow> wr_range (drop hdrlen newsh) 0 b;
                 Some \<lparr>sds_type = type, sds_hlen = 0, sds_halloc = 0, sds_buf = m\<rparr> });
        s \<leftarrow> sds_put s len [0];
        Some (sdssetalloc (sdssetlen s len) sz) }))"

definition sdsRemoveFreeSpace :: "(nat \<Rightarrow> buf option) \<Rightarrow> (nat \<Rightarrow> nat) \<Rightarrow> sds \<Rightarrow> bool \<Rightarrow> sds option" where
  "sdsRemoveFreeSpace malloc nallocx s would_regrow = sdsResize malloc nallocx s (sdslen s) would_regrow"

definition sdsAllocSize :: "sds \<Rightarrow> nat" where
  "sdsAllocSize s = size_t (sdsHdrSize (sds_type s) + sdsalloc s + 1)"

text \<open>The comparisons are made at the width to which C converts their operands.\<close>

definition sdsIncrLen :: "sds \<Rightarrow> int \<Rightarrow> sds option" where
  "sdsIncrLen s incr =
     (let type = sds_type s; len = int (sds_hlen s);
          uint = (\<lambda>v. v mod 4294967296); ulong = (\<lambda>v. v mod 18446744073709551616);
          free = int (sds_halloc s) - len;
          newlen = nat (ulong (len + incr)) in do {
        _ \<leftarrow> assertC
          (if type = SDS_TYPE_5 then 0 < incr \<and> len + incr < 32 \<or> incr < 0 \<and> uint (- incr) \<le> len
           else if type = SDS_TYPE_8 \<or> type = SDS_TYPE_16 then 0 \<le> incr \<and> incr \<le> free \<or> incr < 0 \<and> uint (- incr) \<le> len
           else if type = SDS_TYPE_32 then 0 \<le> incr \<and> uint incr \<le> uint free \<or> incr < 0 \<and> uint (- incr) \<le> len
           else if type = SDS_TYPE_64 then 0 \<le> incr \<and> ulong incr \<le> ulong free \<or> incr < 0 \<and> ulong (- incr) \<le> len
           else True);
        let len' = (if type = SDS_TYPE_5 then newlen else if type \<le> SDS_TYPE_64 then newlen mod sds_range type else 0);
        sds_put (sdssetlen s newlen) len' [0] })"


subsection \<open>Appending and copying\<close>

definition sdsgrowzero :: "(nat \<Rightarrow> buf option) \<Rightarrow> sds \<Rightarrow> nat \<Rightarrow> sds option" where
  "sdsgrowzero malloc s len =
     (let curlen = sdslen s in
      if len \<le> curlen then Some s
      else do {
        s \<leftarrow> sdsMakeRoomFor malloc s (len - curlen);
        s \<leftarrow> sds_put s curlen (replicate (len - curlen + 1) 0);
        Some (sdssetlen s len) })"

definition sdscatlen :: "(nat \<Rightarrow> buf option) \<Rightarrow> sds \<Rightarrow> buf \<Rightarrow> nat \<Rightarrow> sds option" where
  "sdscatlen malloc s t len =
     (let curlen = sdslen s in do {
        s \<leftarrow> sdsMakeRoomFor malloc s len;
        b \<leftarrow> rd_range t 0 len;
        s \<leftarrow> sds_put s curlen b;
        sds_put (sdssetlen s (curlen + len)) (curlen + len) [0] })"

definition sdscat :: "(nat \<Rightarrow> buf option) \<Rightarrow> sds \<Rightarrow> buf \<Rightarrow> sds option" where
  "sdscat malloc s t = do { len \<leftarrow> strlen t; sdscatlen malloc s t len }"

definition sdscatsds :: "(nat \<Rightarrow> buf option) \<Rightarrow> sds \<Rightarrow> sds \<Rightarrow> sds option" where
  "sdscatsds malloc s t = sdscatlen malloc s (sds_buf t) (sdslen t)"

definition sdscpylen :: "(nat \<Rightarrow> buf option) \<Rightarrow> sds \<Rightarrow> buf \<Rightarrow> nat \<Rightarrow> sds option" where
  "sdscpylen malloc s t len = do {
     s \<leftarrow> (if sdsalloc s < len then sdsMakeRoomFor malloc s (len - sdslen s) else Some s);
     b \<leftarrow> rd_range t 0 len;
     s \<leftarrow> sds_put s 0 b;
     s \<leftarrow> sds_put s len [0];
     Some (sdssetlen s len) }"

definition sdscpy :: "(nat \<Rightarrow> buf option) \<Rightarrow> sds \<Rightarrow> buf \<Rightarrow> sds option" where
  "sdscpy malloc s t = do { len \<leftarrow> strlen t; sdscpylen malloc s t len }"

definition sdsfromlonglong :: "(nat \<Rightarrow> buf option) \<Rightarrow> buf \<Rightarrow> int \<Rightarrow> sds option" where
  "sdsfromlonglong malloc junk v = do {
     (len, buf) \<leftarrow> ll2string junk LONG_STR_SIZE v;
     sdsnewlen malloc (Init_from buf) len }"

text \<open>
  \<open>out\<close> is what the format and its arguments give; \<open>vsnprintf\<close> returns its length, or a negative value
  when that is no \<open>int\<close>, and writes it when it fits the buffer.
\<close>

function sdscatvprintf_loop :: "(nat \<Rightarrow> buf option) \<Rightarrow> buf \<Rightarrow> nat \<Rightarrow> buf nullable option" where
  "sdscatvprintf_loop malloc out buflen =
     (if 2147483647 < length out then Some NULL
      else if buflen \<le> length out then do { _ \<leftarrow> malloc (length out + 1); sdscatvprintf_loop malloc out (length out + 1) }
      else Some (Ptr (out @ [0])))"
  by pat_completeness auto
termination
  by (relation "measure (\<lambda>(_, out, buflen). length out + 1 - buflen)") auto

declare sdscatvprintf_loop.simps [simp del]

definition sdscatvprintf :: "(nat \<Rightarrow> buf option) \<Rightarrow> sds \<Rightarrow> buf \<Rightarrow> buf \<Rightarrow> sds nullable option" where
  "sdscatvprintf malloc s fmt out = do {
     fmtlen \<leftarrow> strlen fmt;
     buflen \<leftarrow> (if 1024 < fmtlen * 2 then map_option (\<lambda>_. fmtlen * 2) (malloc (fmtlen * 2)) else Some 1024);
     r \<leftarrow> sdscatvprintf_loop malloc out buflen;
     case r of NULL \<Rightarrow> Some NULL | Ptr buf \<Rightarrow> map_option Ptr (sdscatlen malloc s buf (length out)) }"

text \<open>The result is used without a check.\<close>

definition sdscatprintf :: "(nat \<Rightarrow> buf option) \<Rightarrow> sds \<Rightarrow> buf \<Rightarrow> buf \<Rightarrow> sds option" where
  "sdscatprintf malloc s fmt out = do {
     t \<leftarrow> sdscatvprintf malloc s fmt out;
     case t of NULL \<Rightarrow> None | Ptr t \<Rightarrow> Some t }"

text \<open>The arguments of \<open>sdscatfmt\<close>; taking one as another type is undefined.\<close>

datatype fmt_arg = A_str buf | A_sds sds | A_int int | A_llong int | A_uint nat | A_ullong nat

definition sdscatfmt_put :: "(nat \<Rightarrow> buf option) \<Rightarrow> sds \<Rightarrow> nat \<Rightarrow> buf \<Rightarrow> nat \<Rightarrow> (sds \<times> nat) option" where
  "sdscatfmt_put malloc s i b l = do {
     s \<leftarrow> (if sdsavail s < l then sdsMakeRoomFor malloc s l else Some s);
     b \<leftarrow> rd_range b 0 l;
     s \<leftarrow> sds_put s i b;
     Some (sdsinclen s l, i + l) }"

text \<open>A conversion: the character after the percent sign, and the next argument.\<close>

definition sdscatfmt_arg ::
  "(nat \<Rightarrow> buf option) \<Rightarrow> buf \<Rightarrow> byte \<Rightarrow> sds \<Rightarrow> nat \<Rightarrow> fmt_arg list \<Rightarrow> (sds \<times> nat \<times> fmt_arg list) option" where
  "sdscatfmt_arg malloc junk next s i args =
     (if next = 115 then (case args of
        A_str str # args \<Rightarrow> do { l \<leftarrow> strlen str; (s, i) \<leftarrow> sdscatfmt_put malloc s i str l; Some (s, i, args) }
      | _ \<Rightarrow> None)
      else if next = 83 then (case args of
        A_sds str # args \<Rightarrow> do { (s, i) \<leftarrow> sdscatfmt_put malloc s i (sds_buf str) (sdslen str); Some (s, i, args) }
      | _ \<Rightarrow> None)
      else if next = 105 \<or> next = 73 then do {
        (num, args) \<leftarrow> (case args of
            A_int v # args \<Rightarrow> if next = 105 then Some (v, args) else None
          | A_llong v # args \<Rightarrow> if next = 73 then Some (v, args) else None
          | _ \<Rightarrow> None);
        (l, buf) \<leftarrow> ll2string junk LONG_STR_SIZE num;
        (s, i) \<leftarrow> sdscatfmt_put malloc s i buf l;
        Some (s, i, args) }
      else if next = 117 \<or> next = 85 then do {
        (unum, args) \<leftarrow> (case args of
            A_uint v # args \<Rightarrow> if next = 117 then Some (v, args) else None
          | A_ullong v # args \<Rightarrow> if next = 85 then Some (v, args) else None
          | _ \<Rightarrow> None);
        (l, buf) \<leftarrow> ull2string junk LONG_STR_SIZE unum;
        (s, i) \<leftarrow> sdscatfmt_put malloc s i buf l;
        Some (s, i, args) }
      else do { s \<leftarrow> sds_put s i [next]; Some (sdsinclen s 1, i + 1, args) })"

fun sdscatfmt_loop ::
  "(nat \<Rightarrow> buf option) \<Rightarrow> buf \<Rightarrow> buf \<Rightarrow> sds \<Rightarrow> nat \<Rightarrow> fmt_arg list \<Rightarrow> (sds \<times> nat) option" where
  "sdscatfmt_loop malloc junk [] s i args = None"
| "sdscatfmt_loop malloc junk (c # f) s i args =
     (if c = 0 then Some (s, i)
      else do {
        s \<leftarrow> (if sdsavail s = 0 then sdsMakeRoomFor malloc s 1 else Some s);
        if c = 37 then (case f of
            [] \<Rightarrow> None
          | next # f' \<Rightarrow>
              if next = 0 then sdscatfmt_loop malloc junk f s i args
              else do { (s, i, args) \<leftarrow> sdscatfmt_arg malloc junk next s i args; sdscatfmt_loop malloc junk f' s i args })
        else do { s \<leftarrow> sds_put s i [c]; sdscatfmt_loop malloc junk f (sdsinclen s 1) (i + 1) args } })"

definition sdscatfmt :: "(nat \<Rightarrow> buf option) \<Rightarrow> buf \<Rightarrow> sds \<Rightarrow> buf \<Rightarrow> fmt_arg list \<Rightarrow> sds option" where
  "sdscatfmt malloc junk s fmt args = do {
     fmtlen \<leftarrow> strlen fmt;
     let initlen = sdslen s;
     s \<leftarrow> sdsMakeRoomFor malloc s (fmtlen * 2);
     (s, i) \<leftarrow> sdscatfmt_loop malloc junk fmt s initlen args;
     sds_put s i [0] }"


subsection \<open>Changes in place\<close>

text \<open>\<open>strchr\<close> also finds the terminator.\<close>

definition strchr :: "buf \<Rightarrow> byte \<Rightarrow> bool" where
  "strchr cset c \<longleftrightarrow> c = 0 \<or> c \<in> set (takeWhile (\<lambda>c. c \<noteq> 0) cset)"

function sdstrim_left :: "buf \<Rightarrow> buf \<Rightarrow> nat \<Rightarrow> nat \<Rightarrow> nat option" where
  "sdstrim_left b cset len sp =
     (if sp < len then do { c \<leftarrow> rd b sp; if strchr cset c then sdstrim_left b cset len (sp + 1) else Some sp } else Some sp)"
  by pat_completeness auto
termination
  by (relation "measure (\<lambda>(_, _, len, sp). len - sp)") auto

function sdstrim_right :: "buf \<Rightarrow> buf \<Rightarrow> nat \<Rightarrow> int \<Rightarrow> int option" where
  "sdstrim_right b cset sp ep =
     (if int sp < ep then do { c \<leftarrow> rd b (nat ep); if strchr cset c then sdstrim_right b cset sp (ep - 1) else Some ep } else Some ep)"
  by pat_completeness auto
termination
  by (relation "measure (\<lambda>(_, _, sp, ep). nat (ep - int sp))") auto

declare sdstrim_left.simps [simp del] sdstrim_right.simps [simp del]

definition sdstrim :: "sds \<Rightarrow> buf \<Rightarrow> sds option" where
  "sdstrim s cset = do {
     sp \<leftarrow> sdstrim_left (sds_buf s) cset (sdslen s) 0;
     ep \<leftarrow> sdstrim_right (sds_buf s) cset sp (int (sdslen s) - 1);
     let len = nat (ep - int sp + 1);
     m \<leftarrow> (if sp \<noteq> 0 then memmove (sds_buf s) 0 sp len else Some (sds_buf s));
     s \<leftarrow> sds_put (s\<lparr>sds_buf := m\<rparr>) len [0];
     Some (sdssetlen s len) }"

definition sdssubstr :: "sds \<Rightarrow> nat \<Rightarrow> nat \<Rightarrow> sds option" where
  "sdssubstr s start len =
     (let oldlen = sdslen s;
          (start, len) = (if oldlen \<le> start then (0, 0) else (start, len));
          len = (if oldlen - start < len then oldlen - start else len) in do {
        m \<leftarrow> (if len \<noteq> 0 then memmove (sds_buf s) 0 start len else Some (sds_buf s));
        s \<leftarrow> sds_put (s\<lparr>sds_buf := m\<rparr>) len [0];
        Some (sdssetlen s len) })"

text \<open>The indexes are signed 64-bit integers; a difference that is none is undefined.\<close>

definition sdsrange :: "sds \<Rightarrow> int \<Rightarrow> int \<Rightarrow> sds option" where
  "sdsrange s start end =
     (let len = sdslen s in
      if len = 0 then Some s
      else (let start = (if start < 0 then to_signed 8 (of_signed 8 (int len + start)) else start);
                end = (if end < 0 then to_signed 8 (of_signed 8 (int len + end)) else end) in do {
        _ \<leftarrow> assertC (end < start \<or> end - start + 1 \<le> INT64_MAX);
        sdssubstr s (of_signed 8 start) (if end < start then 0 else nat (end - start + 1)) }))"

fun sds_map_loop :: "(byte \<Rightarrow> byte) \<Rightarrow> buf \<Rightarrow> nat \<Rightarrow> nat \<Rightarrow> buf option" where
  "sds_map_loop f b j 0 = Some b"
| "sds_map_loop f b j (Suc n) = do { c \<leftarrow> rd b j; b \<leftarrow> wr b j (f c); sds_map_loop f b (j + 1) n }"

definition sdstolower :: "sds \<Rightarrow> sds option" where
  "sdstolower s = map_option (\<lambda>m. s\<lparr>sds_buf := m\<rparr>) (sds_map_loop tolower (sds_buf s) 0 (sdslen s))"

definition toupper :: "byte \<Rightarrow> byte" where
  "toupper c = (if 97 \<le> c \<and> c \<le> 122 then c - 32 else c)"

definition sdstoupper :: "sds \<Rightarrow> sds option" where
  "sdstoupper s = map_option (\<lambda>m. s\<lparr>sds_buf := m\<rparr>) (sds_map_loop toupper (sds_buf s) 0 (sdslen s))"

definition sdsmapchars :: "sds \<Rightarrow> buf \<Rightarrow> buf \<Rightarrow> nat \<Rightarrow> sds option" where
  "sdsmapchars s from to setlen = do {
     f \<leftarrow> rd_range from 0 setlen;
     t \<leftarrow> rd_range to 0 setlen;
     map_option (\<lambda>m. s\<lparr>sds_buf := m\<rparr>) (sds_map_loop (\<lambda>c. memmapchar c f t) (sds_buf s) 0 (sdslen s)) }"

subsection \<open>Comparison, splitting and joining\<close>

text \<open>The sign of \<open>memcmp\<close>.\<close>

fun memcmp :: "buf \<Rightarrow> buf \<Rightarrow> int" where
  "memcmp (a # s) (b # t) = (if a = b then memcmp s t else if a < b then - 1 else 1)"
| "memcmp _ _ = 0"

definition sdscmp :: "sds \<Rightarrow> sds \<Rightarrow> int option" where
  "sdscmp s1 s2 =
     (let l1 = sdslen s1; l2 = sdslen s2; minlen = (if l1 < l2 then l1 else l2) in do {
        a \<leftarrow> rd_range (sds_buf s1) 0 minlen;
        b \<leftarrow> rd_range (sds_buf s2) 0 minlen;
        let cmp = memcmp a b;
        Some (if cmp = 0 then if l2 < l1 then 1 else if l1 < l2 then - 1 else 0 else cmp) })"

text \<open>
  The tokens found so far are the list; a write of one is in bounds when there is a free slot. The
  number of slots is an \<open>int\<close>.
\<close>

function sdssplitlen_loop ::
  "(nat \<Rightarrow> buf option) \<Rightarrow> buf \<Rightarrow> nat \<Rightarrow> buf \<Rightarrow> nat \<Rightarrow> nat \<Rightarrow> nat \<Rightarrow> nat \<Rightarrow> sds list \<Rightarrow> (nat \<times> nat \<times> sds list) option" where
  "sdssplitlen_loop malloc s len sep seplen slots start j tokens =
     (if 0 < seplen \<and> int j < int len - (int seplen - 1) then do {
        slots \<leftarrow> (if slots < length tokens + 2
                  then do { _ \<leftarrow> assertC (slots * 2 \<le> 2147483647); _ \<leftarrow> malloc (8 * (slots * 2)); Some (slots * 2) }
                  else Some slots);
        c \<leftarrow> rd_range s j seplen;
        d \<leftarrow> rd_range sep 0 seplen;
        if seplen = 1 \<and> hd c = hd d \<or> memcmp c d = 0 then do {
          token \<leftarrow> sdsnewlen malloc (Init_from (drop start s)) (j - start);
          _ \<leftarrow> assertC (length tokens < slots);
          sdssplitlen_loop malloc s len sep seplen slots (j + seplen) (j + seplen) (tokens @ [token]) }
        else sdssplitlen_loop malloc s len sep seplen slots start (j + 1) tokens }
      else Some (slots, start, tokens))"
  by pat_completeness auto
termination
  by (relation "measure (\<lambda>(_, _, len, _, _, _, _, j, _). len - j)") auto

declare sdssplitlen_loop.simps [simp del]

definition sdssplitlen :: "(nat \<Rightarrow> buf option) \<Rightarrow> buf \<Rightarrow> int \<Rightarrow> buf \<Rightarrow> int \<Rightarrow> sds list nullable option" where
  "sdssplitlen malloc s len sep seplen =
     (if seplen < 1 \<or> len \<le> 0 then Some NULL
      else do {
        _ \<leftarrow> malloc (8 * 5);
        (slots, start, tokens) \<leftarrow> sdssplitlen_loop malloc s (nat len) sep (nat seplen) 5 0 0 [];
        token \<leftarrow> sdsnewlen malloc (Init_from (drop start s)) (nat len - start);
        _ \<leftarrow> assertC (length tokens < slots);
        Some (Ptr (tokens @ [token])) })"

text \<open>\<open>isprint\<close> of the C locale, and the conversion \<open>%02x\<close>.\<close>

definition isprint :: "byte \<Rightarrow> bool" where
  "isprint c \<longleftrightarrow> 32 \<le> c \<and> c \<le> 126"

definition hex_char :: "nat \<Rightarrow> byte" where
  "hex_char d = of_nat (if d < 10 then 48 + d else 87 + d)"

fun sdscatrepr_loop :: "(nat \<Rightarrow> buf option) \<Rightarrow> sds \<Rightarrow> buf \<Rightarrow> sds option" where
  "sdscatrepr_loop malloc s [] = Some s"
| "sdscatrepr_loop malloc s (c # p) = do {
     s \<leftarrow>
       (if c = 92 \<or> c = 34 then sdscatprintf malloc s [92, 92, 37, 99, 0] [92, c]
        else if c = 10 then sdscatlen malloc s [92, 110, 0] 2
        else if c = 13 then sdscatlen malloc s [92, 114, 0] 2
        else if c = 9 then sdscatlen malloc s [92, 116, 0] 2
        else if c = 7 then sdscatlen malloc s [92, 97, 0] 2
        else if c = 8 then sdscatlen malloc s [92, 98, 0] 2
        else if isprint c then sdscatlen malloc s (c # p) 1
        else sdscatprintf malloc s [92, 92, 120, 37, 48, 50, 120, 0] [92, 120, hex_char (unat c div 16), hex_char (unat c mod 16)]);
     sdscatrepr_loop malloc s p }"

definition sdscatrepr :: "(nat \<Rightarrow> buf option) \<Rightarrow> sds \<Rightarrow> buf \<Rightarrow> nat \<Rightarrow> sds option" where
  "sdscatrepr malloc s p len = do {
     s \<leftarrow> sdsMakeRoomFor malloc s (len + 2);
     s \<leftarrow> sdscatlen malloc s [34, 0] 1;
     b \<leftarrow> rd_range p 0 len;
     s \<leftarrow> sdscatrepr_loop malloc s b;
     sdscatlen malloc s [34, 0] 1 }"

fun sdsneedsrepr_loop :: "buf \<Rightarrow> bool" where
  "sdsneedsrepr_loop [] = False"
| "sdsneedsrepr_loop (c # p) =
     (if c = 92 \<or> c = 34 \<or> c = 10 \<or> c = 13 \<or> c = 9 \<or> c = 7 \<or> c = 8 \<or> \<not> isprint c \<or> isspace c then True
      else sdsneedsrepr_loop p)"

definition sdsneedsrepr :: "sds \<Rightarrow> bool option" where
  "sdsneedsrepr s = map_option sdsneedsrepr_loop (rd_range (sds_buf s) 0 (sdslen s))"

definition is_hex_digit :: "byte \<Rightarrow> bool" where
  "is_hex_digit c \<longleftrightarrow> 48 \<le> c \<and> c \<le> 57 \<or> 97 \<le> c \<and> c \<le> 102 \<or> 65 \<le> c \<and> c \<le> 70"

definition hex_digit_to_int :: "byte \<Rightarrow> nat" where
  "hex_digit_to_int c =
     (if 48 \<le> c \<and> c \<le> 57 then unat c - 48
      else if 97 \<le> c \<and> c \<le> 102 then unat c - 87
      else if 65 \<le> c \<and> c \<le> 70 then unat c - 55 else 0)"

text \<open>Whether \<open>p\<close>, which starts with a backslash, is a hexadecimal escape; later bytes are read only as needed.\<close>

definition hex_escape :: "buf \<Rightarrow> bool option" where
  "hex_escape p = do {
     c1 \<leftarrow> rd p 1;
     if c1 \<noteq> 120 then Some False
     else do {
       c2 \<leftarrow> rd p 2;
       if \<not> is_hex_digit c2 then Some False
       else do { c3 \<leftarrow> rd p 3; Some (is_hex_digit c3) } } }"

definition escape_char :: "byte \<Rightarrow> byte" where
  "escape_char c = (if c = 110 then 10 else if c = 114 then 13 else if c = 116 then 9 else if c = 98 then 8 else if c = 97 then 7 else c)"

text \<open>The loop that gets a token: the rest of the line and the token, or \<open>NULL\<close> for the jump to \<open>err\<close>.\<close>

function sdssplitargs_token ::
  "(nat \<Rightarrow> buf option) \<Rightarrow> bool \<Rightarrow> bool \<Rightarrow> buf \<Rightarrow> sds \<Rightarrow> (buf \<times> sds) nullable option" where
  "sdssplitargs_token malloc inq insq p current =
     (case p of
        [] \<Rightarrow> None
      | c # p1 \<Rightarrow>
          if inq then
            (if c = 92 then do {
               h \<leftarrow> hex_escape p;
               if h then do {
                 c2 \<leftarrow> rd p 2;
                 c3 \<leftarrow> rd p 3;
                 current \<leftarrow> sdscatlen malloc current [of_nat (hex_digit_to_int c2 * 16 + hex_digit_to_int c3)] 1;
                 sdssplitargs_token malloc True insq (drop 3 p1) current }
               else do {
                 c1 \<leftarrow> rd p 1;
                 if c1 \<noteq> 0 then do {
                   current \<leftarrow> sdscatlen malloc current [escape_char c1] 1;
                   sdssplitargs_token malloc True insq (drop 1 p1) current }
                 else do {
                   current \<leftarrow> sdscatlen malloc current p 1;
                   sdssplitargs_token malloc True insq p1 current } } }
             else if c = 34 then do {
               n \<leftarrow> rd p 1;
               Some (if n \<noteq> 0 \<and> \<not> isspace n then NULL else Ptr (p1, current)) }
             else if c = 0 then Some NULL
             else do { current \<leftarrow> sdscatlen malloc current p 1; sdssplitargs_token malloc True insq p1 current })
          else if insq then
            (if c = 92 then do {
               c1 \<leftarrow> rd p 1;
               if c1 = 39 then do { current \<leftarrow> sdscatlen malloc current [39, 0] 1; sdssplitargs_token malloc inq True (drop 1 p1) current }
               else do { current \<leftarrow> sdscatlen malloc current p 1; sdssplitargs_token malloc inq True p1 current } }
             else if c = 39 then do {
               n \<leftarrow> rd p 1;
               Some (if n \<noteq> 0 \<and> \<not> isspace n then NULL else Ptr (p1, current)) }
             else if c = 0 then Some NULL
             else do { current \<leftarrow> sdscatlen malloc current p 1; sdssplitargs_token malloc inq True p1 current })
          else
            (if c = 32 \<or> c = 10 \<or> c = 13 \<or> c = 9 then Some (Ptr (p1, current))
             else if c = 0 then Some (Ptr (p, current))
             else if c = 34 then sdssplitargs_token malloc True insq p1 current
             else if c = 39 then sdssplitargs_token malloc inq True p1 current
             else do { current \<leftarrow> sdscatlen malloc current p 1; sdssplitargs_token malloc inq insq p1 current }))"
  by pat_completeness auto
termination
  by (relation "measure (\<lambda>(_, _, _, p, _). length p)") auto

declare sdssplitargs_token.simps [simp del]

lemma sdssplitargs_token_shortens:
  "sdssplitargs_token malloc inq insq p current = Some (Ptr (q, t)) \<Longrightarrow>
   length q \<le> length p \<and> (inq \<or> insq \<or> hd p \<noteq> 0 \<longrightarrow> length q < length p)"
proof (induction p arbitrary: inq insq current rule: length_induct)
  case (1 p)
  show ?case
  proof (cases p)
    case Nil
    then show ?thesis using "1.prems" by (simp add: sdssplitargs_token.simps)
  next
    case (Cons c p1)
    have step: "length q \<le> length p1" if "sdssplitargs_token malloc i j p' cur = Some (Ptr (q, t))" "length p' \<le> length p1" for i j p' cur
    proof -
      have "length q \<le> length p'" using "1.IH" [rule_format, of p' i j cur] that Cons by simp
      then show ?thesis using that(2) by simp
    qed
    from "1.prems" [unfolded sdssplitargs_token.simps [of malloc inq insq p]]
    have "c = 0 \<and> q = p \<and> \<not> inq \<and> \<not> insq \<or> length q \<le> length p1"
      unfolding Cons list.case
      by (auto simp: bind_eq_Some_conv split: if_splits dest!: step)
    then show ?thesis using Cons by auto
  qed
qed

function sdssplitargs_loop :: "(nat \<Rightarrow> buf option) \<Rightarrow> buf \<Rightarrow> sds list \<Rightarrow> sds list nullable option" where
  "sdssplitargs_loop malloc line vector =
     (let p = dropWhile isspace line in do {
        c \<leftarrow> rd p 0;
        if c \<noteq> 0 then do {
          current \<leftarrow> sdsempty malloc;
          r \<leftarrow> sdssplitargs_token malloc False False p current;
          case r of
            NULL \<Rightarrow> Some NULL
          | Ptr (p, current) \<Rightarrow> do {
              _ \<leftarrow> malloc ((length vector + 1) * 8);
              sdssplitargs_loop malloc p (vector @ [current]) } }
        else if vector = [] then do { _ \<leftarrow> malloc 8; Some (Ptr []) }
        else Some (Ptr vector) })"
  by pat_completeness auto
termination
proof (relation "measure (\<lambda>(_, line, _). length line)", goal_cases)
  case (2 malloc line vector p c current r x q t)
  have "hd p \<noteq> 0" using 2(2,3) by (cases p) auto
  then have "length q < length p"
    using sdssplitargs_token_shortens [of malloc False False p current q t] 2 by auto
  also have "\<dots> \<le> length line" using 2(1) by (simp add: length_dropWhile_le)
  finally show ?case by simp
qed simp

declare sdssplitargs_loop.simps [simp del]

definition sdssplitargs :: "(nat \<Rightarrow> buf option) \<Rightarrow> buf \<Rightarrow> sds list nullable option" where
  "sdssplitargs malloc line = sdssplitargs_loop malloc line []"

text \<open>Joining: the separator follows every string but the last.\<close>

fun sdsjoin_loop :: "(nat \<Rightarrow> buf option) \<Rightarrow> buf list \<Rightarrow> buf \<Rightarrow> sds \<Rightarrow> sds option" where
  "sdsjoin_loop malloc [] sep join = Some join"
| "sdsjoin_loop malloc (arg # argv) sep join = do {
     join \<leftarrow> sdscat malloc join arg;
     join \<leftarrow> (if argv \<noteq> [] then sdscat malloc join sep else Some join);
     sdsjoin_loop malloc argv sep join }"

definition sdsjoin :: "(nat \<Rightarrow> buf option) \<Rightarrow> buf list \<Rightarrow> buf \<Rightarrow> sds option" where
  "sdsjoin malloc argv sep = do { join \<leftarrow> sdsempty malloc; sdsjoin_loop malloc argv sep join }"

fun sdsjoinsds_loop :: "(nat \<Rightarrow> buf option) \<Rightarrow> sds list \<Rightarrow> buf \<Rightarrow> nat \<Rightarrow> sds \<Rightarrow> sds option" where
  "sdsjoinsds_loop malloc [] sep seplen join = Some join"
| "sdsjoinsds_loop malloc (arg # argv) sep seplen join = do {
     join \<leftarrow> sdscatsds malloc join arg;
     join \<leftarrow> (if argv \<noteq> [] then sdscatlen malloc join sep seplen else Some join);
     sdsjoinsds_loop malloc argv sep seplen join }"

definition sdsjoinsds :: "(nat \<Rightarrow> buf option) \<Rightarrow> sds list \<Rightarrow> buf \<Rightarrow> nat \<Rightarrow> sds option" where
  "sdsjoinsds malloc argv sep seplen = do { join \<leftarrow> sdsempty malloc; sdsjoinsds_loop malloc argv sep seplen join }"

text \<open>The position of a character other than the terminator in a C string.\<close>

definition strchr_pos :: "buf \<Rightarrow> byte \<Rightarrow> nat nullable option" where
  "strchr_pos p c =
     (let k = length (takeWhile (\<lambda>x. x \<noteq> c \<and> x \<noteq> 0) p) in do {
        x \<leftarrow> rd p k;
        Some (if x = c then Ptr k else NULL) })"

text \<open>\<open>cb_func\<close> gives the value of a variable, or \<open>NULL\<close>.\<close>

function sdstemplate_loop :: "(nat \<Rightarrow> buf option) \<Rightarrow> (sds \<Rightarrow> sds nullable) \<Rightarrow> buf \<Rightarrow> sds \<Rightarrow> sds nullable option" where
  "sdstemplate_loop malloc cb_func p res = do {
     c \<leftarrow> rd p 0;
     if c = 0 then Some (Ptr res)
     else do {
       k \<leftarrow> strchr_pos p 123;
       case k of
         NULL \<Rightarrow> map_option Ptr (sdscat malloc res p)
       | Ptr k \<Rightarrow> do {
           res \<leftarrow> (if 0 < k then sdscatlen malloc res p k else Some res);
           let sv = drop (k + 1) p;
           c \<leftarrow> rd sv 0;
           if c = 0 then Some NULL
           else if c = 123 then do {
             res \<leftarrow> sdscat malloc res [123, 0];
             sdstemplate_loop malloc cb_func (drop 1 sv) res }
           else do {
             e \<leftarrow> strchr_pos sv 125;
             case e of
               NULL \<Rightarrow> Some NULL
             | Ptr e \<Rightarrow> do {
                 varname \<leftarrow> sdsnewlen malloc (Init_from sv) e;
                 case cb_func varname of
                   NULL \<Rightarrow> Some NULL
                 | Ptr val \<Rightarrow> do {
                     res \<leftarrow> sdscat malloc res (sds_buf val);
                     sdstemplate_loop malloc cb_func (drop (e + 1) sv) res } } } } } }"
  by pat_completeness auto
termination
  by (relation "measure (\<lambda>(_, _, p, _). length p)") (auto simp: rd_Some_iff)

declare sdstemplate_loop.simps [simp del]

definition sdstemplate :: "(nat \<Rightarrow> buf option) \<Rightarrow> buf \<Rightarrow> (sds \<Rightarrow> sds nullable) \<Rightarrow> sds nullable option" where
  "sdstemplate malloc template cb_func = do { res \<leftarrow> sdsempty malloc; sdstemplate_loop malloc cb_func template res }"

section \<open>What the strings hold\<close>

text \<open>
  A string that holds \<open>xs\<close>, with the byte \<open>c\<close> behind: the fields fit their widths and the memory has
  room for the recorded allocation and the byte behind it.
\<close>

definition sds_at :: "sds \<Rightarrow> buf \<Rightarrow> byte \<Rightarrow> bool" where
  "sds_at s xs c \<longleftrightarrow> (\<exists>rest. sds_buf s = xs @ c # rest) \<and> sds_hlen s = length xs \<and> sds_type s \<le> 4 \<and>
     length xs < sds_range (sds_type s) \<and>
     (sds_type s \<noteq> 0 \<longrightarrow> length xs \<le> sds_halloc s \<and> sds_halloc s < sds_range (sds_type s) \<and> sds_halloc s < length (sds_buf s)) \<and>
     length (sds_buf s) < 18446744073709551616"

abbreviation sds_rep :: "sds \<Rightarrow> buf \<Rightarrow> bool" where
  "sds_rep s xs \<equiv> sds_at s xs 0"

text \<open>An allocator that satisfies every request up to a limit.\<close>

definition sds_mem :: "(nat \<Rightarrow> buf option) \<Rightarrow> nat \<Rightarrow> bool" where
  "sds_mem malloc M \<longleftrightarrow> M < 18446744073709551616 \<and>
     (\<forall>n \<le> M. \<exists>b. malloc n = Some b \<and> n \<le> length b \<and> length b < 18446744073709551616)"

lemma sds_memE:
  assumes "sds_mem malloc M" "n \<le> M"
  obtains b where "malloc n = Some b" "n \<le> length b" "length b < 18446744073709551616"
  using assms unfolding sds_mem_def by blast

lemma sds_mem_bound: "sds_mem malloc M \<Longrightarrow> M < 18446744073709551616"
  by (simp add: sds_mem_def)

lemma sds_at_len [simp]: "sds_at s xs c \<Longrightarrow> sdslen s = length xs"
  by (simp add: sds_at_def sdslen_def)

lemma sds_at_bufE:
  assumes "sds_at s xs c"
  obtains rest where "sds_buf s = xs @ c # rest"
  using assms by (auto simp: sds_at_def)

lemma sds_range_max: "sds_range type = Suc (sdsTypeMaxSize type)"
  by (simp add: sds_range_def sdsTypeMaxSize_def)

lemma sdsReqType_fits:
  "n < 18446744073709551616 \<Longrightarrow> n < sds_range (sdsReqType n)" "sdsReqType n \<le> 4"
  by (simp_all add: sdsReqType_def sds_range_def)

lemma sds_range_8: "n < sds_range type \<Longrightarrow> n < sds_range (if type = 0 then 1 else type)"
  by (auto simp: sds_range_def split: if_splits)

lemma sds_range_le: "sds_range type \<le> 18446744073709551616"
  by (simp add: sds_range_def)

lemma sdsavail_at:
  assumes "sds_at s xs c"
  shows "sdsavail s = (if sds_type s = 0 then 0 else sds_halloc s - length xs)"
  using assms sds_range_le [of "sds_type s"] by (auto simp: sds_at_def sdsavail_def)

lemma sdsHdrSize_le: "sdsHdrSize type \<le> 17"
  by (simp add: sdsHdrSize_def)

text \<open>The recorded allocation of a new block: at least what was asked for, at most what is there.\<close>

lemma usable_clip:
  assumes "hdrlen + newlen + 1 \<le> u" "u < 18446744073709551616" "newlen < sds_range type"
  defines "a \<equiv> (if sdsTypeMaxSize type < sub64 (sub64 u hdrlen) 1 then sdsTypeMaxSize type else sub64 (sub64 u hdrlen) 1)"
  shows "newlen \<le> a" "a < sds_range type" "a < u - hdrlen" "a mod sds_range type = a"
proof -
  have e: "sub64 (sub64 u hdrlen) 1 = u - hdrlen - 1" using assms(1,2) by simp
  show "newlen \<le> a" "a < sds_range type" "a < u - hdrlen" using assms(1-3) unfolding a_def e sds_range_max by (auto split: if_splits)
  then show "a mod sds_range type = a" by simp
qed

text \<open>Reallocation keeps a prefix that fits.\<close>

lemma s_realloc_prefix:
  assumes "length ys \<le> length new"
  shows "s_realloc (ys @ rest) new = ys @ take (length new - length ys) rest @ drop (length ys + length rest) new"
  using assms by (simp add: s_realloc_def)

lemma length_s_realloc [simp]: "length (s_realloc old new) = length new"
  by (simp add: s_realloc_def)

lemma sdsMakeRoomFor_at:
  assumes s: "sds_at s xs c" and M: "sds_mem malloc M" "2 * (length xs + addlen) + 1048594 \<le> M"
  shows "\<exists>s'. sdsMakeRoomFor_generic malloc s addlen greedy = Some s' \<and> sds_at s' xs c \<and> addlen \<le> sdsavail s'"
proof (cases "addlen \<le> sdsavail s")
  case True
  then show ?thesis using s by (simp add: sdsMakeRoomFor_generic_def)
next
  case False
  define req where "req = length xs + addlen"
  define new where "new = (if \<not> greedy then req else if req < 1048576 then req * 2 else req + 1048576)"
  define type where "type = (if sdsReqType new = 0 then 1 else sdsReqType new)"
  define h where "h = sdsHdrSize type"
  have M64: "M < 18446744073709551616" using M(1) by (rule sds_mem_bound)
  have req: "length xs < req" using False by (simp add: req_def)
  have new: "req \<le> new" "new \<le> 2 * req + 1048576" by (auto simp: new_def)
  have h: "h \<le> 17" "h + new + 1 \<le> M" using sdsHdrSize_le [of type] new(2) M(2) by (simp_all add: h_def req_def)
  have fit: "new < sds_range type" "type \<le> 4" "type \<noteq> 0"
    using sds_range_8 [OF sdsReqType_fits(1), of new] sdsReqType_fits(2) [of new] h(2) M64 by (auto simp: type_def)
  obtain nb where nb: "malloc (h + new + 1) = Some nb" "h + new + 1 \<le> length nb" "length nb < 18446744073709551616"
    using sds_memE [OF M(1) h(2)] by blast
  obtain rest where rest: "sds_buf s = xs @ c # rest" using s by (rule sds_at_bufE)
  let ?a = "if sdsTypeMaxSize type < sub64 (sub64 (length nb) h) 1 then sdsTypeMaxSize type else sub64 (sub64 (length nb) h) 1"
  note a = usable_clip [OF nb(2,3) fit(1)]
  have e: "req mod 18446744073709551616 = req" "(req + 1048576) mod 18446744073709551616 = req + 1048576"
    "(h + new + 1) mod 18446744073709551616 = h + new + 1"
    using M(2) M64 h(2) by (simp_all add: req_def)
  let ?s = "if sds_type s = type then s\<lparr>sds_buf := s_realloc (sds_buf s) (drop h nb)\<rparr>
    else \<lparr>sds_type = type, sds_hlen = length xs, sds_halloc = 0, sds_buf = xs @ c # drop (h + length xs + 1) nb\<rparr>"
  have "sdsMakeRoomFor_generic malloc s addlen greedy = Some (sdssetalloc ?s ?a)"
  proof -
    have "rd_range (sds_buf s) 0 (length xs + 1) = Some (xs @ [c])" by (simp add: rd_range_def rest)
    moreover have "wr_range (drop h nb) 0 (xs @ [c]) = Some (xs @ c # drop (h + length xs + 1) nb)"
      using nb(2) new(1) req by (simp add: wr_range_def add_ac)
    moreover have "length xs mod sds_range type = length xs" using fit(1) new(1) req by simp
    ultimately show ?thesis
      unfolding sdsMakeRoomFor_generic_def Let_def sds_at_len [OF s] req_def [symmetric] e new_def [symmetric]
        type_def [symmetric] h_def [symmetric] if_not_P [OF False]
      using nb(1) req new(1) fit by (simp add: sdssetlen_def)
  qed
  moreover have at: "sds_at (sdssetalloc ?s ?a) xs c"
  proof (cases "sds_type s = type")
    case True
    have "\<exists>rest'. s_realloc (sds_buf s) (drop h nb) = xs @ c # rest'"
      using s_realloc_prefix [of "xs @ [c]" "drop h nb" rest] nb(2) new(1) req by (simp add: rest)
    then show ?thesis using True a s fit nb new(1) req unfolding sds_at_def sdssetalloc_def by (simp del: sub64_le)
  next
    case False
    have "length (xs @ c # drop (h + length xs + 1) nb) = length nb - h" using nb(2) new(1) req by simp
    then show ?thesis using False a s fit nb new(1) req unfolding sds_at_def sdssetalloc_def by (simp del: sub64_le)
  qed
  moreover have "addlen \<le> sdsavail (sdssetalloc ?s ?a)"
    unfolding sdsavail_at [OF at] using a fit new(1) by (simp add: sdssetalloc_def req_def del: sub64_le)
  ultimately show ?thesis by blast
qed

text \<open>The room of a string, and writes into it.\<close>

lemma sdsalloc_at:
  assumes "sds_at s xs c"
  shows "length xs \<le> sdsalloc s" "sdsalloc s < length (sds_buf s)" "sdsavail s = sdsalloc s - length xs"
  using assms sdsavail_at [OF assms] by (auto simp: sds_at_def sdsalloc_def)

lemma sdssetlen_buf [simp]:
  "sds_buf (sdssetlen s n) = sds_buf s"
  "(sdssetlen s n)\<lparr>sds_buf := m\<rparr> = sdssetlen (s\<lparr>sds_buf := m\<rparr>) n"
  by (simp_all add: sdssetlen_def)

lemma sds_at_relen:
  assumes "sds_at s xs c" "m = ys @ d # rest" "length m = length (sds_buf s)" "length ys \<le> sdsalloc s"
  shows "sds_at (sdssetlen (s\<lparr>sds_buf := m\<rparr>) (length ys)) ys d"
  using assms by (auto simp: sds_at_def sdssetlen_def sdsalloc_def split: if_splits)

lemma sds_put_at:
  assumes "i + length b \<le> length (sds_buf s)"
  shows "sds_put s i b = Some (s\<lparr>sds_buf := take i (sds_buf s) @ b @ drop (i + length b) (sds_buf s)\<rparr>)"
  using assms by (simp add: sds_put_def wr_range_def)

text \<open>Bytes and a terminator written at the end.\<close>

lemma sds_append_at:
  assumes s: "sds_at s xs c" and b: "length b \<le> sdsavail s"
  shows "\<exists>s'. Option.bind (sds_put s (length xs) b)
      (\<lambda>s. sds_put (sdssetlen s (length xs + length b)) (length xs + length b) [0]) = Some s' \<and> sds_rep s' (xs @ b)"
proof -
  obtain rest where rest: "sds_buf s = xs @ c # rest" using s by (rule sds_at_bufE)
  have room: "length xs + length b < length (sds_buf s)" "length (xs @ b) \<le> sdsalloc s" using sdsalloc_at [OF s] b by auto
  let ?m = "(xs @ b) @ 0 # drop (length xs + length b + 1) (sds_buf s)"
  have "sds_at (sdssetlen (s\<lparr>sds_buf := ?m\<rparr>) (length (xs @ b))) (xs @ b) 0"
    by (rule sds_at_relen [OF s refl]) (use room in auto)
  then show ?thesis using room rest by (simp add: sds_put_at)
qed

lemma sdscatlen_rep:
  assumes s: "sds_rep s xs" and M: "sds_mem malloc M" "2 * (length xs + len) + 1048594 \<le> M" and t: "len \<le> length t"
  shows "\<exists>s'. sdscatlen malloc s t len = Some s' \<and> sds_rep s' (xs @ take len t)"
proof -
  obtain s1 where s1: "sdsMakeRoomFor_generic malloc s len True = Some s1" "sds_rep s1 xs" "len \<le> sdsavail s1"
    using sdsMakeRoomFor_at [OF s M] by blast
  show ?thesis using sds_append_at [OF s1(2), of "take len t"] s1 s t
    by (simp add: sdscatlen_def sdsMakeRoomFor_def rd_range_def Let_def)
qed

lemma sdsnewlen_rep:
  assumes M: "sds_mem malloc M" "n + 18 \<le> M"
    and init: "case init of Init_from b \<Rightarrow> n \<le> length b \<and> xs = take n b | Init_zero \<Rightarrow> xs = replicate n 0 | SDS_NOINIT \<Rightarrow> False"
  shows "\<exists>s. sdsnewlen malloc init n = Some s \<and> sds_rep s xs"
proof -
  define type where "type = (if sdsReqType n = 0 \<and> n = 0 then 1 else sdsReqType n)"
  define h where "h = sdsHdrSize type"
  define k where "k = h + n + 1"
  have M64: "M < 18446744073709551616" using M(1) by (rule sds_mem_bound)
  have h: "k \<le> M" "n < (n + h + 1) mod 18446744073709551616" using sdsHdrSize_le [of type] M(2) M64 by (simp_all add: h_def k_def)
  have fit: "n < sds_range type" "type \<le> 4"
    using sdsReqType_fits [of n] M(2) M64 by (auto simp: type_def sds_range_def)
  obtain nb where nb: "malloc k = Some nb" "h + n + 1 \<le> length nb" "length nb < 18446744073709551616"
    using sds_memE [OF M(1) h(1)] unfolding k_def by blast
  have k: "k \<le> length nb" "h + n < length nb" "h + n < k" using nb(2) by (simp_all add: k_def)
  define a where "a = (if sdsTypeMaxSize type < sub64 (sub64 (length nb) h) 1 then sdsTypeMaxSize type else sub64 (sub64 (length nb) h) 1)"
  have a: "n \<le> a" "a < sds_range type" "a < length nb - h" "a mod sds_range type = a"
    using usable_clip [OF nb(2,3) fit(1)] by (simp_all add: a_def)
  let ?s = "\<lparr>sds_type = type, sds_hlen = n, sds_halloc = if type = 0 then 0 else a, sds_buf = xs @ 0 # drop k nb\<rparr>"
  have xs: "length xs = n" using init by (auto split: sds_init.splits)
  have n: "n mod sds_range type = n" using fit(1) by simp
  have put: "sds_put r n [0] = Some (r\<lparr>sds_buf := xs @ 0 # drop k nb\<rparr>)" if "sds_buf r = xs @ y # drop k nb" for r y
    using that xs by (simp add: sds_put_at)
  have "sdsnewlen malloc init n = Some ?s"
  proof (cases init)
    case Init_zero
    define nz where "nz = replicate k 0 @ drop k nb"
    have w: "wr_range nb 0 (replicate k 0) = Some nz" "length nz = length nb"
      using k(1) by (simp_all add: wr_range_def nz_def)
    have "replicate (Suc n) 0 = xs @ [0]" using init Init_zero by (simp add: replicate_append_same)
    then have d: "drop h nz = xs @ 0 # drop k nb" by (simp add: k_def nz_def del: replicate_Suc)
    show ?thesis unfolding sdsnewlen_def sdsnewlen_generic_def Let_def type_def [symmetric] h_def [symmetric] k_def [symmetric]
      using nb(1) a(4) h(2) put by (simp add: Init_zero w d n a_def [unfolded One_nat_def, symmetric] cong: if_cong)
  next
    case (Init_from b)
    have "drop (h + n) nb = nb ! (h + n) # drop k nb" using k(2) by (simp add: k_def Cons_nth_drop_Suc)
    moreover have "xs = take n b" "n \<le> length b" using init Init_from by auto
    ultimately have c: "(if n \<noteq> 0 then Option.bind (rd_range b 0 n) (sds_put r 0) else Some r) = Some (r\<lparr>sds_buf := xs @ nb ! (h + n) # drop k nb\<rparr>)"
      if "sds_buf r = drop h nb" for r
      using that k(2) by (auto simp: rd_range_def sds_put_at add.commute)
    show ?thesis unfolding sdsnewlen_def sdsnewlen_generic_def Let_def type_def [symmetric] h_def [symmetric] k_def [symmetric]
      using nb(1) a(4) h(2) put c by (simp add: Init_from n a_def [unfolded One_nat_def, symmetric] cong: if_cong)
  qed (use init in simp)
  moreover have "sds_rep ?s xs" using a fit nb(2,3) xs by (auto simp: sds_at_def k_def)
  ultimately show ?thesis by blast
qed

lemma sdsempty_rep:
  assumes "sds_mem malloc M" "18 \<le> M"
  shows "\<exists>s. sdsempty malloc = Some s \<and> sds_rep s []"
  unfolding sdsempty_def by (rule sdsnewlen_rep) (use assms in auto)

lemma sdsdup_rep:
  assumes "sds_mem malloc M" "length xs + 18 \<le> M" "sds_rep s xs"
  shows "\<exists>t. sdsdup malloc s = Some t \<and> sds_rep t xs"
proof -
  obtain rest where "sds_buf s = xs @ 0 # rest" using assms(3) by (rule sds_at_bufE)
  then show ?thesis unfolding sdsdup_def using assms by (intro sdsnewlen_rep [of malloc M]) auto
qed

lemma strlen_C: "0 \<notin> set xs \<Longrightarrow> strlen (xs @ 0 # rest) = Some (length xs)"
proof -
  assume "0 \<notin> set xs"
  then have "takeWhile (\<lambda>c. c \<noteq> 0) xs = xs" by (auto simp: takeWhile_eq_all_conv)
  then show ?thesis by (simp add: strlen_def takeWhile_tail)
qed

lemma sdsgrowzero_rep:
  assumes s: "sds_rep s xs" and M: "sds_mem malloc M" "2 * max (length xs) len + 1048594 \<le> M"
  shows "\<exists>s'. sdsgrowzero malloc s len = Some s' \<and> sds_rep s' (xs @ replicate (len - length xs) 0)"
proof (cases "len \<le> length xs")
  case True
  then show ?thesis using s by (simp add: sdsgrowzero_def)
next
  case False
  obtain s1 where s1: "sdsMakeRoomFor_generic malloc s (len - length xs) True = Some s1" "sds_rep s1 xs" "len - length xs \<le> sdsavail s1"
    using sdsMakeRoomFor_at [OF s M(1), of "len - length xs" True] M(2) False by auto
  obtain rest where rest: "sds_buf s1 = xs @ 0 # rest" using s1(2) by (rule sds_at_bufE)
  have room: "len < length (sds_buf s1)" "len \<le> sdsalloc s1" using sdsalloc_at [OF s1(2)] s1(3) False by auto
  let ?m = "(xs @ replicate (len - length xs) 0) @ 0 # drop (len + 1) (sds_buf s1)"
  have "sds_at (sdssetlen (s1\<lparr>sds_buf := ?m\<rparr>) (length (xs @ replicate (len - length xs) 0))) (xs @ replicate (len - length xs) 0) 0"
    by (rule sds_at_relen [OF s1(2) refl]) (use room False in auto)
  moreover have "replicate (len - length xs + 1) 0 = replicate (len - length xs) 0 @ [0 :: byte]" by (simp add: replicate_append_same)
  ultimately show ?thesis using False s s1 room rest
    by (simp add: sdsgrowzero_def sdsMakeRoomFor_def Let_def sds_put_at del: replicate_Suc)
qed

lemma sdscpylen_rep:
  assumes s: "sds_rep s xs" and M: "sds_mem malloc M" "2 * max (length xs) len + 1048594 \<le> M" and t: "len \<le> length t"
  shows "\<exists>s'. sdscpylen malloc s t len = Some s' \<and> sds_rep s' (take len t)"
proof -
  have "\<exists>s1. (if sdsalloc s < len then sdsMakeRoomFor malloc s (len - sdslen s) else Some s) = Some s1 \<and> sds_rep s1 xs \<and> len \<le> sdsalloc s1"
  proof (cases "sdsalloc s < len")
    case True
    then have "length xs < len" using sdsalloc_at(1) [OF s] by simp
    then obtain s1 where "sdsMakeRoomFor_generic malloc s (len - length xs) True = Some s1" "sds_rep s1 xs" "len - length xs \<le> sdsavail s1"
      using sdsMakeRoomFor_at [OF s M(1), of "len - length xs" True] M(2) by auto
    then show ?thesis using True s sdsalloc_at [of s1 xs 0] by (auto simp: sdsMakeRoomFor_def)
  qed (use s in auto)
  then obtain s1 where s1: "(if sdsalloc s < len then sdsMakeRoomFor malloc s (len - sdslen s) else Some s) = Some s1"
    "sds_rep s1 xs" "len \<le> sdsalloc s1" by blast
  have room: "len < length (sds_buf s1)" using sdsalloc_at(2) [OF s1(2)] s1(3) by simp
  let ?m = "take len t @ 0 # drop (len + 1) (sds_buf s1)"
  have "sds_at (sdssetlen (s1\<lparr>sds_buf := ?m\<rparr>) (length (take len t))) (take len t) 0"
    by (rule sds_at_relen [OF s1(2) refl]) (use room s1(3) t in auto)
  then show ?thesis using room t unfolding sdscpylen_def s1(1) by (simp add: rd_range_def sds_put_at)
qed

text \<open>A string cut to a prefix or moved part of it.\<close>

lemma sds_cut:
  assumes s: "sds_rep s xs" and m: "take (length ys) m = ys" "length m = length (sds_buf s)" "length ys \<le> length xs"
  shows "\<exists>s'. sds_put (s\<lparr>sds_buf := m\<rparr>) (length ys) [0] = Some s' \<and> sds_rep (sdssetlen s' (length ys)) ys"
proof -
  have room: "length ys < length m" "length ys \<le> sdsalloc s" using sdsalloc_at [OF s] m by auto
  have "sds_at (sdssetlen (s\<lparr>sds_buf := ys @ 0 # drop (length ys + 1) m\<rparr>) (length ys)) ys 0"
    by (rule sds_at_relen [OF s refl]) (use room m in auto)
  then show ?thesis using room m by (simp add: sds_put_at)
qed

lemma sdsclear_rep:
  assumes "sds_rep s xs"
  shows "\<exists>s'. sdsclear s = Some s' \<and> sds_rep s' []"
proof -
  have "0 < length (sds_buf s)" using sdsalloc_at(2) [OF assms] by linarith
  then obtain c m where "sds_buf s = c # m" by (cases "sds_buf s") auto
  then show ?thesis using sds_cut [OF assms, of "[]" "sds_buf s"] by (simp add: sdsclear_def sds_put_at)
qed

lemma take_min_length: "take (min (length xs) n) xs = take n xs"
  by (cases "length xs \<le> n") (auto simp: min_absorb1 min_absorb2)

lemma sdssubstr_rep:
  assumes s: "sds_rep s xs"
  shows "\<exists>s'. sdssubstr s start len = Some s' \<and> sds_rep s' (take len (drop start xs))"
proof -
  obtain rest where rest: "sds_buf s = xs @ 0 # rest" using s by (rule sds_at_bufE)
  let ?start = "if length xs \<le> start then 0 else start"
  let ?ys = "take len (drop start xs)"
  let ?m = "if ?ys \<noteq> [] then ?ys @ drop (length ?ys) (sds_buf s) else sds_buf s"
  have take_ys: "take (min (length xs - start) len) (drop start xs) = ?ys" using take_min_length [of "drop start xs"] by simp
  have "\<exists>s'. sds_put (s\<lparr>sds_buf := ?m\<rparr>) (length ?ys) [0] = Some s' \<and> sds_rep (sdssetlen s' (length ?ys)) ?ys"
    by (rule sds_cut [OF s]) (auto simp: rest take_ys)
  moreover have "(if length ?ys \<noteq> 0 then memmove (sds_buf s) 0 ?start (length ?ys) else Some (sds_buf s)) = Some ?m"
    by (auto simp: memmove_Some rest take_ys)
  moreover have "sdssubstr s start len = Option.bind (if length ?ys \<noteq> 0 then memmove (sds_buf s) 0 ?start (length ?ys) else Some (sds_buf s))
      (\<lambda>m. Option.bind (sds_put (s\<lparr>sds_buf := m\<rparr>) (length ?ys) [0]) (\<lambda>s. Some (sdssetlen s (length ?ys))))"
    using s by (auto simp: sdssubstr_def Let_def min_def)
  ultimately show ?thesis by auto
qed

text \<open>The inclusive range of \<open>sdsrange\<close>; a start before the string leaves nothing.\<close>

definition byte_range :: "buf \<Rightarrow> int \<Rightarrow> int \<Rightarrow> buf" where
  "byte_range xs start end =
     (let a = (if start < 0 then int (length xs) + start else start); b = (if end < 0 then int (length xs) + end else end)
      in if a < 0 \<or> b < a then [] else take (nat (b - a + 1)) (drop (nat a) xs))"

definition range_defined :: "buf \<Rightarrow> int \<Rightarrow> int \<Rightarrow> bool" where
  "range_defined xs start end \<longleftrightarrow> is_int64 start \<and> is_int64 end \<and> int (length xs) \<le> INT64_MAX \<and>
     (let a = (if start < 0 then int (length xs) + start else start); b = (if end < 0 then int (length xs) + end else end)
      in b < a \<or> b - a + 1 \<le> INT64_MAX)"

lemma sdsrange_rep:
  assumes s: "sds_rep s xs" and d: "range_defined xs start end"
  shows "\<exists>s'. sdsrange s start end = Some s' \<and> sds_rep s' (byte_range xs start end)"
proof (cases "xs = []")
  case True
  then show ?thesis using s by (simp add: sdsrange_def byte_range_def Let_def)
next
  case False
  define a where "a = (if start < 0 then int (length xs) + start else start)"
  define b where "b = (if end < 0 then int (length xs) + end else end)"
  have len: "int (length xs) \<le> INT64_MAX" using d by (simp add: range_defined_def)
  have ab: "is_int64 a" "is_int64 b" "b < a \<or> b - a + 1 \<le> INT64_MAX"
    using d by (auto simp: range_defined_def a_def b_def is_int64_def Let_def)
  have ts: "to_signed 8 (of_signed 8 v) = v" if "is_int64 v" for v
    using that by (intro to_signed_of_signed) (auto simp: is_int64_def)
  have "(if start < 0 then to_signed 8 (of_signed 8 (int (length xs) + start)) else start) = a"
    "(if end < 0 then to_signed 8 (of_signed 8 (int (length xs) + end)) else end) = b"
    using ts ab by (auto simp: a_def b_def split: if_splits)
  then have e: "sdsrange s start end = sdssubstr s (of_signed 8 a) (if b < a then 0 else nat (b - a + 1))"
    using False s ab(3) by (simp add: sdsrange_def Let_def)
  have "take (if b < a then 0 else nat (b - a + 1)) (drop (of_signed 8 a) xs) = byte_range xs start end"
  proof (cases "a < 0")
    case True
    then have "int (of_signed 8 a) = a + 18446744073709551616"
      using ab(1) mod_pos_pos_trivial [of "a + 18446744073709551616" 18446744073709551616]
      by (simp add: of_signed_def is_int64_def)
    then have "length xs \<le> of_signed 8 a" using ab(1) len by (simp add: is_int64_def)
    then show ?thesis using True by (simp add: byte_range_def a_def [symmetric] b_def [symmetric])
  next
    case False
    then have "of_signed 8 a = nat a" using ab(1) by (simp add: of_signed_def is_int64_def)
    then show ?thesis using False by (simp add: byte_range_def a_def [symmetric] b_def [symmetric])
  qed
  then show ?thesis using sdssubstr_rep [OF s, of "of_signed 8 a" "if b < a then 0 else nat (b - a + 1)"] unfolding e by simp
qed

lemma sds_map_loop_at:
  "sds_map_loop f (pre @ ys @ rest) (length pre) (length ys) = Some (pre @ map f ys @ rest)"
proof (induction ys arbitrary: pre)
  case (Cons y ys)
  then show ?case using Cons.IH [of "pre @ [f y]"] by (simp add: rd_append_at wr_def)
qed simp

lemma sds_map_rep:
  assumes "sds_rep s xs"
  shows "\<exists>m. sds_map_loop f (sds_buf s) 0 (sdslen s) = Some m \<and> sds_rep (s\<lparr>sds_buf := m\<rparr>) (map f xs)"
proof -
  obtain rest where "sds_buf s = xs @ 0 # rest" using assms by (rule sds_at_bufE)
  then show ?thesis unfolding sds_at_len [OF assms] using assms sds_map_loop_at [of f "[]" xs "0 # rest"] by (auto simp: sds_at_def)
qed

lemma sdsupdatelen_rep:
  assumes s: "sds_rep s xs"
  shows "\<exists>s'. sdsupdatelen s = Some s' \<and> sds_rep s' (takeWhile (\<lambda>c. c \<noteq> 0) xs)"
proof -
  let ?ys = "takeWhile (\<lambda>c. c \<noteq> 0) xs"
  obtain rest where rest: "sds_buf s = xs @ 0 # rest" using s by (rule sds_at_bufE)
  have "\<exists>rest'. xs @ 0 # rest = ?ys @ 0 # rest'" 
  proof (cases "dropWhile (\<lambda>c. c \<noteq> 0) xs")
    case Nil
    then have "?ys = xs" by (metis append_Nil2 takeWhile_dropWhile_id)
    then show ?thesis by metis
  next
    case (Cons c ds)
    then have "c = 0" by (metis (mono_tags) dropWhile_eq_Cons_conv)
    then show ?thesis using Cons takeWhile_dropWhile_id [of "\<lambda>c. c \<noteq> 0" xs] by (metis append.assoc append_Cons)
  qed
  then obtain rest' where r: "sds_buf s = ?ys @ 0 # rest'" using rest by auto
  have "length ?ys \<le> length xs" by (rule length_takeWhile_le)
  then have "sds_at (sdssetlen (s\<lparr>sds_buf := sds_buf s\<rparr>) (length ?ys)) ?ys 0"
    using sdsalloc_at(1) [OF s] by (intro sds_at_relen [OF s r refl]) simp
  moreover have "strlen (sds_buf s) = Some (length ?ys)" unfolding r by (rule strlen_C) (auto dest: set_takeWhileD)
  ultimately show ?thesis by (simp add: sdsupdatelen_def)
qed

text \<open>The zero byte counts as a character of every set.\<close>

definition byte_trim :: "buf \<Rightarrow> buf \<Rightarrow> buf" where
  "byte_trim cset xs = rev (dropWhile (strchr cset) (rev (dropWhile (strchr cset) xs)))"

lemma sdstrim_left_at:
  "sp \<le> length xs \<Longrightarrow> sdstrim_left (xs @ rest) cset (length xs) sp = Some (sp + length (takeWhile (strchr cset) (drop sp xs)))"
proof (induction "length xs - sp" arbitrary: sp)
  case 0
  then show ?case by (simp add: sdstrim_left.simps)
next
  case (Suc n)
  then have sp: "sp < length xs" by simp
  then have "drop sp xs = xs ! sp # drop (Suc sp) xs" by (simp add: Cons_nth_drop_Suc)
  then show ?case using sp Suc(1) [of "Suc sp"] Suc(2)
    by (subst sdstrim_left.simps) (simp add: rd_append_left)
qed

lemma sdstrim_right_at:
  assumes "sp \<le> e" "e < length xs" "\<not> strchr cset (xs ! sp)"
  shows "\<exists>e'. sdstrim_right (xs @ rest) cset sp (int e) = Some (int e') \<and> sp \<le> e' \<and> e' \<le> e \<and>
    drop sp (take (Suc e') xs) = rev (dropWhile (strchr cset) (rev (drop sp (take (Suc e) xs))))"
  using assms
proof (induction "e - sp" arbitrary: e)
  case 0
  then have "e = sp" by simp
  moreover have "drop sp (take (Suc sp) xs) = [xs ! sp]" using 0 by (simp add: take_Suc_conv_app_nth)
  ultimately show ?case using 0 by (auto simp: sdstrim_right.simps intro!: exI [of _ sp])
next
  case (Suc n)
  then have e: "sp < e" "e < length xs" by auto
  have t: "drop sp (take (Suc e) xs) = drop sp (take e xs) @ [xs ! e]" using e by (simp add: take_Suc_conv_app_nth)
  show ?case
  proof (cases "strchr cset (xs ! e)")
    case True
    have "\<exists>e'. sdstrim_right (xs @ rest) cset sp (int (e - 1)) = Some (int e') \<and> sp \<le> e' \<and> e' \<le> e - 1 \<and>
      drop sp (take (Suc e') xs) = rev (dropWhile (strchr cset) (rev (drop sp (take (Suc (e - 1)) xs))))"
      by (rule Suc(1)) (use Suc(2-) e in auto)
    moreover have "int (e - 1) = int e - 1" "Suc (e - 1) = e" using e by auto
    moreover have "sdstrim_right (xs @ rest) cset sp (int e) = sdstrim_right (xs @ rest) cset sp (int e - 1)"
      using e True by (subst sdstrim_right.simps) (simp add: rd_append_left)
    ultimately show ?thesis using True t by (auto intro: le_trans)
  next
    case False
    then show ?thesis using e t by (subst sdstrim_right.simps) (auto simp: rd_append_left intro!: exI [of _ e])
  qed
qed

lemma sdstrim_rep:
  assumes s: "sds_rep s xs"
  shows "\<exists>s'. sdstrim s cset = Some s' \<and> sds_rep s' (byte_trim cset xs)"
proof -
  let ?P = "strchr cset"
  obtain rest where rest: "sds_buf s = xs @ 0 # rest" using s by (rule sds_at_bufE)
  define sp where "sp = length (takeWhile ?P xs)"
  have sp: "sp \<le> length xs" "drop sp xs = dropWhile ?P xs"
    by (simp_all add: sp_def length_takeWhile_le dropWhile_eq_drop)
  have left: "sdstrim_left (sds_buf s) cset (length xs) 0 = Some sp"
    using sdstrim_left_at [of 0 xs "0 # rest" cset] by (simp add: rest sp_def)
  obtain ep where ep: "sdstrim_right (sds_buf s) cset sp (int (length xs) - 1) = Some ep" "int sp - 1 \<le> ep" "ep < int (length xs)"
    "take (nat (ep - int sp + 1)) (drop sp xs) = byte_trim cset xs"
  proof (cases "sp < length xs")
    case True
    have c: "\<not> ?P (xs ! sp)" using True nth_length_takeWhile [of ?P xs] by (simp add: sp_def)
    have "sp \<le> length xs - 1" "length xs - 1 < length xs" using True by auto
    from sdstrim_right_at [OF this c] obtain e where e: "sdstrim_right (xs @ 0 # rest) cset sp (int (length xs - 1)) = Some (int e)" "sp \<le> e" "e \<le> length xs - 1"
      "drop sp (take (Suc e) xs) = rev (dropWhile ?P (rev (drop sp (take (Suc (length xs - 1)) xs))))"
      by blast
    have "nat (int e - int sp + 1) = Suc e - sp" using e(2) by simp
    moreover have "drop sp (take (Suc e) xs) = byte_trim cset xs" using e(4) True sp(2) by (simp add: byte_trim_def)
    moreover have "int (length xs - 1) = int (length xs) - 1" using True by simp
    ultimately show ?thesis using that [of "int e"] e(1-3) True by (simp add: rest drop_take)
  next
    case False
    then have "sp = length xs" "dropWhile ?P xs = []" using sp by auto
    then show ?thesis using that [of "int (length xs) - 1"] by (auto simp: sdstrim_right.simps byte_trim_def dest: set_dropWhileD)
  qed
  let ?len = "nat (ep - int sp + 1)"
  have len: "length (byte_trim cset xs) = ?len" using ep(2,3) sp(1) ep(4) [symmetric] by simp
  define m where "m = (if sp \<noteq> 0 then take ?len (drop sp (sds_buf s)) @ drop ?len (sds_buf s) else sds_buf s)"
  have m: "(if sp \<noteq> 0 then memmove (sds_buf s) 0 sp ?len else Some (sds_buf s)) = Some m"
    using ep(2,3) sp(1) by (simp add: m_def memmove_Some rest)
  have "take ?len (drop sp (sds_buf s)) = byte_trim cset xs" using ep(2-4) by (simp add: rest)
  then have t: "take (length (byte_trim cset xs)) m = byte_trim cset xs" using len by (auto simp: m_def)
  have l: "length m = length (sds_buf s)" "length (byte_trim cset xs) \<le> length xs"
    using ep(2,3) sp(1) len by (auto simp: m_def rest)
  obtain s' where "sds_put (s\<lparr>sds_buf := m\<rparr>) ?len [0] = Some s'" "sds_rep (sdssetlen s' ?len) (byte_trim cset xs)"
    using sds_cut [OF s t l] unfolding len by blast
  then show ?thesis using left ep(1) m s by (simp add: sdstrim_def)
qed

lemma sds_resized:
  assumes "type \<le> 4" "sz < sds_range type" "length ys \<le> sz" "sz < length m" "length m < 18446744073709551616"
    "take (length ys) m = ys" "sds_type s = type" "sds_buf s = m"
  shows "\<exists>s'. sds_put s (length ys) [0] = Some s' \<and> sds_rep (sdssetalloc (sdssetlen s' (length ys)) sz) ys"
  using assms by (auto simp: sds_put_at sds_at_def sdssetalloc_def sdssetlen_def)

lemma sds_range_mono: "type \<le> type' \<Longrightarrow> sds_range type \<le> sds_range type'"
  by (auto simp: sds_range_def)

lemma sdsResize_rep:
  assumes s: "sds_rep s xs" and M: "sds_mem malloc M" "sz + 18 \<le> M" and je: "\<And>n. nallocx n = 0 \<or> n \<le> nallocx n"
  shows "\<exists>s'. sdsResize malloc nallocx s sz would_regrow = Some s' \<and> sds_rep s' (take sz xs)"
proof (cases "sdsalloc s = sz")
  case True
  then show ?thesis using s sdsalloc_at(1) [OF s] by (simp add: sdsResize_def)
next
  case False
  define ys where "ys = take sz xs"
  define type where "type = (if would_regrow \<and> sdsReqType sz = 0 then 1 else sdsReqType sz)"
  define old where "old = sds_type s"
  define re where "re \<longleftrightarrow> old = type \<or> type < old \<and> 1 < type"
  define t where "t = (if re then old else type)"
  define h where "h = sdsHdrSize t"
  have M64: "M < 18446744073709551616" using M(1) by (rule sds_mem_bound)
  have h: "h + sz + 1 \<le> M" "(h + sz + 1) mod 18446744073709551616 = h + sz + 1"
    using sdsHdrSize_le [of t] M(2) M64 by (simp_all add: h_def)
  have "sz < sds_range type" "type \<le> 4"
    using sdsReqType_fits [of sz] sds_range_8 [OF sdsReqType_fits(1), of sz] M(2) M64 by (auto simp: type_def)
  moreover have "old \<le> 4" using s by (simp add: sds_at_def old_def)
  ultimately have fit: "sz < sds_range t" "t \<le> 4"
    using sds_range_mono [of type old] by (auto simp: t_def re_def)
  obtain nb where nb: "malloc (h + sz + 1) = Some nb" "h + sz + 1 \<le> length nb" "length nb < 18446744073709551616"
    using sds_memE [OF M(1) h(1)] by blast
  obtain rest where rest: "sds_buf s = xs @ 0 # rest" using s by (rule sds_at_bufE)
  have ys: "length ys \<le> sz" "length ys \<le> length xs" "take (length ys) xs = ys" "(if sz < length xs then sz else length xs) = length ys"
    by (auto simp: ys_def take_min_length)
  let ?grab = "if re then if nallocx (h + sz + 1) = h + length (sds_buf s) then Some s
      else Option.bind (malloc (h + sz + 1)) (\<lambda>newsh. Some (s\<lparr>sds_buf := s_realloc (sds_buf s) (drop h newsh)\<rparr>))
    else Option.bind (malloc (h + sz + 1)) (\<lambda>newsh. Option.bind (rd_range (sds_buf s) 0 (length ys))
      (\<lambda>b. Option.bind (wr_range (drop h newsh) 0 b) (\<lambda>m. Some \<lparr>sds_type = type, sds_hlen = 0, sds_halloc = 0, sds_buf = m\<rparr>)))"
  have e: "sdsResize malloc nallocx s sz would_regrow =
      Option.bind ?grab (\<lambda>s. Option.bind (sds_put s (length ys) [0]) (\<lambda>s. Some (sdssetalloc (sdssetlen s (length ys)) sz)))"
    unfolding sdsResize_def Let_def if_not_P [OF False] sds_at_len [OF s] ys(4) type_def [symmetric] old_def [symmetric] re_def [symmetric]
    using h(2) by (cases re) (simp_all add: t_def h_def)
  have "\<exists>g. ?grab = Some g \<and> sds_type g = t \<and> take (length ys) (sds_buf g) = ys \<and> sz < length (sds_buf g) \<and>
      length (sds_buf g) < 18446744073709551616"
  proof (cases re)
    case True
    show ?thesis
    proof (cases "nallocx (h + sz + 1) = h + length (sds_buf s)")
      case opt: True
      then have "h + sz + 1 \<le> h + length (sds_buf s)" using je [of "h + sz + 1"] rest by auto
      then show ?thesis using opt True s ys rest by (simp add: t_def old_def sds_at_def)
    next
      case opt: False
      have "take (length ys) (s_realloc (sds_buf s) (drop h nb)) = ys"
        using ys nb(2) by (simp add: s_realloc_def rest)
      then show ?thesis using opt True nb by (auto simp: t_def old_def)
    qed
  next
    case False
    then show ?thesis using nb ys(1-3) rest by (auto simp: t_def rd_range_def wr_range_def)
  qed
  then obtain g where g: "?grab = Some g" "sds_type g = t" "take (length ys) (sds_buf g) = ys" "sz < length (sds_buf g)"
      "length (sds_buf g) < 18446744073709551616" by blast
  show ?thesis unfolding e g(1) using sds_resized [OF fit(2,1) ys(1) g(4,5,3,2) refl] by (auto simp: ys_def)
qed

text \<open>The length after bytes were written behind the end, or after a cut on the right.\<close>

lemma sdsIncrLen_at:
  assumes s: "sds_at s xs c" and n: "0 \<le> int (length xs) + incr" "int (length xs) + incr \<le> int (sdsalloc s)" "incr \<noteq> 0"
  shows "\<exists>s'. sdsIncrLen s incr = Some s' \<and> sds_rep s' (take (nat (int (length xs) + incr)) (sds_buf s))"
proof -
  let ?L = "nat (int (length xs) + incr)"
  let ?ys = "take ?L (sds_buf s)"
  have room: "?L < length (sds_buf s)" "?L \<le> sdsalloc s" using sdsalloc_at [OF s] n by auto
  have f: "sds_type s \<le> 4" "sds_hlen s = length xs" "length xs < sds_range (sds_type s)" using s by (simp_all add: sds_at_def)
  have al: "if sds_type s = 0 then sdsalloc s = length xs else sdsalloc s = sds_halloc s \<and> sds_halloc s < sds_range (sds_type s)"
    using s by (simp add: sds_at_def sdsalloc_def)
  have L: "?L < sds_range (sds_type s)" using al room(2) f(3) by (auto split: if_splits)
  let ?m = "?ys @ 0 # drop (?L + 1) (sds_buf s)"
  have "sds_at (sdssetlen (s\<lparr>sds_buf := ?m\<rparr>) (length ?ys)) ?ys 0"
    by (rule sds_at_relen [OF s refl]) (use room in auto)
  moreover have "sdsIncrLen s incr = Some (sdssetlen (s\<lparr>sds_buf := ?m\<rparr>) ?L)"
  proof -
    have u: "(int (length xs) + incr) mod 18446744073709551616 = int (length xs) + incr"
      using n(1) L sds_range_le [of "sds_type s"] by (simp add: nat_less_iff)
    have k: "- incr \<le> int (length xs)" "0 \<le> incr \<longrightarrow> sds_type s \<noteq> 0 \<and> incr \<le> int (sds_halloc s) - int (length xs)"
      using n al by (auto split: if_splits)
    have uint: "0 \<le> v \<Longrightarrow> v < 4294967296 \<Longrightarrow> v mod 4294967296 = v" "0 \<le> v \<Longrightarrow> v < 18446744073709551616 \<Longrightarrow> v mod 18446744073709551616 = v" for v :: int
      by simp_all
    have ok: "if sds_type s = 0 then 0 < incr \<and> int (length xs) + incr < 32 \<or> incr < 0 \<and> (- incr) mod 4294967296 \<le> int (length xs)
        else if sds_type s = 1 \<or> sds_type s = 2 then 0 \<le> incr \<and> incr \<le> int (sds_halloc s) - int (length xs) \<or> incr < 0 \<and> (- incr) mod 4294967296 \<le> int (length xs)
        else if sds_type s = 3 then 0 \<le> incr \<and> incr mod 4294967296 \<le> (int (sds_halloc s) - int (length xs)) mod 4294967296 \<or> incr < 0 \<and> (- incr) mod 4294967296 \<le> int (length xs)
        else if sds_type s = 4 then 0 \<le> incr \<and> incr mod 18446744073709551616 \<le> (int (sds_halloc s) - int (length xs)) mod 18446744073709551616 \<or> incr < 0 \<and> (- incr) mod 18446744073709551616 \<le> int (length xs)
        else True"
    proof -
      show ?thesis
      proof (cases "0 < incr")
        case True
        then show ?thesis using k(2) f al by (auto simp: sds_range_def uint)
      next
        case False
        then have "incr < 0" using n(3) by simp
        then show ?thesis using k(1) f by (auto simp: sds_range_def uint)
      qed
    qed
    have "sds_put (sdssetlen s ?L) ?L [0] = Some (sdssetlen (s\<lparr>sds_buf := ?m\<rparr>) ?L)"
      using room by (simp add: sds_put_at)
    moreover have "?L mod sds_range (sds_type s) = ?L" using L by simp
    ultimately show ?thesis unfolding sdsIncrLen_def Let_def f(2) u
      using ok f(1) by (simp only: if_True assertC_simps Option.bind.simps) auto
  qed
  ultimately show ?thesis using room by simp
qed

lemma sdscatprintf_rep:
  assumes s: "sds_rep s xs" and M: "sds_mem malloc M" "2 * (length xs + length out) + 1048594 \<le> M"
    and f: "strlen fmt = Some n" "2 * n \<le> M" and out: "length out \<le> 2147483647"
  shows "\<exists>s'. sdscatprintf malloc s fmt out = Some s' \<and> sds_rep s' (xs @ out)"
proof -
  obtain b1 where b1: "malloc (n * 2) = Some b1" using sds_memE [OF M(1), of "n * 2"] f(2) by auto
  obtain b2 where b2: "malloc (length out + 1) = Some b2" using sds_memE [OF M(1), of "length out + 1"] M(2) by auto
  have "sdscatvprintf_loop malloc out buflen = Some (Ptr (out @ [0]))" for buflen
  proof -
    have "sdscatvprintf_loop malloc out (length out + 1) = Some (Ptr (out @ [0]))"
      using out by (subst sdscatvprintf_loop.simps) simp
    then show ?thesis using out b2 by (subst sdscatvprintf_loop.simps) simp
  qed
  then show ?thesis using sdscatlen_rep [OF s M, of "out @ [0]"] f(1) b1 by (auto simp: sdscatprintf_def sdscatvprintf_def)
qed

text \<open>
  What a format gives, without the terminator: \<open>None\<close> when an argument is missing or of another type.
\<close>

fun fmt_value :: "byte \<Rightarrow> fmt_arg \<Rightarrow> buf option" where
  "fmt_value k (A_str b) = (if k = 115 \<and> 0 \<in> set b then Some (takeWhile (\<lambda>c. c \<noteq> 0) b) else None)"
| "fmt_value k (A_sds t) = (if k = 83 \<and> sdslen t \<le> length (sds_buf t) then Some (take (sdslen t) (sds_buf t)) else None)"
| "fmt_value k (A_int v) = (if k = 105 \<and> INT32_MIN \<le> v \<and> v \<le> INT32_MAX then Some (dec_int v) else None)"
| "fmt_value k (A_llong v) = (if k = 73 \<and> is_int64 v then Some (dec_int v) else None)"
| "fmt_value k (A_uint v) = (if k = 117 \<and> v \<le> UINT32_MAX then Some (dec v) else None)"
| "fmt_value k (A_ullong v) = (if k = 85 \<and> v \<le> UINT64_MAX then Some (dec v) else None)"

fun fmt_expand :: "buf \<Rightarrow> fmt_arg list \<Rightarrow> buf option" where
  "fmt_expand [] args = Some []"
| "fmt_expand (c # f) args =
     (if c = 37 then (case f of
          [] \<Rightarrow> Some []
        | k # f' \<Rightarrow>
            if k \<in> {115, 83, 105, 73, 117, 85} then (case args of
                [] \<Rightarrow> None
              | a # args \<Rightarrow> do { b \<leftarrow> fmt_value k a; r \<leftarrow> fmt_expand f' args; Some (b @ r) })
            else map_option ((#) k) (fmt_expand f' args))
      else map_option ((#) c) (fmt_expand f args))"

lemma sdsinclen_eq: "sdsinclen s l = sdssetlen s (sds_hlen s + l)"
  by (simp add: sdsinclen_def sdssetlen_def)

lemma sds_extend_at:
  assumes s: "sds_at s xs c" and b: "length b \<le> sdsavail s"
  shows "\<exists>s' d. sds_put s (length xs) b = Some s' \<and> sds_at (sdsinclen s' (length b)) (xs @ b) d"
proof -
  obtain rest where rest: "sds_buf s = xs @ c # rest" using s by (rule sds_at_bufE)
  have room: "length xs + length b < length (sds_buf s)" "length (xs @ b) \<le> sdsalloc s" using sdsalloc_at [OF s] b by auto
  let ?n = "length xs + length b"
  have d: "drop ?n (sds_buf s) = sds_buf s ! ?n # drop (Suc ?n) (sds_buf s)" using room(1) by (simp add: Cons_nth_drop_Suc)
  have "sds_at (sdssetlen (s\<lparr>sds_buf := (xs @ b) @ sds_buf s ! ?n # drop (Suc ?n) (sds_buf s)\<rparr>) (length (xs @ b))) (xs @ b) (sds_buf s ! ?n)"
    by (rule sds_at_relen [OF s refl]) (use room in auto)
  moreover have "sds_hlen s = length xs" using s by (simp add: sds_at_def)
  ultimately show ?thesis using room(1) d rest by (auto simp: sds_put_at sdsinclen_eq)
qed

lemma sdscatfmt_put_at:
  assumes s: "sds_at s xs c" and M: "sds_mem malloc M" "2 * (length xs + l) + 1048594 \<le> M" and b: "l \<le> length b"
  shows "\<exists>s' d. sdscatfmt_put malloc s (length xs) b l = Some (s', length xs + l) \<and> sds_at s' (xs @ take l b) d"
proof -
  have "\<exists>s1. (if sdsavail s < l then sdsMakeRoomFor malloc s l else Some s) = Some s1 \<and> sds_at s1 xs c \<and> l \<le> sdsavail s1"
    using sdsMakeRoomFor_at [OF s M] s by (auto simp: sdsMakeRoomFor_def)
  then obtain s1 where s1: "(if sdsavail s < l then sdsMakeRoomFor malloc s l else Some s) = Some s1" "sds_at s1 xs c" "l \<le> sdsavail s1"
    by blast
  show ?thesis using sds_extend_at [OF s1(2), of "take l b"] s1(3) b
    unfolding sdscatfmt_put_def s1(1) by (auto simp: rd_range_def)
qed

lemma length_takeWhile_less: "0 \<in> set b \<Longrightarrow> strlen b = Some (length (takeWhile (\<lambda>c. c \<noteq> 0) b))"
  by (induction b) (auto simp: strlen_def Let_def split: if_splits)

lemma sdscatfmt_arg_at:
  assumes s: "sds_at s xs c" and M: "sds_mem malloc M" "2 * (length xs + length out) + 1048594 \<le> M"
    and k: "k \<in> {115, 83, 105, 73, 117, 85}" and v: "fmt_value k a = Some out" and junk: "21 \<le> length junk"
  shows "\<exists>s' d. sdscatfmt_arg malloc junk k s (length xs) (a # args) = Some (s', length xs + length out, args) \<and> sds_at s' (xs @ out) d"
proof -
  have int: "ll2string junk 21 x = Some (length (dec_int x), dec_int x @ 0 # drop (Suc (length (dec_int x))) junk)" if "is_int64 x" for x
    using ll2string_spec [of 21 junk x] length_dec_int64 [OF that] junk by simp
  have uns: "ull2string junk 21 x = Some (length (dec x), dec x @ 0 # drop (Suc (length (dec x))) junk)" if "x \<le> UINT64_MAX" for x
    using ll2string_spec [of 21 junk "int x"] length_dec_uint64 [OF that] junk by (simp add: ll2string_def dec_int_def)
  have put: "\<exists>s' d. sdscatfmt_put malloc s (length xs) (out @ rest) (length out) = Some (s', length xs + length out) \<and> sds_at s' (xs @ out) d" for rest
    using sdscatfmt_put_at [OF s M, of "out @ rest"] by simp
  show ?thesis
  proof (cases a)
    case (A_str b)
    have "b = out @ dropWhile (\<lambda>c. c \<noteq> 0) b" using v A_str by (auto split: if_splits)
    then show ?thesis using v A_str put [of "dropWhile (\<lambda>c. c \<noteq> 0) b"]
      by (auto simp: sdscatfmt_arg_def length_takeWhile_less split: if_splits)
  next
    case (A_sds t)
    have "sds_buf t = out @ drop (sdslen t) (sds_buf t)" "length out = sdslen t" using v A_sds by (auto split: if_splits)
    then show ?thesis using v A_sds put [of "drop (sdslen t) (sds_buf t)"] by (auto simp: sdscatfmt_arg_def split: if_splits)
  next
    case (A_int x)
    then have "is_int64 x" "out = dec_int x" "k = 105" using v by (auto simp: is_int64_def split: if_splits)
    then show ?thesis using A_int put [of "0 # drop (Suc (length out)) junk"] int by (auto simp: sdscatfmt_arg_def)
  next
    case (A_llong x)
    then have "is_int64 x" "out = dec_int x" "k = 73" using v by (auto split: if_splits)
    then show ?thesis using A_llong put [of "0 # drop (Suc (length out)) junk"] int by (auto simp: sdscatfmt_arg_def)
  next
    case (A_uint x)
    then have "x \<le> UINT64_MAX" "out = dec x" "k = 117" using v by (auto split: if_splits)
    then show ?thesis using A_uint put [of "0 # drop (Suc (length out)) junk"] uns by (auto simp: sdscatfmt_arg_def)
  next
    case (A_ullong x)
    then have "x \<le> UINT64_MAX" "out = dec x" "k = 85" using v by (auto split: if_splits)
    then show ?thesis using A_ullong put [of "0 # drop (Suc (length out)) junk"] uns by (auto simp: sdscatfmt_arg_def)
  qed
qed

lemma sdscatfmt_loop_at:
  assumes "sds_at s xs c" "sds_mem malloc M" "2 * (length xs + length out + 1) + 1048594 \<le> M" "fmt_expand f args = Some out"
    "0 \<notin> set f" "21 \<le> length junk"
  shows "\<exists>s' d. sdscatfmt_loop malloc junk (f @ 0 # rest) s (length xs) args = Some (s', length xs + length out) \<and> sds_at s' (xs @ out) d"
  using assms(1,3-5)
proof (induction f args arbitrary: s xs c out rule: fmt_expand.induct)
  case (1 args)
  then show ?case by auto
next
  case (2 ch f args)
  note s = "2.prems"(1) and M = assms(2) "2.prems"(2) and out = "2.prems"(3)
  have room: "\<exists>s1. (if sdsavail s = 0 then sdsMakeRoomFor malloc s 1 else Some s) = Some s1 \<and> sds_at s1 xs c \<and> 1 \<le> sdsavail s1"
    using sdsMakeRoomFor_at [OF s M(1), of 1 True] M(2) s by (auto simp: sdsMakeRoomFor_def)
  then obtain s1 where s1: "(if sdsavail s = 0 then sdsMakeRoomFor malloc s 1 else Some s) = Some s1" "sds_at s1 xs c" "1 \<le> sdsavail s1" by blast
  have ch: "ch \<noteq> 0" using "2.prems"(4) by auto
  have one: "\<exists>s2 d. sds_put s1 (length xs) [b] = Some s2 \<and> sds_at (sdsinclen s2 1) (xs @ [b]) d" for b
    using sds_extend_at [OF s1(2), of "[b]"] s1(3) by simp
  show ?case
  proof (cases "ch = 37")
    case False
    then obtain r where r: "fmt_expand f args = Some r" "out = ch # r" using out by auto
    obtain s2 d where s2: "sds_put s1 (length xs) [ch] = Some s2" "sds_at (sdsinclen s2 1) (xs @ [ch]) d" using one by blast
    from "2.IH"(3) [OF False s2(2), of r] r M "2.prems"(4) s2(1) ch False show ?thesis by (simp add: s1(1))
  next
    case True
    show ?thesis
    proof (cases f)
      case Nil
      then show ?thesis using True s1 out by auto
    next
      case (Cons k f')
      have k: "k \<noteq> 0" using "2.prems"(4) Cons by auto
      show ?thesis
      proof (cases "k \<in> {115, 83, 105, 73, 117, 85}")
        case kt: True
        then obtain a args' b r where a: "args = a # args'" "fmt_value k a = Some b" "fmt_expand f' args' = Some r" "out = b @ r"
          using out True Cons by (auto split: list.splits simp: bind_eq_Some_conv)
        have "2 * (length xs + length b) + 1048594 \<le> M" using M(2) a(4) by simp
        from sdscatfmt_arg_at [OF s1(2) M(1) this kt a(2) assms(6), of args'] obtain s2 d where
          s2: "sdscatfmt_arg malloc junk k s1 (length xs) args = Some (s2, length (xs @ b), args')" "sds_at s2 (xs @ b) d"
          by (auto simp: a(1))
        have "\<exists>s' d. sdscatfmt_loop malloc junk (f' @ 0 # rest) s2 (length (xs @ b)) args' = Some (s', length (xs @ b) + length r) \<and> sds_at s' ((xs @ b) @ r) d"
          by (rule "2.IH"(1) [OF True Cons kt a(1,2) s2(2) _ a(3)]) (use M a(4) "2.prems"(4) Cons in auto)
        then show ?thesis using True Cons k s1(1) s2(1) a(4) by (simp add: add.assoc)
      next
        case kf: False
        then obtain r where r: "fmt_expand f' args = Some r" "out = k # r" using out True Cons by auto
        obtain s2 d where s2: "sds_put s1 (length xs) [k] = Some s2" "sds_at (sdsinclen s2 1) (xs @ [k]) d" using one by blast
        have "sdscatfmt_arg malloc junk k s1 (length xs) args = Some (sdsinclen s2 1, length xs + 1, args)"
          using kf s2(1) by (simp add: sdscatfmt_arg_def)
        then show ?thesis using "2.IH"(2) [OF True Cons kf s2(2), of r] True Cons k s1(1) r M "2.prems"(4) by simp
      qed
    qed
  qed
qed

lemma sdscatfmt_rep:
  assumes s: "sds_rep s xs" and M: "sds_mem malloc M" "2 * (length xs + length out + 2 * length f + 1) + 1048594 \<le> M"
    and f: "fmt_expand f args = Some out" "0 \<notin> set f" and junk: "21 \<le> length junk"
  shows "\<exists>s'. sdscatfmt malloc junk s (f @ 0 # rest) args = Some s' \<and> sds_rep s' (xs @ out)"
proof -
  obtain s1 where s1: "sdsMakeRoomFor_generic malloc s (length f * 2) True = Some s1" "sds_rep s1 xs"
    using sdsMakeRoomFor_at [OF s M(1), of "length f * 2" True] M(2) by auto
  have "2 * (length xs + length out + 1) + 1048594 \<le> M" using M(2) by simp
  from sdscatfmt_loop_at [OF s1(2) M(1) this f junk] obtain s2 d where
    s2: "sdscatfmt_loop malloc junk (f @ 0 # rest) s1 (length xs) args = Some (s2, length (xs @ out))" "sds_at s2 (xs @ out) d" by fastforce
  obtain rest' where r: "sds_buf s2 = (xs @ out) @ d # rest'" using s2(2) by (rule sds_at_bufE)
  have "sds_put s2 (length (xs @ out)) [0] = Some (s2\<lparr>sds_buf := (xs @ out) @ 0 # rest'\<rparr>)" by (simp add: sds_put_at r)
  moreover have "sds_rep (s2\<lparr>sds_buf := (xs @ out) @ 0 # rest'\<rparr>) (xs @ out)" using s2(2) r by (auto simp: sds_at_def)
  ultimately show ?thesis using s s1(1) s2(1) by (simp add: sdscatfmt_def strlen_C [OF f(2)] sdsMakeRoomFor_def)
qed

text \<open>The quoted form of a string.\<close>

definition repr_byte :: "byte \<Rightarrow> buf" where
  "repr_byte c =
     (if c = 92 \<or> c = 34 then [92, c] else if c = 10 then [92, 110] else if c = 13 then [92, 114]
      else if c = 9 then [92, 116] else if c = 7 then [92, 97] else if c = 8 then [92, 98]
      else if isprint c then [c] else [92, 120, hex_char (unat c div 16), hex_char (unat c mod 16)])"

definition repr :: "buf \<Rightarrow> buf" where
  "repr xs = 34 # concat (map repr_byte xs) @ [34]"

lemma length_repr_byte: "length (repr_byte c) \<le> 4"
  by (simp add: repr_byte_def)

lemma length_repr_bytes: "length (concat (map repr_byte xs)) \<le> 4 * length xs"
proof (induction xs)
  case (Cons c xs)
  then show ?case using length_repr_byte [of c] by simp
qed simp

lemma sdscatrepr_step:
  assumes "sds_rep s xs" "sds_mem malloc M" "2 * (length xs + 4) + 1048594 \<le> M"
  shows "\<exists>s'. (if c = 92 \<or> c = 34 then sdscatprintf malloc s [92, 92, 37, 99, 0] [92, c]
        else if c = 10 then sdscatlen malloc s [92, 110, 0] 2
        else if c = 13 then sdscatlen malloc s [92, 114, 0] 2
        else if c = 9 then sdscatlen malloc s [92, 116, 0] 2
        else if c = 7 then sdscatlen malloc s [92, 97, 0] 2
        else if c = 8 then sdscatlen malloc s [92, 98, 0] 2
        else if isprint c then sdscatlen malloc s (c # p) 1
        else sdscatprintf malloc s [92, 92, 120, 37, 48, 50, 120, 0] [92, 120, hex_char (unat c div 16), hex_char (unat c mod 16)]) = Some s' \<and>
    sds_rep s' (xs @ repr_byte c)"
proof -
  have f1: "strlen [92, 92, 37, 99, 0] = Some 4" "strlen [92, 92, 120, 37, 48, 50, 120, 0] = Some 7" by code_simp+
  have cat: "\<exists>s'. sdscatlen malloc s t n = Some s' \<and> sds_rep s' (xs @ take n t)" if "n \<le> length t" "n \<le> 4" for t n
    by (rule sdscatlen_rep [OF assms(1,2) _ that(1)]) (use assms(3) that in auto)
  have pr: "\<exists>s'. sdscatprintf malloc s fmt out = Some s' \<and> sds_rep s' (xs @ out)" if "strlen fmt = Some n" "n \<le> 7" "length out \<le> 4" for fmt out n
    by (rule sdscatprintf_rep [OF assms(1,2) _ that(1)]) (use assms(3) that in auto)
  note ps = pr [OF f1(1), of "[92, c]", simplified] pr [OF f1(2), of "[92, 120, hex_char (unat c div 16), hex_char (unat c mod 16)]", simplified]
  show ?thesis
    using ps cat [of 2 "[92, 110, 0]"] cat [of 2 "[92, 114, 0]"] cat [of 2 "[92, 116, 0]"] cat [of 2 "[92, 97, 0]"] cat [of 2 "[92, 98, 0]"]
      cat [of 1 "c # p"]
    by (auto simp: repr_byte_def)
qed

lemma sdscatrepr_loop_rep:
  assumes "sds_rep s xs" "sds_mem malloc M" "2 * (length xs + 4 * length p) + 1048594 \<le> M"
  shows "\<exists>s'. sdscatrepr_loop malloc s p = Some s' \<and> sds_rep s' (xs @ concat (map repr_byte p))"
  using assms(1,3)
proof (induction p arbitrary: s xs)
  case (Cons c p)
  have "2 * (length xs + 4) + 1048594 \<le> M" using Cons.prems(2) by simp
  from sdscatrepr_step [OF Cons.prems(1) assms(2) this, of c p] obtain s1 where
    s1: "sdscatrepr_loop malloc s (c # p) = sdscatrepr_loop malloc s1 p" "sds_rep s1 (xs @ repr_byte c)" by auto
  show ?case using Cons.IH [OF s1(2)] Cons.prems(2) length_repr_byte [of c] unfolding s1(1) by simp
qed auto

lemma sdscatrepr_rep:
  assumes s: "sds_rep s xs" and M: "sds_mem malloc M" "2 * (length xs + 4 * len + 2) + 1048594 \<le> M" and p: "len \<le> length p"
  shows "\<exists>s'. sdscatrepr malloc s p len = Some s' \<and> sds_rep s' (xs @ repr (take len p))"
proof -
  let ?r = "concat (map repr_byte (take len p))"
  have l: "length ?r \<le> 4 * length (take len p)" by (rule length_repr_bytes)
  obtain s1 where s1: "sdsMakeRoomFor_generic malloc s (len + 2) True = Some s1" "sds_rep s1 xs"
    using sdsMakeRoomFor_at [OF s M(1), of "len + 2" True] M(2) by auto
  obtain s2 where s2: "sdscatlen malloc s1 [34, 0] 1 = Some s2" "sds_rep s2 (xs @ [34])"
    using sdscatlen_rep [OF s1(2) M(1), of 1 "[34, 0]"] M(2) by auto
  obtain s3 where s3: "sdscatrepr_loop malloc s2 (take len p) = Some s3" "sds_rep s3 ((xs @ [34]) @ ?r)"
    using sdscatrepr_loop_rep [OF s2(2) M(1), of "take len p"] M(2) p by auto
  obtain s4 where "sdscatlen malloc s3 [34, 0] 1 = Some s4" "sds_rep s4 (((xs @ [34]) @ ?r) @ [34])"
    using sdscatlen_rep [OF s3(2) M(1), of 1 "[34, 0]"] M(2) l p by auto
  then show ?thesis using s1(1) s2(1) s3(1) p by (simp add: sdscatrepr_def sdsMakeRoomFor_def rd_range_def repr_def)
qed


subsection \<open>Sequences of operations\<close>

text \<open>
  The operations on one string. \<open>Op_read\<close> is the pattern in which bytes are received directly into
  the free space: \<open>sdsMakeRoomFor\<close>, a write behind the end, \<open>sdsIncrLen\<close>.
\<close>

datatype sds_op =
    Op_catlen buf | Op_cpylen buf | Op_growzero nat | Op_makeroom nat bool | Op_read buf | Op_cut nat | Op_clear
  | Op_updatelen | Op_substr nat nat | Op_range int int | Op_trim buf | Op_lower | Op_upper | Op_mapchars buf buf
  | Op_resize nat bool | Op_fmt buf "fmt_arg list" | Op_repr buf

fun sds_apply :: "(nat \<Rightarrow> buf option) \<Rightarrow> (nat \<Rightarrow> nat) \<Rightarrow> buf \<Rightarrow> sds_op \<Rightarrow> sds \<Rightarrow> sds option" where
  "sds_apply malloc nallocx junk (Op_catlen b) s = sdscatlen malloc s b (length b)"
| "sds_apply malloc nallocx junk (Op_cpylen b) s = sdscpylen malloc s b (length b)"
| "sds_apply malloc nallocx junk (Op_growzero n) s = sdsgrowzero malloc s n"
| "sds_apply malloc nallocx junk (Op_makeroom n greedy) s =
     (if greedy then sdsMakeRoomFor malloc s n else sdsMakeRoomForNonGreedy malloc s n)"
| "sds_apply malloc nallocx junk (Op_read b) s = do {
     s \<leftarrow> sdsMakeRoomFor malloc s (length b);
     s \<leftarrow> sds_put s (sdslen s) b;
     sdsIncrLen s (int (length b)) }"
| "sds_apply malloc nallocx junk (Op_cut n) s = sdsIncrLen s (- int n)"
| "sds_apply malloc nallocx junk Op_clear s = sdsclear s"
| "sds_apply malloc nallocx junk Op_updatelen s = sdsupdatelen s"
| "sds_apply malloc nallocx junk (Op_substr start len) s = sdssubstr s start len"
| "sds_apply malloc nallocx junk (Op_range a b) s = sdsrange s a b"
| "sds_apply malloc nallocx junk (Op_trim cset) s = sdstrim s cset"
| "sds_apply malloc nallocx junk Op_lower s = sdstolower s"
| "sds_apply malloc nallocx junk Op_upper s = sdstoupper s"
| "sds_apply malloc nallocx junk (Op_mapchars f t) s = sdsmapchars s f t (length f)"
| "sds_apply malloc nallocx junk (Op_resize n would_regrow) s = sdsResize malloc nallocx s n would_regrow"
| "sds_apply malloc nallocx junk (Op_fmt f args) s = sdscatfmt malloc junk s (f @ [0]) args"
| "sds_apply malloc nallocx junk (Op_repr b) s = sdscatrepr malloc s b (length b)"

text \<open>What they do to the bytes, and what they may ask of the allocator.\<close>

fun byte_apply :: "sds_op \<Rightarrow> buf \<Rightarrow> buf option" where
  "byte_apply (Op_catlen b) xs = Some (xs @ b)"
| "byte_apply (Op_cpylen b) xs = Some b"
| "byte_apply (Op_growzero n) xs = Some (xs @ replicate (n - length xs) 0)"
| "byte_apply (Op_makeroom n greedy) xs = Some xs"
| "byte_apply (Op_read b) xs = (if b = [] then None else Some (xs @ b))"
| "byte_apply (Op_cut n) xs = (if 0 < n \<and> n \<le> length xs then Some (take (length xs - n) xs) else None)"
| "byte_apply Op_clear xs = Some []"
| "byte_apply Op_updatelen xs = Some (takeWhile (\<lambda>c. c \<noteq> 0) xs)"
| "byte_apply (Op_substr start len) xs = Some (take len (drop start xs))"
| "byte_apply (Op_range a b) xs = (if range_defined xs a b then Some (byte_range xs a b) else None)"
| "byte_apply (Op_trim cset) xs = (if 0 \<in> set cset then Some (byte_trim cset xs) else None)"
| "byte_apply Op_lower xs = Some (map tolower xs)"
| "byte_apply Op_upper xs = Some (map toupper xs)"
| "byte_apply (Op_mapchars f t) xs = (if length f \<le> length t then Some (map (\<lambda>c. memmapchar c f (take (length f) t)) xs) else None)"
| "byte_apply (Op_resize n would_regrow) xs = Some (take n xs)"
| "byte_apply (Op_fmt f args) xs = (if 0 \<in> set f then None else map_option ((@) xs) (fmt_expand f args))"
| "byte_apply (Op_repr b) xs = Some (xs @ repr b)"

fun op_need :: "sds_op \<Rightarrow> buf \<Rightarrow> nat" where
  "op_need (Op_catlen b) xs = 2 * (length xs + length b) + 1048594"
| "op_need (Op_cpylen b) xs = 2 * max (length xs) (length b) + 1048594"
| "op_need (Op_growzero n) xs = 2 * max (length xs) n + 1048594"
| "op_need (Op_makeroom n greedy) xs = 2 * (length xs + n) + 1048594"
| "op_need (Op_read b) xs = 2 * (length xs + length b) + 1048594"
| "op_need (Op_resize n would_regrow) xs = n + 18"
| "op_need (Op_fmt f args) xs = (case fmt_expand f args of None \<Rightarrow> 0 | Some out \<Rightarrow> 2 * (length xs + length out + 2 * length f + 1) + 1048594)"
| "op_need (Op_repr b) xs = 2 * (length xs + 4 * length b + 2) + 1048594"
| "op_need _ xs = 0"

fun sds_run :: "(nat \<Rightarrow> buf option) \<Rightarrow> (nat \<Rightarrow> nat) \<Rightarrow> buf \<Rightarrow> sds_op list \<Rightarrow> sds \<Rightarrow> sds option" where
  "sds_run malloc nallocx junk [] s = Some s"
| "sds_run malloc nallocx junk (p # ps) s = do { s \<leftarrow> sds_apply malloc nallocx junk p s; sds_run malloc nallocx junk ps s }"

fun byte_run :: "nat \<Rightarrow> sds_op list \<Rightarrow> buf \<Rightarrow> buf option" where
  "byte_run M [] xs = Some xs"
| "byte_run M (p # ps) xs = (if op_need p xs \<le> M then do { xs \<leftarrow> byte_apply p xs; byte_run M ps xs } else None)"

lemma sds_read_rep:
  assumes s: "sds_rep s xs" and M: "sds_mem malloc M" "2 * (length xs + length b) + 1048594 \<le> M" and b: "b \<noteq> []"
  shows "\<exists>s'. sds_apply malloc nallocx junk (Op_read b) s = Some s' \<and> sds_rep s' (xs @ b)"
proof -
  obtain s1 where s1: "sdsMakeRoomFor_generic malloc s (length b) True = Some s1" "sds_rep s1 xs" "length b \<le> sdsavail s1"
    using sdsMakeRoomFor_at [OF s M] by blast
  obtain rest where rest: "sds_buf s1 = xs @ 0 # rest" using s1(2) by (rule sds_at_bufE)
  have room: "length xs + length b \<le> sdsalloc s1" "sdsalloc s1 < length (sds_buf s1)" using sdsalloc_at [OF s1(2)] s1(3) by auto
  let ?m = "xs @ b @ drop (length xs + length b) (sds_buf s1)"
  have put: "sds_put s1 (length xs) b = Some (s1\<lparr>sds_buf := ?m\<rparr>)" using room rest by (simp add: sds_put_at)
  obtain d where d: "sds_at (s1\<lparr>sds_buf := ?m\<rparr>) xs d"
    using s1(2) b room by (cases b) (auto simp: sds_at_def)
  have "sdsalloc (s1\<lparr>sds_buf := ?m\<rparr>) = sdsalloc s1" by (simp add: sdsalloc_def)
  then show ?thesis using sdsIncrLen_at [OF d, of "int (length b)"] room b s1 put
    by (simp add: sdsMakeRoomFor_def nat_int_add)
qed

lemma sds_apply_rep:
  assumes s: "sds_rep s xs" and M: "sds_mem malloc M" "op_need p xs \<le> M" and je: "\<And>n. nallocx n = 0 \<or> n \<le> nallocx n"
    and junk: "21 \<le> length junk" and p: "byte_apply p xs = Some ys"
  shows "\<exists>s'. sds_apply malloc nallocx junk p s = Some s' \<and> sds_rep s' ys"
proof (cases p)
  case (Op_catlen b)
  then show ?thesis using sdscatlen_rep [OF s M(1), of "length b" b] M(2) p by simp
next
  case (Op_cpylen b)
  then show ?thesis using sdscpylen_rep [OF s M(1), of "length b" b] M(2) p by simp
next
  case (Op_growzero n)
  then show ?thesis using sdsgrowzero_rep [OF s M(1), of n] M(2) p by simp
next
  case (Op_makeroom n greedy)
  then show ?thesis using sdsMakeRoomFor_at [OF s M(1), of n greedy] M(2) p
    by (auto simp: sdsMakeRoomFor_def sdsMakeRoomForNonGreedy_def)
next
  case (Op_read b)
  then show ?thesis using sds_read_rep [OF s M(1), of b] M(2) p by (simp split: if_splits)
next
  case (Op_cut n)
  obtain rest where "sds_buf s = xs @ 0 # rest" using s by (rule sds_at_bufE)
  then show ?thesis using Op_cut sdsIncrLen_at [OF s, of "- int n"] sdsalloc_at(1) [OF s] p
    by (auto simp: nat_diff_distrib split: if_splits)
next
  case (Op_fmt f args)
  then obtain out where "fmt_expand f args = Some out" "0 \<notin> set f" "ys = xs @ out" using p by (auto split: if_splits)
  then show ?thesis using Op_fmt sdscatfmt_rep [OF s M(1) _ _ _ junk, of out f args "[]"] M(2) by simp
next
  case (Op_resize n w)
  then show ?thesis using sdsResize_rep [OF s M(1) _ je, of n w] M(2) p by simp
next
  case (Op_mapchars f t)
  then show ?thesis using p sds_map_rep [OF s, of "\<lambda>c. memmapchar c f (take (length f) t)"]
    by (auto simp: sdsmapchars_def rd_range_def split: if_splits)
next
  case (Op_repr b)
  then show ?thesis using sdscatrepr_rep [OF s M(1), of "length b" b] M(2) p by simp
qed (use p sdsclear_rep [OF s] sdsupdatelen_rep [OF s] sdssubstr_rep [OF s] sdsrange_rep [OF s] sdstrim_rep [OF s]
      sds_map_rep [OF s, of tolower] sds_map_rep [OF s, of toupper]
     in \<open>auto simp: sdstolower_def sdstoupper_def split: if_splits\<close>)

lemma sds_run_rep:
  assumes "sds_mem malloc M" "\<And>n. nallocx n = 0 \<or> n \<le> nallocx n" "21 \<le> length junk" "sds_rep s xs" "byte_run M ps xs = Some ys"
  shows "\<exists>s'. sds_run malloc nallocx junk ps s = Some s' \<and> sds_rep s' ys"
  using assms(4,5)
proof (induction ps arbitrary: s xs)
  case (Cons p ps)
  then obtain zs where z: "op_need p xs \<le> M" "byte_apply p xs = Some zs" "byte_run M ps zs = Some ys"
    by (auto simp: bind_eq_Some_conv split: if_splits)
  from sds_apply_rep [OF Cons.prems(1) assms(1) z(1) assms(2,3) z(2)] obtain s1 where
    s1: "sds_apply malloc nallocx junk p s = Some s1" "sds_rep s1 zs" by blast
  from Cons.IH [OF s1(2) z(3)] s1(1) show ?case by simp
qed simp

text \<open>
  C35: any sequence of operations on a new string, under an allocator that grants the requests, runs
  without a fault; the string then holds exactly the bytes that the operations prescribe, in a header
  whose fields fit, with the terminator behind them and no more space recorded than the block has.
\<close>

theorem sds_ops_refine_bytes:
  assumes "sds_mem malloc M" "\<And>n. nallocx n = 0 \<or> n \<le> nallocx n" "21 \<le> length junk" "length init + 18 \<le> M"
    "byte_run M ps init = Some ys"
  shows "\<exists>s s'. sdsnewlen malloc (Init_from init) (length init) = Some s \<and> sds_run malloc nallocx junk ps s = Some s' \<and>
    sdslen s' = length ys \<and> take (length ys) (sds_buf s') = ys \<and> rd (sds_buf s') (length ys) = Some 0 \<and>
    sdslen s' \<le> sdsalloc s' \<and> sdsalloc s' < length (sds_buf s') \<and> sdsavail s' = sdsalloc s' - sdslen s'"
proof -
  obtain s where s: "sdsnewlen malloc (Init_from init) (length init) = Some s" "sds_rep s init"
    using sdsnewlen_rep [OF assms(1,4), where init = "Init_from init" and xs = init] by auto
  obtain s' where s': "sds_run malloc nallocx junk ps s = Some s'" "sds_rep s' ys"
    using sds_run_rep [OF assms(1-3) s(2) assms(5)] by blast
  obtain rest where "sds_buf s' = ys @ 0 # rest" using s'(2) by (rule sds_at_bufE)
  then show ?thesis using s(1) s' sdsalloc_at [OF s'(2)] by (auto simp: rd_append_at)
qed

theorem sds_ops_refine_bytes_witness:
  "\<exists>s s'. sdsnewlen (\<lambda>n. Some (replicate n 7)) (Init_from [104, 105]) (length [104, 105 :: byte]) = Some s \<and>
    sds_run (\<lambda>n. Some (replicate n 7)) (\<lambda>n. 0) (replicate 21 9)
      [Op_catlen [32, 32], Op_upper, Op_fmt [37, 105, 33] [A_int (- 7)], Op_trim [33, 0], Op_read [1, 2], Op_cut 1, Op_range 1 (- 1), Op_resize 100 True] s = Some s' \<and>
    sdslen s' = 6 \<and> take 6 (sds_buf s') = [73, 32, 32, 45, 55, 1] \<and> rd (sds_buf s') 6 = Some 0 \<and>
    sdslen s' \<le> sdsalloc s' \<and> sdsalloc s' < length (sds_buf s') \<and> sdsavail s' = sdsalloc s' - sdslen s'"
proof -
  let ?ps = "[Op_catlen [32, 32], Op_upper, Op_fmt [37, 105, 33] [A_int (- 7)], Op_trim [33, 0], Op_read [1, 2], Op_cut 1, Op_range 1 (- 1), Op_resize 100 True]"
  have run: "byte_run 3000000 ?ps [104, 105] = Some [73, 32, 32, 45, 55, 1]"
    by (simp add: Let_def range_defined_def is_int64_def byte_range_def byte_trim_def strchr_def toupper_def dec_int_def dec.simps)
  have mem: "sds_mem (\<lambda>n. Some (replicate n 7)) 3000000" by (simp add: sds_mem_def)
  have len: "length [73, 32, 32, 45, 55, 1 :: byte] = 6" by simp
  show ?thesis by (rule sds_ops_refine_bytes [OF mem _ _ _ run, unfolded len]) simp_all
qed


subsection \<open>Quoting and splitting\<close>

lemma hex_char_digit:
  assumes "unat c = n"
  shows "is_hex_digit (hex_char (n div 16))" "is_hex_digit (hex_char (n mod 16))"
    "(of_nat (hex_digit_to_int (hex_char (n div 16)) * 16 + hex_digit_to_int (hex_char (n mod 16))) :: byte) = c"
proof -
  have "\<forall>d \<in> set [0..<16]. is_hex_digit (hex_char d) \<and> hex_digit_to_int (hex_char d) = d" by code_simp
  moreover have "n < 256" using assms unat_byte_less [of c] by simp
  then have "n div 16 \<in> set [0..<16]" "n mod 16 \<in> set [0..<16]" by auto
  ultimately have d: "is_hex_digit (hex_char (n div 16)) \<and> hex_digit_to_int (hex_char (n div 16)) = n div 16"
    "is_hex_digit (hex_char (n mod 16)) \<and> hex_digit_to_int (hex_char (n mod 16)) = n mod 16" by blast+
  then show "is_hex_digit (hex_char (n div 16))" "is_hex_digit (hex_char (n mod 16))" by simp_all
  have "n div 16 * 16 + n mod 16 = n" by simp
  then show "(of_nat (hex_digit_to_int (hex_char (n div 16)) * 16 + hex_digit_to_int (hex_char (n mod 16))) :: byte) = c"
    unfolding conjunct2 [OF d(1)] conjunct2 [OF d(2)] using assms by auto
qed

text \<open>Inside quotes, the escape of a byte is read back as the byte.\<close>

lemma sdssplitargs_token_byte:
  assumes cat: "sdscatlen malloc cur [c] 1 = Some cur'" "\<And>p. sdscatlen malloc cur (c # p) 1 = Some cur'"
  shows "sdssplitargs_token malloc True insq (repr_byte c @ p) cur = sdssplitargs_token malloc True insq p cur'"
proof -
  note tok = sdssplitargs_token.simps [of malloc True insq]
  consider (quote) "c = 92 \<or> c = 34" | (esc) "c \<in> {10, 13, 9, 7, 8}" | (plain) "isprint c" "c \<noteq> 92" "c \<noteq> 34"
    | (hex) "\<not> isprint c" "c \<notin> {92, 34, 10, 13, 9, 7, 8}" by blast
  then show ?thesis
  proof cases
    case quote
    then show ?thesis using cat by (subst tok) (auto simp: repr_byte_def hex_escape_def escape_char_def)
  next
    case esc
    then show ?thesis using cat by (subst tok) (auto simp: repr_byte_def hex_escape_def escape_char_def)
  next
    case plain
    then have "c \<noteq> 0" "c \<notin> {10, 13, 9, 7, 8}" by (auto simp: isprint_def)
    then show ?thesis using plain cat by (subst tok) (simp add: repr_byte_def)
  next
    case hex
    have "repr_byte c = [92, 120, hex_char (unat c div 16), hex_char (unat c mod 16)]" using hex by (simp add: repr_byte_def)
    moreover note h = hex_char_digit [OF refl, of c]
    moreover have "sdscatlen malloc cur [of_nat (hex_digit_to_int (hex_char (unat c div 16)) * 16 + hex_digit_to_int (hex_char (unat c mod 16)))] 1 = Some cur'"
      unfolding h(3) by (rule cat(1))
    ultimately show ?thesis using h(1,2)
      by (subst tok) (simp add: hex_escape_def del: of_nat_add of_nat_mult)
  qed
qed

lemma sdssplitargs_token_quoted:
  assumes "sds_rep cur ys" "sds_mem malloc M" "2 * (length ys + length xs) + 1048594 \<le> M" "c = 0 \<or> isspace c"
  shows "\<exists>t. sdssplitargs_token malloc True insq (concat (map repr_byte xs) @ 34 # c # rest) cur = Some (Ptr (c # rest, t)) \<and> sds_rep t (ys @ xs)"
  using assms(1,3)
proof (induction xs arbitrary: cur ys)
  case Nil
  then show ?case using assms(4) by (auto simp: sdssplitargs_token.simps [of malloc True insq])
next
  case (Cons x xs)
  have M: "2 * (length ys + 1) + 1048594 \<le> M" using Cons.prems(2) by simp
  obtain cur' where c: "sdscatlen malloc cur [x] 1 = Some cur'" "sds_rep cur' (ys @ [x])"
    using sdscatlen_rep [OF Cons.prems(1) assms(2) M, of "[x]"] by auto
  have "sdscatlen malloc cur (x # p) 1 = sdscatlen malloc cur [x] 1" for p by (simp add: sdscatlen_def rd_range_def)
  with c(1) have "sdssplitargs_token malloc True insq (repr_byte x @ q) cur = sdssplitargs_token malloc True insq q cur'" for q
    by (intro sdssplitargs_token_byte) simp_all
  then show ?case using Cons.IH [OF c(2)] Cons.prems(2) by simp
qed

lemma sdssplitargs_loop_quoted:
  assumes M: "sds_mem malloc M" "2 * length (concat (map (\<lambda>a. repr a @ [32]) args)) + 1048594 \<le> M"
    "8 * (length vector + length args + 1) \<le> M"
  shows "\<exists>toks. sdssplitargs_loop malloc (concat (map (\<lambda>a. repr a @ [32]) args) @ 0 # rest) vector = Some (Ptr (vector @ toks)) \<and>
    list_all2 sds_rep toks args"
  using M(2,3)
proof (induction args arbitrary: vector)
  case Nil
  obtain b where "malloc 8 = Some b" using sds_memE [OF M(1), of 8] Nil by auto
  then show ?case by (auto simp: sdssplitargs_loop.simps [of malloc "0 # rest"] isspace_def)
next
  case (Cons a args)
  let ?line = "concat (map (\<lambda>a. repr a @ [32]) args) @ 0 # rest"
  obtain cur where cur: "sdsempty malloc = Some cur" "sds_rep cur []" using sdsempty_rep [OF M(1)] Cons.prems(1) by auto
  have "length a \<le> length (concat (map repr_byte a))"
    by (induction a) (auto simp: repr_byte_def)
  then have "2 * (length ([] :: buf) + length a) + 1048594 \<le> M" using Cons.prems(1) by (simp add: repr_def)
  from sdssplitargs_token_quoted [OF cur(2) M(1) this, of 32 False ?line] obtain t where
    t: "sdssplitargs_token malloc True False (concat (map repr_byte a) @ 34 # 32 # ?line) cur = Some (Ptr (32 # ?line, t))" "sds_rep t a"
    by (auto simp: isspace_def)
  obtain b where b: "malloc ((length vector + 1) * 8) = Some b" using sds_memE [OF M(1), of "(length vector + 1) * 8"] Cons.prems(2) by auto
  have skip: "sdssplitargs_loop malloc (32 # ?line) (vector @ [t]) = sdssplitargs_loop malloc ?line (vector @ [t])"
    by (subst (1 2) sdssplitargs_loop.simps) (simp add: isspace_def)
  have "sdssplitargs_token malloc False False (34 # concat (map repr_byte a) @ 34 # 32 # ?line) cur = Some (Ptr (32 # ?line, t))"
    using t(1) by (simp add: sdssplitargs_token.simps [of malloc False False])
  then have e: "sdssplitargs_loop malloc (concat (map (\<lambda>a. repr a @ [32]) (a # args)) @ 0 # rest) vector =
      sdssplitargs_loop malloc ?line (vector @ [t])"
    using cur(1) b skip by (subst sdssplitargs_loop.simps) (simp add: repr_def isspace_def)
  obtain toks where "sdssplitargs_loop malloc ?line (vector @ [t]) = Some (Ptr (vector @ t # toks))" "list_all2 sds_rep toks args"
    using Cons.IH [of "vector @ [t]"] Cons.prems by auto
  then show ?case unfolding e using t(2) by (intro exI [of _ "t # toks"]) simp
qed

lemma byte_run_quoted:
  "8 * length (xs @ concat (map (\<lambda>a. repr a @ [32]) args)) + 1048594 \<le> M \<Longrightarrow>
   byte_run M (concat (map (\<lambda>a. [Op_repr a, Op_catlen [32]]) args)) xs = Some (xs @ concat (map (\<lambda>a. repr a @ [32]) args))"
proof (induction args arbitrary: xs)
  case (Cons a args)
  have "length a \<le> length (concat (map repr_byte a))"
    by (induction a) (auto simp: repr_byte_def)
  then have "length a + 2 \<le> length (repr a)" by (simp add: repr_def)
  then show ?case using Cons.IH [of "xs @ repr a @ [32]"] Cons.prems by simp
qed simp

text \<open>
  C36: a line of arguments quoted with \<open>sdscatrepr\<close>, each followed by a space, is split by
  \<open>sdssplitargs\<close> into the same arguments, whatever bytes they contain.
\<close>

theorem sdssplitargs_repr:
  assumes "sds_mem malloc M" "\<And>n. nallocx n = 0 \<or> n \<le> nallocx n" "21 \<le> length junk"
    "8 * (length (concat (map (\<lambda>a. repr a @ [32]) args)) + 1) + 1048594 \<le> M"
  shows "\<exists>s0 s toks. sdsempty malloc = Some s0 \<and>
    sds_run malloc nallocx junk (concat (map (\<lambda>a. [Op_repr a, Op_catlen [32]]) args)) s0 = Some s \<and>
    sdssplitargs malloc (sds_buf s) = Some (Ptr toks) \<and>
    list_all2 (\<lambda>t a. sdslen t = length a \<and> take (length a) (sds_buf t) = a) toks args"
proof -
  let ?line = "concat (map (\<lambda>a. repr a @ [32]) args)"
  obtain s0 where s0: "sdsempty malloc = Some s0" "sds_rep s0 []" using sdsempty_rep [OF assms(1)] assms(4) by auto
  have "byte_run M (concat (map (\<lambda>a. [Op_repr a, Op_catlen [32]]) args)) [] = Some ?line"
    using byte_run_quoted [of "[]" args M] assms(4) by simp
  from sds_run_rep [OF assms(1-3) s0(2) this] obtain s where
    s: "sds_run malloc nallocx junk (concat (map (\<lambda>a. [Op_repr a, Op_catlen [32]]) args)) s0 = Some s" "sds_rep s ?line" by blast
  obtain rest where rest: "sds_buf s = ?line @ 0 # rest" using s(2) by (rule sds_at_bufE)
  have "length args \<le> length ?line" by (induction args) (auto simp: repr_def)
  then have "8 * (length ([] :: sds list) + length args + 1) \<le> M" "2 * length ?line + 1048594 \<le> M" using assms(4) by auto
  from sdssplitargs_loop_quoted [OF assms(1) this(2,1), of rest] obtain toks where
    toks: "sdssplitargs malloc (sds_buf s) = Some (Ptr toks)" "list_all2 sds_rep toks args" by (auto simp: sdssplitargs_def rest)
  have "list_all2 (\<lambda>t a. sdslen t = length a \<and> take (length a) (sds_buf t) = a) toks args"
    by (rule list_all2_mono [OF toks(2)]) (auto elim: sds_at_bufE)
  then show ?thesis using s0(1) s(1) toks(1) by blast
qed

theorem sdssplitargs_repr_witness:
  "\<exists>s0 s toks. sdsempty (\<lambda>n. Some (replicate n 7)) = Some s0 \<and>
    sds_run (\<lambda>n. Some (replicate n 7)) (\<lambda>n. n) (replicate 21 9) [Op_repr [65, 0, 34], Op_catlen [32], Op_repr [], Op_catlen [32]] s0 = Some s \<and>
    sdssplitargs (\<lambda>n. Some (replicate n 7)) (sds_buf s) = Some (Ptr toks) \<and>
    list_all2 (\<lambda>t a. sdslen t = length a \<and> take (length a) (sds_buf t) = a) toks [[65, 0, 34], []]"
proof -
  have mem: "sds_mem (\<lambda>n. Some (replicate n 7)) 3000000" by (simp add: sds_mem_def)
  have ops: "concat (map (\<lambda>a. [Op_repr a, Op_catlen [32]]) [[65, 0, 34], []]) = [Op_repr [65, 0, 34], Op_catlen [32], Op_repr [], Op_catlen [32]]"
    by simp
  show ?thesis by (rule sdssplitargs_repr [OF mem, where args = "[[65, 0, 34], []]", unfolded ops]) (simp_all add: repr_def repr_byte_def)
qed

text \<open>Splitting at the leftmost separators; \<open>acc\<close> is the current token.\<close>

function byte_split :: "buf \<Rightarrow> buf \<Rightarrow> buf \<Rightarrow> buf list" where
  "byte_split sep acc [] = [acc]"
| "byte_split sep acc (x # xs) =
     (if sep \<noteq> [] \<and> take (length sep) (x # xs) = sep then acc # byte_split sep [] (drop (length sep) (x # xs))
      else byte_split sep (acc @ [x]) xs)"
  by pat_completeness auto
termination
  by (relation "measure (\<lambda>(_, _, xs). length xs)") auto

fun byte_join :: "buf \<Rightarrow> buf list \<Rightarrow> buf" where
  "byte_join sep [] = []"
| "byte_join sep (t # ts) = t @ (if ts = [] then [] else sep @ byte_join sep ts)"

lemma byte_split_nonempty [simp]: "byte_split sep acc xs \<noteq> []"
  by (induction sep acc xs rule: byte_split.induct) auto

lemma byte_join_split: "byte_join sep (byte_split sep acc xs) = acc @ xs"
proof (induction sep acc xs rule: byte_split.induct)
  case (2 sep acc x xs)
  show ?case
  proof (cases "sep \<noteq> [] \<and> take (length sep) (x # xs) = sep")
    case True
    have "sep @ drop (length sep) (x # xs) = x # xs" using True append_take_drop_id [of "length sep" "x # xs"] by metis
    then show ?thesis using "2.IH"(1) [OF True] True by simp
  next
    case False
    then show ?thesis using "2.IH"(2) by auto
  qed
qed simp

lemma byte_split_short: "length xs < length sep \<Longrightarrow> byte_split sep acc xs = [acc @ xs]"
proof (induction sep acc xs rule: byte_split.induct)
  case (2 sep acc x xs)
  have "take (length sep) (x # xs) \<noteq> sep" using "2.prems" by (metis length_take min_less_iff_conj nat_less_le)
  then show ?case using "2.IH"(2) "2.prems" by auto
qed simp

lemma memcmp_0: "length a = length b \<Longrightarrow> memcmp a b = 0 \<longleftrightarrow> a = b"
  by (induction a b rule: list_induct2) auto

lemma sdsnewlen_part:
  assumes "sds_mem malloc M" "length xs + 18 \<le> M" "start \<le> j" "j \<le> length xs"
  shows "\<exists>t. sdsnewlen malloc (Init_from (drop start xs)) (j - start) = Some t \<and> sds_rep t (drop start (take j xs))"
proof (rule sdsnewlen_rep [OF assms(1)])
  show "j - start + 18 \<le> M" using assms(2,4) by linarith
  show "case Init_from (drop start xs) of Init_zero \<Rightarrow> drop start (take j xs) = replicate (j - start) 0 | SDS_NOINIT \<Rightarrow> False
      | Init_from b \<Rightarrow> j - start \<le> length b \<and> drop start (take j xs) = take (j - start) b"
    using assms(3,4) by (simp add: drop_take)
qed

lemma sdssplitlen_loop_split:
  assumes M: "sds_mem malloc M" "length xs + 18 \<le> M" "16 * (length xs + 2) \<le> M" "2 * (length xs + 2) \<le> 2147483647" and sep: "sep \<noteq> []"
  assumes "start \<le> j" "j \<le> length xs" "length tokens \<le> j" "length tokens < slots" "list_all2 sds_rep tokens ts"
  shows "\<exists>slots' start' tokens' ts'. sdssplitlen_loop malloc xs (length xs) sep (length sep) slots start j tokens = Some (slots', start', tokens') \<and>
    length tokens' < slots' \<and> start' \<le> length xs \<and> list_all2 sds_rep tokens' ts' \<and>
    ts' @ [drop start' xs] = ts @ byte_split sep (drop start (take j xs)) (drop j xs)"
  using assms(6-10)
proof (induction "length xs - j" arbitrary: start j tokens ts slots rule: less_induct)
  case less
  let ?L = "sdssplitlen_loop malloc xs (length xs) sep (length sep)"
  have sl: "0 < length sep" using sep by simp
  show ?case
  proof (cases "j + length sep \<le> length xs")
    case False
    then have "?L slots start j tokens = Some (slots, start, tokens)" using sl by (subst sdssplitlen_loop.simps) auto
    moreover have "byte_split sep (drop start (take j xs)) (drop j xs) = [drop start (take j xs) @ drop j xs]"
      using False less.prems(2) by (intro byte_split_short) auto
    moreover have "drop start (take j xs) @ drop j xs = drop start xs"
    proof -
      have "drop start (take j xs @ drop j xs) = drop start (take j xs) @ drop j xs"
        using less.prems(1,2) by (simp del: append_take_drop_id)
      then show ?thesis by simp
    qed
    ultimately show ?thesis using less.prems by (intro exI [of _ slots] exI [of _ start] exI [of _ tokens] exI [of _ ts]) simp
  next
    case True
    define slots2 where "slots2 = (if slots < length tokens + 2 then slots * 2 else slots)"
    have grow: "(if slots < length tokens + 2
                  then Option.bind (assertC (slots * 2 \<le> 2147483647)) (\<lambda>_. Option.bind (malloc (8 * (slots * 2))) (\<lambda>_. Some (slots * 2)))
                  else Some slots) = Some slots2"
    proof (cases "slots < length tokens + 2")
      case g: True
      then have "slots * 2 \<le> 2147483647" "8 * (slots * 2) \<le> M" using M(3,4) less.prems by auto
      then show ?thesis using g sds_memE [OF M(1), of "8 * (slots * 2)"] unfolding slots2_def by fastforce
    qed (simp add: slots2_def)
    have s2: "length tokens + 1 < slots2" using less.prems(4) by (auto simp: slots2_def)
    have r: "rd_range xs j (length sep) = Some (take (length sep) (drop j xs))" "rd_range sep 0 (length sep) = Some sep"
      using True by (simp_all add: rd_range_def)
    have len: "length (take (length sep) (drop j xs)) = length sep" using True by simp
    have guard: "0 < length sep \<and> int j < int (length xs) - (int (length sep) - 1)" using True sl by linarith
    have jl: "j < length xs" using True sl by linarith
    then obtain x ys where dj: "drop j xs = x # ys" by (cases "drop j xs") auto
    have dj': "ys = drop (Suc j) xs" using dj by (metis drop_Suc list.sel(3) tl_drop)
    show ?thesis
    proof (cases "take (length sep) (drop j xs) = sep")
      case match: True
      obtain t where t: "sdsnewlen malloc (Init_from (drop start xs)) (j - start) = Some t" "sds_rep t (drop start (take j xs))"
        using sdsnewlen_part [OF M(1,2) less.prems(1,2)] by blast
      have "?L slots start j tokens = ?L slots2 (j + length sep) (j + length sep) (tokens @ [t])"
        using guard grow r match t(1) s2 memcmp_0 [OF len] by (subst sdssplitlen_loop.simps) simp
      moreover have "byte_split sep (drop start (take j xs)) (drop j xs) =
          drop start (take j xs) # byte_split sep (drop (j + length sep) (take (j + length sep) xs)) (drop (j + length sep) xs)"
      proof -
        have "drop (length sep) (x # ys) = drop (j + length sep) xs" unfolding dj [symmetric] by (simp add: add.commute)
        then show ?thesis using match sep by (simp add: dj)
      qed
      moreover have "\<exists>slots' start' tokens' ts'. ?L slots2 (j + length sep) (j + length sep) (tokens @ [t]) = Some (slots', start', tokens') \<and>
          length tokens' < slots' \<and> start' \<le> length xs \<and> list_all2 sds_rep tokens' ts' \<and>
          ts' @ [drop start' xs] = (ts @ [drop start (take j xs)]) @
            byte_split sep (drop (j + length sep) (take (j + length sep) xs)) (drop (j + length sep) xs)"
      proof (rule less.hyps)
        show "length xs - (j + length sep) < length xs - j" "length (tokens @ [t]) \<le> j + length sep"
          using True sl less.prems(3) by (simp_all only: length_append list.size)
        show "list_all2 sds_rep (tokens @ [t]) (ts @ [drop start (take j xs)])"
          using less.prems(5) t(2) by (intro list_all2_appendI) simp_all
      qed (use True s2 in auto)
      ultimately show ?thesis by simp
    next
      case nomatch: False
      have "hd c \<noteq> hd d" if "length c = 1" "length d = 1" "c \<noteq> d" for c d :: buf using that by (auto simp: length_Suc_conv)
      then have "\<not> (length sep = 1 \<and> hd (take (length sep) (drop j xs)) = hd sep \<or> memcmp (take (length sep) (drop j xs)) sep = 0)"
        using len nomatch memcmp_0 [OF len] by metis
      then have "?L slots start j tokens = ?L slots2 start (j + 1) tokens"
        using guard grow r by (subst sdssplitlen_loop.simps) auto
      moreover have "drop start (take (j + 1) xs) = drop start (take j xs) @ [x]"
        using dj less.prems(1) jl by (simp add: take_Suc_conv_app_nth nth_via_drop)
      then have "byte_split sep (drop start (take j xs)) (drop j xs) = byte_split sep (drop start (take (j + 1) xs)) (drop (j + 1) xs)"
        using nomatch dj dj' by simp
      moreover have "\<exists>slots' start' tokens' ts'. ?L slots2 start (j + 1) tokens = Some (slots', start', tokens') \<and>
          length tokens' < slots' \<and> start' \<le> length xs \<and> list_all2 sds_rep tokens' ts' \<and>
          ts' @ [drop start' xs] = ts @ byte_split sep (drop start (take (j + 1) xs)) (drop (j + 1) xs)"
      proof (rule less.hyps)
        show "length xs - (j + 1) < length xs - j" using True sl by linarith
        show "j + 1 \<le> length xs" using True sl by linarith
      qed (use less.prems s2 in auto)
      ultimately show ?thesis by simp
    qed
  qed
qed

lemma sdsjoinsds_loop_rep:
  assumes "sds_mem malloc M" "sds_rep join js" "list_all2 sds_rep toks ts" "2 * (length js + length (byte_join sep ts)) + 1048594 \<le> M"
  shows "\<exists>s. sdsjoinsds_loop malloc toks sep (length sep) join = Some s \<and> sds_rep s (js @ byte_join sep ts)"
  using assms(3,2,4)
proof (induction toks ts arbitrary: join js rule: list_all2_induct)
  case (Cons tok toks t ts)
  obtain rest where rest: "sds_buf tok = t @ 0 # rest" using Cons.hyps(1) by (rule sds_at_bufE)
  obtain j1 where j1: "sdscatsds malloc join tok = Some j1" "sds_rep j1 (js @ t)"
    using sdscatlen_rep [OF Cons.prems(1) assms(1), of "length t" "sds_buf tok"] Cons.prems(2) Cons.hyps(1) rest
    by (auto simp: sdscatsds_def)
  show ?case
  proof (cases "ts = []")
    case True
    then show ?thesis using j1 Cons.hyps(2) by simp
  next
    case False
    then have "toks \<noteq> []" using Cons.hyps(2) by auto
    moreover obtain j2 where j2: "sdscatlen malloc j1 sep (length sep) = Some j2" "sds_rep j2 (js @ t @ sep)"
      using sdscatlen_rep [OF j1(2) assms(1), of "length sep" sep] Cons.prems(2) False by auto
    ultimately show ?thesis using Cons.IH [OF j2(2)] Cons.prems(2) False j1(1) by simp
  qed
qed auto

text \<open>
  C37: splitting a string at a separator gives the tokens between its leftmost occurrences, each a
  string of its own in a slot that exists, and joining them with the separator gives the string back.
\<close>

theorem sdssplitlen_join:
  assumes "sds_mem malloc M" "16 * (length xs + 2) + 1048594 \<le> M" "2 * (length xs + 2) \<le> 2147483647" "xs \<noteq> []" "sep \<noteq> []"
  shows "\<exists>toks s. sdssplitlen malloc xs (int (length xs)) sep (int (length sep)) = Some (Ptr toks) \<and>
    list_all2 sds_rep toks (byte_split sep [] xs) \<and>
    sdsjoinsds malloc toks sep (length sep) = Some s \<and> sds_rep s xs"
proof -
  have M: "length xs + 18 \<le> M" "16 * (length xs + 2) \<le> M" "8 * 5 \<le> M" using assms(2) by auto
  obtain slots start tokens ts where l: "sdssplitlen_loop malloc xs (length xs) sep (length sep) 5 0 0 [] = Some (slots, start, tokens)"
    "length tokens < slots" "start \<le> length xs" "list_all2 sds_rep tokens ts" "ts @ [drop start xs] = byte_split sep [] xs"
    using sdssplitlen_loop_split [OF assms(1) M(1,2) assms(3,5), of 0 0 "[]" 5 "[]"] by auto
  obtain t where t: "sdsnewlen malloc (Init_from (drop start xs)) (length xs - start) = Some t" "sds_rep t (drop start xs)"
    using sdsnewlen_part [OF assms(1) M(1) l(3) order_refl] by auto
  obtain b where "malloc (8 * 5) = Some b" using sds_memE [OF assms(1) M(3)] by blast
  then have split: "sdssplitlen malloc xs (int (length xs)) sep (int (length sep)) = Some (Ptr (tokens @ [t]))"
    using l(1,2) t(1) assms(4,5) by (simp add: sdssplitlen_def)
  have all: "list_all2 sds_rep (tokens @ [t]) (byte_split sep [] xs)"
    unfolding l(5) [symmetric] using l(4) t(2) by (intro list_all2_appendI) simp_all
  obtain s0 where s0: "sdsempty malloc = Some s0" "sds_rep s0 []" using sdsempty_rep [OF assms(1)] assms(2) by auto
  have "\<exists>s. sdsjoinsds_loop malloc (tokens @ [t]) sep (length sep) s0 = Some s \<and> sds_rep s ([] @ byte_join sep (byte_split sep [] xs))"
    by (rule sdsjoinsds_loop_rep [OF assms(1) s0(2) all]) (use assms(2) in \<open>simp add: byte_join_split\<close>)
  then show ?thesis using split all s0(1) by (auto simp: sdsjoinsds_def byte_join_split)
qed

theorem sdssplitlen_join_witness:
  "\<exists>toks s. sdssplitlen (\<lambda>n. Some (replicate n 7)) [97, 95, 45, 98, 95] (int (length [97, 95, 45, 98, 95 :: byte])) [95, 45] (int (length [95, 45 :: byte])) = Some (Ptr toks) \<and>
    list_all2 sds_rep toks [[97], [98, 95]] \<and>
    sdsjoinsds (\<lambda>n. Some (replicate n 7)) toks [95, 45] (length [95, 45 :: byte]) = Some s \<and> sds_rep s [97, 95, 45, 98, 95]"
proof -
  have mem: "sds_mem (\<lambda>n. Some (replicate n 7)) 3000000" by (simp add: sds_mem_def)
  have split: "byte_split [95, 45] [] [97, 95, 45, 98, 95] = [[97], [98, 95]]" by simp
  show ?thesis by (rule sdssplitlen_join [OF mem, where xs = "[97, 95, 45, 98, 95]" and sep = "[95, 45]", unfolded split]) simp_all
qed

end
