(* ===== verification/Dict.thy ===== *)
theory Dict
  imports Redis_Prelude
begin

text \<open>
  The hash table with incremental rehashing of \<open>dict.c\<close> and \<open>dict.h\<close>. A bucket is the list of the
  entries of its chain, first entry first, and an empty bucket is a NULL pointer; a table is the list of its
  buckets, and the list is empty when the table pointer is NULL. An entry that is linked in a table is designated by table, bucket and
  position. Keys and values are pointers; the callbacks of a \<open>dictType\<close> are parameters, those
  that do not influence the dictionary (destructors, notifications) are recorded in a trace. The
  allocation of a table is a parameter \<open>zcalloc_ok\<close> on the number of bytes; a refused \<open>zcalloc\<close> aborts
  the program, a refused \<open>ztrycalloc\<close> is reported. Allocations of single entries succeed.
\<close>

subsection \<open>Types\<close>

text \<open>
  An entry is a normal one, one without a value, or an odd key pointer stored in place of an
  entry. The value of a normal entry is \<open>None\<close> until it is first set.
\<close>

datatype ('k, 'v) dictEntry = Normal 'k "'v option" | NoValue 'k | KeyPtr 'k

datatype ('k, 'v) dict_event =
  KeyDestructor 'k | ValDestructor 'v | RehashingStarted | RehashingCompleted | EmptyCallback
  | OnDictRelease

text \<open>
  A callback that only has effects outside the dictionary is present or not. \<open>resizeAllowed\<close>
  receives the memory to allocate and the load factor as a pair of integers. \<open>key_lsb\<close> is the least
  significant bit of a key pointer.
\<close>

record ('k, 'v) dictType =
  hashFunction :: "'k \<Rightarrow> 64 word"
  keyDup :: "('k \<Rightarrow> 'k) nullable"
  valDup :: "('v \<Rightarrow> 'v) nullable"
  keyCompare :: "('k \<Rightarrow> 'k \<Rightarrow> bool) nullable"
  keyDestructor :: bool
  valDestructor :: bool
  resizeAllowed :: "(nat \<Rightarrow> nat \<times> nat \<Rightarrow> bool) nullable"
  rehashingStarted :: bool
  rehashingCompleted :: bool
  onDictRelease :: bool
  no_value :: bool
  keys_are_odd :: bool
  storedHashFunction :: "('k \<Rightarrow> 64 word) nullable"
  storedKeyCompare :: "('k \<Rightarrow> 'k \<Rightarrow> bool) nullable"
  key_lsb :: "'k \<Rightarrow> bool"

text \<open>The arrays of two of the C structure are functions of the index.\<close>

record ('k, 'v) dict =
  ht_table :: "nat \<Rightarrow> ('k, 'v) dictEntry list list"
  ht_used :: "nat \<Rightarrow> nat"
  rehashidx :: int
  pauserehash :: nat
  useStoredKeyApi :: bool
  ht_size_exp :: "nat \<Rightarrow> int"
  pauseAutoResize :: int
  d_trace :: "('k, 'v) dict_event list"

datatype dictResizeEnable = DICT_RESIZE_ENABLE | DICT_RESIZE_AVOID | DICT_RESIZE_FORBID

text \<open>The static variable \<open>dict_can_resize\<close> and the allocator.\<close>

record dict_env =
  dict_can_resize :: dictResizeEnable
  zcalloc_ok :: "nat \<Rightarrow> bool"

abbreviation (input) dict_force_resize_ratio :: nat where "dict_force_resize_ratio \<equiv> 4"
abbreviation (input) HASHTABLE_MIN_FILL :: nat where "HASHTABLE_MIN_FILL \<equiv> 8"
abbreviation (input) DICT_HT_INITIAL_EXP :: int where "DICT_HT_INITIAL_EXP \<equiv> 2"
abbreviation (input) DICT_HT_INITIAL_SIZE :: nat where "DICT_HT_INITIAL_SIZE \<equiv> 4"

text \<open>A location of an entry: table, bucket, position in the chain.\<close>

type_synonym entry_loc = "nat \<times> nat \<times> nat"

definition DICTHT_SIZE :: "int \<Rightarrow> nat" where
  "DICTHT_SIZE e = (if e = - 1 then 0 else 2 ^ nat e)"

definition DICTHT_SIZE_MASK :: "int \<Rightarrow> 64 word" where
  "DICTHT_SIZE_MASK e = (if e = - 1 then 0 else push_bit (nat e) 1 - 1)"

definition dictIsRehashing :: "('k, 'v) dict \<Rightarrow> bool" where
  "dictIsRehashing d \<longleftrightarrow> rehashidx d \<noteq> - 1"

definition dictSize :: "('k, 'v) dict \<Rightarrow> nat" where
  "dictSize d = ht_used d 0 + ht_used d 1"

definition dictBuckets :: "('k, 'v) dict \<Rightarrow> nat" where
  "dictBuckets d = DICTHT_SIZE (ht_size_exp d 0) + DICTHT_SIZE (ht_size_exp d 1)"

definition dictPauseRehashing :: "('k, 'v) dict \<Rightarrow> ('k, 'v) dict" where
  "dictPauseRehashing d = d\<lparr>pauserehash := (pauserehash d + 1) mod 32768\<rparr>"

definition dictResumeRehashing :: "('k, 'v) dict \<Rightarrow> ('k, 'v) dict" where
  "dictResumeRehashing d = d\<lparr>pauserehash := (pauserehash d + 32767) mod 32768\<rparr>"

definition dictPauseAutoResize :: "('k, 'v) dict \<Rightarrow> ('k, 'v) dict" where
  "dictPauseAutoResize d = d\<lparr>pauseAutoResize := (pauseAutoResize d + 32769) mod 65536 - 32768\<rparr>"

definition dictResumeAutoResize :: "('k, 'v) dict \<Rightarrow> ('k, 'v) dict" where
  "dictResumeAutoResize d = d\<lparr>pauseAutoResize := (pauseAutoResize d + 32767) mod 65536 - 32768\<rparr>"

definition dictUseStoredKeyApi :: "('k, 'v) dict \<Rightarrow> bool \<Rightarrow> ('k, 'v) dict" where
  "dictUseStoredKeyApi d flag = d\<lparr>useStoredKeyApi := flag\<rparr>"

definition dictDefaultCompare :: "'k \<Rightarrow> 'k \<Rightarrow> bool" where
  "dictDefaultCompare key1 key2 \<longleftrightarrow> key1 = key2"

definition dictGetKeyCmpFunc :: "('k, 'v) dictType \<Rightarrow> bool \<Rightarrow> 'k \<Rightarrow> 'k \<Rightarrow> bool" where
  "dictGetKeyCmpFunc T useStored =
     (case (useStored, storedKeyCompare T) of
        (True, Ptr f) \<Rightarrow> f
      | _ \<Rightarrow> (case keyCompare T of Ptr f \<Rightarrow> f | NULL \<Rightarrow> dictDefaultCompare))"

definition dictHashKey :: "('k, 'v) dictType \<Rightarrow> 'k \<Rightarrow> bool \<Rightarrow> 64 word" where
  "dictHashKey T key isStoredKey =
     (case (isStoredKey, storedHashFunction T) of
        (True, Ptr f) \<Rightarrow> f key
      | _ \<Rightarrow> hashFunction T key)"


subsection \<open>Entries\<close>

fun dictGetKey :: "('k, 'v) dictEntry \<Rightarrow> 'k" where
  "dictGetKey (KeyPtr k) = k"
| "dictGetKey (NoValue k) = k"
| "dictGetKey (Normal k v) = k"

fun entryIsKey :: "('k, 'v) dictEntry \<Rightarrow> bool" where
  "entryIsKey (KeyPtr k) = True"
| "entryIsKey e = False"

fun entryIsNoValue :: "('k, 'v) dictEntry \<Rightarrow> bool" where
  "entryIsNoValue (NoValue k) = True"
| "entryIsNoValue e = False"

fun entryHasValue :: "('k, 'v) dictEntry \<Rightarrow> bool" where
  "entryHasValue (Normal k v) = True"
| "entryHasValue e = False"

text \<open>Reading a value faults when the entry has none, by the assertion, or when it was never set.\<close>

fun dictGetVal :: "('k, 'v) dictEntry \<Rightarrow> 'v option" where
  "dictGetVal (Normal k v) = v"
| "dictGetVal e = None"

text \<open>
  The entries met by following \<open>dictGetNext\<close> from the head of a chain: a key pointer has no next
  entry.
\<close>

fun chain :: "('k, 'v) dictEntry list \<Rightarrow> ('k, 'v) dictEntry list" where
  "chain [] = []"
| "chain (e # es) = e # (if entryIsKey e then [] else chain es)"

definition entry_at :: "('k, 'v) dict \<Rightarrow> entry_loc \<Rightarrow> ('k, 'v) dictEntry option" where
  "entry_at d p = (case p of (t, i, j) \<Rightarrow> Option.bind (rd (ht_table d t) i) (\<lambda>b. rd b j))"

definition set_entry :: "('k, 'v) dict \<Rightarrow> entry_loc \<Rightarrow> ('k, 'v) dictEntry \<Rightarrow> ('k, 'v) dict option" where
  "set_entry d p e = (case p of (t, i, j) \<Rightarrow>
     do { b \<leftarrow> rd (ht_table d t) i; b' \<leftarrow> wr b j e; tb \<leftarrow> wr (ht_table d t) i b';
          Some (d\<lparr>ht_table := (ht_table d)(t := tb)\<rparr>) })"

definition dictSetVal ::
  "('k, 'v) dictType \<Rightarrow> ('k, 'v) dict \<Rightarrow> entry_loc \<Rightarrow> 'v \<Rightarrow> ('k, 'v) dict option" where
  "dictSetVal T d de val = do {
     e \<leftarrow> entry_at d de;
     assertC (entryHasValue e);
     set_entry d de (Normal (dictGetKey e)
       (Some (case valDup T of NULL \<Rightarrow> val | Ptr f \<Rightarrow> f val))) }"

definition dictSetKey ::
  "('k, 'v) dictType \<Rightarrow> ('k, 'v) dict \<Rightarrow> entry_loc \<Rightarrow> 'k \<Rightarrow> ('k, 'v) dict option" where
  "dictSetKey T d de key = do {
     e \<leftarrow> entry_at d de;
     assertC (\<not> no_value T);
     set_entry d de (Normal (case keyDup T of NULL \<Rightarrow> key | Ptr f \<Rightarrow> f key) (dictGetVal e)) }"

definition log_event :: "bool \<Rightarrow> ('k, 'v) dict_event \<Rightarrow> ('k, 'v) dict \<Rightarrow> ('k, 'v) dict" where
  "log_event present ev d = (if present then d\<lparr>d_trace := d_trace d @ [ev]\<rparr> else d)"

definition dictFreeKey :: "('k, 'v) dictType \<Rightarrow> ('k, 'v) dict \<Rightarrow> ('k, 'v) dictEntry \<Rightarrow> ('k, 'v) dict" where
  "dictFreeKey T d e = log_event (keyDestructor T) (KeyDestructor (dictGetKey e)) d"

definition dictFreeVal ::
  "('k, 'v) dictType \<Rightarrow> ('k, 'v) dict \<Rightarrow> ('k, 'v) dictEntry \<Rightarrow> ('k, 'v) dict option" where
  "dictFreeVal T d e =
     (if valDestructor T
      then do { v \<leftarrow> dictGetVal e; Some (log_event True (ValDestructor v) d) }
      else Some d)"

definition dictFreeUnlinkedEntry ::
  "('k, 'v) dictType \<Rightarrow> ('k, 'v) dict \<Rightarrow> ('k, 'v) dictEntry nullable \<Rightarrow> ('k, 'v) dict option" where
  "dictFreeUnlinkedEntry T d he =
     (case he of NULL \<Rightarrow> Some d | Ptr e \<Rightarrow> dictFreeVal T (dictFreeKey T d e) e)"


subsection \<open>Creation and resizing\<close>

definition dictReset :: "('k, 'v) dict \<Rightarrow> nat \<Rightarrow> ('k, 'v) dict" where
  "dictReset d htidx = d\<lparr>ht_table := (ht_table d)(htidx := []),
     ht_size_exp := (ht_size_exp d)(htidx := - 1), ht_used := (ht_used d)(htidx := 0)\<rparr>"

definition dictInit :: "('k, 'v) dict \<Rightarrow> ('k, 'v) dict" where
  "dictInit d = (dictReset (dictReset d 0) 1)\<lparr>rehashidx := - 1, pauserehash := 0,
     pauseAutoResize := 0, useStoredKeyApi := False\<rparr>"

text \<open>The memory of a new dictionary is indeterminate before it is initialised.\<close>

definition dictCreate :: "('k, 'v) dict \<Rightarrow> ('k, 'v) dict" where
  "dictCreate mem = dictInit mem"

fun bit_length :: "nat \<Rightarrow> nat" where
  "bit_length n = (if n = 0 then 0 else Suc (bit_length (n div 2)))"

definition builtin_clzl :: "nat \<Rightarrow> nat" where
  "builtin_clzl x = 64 - bit_length x"

definition dictNextExp :: "nat \<Rightarrow> int" where
  "dictNextExp sz =
     (if sz \<le> DICT_HT_INITIAL_SIZE then DICT_HT_INITIAL_EXP
      else if sz \<ge> 9223372036854775807 then 8 * 8 - 1
      else 8 * 8 - int (builtin_clzl (sz - 1)))"

text \<open>
  \<open>dictResize\<close> is \<open>_dictResize\<close>. \<open>mayfail\<close> says that \<open>malloc_failed\<close> is not NULL. The results are whether the
  resize was performed and what \<open>*malloc_failed\<close> holds.
\<close>

definition dictResize ::
  "('k, 'v) dictType \<Rightarrow> dict_env \<Rightarrow> ('k, 'v) dict \<Rightarrow> nat \<Rightarrow> bool \<Rightarrow> (('k, 'v) dict \<times> bool \<times> bool) option" where
  "dictResize T g d sz mayfail = do {
     assertC (\<not> dictIsRehashing d);
     let new_ht_size_exp = dictNextExp sz;
     let newsize = DICTHT_SIZE new_ht_size_exp;
     if newsize < sz \<or> newsize * 8 mod 18446744073709551616 < newsize then Some (d, False, False)
     else if new_ht_size_exp = ht_size_exp d 0 then Some (d, False, False)
     else if \<not> zcalloc_ok g (newsize * 8) then
       (if mayfail then Some (d, False, True) else None)
     else do {
       let new_ht_table = replicate newsize [];
       let d1 = log_event (rehashingStarted T) RehashingStarted
         (d\<lparr>ht_size_exp := (ht_size_exp d)(1 := new_ht_size_exp), ht_used := (ht_used d)(1 := 0),
            ht_table := (ht_table d)(1 := new_ht_table), rehashidx := 0\<rparr>);
       if ht_table d1 0 = [] \<or> ht_used d1 0 = 0 then do {
         let d2 = log_event (rehashingCompleted T) RehashingCompleted d1;
         Some ((dictReset (d2\<lparr>ht_size_exp := (ht_size_exp d2)(0 := new_ht_size_exp),
             ht_used := (ht_used d2)(0 := 0),
             ht_table := (ht_table d2)(0 := new_ht_table)\<rparr>) 1)\<lparr>rehashidx := - 1\<rparr>, True, False) }
       else Some (d1, True, False) } }"

definition dictExpand_generic ::
  "('k, 'v) dictType \<Rightarrow> dict_env \<Rightarrow> ('k, 'v) dict \<Rightarrow> nat \<Rightarrow> bool \<Rightarrow> (('k, 'v) dict \<times> bool \<times> bool) option" where
  "dictExpand_generic T g d sz mayfail =
     (if dictIsRehashing d \<or> ht_used d 0 > sz \<or> DICTHT_SIZE (ht_size_exp d 0) \<ge> sz
      then Some (d, False, False)
      else dictResize T g d sz mayfail)"

definition dictExpand ::
  "('k, 'v) dictType \<Rightarrow> dict_env \<Rightarrow> ('k, 'v) dict \<Rightarrow> nat \<Rightarrow> (('k, 'v) dict \<times> bool) option" where
  "dictExpand T g d sz = do {
     (d', ok, mf) \<leftarrow> dictExpand_generic T g d sz False; Some (d', ok) }"

definition dictTryExpand ::
  "('k, 'v) dictType \<Rightarrow> dict_env \<Rightarrow> ('k, 'v) dict \<Rightarrow> nat \<Rightarrow> (('k, 'v) dict \<times> bool) option" where
  "dictTryExpand T g d sz = do {
     (d', ok, mf) \<leftarrow> dictExpand_generic T g d sz True; Some (d', \<not> mf) }"

definition dictShrink ::
  "('k, 'v) dictType \<Rightarrow> dict_env \<Rightarrow> ('k, 'v) dict \<Rightarrow> nat \<Rightarrow> (('k, 'v) dict \<times> bool) option" where
  "dictShrink T g d sz =
     (if dictIsRehashing d \<or> ht_used d 0 > sz \<or> DICTHT_SIZE (ht_size_exp d 0) \<le> sz
      then Some (d, False)
      else do { (d', ok, mf) \<leftarrow> dictResize T g d sz False; Some (d', ok) })"

definition dictTypeResizeAllowed :: "('k, 'v) dictType \<Rightarrow> ('k, 'v) dict \<Rightarrow> nat \<Rightarrow> bool" where
  "dictTypeResizeAllowed T d sz =
     (case resizeAllowed T of NULL \<Rightarrow> True
      | Ptr f \<Rightarrow> f (DICTHT_SIZE (dictNextExp sz) * 8 mod 18446744073709551616) (ht_used d 0, DICTHT_SIZE (ht_size_exp d 0)))"

definition dictExpandIfNeeded ::
  "('k, 'v) dictType \<Rightarrow> dict_env \<Rightarrow> ('k, 'v) dict \<Rightarrow> (('k, 'v) dict \<times> bool) option" where
  "dictExpandIfNeeded T g d =
     (if dictIsRehashing d then Some (d, True)
      else if DICTHT_SIZE (ht_size_exp d 0) = 0 then
        do { (d', _) \<leftarrow> dictExpand T g d DICT_HT_INITIAL_SIZE; Some (d', True) }
      else if (dict_can_resize g = DICT_RESIZE_ENABLE \<and>
               ht_used d 0 \<ge> DICTHT_SIZE (ht_size_exp d 0)) \<or>
              (dict_can_resize g \<noteq> DICT_RESIZE_FORBID \<and>
               ht_used d 0 \<ge> dict_force_resize_ratio * DICTHT_SIZE (ht_size_exp d 0) mod 18446744073709551616)
      then (if dictTypeResizeAllowed T d (ht_used d 0 + 1)
            then do { (d', _) \<leftarrow> dictExpand T g d (ht_used d 0 + 1); Some (d', True) }
            else Some (d, True))
      else Some (d, False))"

definition dictExpandIfNeeded_auto ::
  "('k, 'v) dictType \<Rightarrow> dict_env \<Rightarrow> ('k, 'v) dict \<Rightarrow> ('k, 'v) dict option" where
  "dictExpandIfNeeded_auto T g d =
     (if pauseAutoResize d > 0 then Some d else map_option fst (dictExpandIfNeeded T g d))"

definition dictShrinkIfNeeded ::
  "('k, 'v) dictType \<Rightarrow> dict_env \<Rightarrow> ('k, 'v) dict \<Rightarrow> (('k, 'v) dict \<times> bool) option" where
  "dictShrinkIfNeeded T g d =
     (if dictIsRehashing d then Some (d, True)
      else if DICTHT_SIZE (ht_size_exp d 0) \<le> DICT_HT_INITIAL_SIZE then Some (d, True)
      else if (dict_can_resize g = DICT_RESIZE_ENABLE \<and>
               ht_used d 0 * HASHTABLE_MIN_FILL mod 18446744073709551616 \<le> DICTHT_SIZE (ht_size_exp d 0)) \<or>
              (dict_can_resize g \<noteq> DICT_RESIZE_FORBID \<and>
               ht_used d 0 * HASHTABLE_MIN_FILL * dict_force_resize_ratio mod 18446744073709551616
                 \<le> DICTHT_SIZE (ht_size_exp d 0))
      then (if dictTypeResizeAllowed T d (ht_used d 0)
            then do { (d', _) \<leftarrow> dictShrink T g d (ht_used d 0); Some (d', True) }
            else Some (d, True))
      else Some (d, False))"

definition dictShrinkIfNeeded_auto ::
  "('k, 'v) dictType \<Rightarrow> dict_env \<Rightarrow> ('k, 'v) dict \<Rightarrow> ('k, 'v) dict option" where
  "dictShrinkIfNeeded_auto T g d =
     (if pauseAutoResize d > 0 then Some d else map_option fst (dictShrinkIfNeeded T g d))"


subsection \<open>Rehashing\<close>

text \<open>The index of the bucket of a hash value in a table.\<close>

definition dict_idx :: "64 word \<Rightarrow> int \<Rightarrow> nat" where
  "dict_idx h e = unat (h AND DICTHT_SIZE_MASK e)"

text \<open>The shape an entry takes when it is put in front of a chain of the destination table.\<close>

definition rehash_entry ::
  "('k, 'v) dictType \<Rightarrow> ('k, 'v) dictEntry \<Rightarrow> ('k, 'v) dictEntry list \<Rightarrow> ('k, 'v) dictEntry option" where
  "rehash_entry T de dest =
     (if no_value T then
        (if keys_are_odd T \<and> dest = [] then do {
           assertC (key_lsb T (dictGetKey de));
           Some (KeyPtr (dictGetKey de)) }
         else if entryIsKey de then Some (NoValue (dictGetKey de))
         else do { assertC (entryIsNoValue de); Some de })
      else do { assertC (\<not> entryIsKey de); Some de })"

fun rehashEntries_loop ::
  "('k, 'v) dictType \<Rightarrow> nat \<Rightarrow> ('k, 'v) dictEntry list \<Rightarrow> ('k, 'v) dict \<Rightarrow> ('k, 'v) dict option" where
  "rehashEntries_loop T idx [] d = Some d"
| "rehashEntries_loop T idx (de # es) d = do {
     let h = (if ht_size_exp d 1 > ht_size_exp d 0
              then dict_idx (dictHashKey T (dictGetKey de) True) (ht_size_exp d 1)
              else dict_idx (of_nat idx) (ht_size_exp d 1));
     dest \<leftarrow> rd (ht_table d 1) h;
     de' \<leftarrow> rehash_entry T de dest;
     tb \<leftarrow> wr (ht_table d 1) h (de' # dest);
     rehashEntries_loop T idx es
       (d\<lparr>ht_table := (ht_table d)(1 := tb),
          ht_used := (ht_used d)(0 := ht_used d 0 - 1, 1 := ht_used d 1 + 1)\<rparr>) }"

definition rehashEntriesInBucketAtIndex ::
  "('k, 'v) dictType \<Rightarrow> ('k, 'v) dict \<Rightarrow> nat \<Rightarrow> ('k, 'v) dict option" where
  "rehashEntriesInBucketAtIndex T d idx = do {
     b \<leftarrow> rd (ht_table d 0) idx;
     d' \<leftarrow> rehashEntries_loop T idx (chain b) d;
     tb \<leftarrow> wr (ht_table d' 0) idx [];
     Some (d'\<lparr>ht_table := (ht_table d')(0 := tb)\<rparr>) }"

definition dictCheckRehashingCompleted ::
  "('k, 'v) dictType \<Rightarrow> ('k, 'v) dict \<Rightarrow> ('k, 'v) dict \<times> bool" where
  "dictCheckRehashingCompleted T d =
     (if ht_used d 0 \<noteq> 0 then (d, False)
      else let d1 = log_event (rehashingCompleted T) RehashingCompleted d in
        ((dictReset (d1\<lparr>ht_table := (ht_table d1)(0 := ht_table d1 1),
            ht_used := (ht_used d1)(0 := ht_used d1 1),
            ht_size_exp := (ht_size_exp d1)(0 := ht_size_exp d1 1)\<rparr>) 1)\<lparr>rehashidx := - 1\<rparr>, True))"

text \<open>
  The inner loop of \<open>dictRehash\<close>: skip empty buckets. The last result says that the limit of visits was
  reached.
\<close>

function dictRehash_skip :: "('k, 'v) dictEntry list list \<Rightarrow> nat \<Rightarrow> int \<Rightarrow> (nat \<times> int \<times> bool) option" where
  "dictRehash_skip tb idx empty_visits =
     (if idx < length tb then
        (if tb ! idx \<noteq> [] then Some (idx, empty_visits, False)
         else if empty_visits - 1 = 0 then Some (idx + 1, 0, True)
         else dictRehash_skip tb (idx + 1) (empty_visits - 1))
      else None)"
  by pat_completeness auto
termination by (relation "measure (\<lambda>(tb, idx, _). length tb - idx)") auto

declare dictRehash_skip.simps [simp del]

text \<open>The outer loop; the result says that it returned because of the limit of visits.\<close>

fun dictRehash_loop ::
  "('k, 'v) dictType \<Rightarrow> nat \<Rightarrow> int \<Rightarrow> ('k, 'v) dict \<Rightarrow> (('k, 'v) dict \<times> bool) option" where
  "dictRehash_loop T 0 empty_visits d = Some (d, False)"
| "dictRehash_loop T (Suc n) empty_visits d =
     (if ht_used d 0 = 0 then Some (d, False)
      else do {
        assertC (DICTHT_SIZE (ht_size_exp d 0) > nat (rehashidx d));
        (idx, ev, limit) \<leftarrow> dictRehash_skip (ht_table d 0) (nat (rehashidx d)) empty_visits;
        let d = d\<lparr>rehashidx := int idx\<rparr>;
        if limit then Some (d, True)
        else do {
          d \<leftarrow> rehashEntriesInBucketAtIndex T d idx;
          dictRehash_loop T n ev (d\<lparr>rehashidx := rehashidx d + 1\<rparr>) } })"

definition rehash_avoided :: "dict_env \<Rightarrow> ('k, 'v) dict \<Rightarrow> bool" where
  "rehash_avoided g d =
     (let s0 = DICTHT_SIZE (ht_size_exp d 0); s1 = DICTHT_SIZE (ht_size_exp d 1) in
      dict_can_resize g = DICT_RESIZE_FORBID \<or> \<not> dictIsRehashing d \<or>
      (dict_can_resize g = DICT_RESIZE_AVOID \<and>
       ((s1 > s0 \<and> s1 < dict_force_resize_ratio * s0 mod 18446744073709551616) \<or>
        (s1 < s0 \<and> s0 < HASHTABLE_MIN_FILL * dict_force_resize_ratio * s1 mod 18446744073709551616))))"

text \<open>
  \<open>n\<close> steps; the result says that more work is left. The computation of the limit overflows an \<open>int\<close>
  beyond 214748364.
\<close>

definition dictRehash ::
  "('k, 'v) dictType \<Rightarrow> dict_env \<Rightarrow> ('k, 'v) dict \<Rightarrow> nat \<Rightarrow> (('k, 'v) dict \<times> bool) option" where
  "dictRehash T g d n = do {
     assertC (int n * 10 \<le> INT32_MAX);
     if rehash_avoided g d then Some (d, False)
     else do {
       (d', limit) \<leftarrow> dictRehash_loop T n (int n * 10) d;
       if limit then Some (d', True)
       else (case dictCheckRehashingCompleted T d' of (d'', completed) \<Rightarrow> Some (d'', \<not> completed)) } }"

text \<open>The answers of the clock to \<open>elapsedUs(timer) >= us\<close> are the last argument.\<close>

fun dictRehashMicroseconds_loop ::
  "('k, 'v) dictType \<Rightarrow> dict_env \<Rightarrow> ('k, 'v) dict \<Rightarrow> nat \<Rightarrow> bool list \<Rightarrow> (('k, 'v) dict \<times> nat) option" where
  "dictRehashMicroseconds_loop T g d rehashes [] = None"
| "dictRehashMicroseconds_loop T g d rehashes (elapsed # es) = do {
     (d', more) \<leftarrow> dictRehash T g d 100;
     if \<not> more then Some (d', rehashes)
     else if elapsed then Some (d', rehashes + 100)
     else dictRehashMicroseconds_loop T g d' (rehashes + 100) es }"

definition dictRehashMicroseconds ::
  "('k, 'v) dictType \<Rightarrow> dict_env \<Rightarrow> ('k, 'v) dict \<Rightarrow> bool list \<Rightarrow> (('k, 'v) dict \<times> nat) option" where
  "dictRehashMicroseconds T g d es =
     (if pauserehash d > 0 then Some (d, 0) else dictRehashMicroseconds_loop T g d 0 es)"

definition dictRehashStep ::
  "('k, 'v) dictType \<Rightarrow> dict_env \<Rightarrow> ('k, 'v) dict \<Rightarrow> ('k, 'v) dict option" where
  "dictRehashStep T g d =
     (if pauserehash d = 0 then map_option fst (dictRehash T g d 1) else Some d)"

definition dictBucketRehash ::
  "('k, 'v) dictType \<Rightarrow> dict_env \<Rightarrow> ('k, 'v) dict \<Rightarrow> nat \<Rightarrow> (('k, 'v) dict \<times> bool) option" where
  "dictBucketRehash T g d idx =
     (if pauserehash d \<noteq> 0 then Some (d, False)
      else if rehash_avoided g d then Some (d, False)
      else do {
        d' \<leftarrow> rehashEntriesInBucketAtIndex T d idx;
        Some (fst (dictCheckRehashingCompleted T d'), True) })"


subsection \<open>Lookup\<close>

text \<open>
  The rehashing work that a lookup, an insertion and a removal do first: the bucket of the key when it still
  has entries in the first table, a step otherwise.
\<close>

definition access_rehash ::
  "('k, 'v) dictType \<Rightarrow> dict_env \<Rightarrow> ('k, 'v) dict \<Rightarrow> nat \<Rightarrow> ('k, 'v) dict option" where
  "access_rehash T g d idx =
     (if dictIsRehashing d then
        (if int idx \<ge> rehashidx d then do {
           b \<leftarrow> rd (ht_table d 0) idx;
           if b \<noteq> [] then map_option fst (dictBucketRehash T g d idx)
           else dictRehashStep T g d }
         else dictRehashStep T g d)
      else Some d)"

text \<open>The position in a chain of the first key that matches.\<close>

fun chain_find :: "('k \<Rightarrow> bool) \<Rightarrow> ('k, 'v) dictEntry list \<Rightarrow> nat nullable" where
  "chain_find P [] = NULL"
| "chain_find P (e # es) =
     (if P (dictGetKey e) then Ptr 0
      else if entryIsKey e then NULL
      else (case chain_find P es of NULL \<Rightarrow> NULL | Ptr j \<Rightarrow> Ptr (Suc j)))"

definition dict_probe ::
  "('k \<Rightarrow> bool) \<Rightarrow> ('k, 'v) dict \<Rightarrow> 64 word \<Rightarrow> nat \<Rightarrow> entry_loc nullable option" where
  "dict_probe P d h table = do {
     let idx = dict_idx h (ht_size_exp d table);
     b \<leftarrow> rd (ht_table d table) idx;
     Some (case chain_find P b of NULL \<Rightarrow> NULL | Ptr j \<Rightarrow> Ptr (table, idx, j)) }"

text \<open>
  The loop over the two tables; \<open>idx\<close> is the index that decides whether the first table is
  skipped.
\<close>

definition dict_search ::
  "('k \<Rightarrow> bool) \<Rightarrow> ('k, 'v) dict \<Rightarrow> 64 word \<Rightarrow> nat \<Rightarrow> entry_loc nullable option" where
  "dict_search P d h idx =
     (if int idx < rehashidx d then dict_probe P d h 1
      else do {
        r \<leftarrow> dict_probe P d h 0;
        case r of
          Ptr p \<Rightarrow> Some (Ptr p)
        | NULL \<Rightarrow> if \<not> dictIsRehashing d then Some NULL else dict_probe P d h 1 })"

definition key_matches :: "('k, 'v) dictType \<Rightarrow> ('k, 'v) dict \<Rightarrow> 'k \<Rightarrow> 'k \<Rightarrow> bool" where
  "key_matches T d key he_key \<longleftrightarrow> key = he_key \<or> dictGetKeyCmpFunc T (useStoredKeyApi d) key he_key"

definition dictFind ::
  "('k, 'v) dictType \<Rightarrow> dict_env \<Rightarrow> ('k, 'v) dict \<Rightarrow> 'k \<Rightarrow> (('k, 'v) dict \<times> entry_loc nullable) option" where
  "dictFind T g d key =
     (if dictSize d = 0 then Some (d, NULL)
      else do {
        let h = dictHashKey T key (useStoredKeyApi d);
        let idx = dict_idx h (ht_size_exp d 0);
        d' \<leftarrow> access_rehash T g d idx;
        r \<leftarrow> dict_search (key_matches T d' key) d' h idx;
        Some (d', r) })"

definition dictFetchValue ::
  "('k, 'v) dictType \<Rightarrow> dict_env \<Rightarrow> ('k, 'v) dict \<Rightarrow> 'k \<Rightarrow> (('k, 'v) dict \<times> 'v nullable) option" where
  "dictFetchValue T g d key = do {
     (d', he) \<leftarrow> dictFind T g d key;
     case he of NULL \<Rightarrow> Some (d', NULL)
     | Ptr p \<Rightarrow> do { e \<leftarrow> entry_at d' p; v \<leftarrow> dictGetVal e; Some (d', Ptr v) } }"

definition dictFindEntryByPtrAndHash ::
  "('k, 'v) dict \<Rightarrow> 'k \<Rightarrow> 64 word \<Rightarrow> entry_loc nullable option" where
  "dictFindEntryByPtrAndHash d oldptr hash =
     (if dictSize d = 0 then Some NULL
      else dict_search ((=) oldptr) d hash (dict_idx hash (ht_size_exp d 0)))"


subsection \<open>Insertion\<close>

text \<open>The results are the existing entry and the position, a bucket of a table; one of them is NULL.\<close>

definition dictFindPositionForInsert ::
  "('k, 'v) dictType \<Rightarrow> dict_env \<Rightarrow> ('k, 'v) dict \<Rightarrow> 'k \<Rightarrow>
     (('k, 'v) dict \<times> entry_loc nullable \<times> (nat \<times> nat) nullable) option" where
  "dictFindPositionForInsert T g d key = do {
     let hash = dictHashKey T key (useStoredKeyApi d);
     let idx = dict_idx hash (ht_size_exp d 0);
     d1 \<leftarrow> access_rehash T g d idx;
     d2 \<leftarrow> dictExpandIfNeeded_auto T g d1;
     r \<leftarrow> dict_search (key_matches T d2 key) d2 hash idx;
     case r of
       Ptr he \<Rightarrow> Some (d2, Ptr he, NULL)
     | NULL \<Rightarrow> (let table = (if dictIsRehashing d2 then 1 else 0) in
         Some (d2, NULL, Ptr (table, dict_idx hash (ht_size_exp d2 table)))) }"

definition dictInsertAtPosition ::
  "('k, 'v) dictType \<Rightarrow> ('k, 'v) dict \<Rightarrow> 'k \<Rightarrow> nat \<times> nat \<Rightarrow> (('k, 'v) dict \<times> entry_loc) option" where
  "dictInsertAtPosition T d key position = do {
     let htidx = (if dictIsRehashing d then 1 else 0);
     assertC (fst position = htidx \<and> snd position \<le> unat (DICTHT_SIZE_MASK (ht_size_exp d htidx)));
     bucket \<leftarrow> rd (ht_table d htidx) (snd position);
     entry \<leftarrow> (if no_value T then
         (if keys_are_odd T \<and> bucket = [] then do { assertC (key_lsb T key); Some (KeyPtr key) }
          else Some (NoValue key))
       else Some (Normal key None));
     tb \<leftarrow> wr (ht_table d htidx) (snd position) (entry # bucket);
     Some (d\<lparr>ht_table := (ht_table d)(htidx := tb),
             ht_used := (ht_used d)(htidx := ht_used d htidx + 1)\<rparr>, (htidx, snd position, 0)) }"

text \<open>The results are the new entry or NULL and the entry that exists already.\<close>

definition dictAddRaw ::
  "('k, 'v) dictType \<Rightarrow> dict_env \<Rightarrow> ('k, 'v) dict \<Rightarrow> 'k \<Rightarrow>
     (('k, 'v) dict \<times> entry_loc nullable \<times> entry_loc nullable) option" where
  "dictAddRaw T g d key = do {
     (d', existing, position) \<leftarrow> dictFindPositionForInsert T g d key;
     case position of
       NULL \<Rightarrow> Some (d', NULL, existing)
     | Ptr pos \<Rightarrow> do {
         (d'', entry) \<leftarrow> dictInsertAtPosition T d'
           (case keyDup T of NULL \<Rightarrow> key | Ptr f \<Rightarrow> f key) pos;
         Some (d'', Ptr entry, existing) } }"

definition dictAdd ::
  "('k, 'v) dictType \<Rightarrow> dict_env \<Rightarrow> ('k, 'v) dict \<Rightarrow> 'k \<Rightarrow> 'v \<Rightarrow> (('k, 'v) dict \<times> bool) option" where
  "dictAdd T g d key val = do {
     (d', entry, existing) \<leftarrow> dictAddRaw T g d key;
     case entry of
       NULL \<Rightarrow> Some (d', False)
     | Ptr p \<Rightarrow> if \<not> no_value T then do { d'' \<leftarrow> dictSetVal T d' p val; Some (d'', True) }
                else Some (d', True) }"

definition dictReplace ::
  "('k, 'v) dictType \<Rightarrow> dict_env \<Rightarrow> ('k, 'v) dict \<Rightarrow> 'k \<Rightarrow> 'v \<Rightarrow> (('k, 'v) dict \<times> bool) option" where
  "dictReplace T g d key val = do {
     (d', entry, existing) \<leftarrow> dictAddRaw T g d key;
     case entry of
       Ptr p \<Rightarrow> do { d'' \<leftarrow> dictSetVal T d' p val; Some (d'', True) }
     | NULL \<Rightarrow> (case existing of NULL \<Rightarrow> None
         | Ptr p \<Rightarrow> do {
             e \<leftarrow> entry_at d' p;
             oldval \<leftarrow> dictGetVal e;
             d'' \<leftarrow> dictSetVal T d' p val;
             Some (log_event (valDestructor T) (ValDestructor oldval) d'', False) }) }"

definition dictAddOrFind ::
  "('k, 'v) dictType \<Rightarrow> dict_env \<Rightarrow> ('k, 'v) dict \<Rightarrow> 'k \<Rightarrow> (('k, 'v) dict \<times> entry_loc nullable) option" where
  "dictAddOrFind T g d key = do {
     (d', entry, existing) \<leftarrow> dictAddRaw T g d key;
     Some (d', if entry \<noteq> NULL then entry else existing) }"


subsection \<open>Removal\<close>

definition remove_at :: "nat \<Rightarrow> 'a list \<Rightarrow> 'a list" where
  "remove_at j xs = take j xs @ drop (Suc j) xs"

text \<open>Taking the entry at a location out of its chain; the entry in front of it must have a next field.\<close>

definition unlink_entry :: "('k, 'v) dict \<Rightarrow> entry_loc \<Rightarrow> (('k, 'v) dict \<times> ('k, 'v) dictEntry) option" where
  "unlink_entry d p = (case p of (t, i, j) \<Rightarrow> do {
     b \<leftarrow> rd (ht_table d t) i;
     he \<leftarrow> rd b j;
     assertC (j = 0 \<or> \<not> entryIsKey (b ! (j - 1)));
     tb \<leftarrow> wr (ht_table d t) i (remove_at j b);
     Some (d\<lparr>ht_table := (ht_table d)(t := tb)\<rparr>, he) })"

definition dictGenericDelete ::
  "('k, 'v) dictType \<Rightarrow> dict_env \<Rightarrow> ('k, 'v) dict \<Rightarrow> 'k \<Rightarrow> bool \<Rightarrow>
     (('k, 'v) dict \<times> ('k, 'v) dictEntry nullable) option" where
  "dictGenericDelete T g d key nofree =
     (if dictSize d = 0 then Some (d, NULL)
      else do {
        let h = dictHashKey T key (useStoredKeyApi d);
        let idx = dict_idx h (ht_size_exp d 0);
        d1 \<leftarrow> access_rehash T g d idx;
        r \<leftarrow> dict_search (key_matches T d1 key) d1 h idx;
        case r of
          NULL \<Rightarrow> Some (d1, NULL)
        | Ptr p \<Rightarrow> do {
            (d2, he) \<leftarrow> unlink_entry d1 p;
            d3 \<leftarrow> (if \<not> nofree then dictFreeUnlinkedEntry T d2 (Ptr he) else Some d2);
            let table = fst p;
            d4 \<leftarrow> dictShrinkIfNeeded_auto T g
              (d3\<lparr>ht_used := (ht_used d3)(table := ht_used d3 table - 1)\<rparr>);
            Some (d4, Ptr he) } })"

definition dictDelete ::
  "('k, 'v) dictType \<Rightarrow> dict_env \<Rightarrow> ('k, 'v) dict \<Rightarrow> 'k \<Rightarrow> (('k, 'v) dict \<times> bool) option" where
  "dictDelete T g d key = do {
     (d', he) \<leftarrow> dictGenericDelete T g d key False; Some (d', he \<noteq> NULL) }"

definition dictUnlink ::
  "('k, 'v) dictType \<Rightarrow> dict_env \<Rightarrow> ('k, 'v) dict \<Rightarrow> 'k \<Rightarrow> (('k, 'v) dict \<times> ('k, 'v) dictEntry nullable) option" where
  "dictUnlink T g d key = dictGenericDelete T g d key True"

definition dictTwoPhaseUnlinkFind ::
  "('k, 'v) dictType \<Rightarrow> dict_env \<Rightarrow> ('k, 'v) dict \<Rightarrow> 'k \<Rightarrow> (('k, 'v) dict \<times> entry_loc nullable) option" where
  "dictTwoPhaseUnlinkFind T g d key =
     (if dictSize d = 0 then Some (d, NULL)
      else do {
        d1 \<leftarrow> (if dictIsRehashing d then dictRehashStep T g d else Some d);
        let h = dictHashKey T key (useStoredKeyApi d1);
        r \<leftarrow> dict_search (key_matches T d1 key) d1 h (dict_idx h (ht_size_exp d1 0));
        Some (if r = NULL then d1 else dictPauseRehashing d1, r) })"

definition dictTwoPhaseUnlinkFree ::
  "('k, 'v) dictType \<Rightarrow> dict_env \<Rightarrow> ('k, 'v) dict \<Rightarrow> entry_loc nullable \<Rightarrow> ('k, 'v) dict option" where
  "dictTwoPhaseUnlinkFree T g d he =
     (case he of NULL \<Rightarrow> Some d
      | Ptr p \<Rightarrow> do {
          let table = fst p;
          (d1, e) \<leftarrow> unlink_entry (d\<lparr>ht_used := (ht_used d)(table := ht_used d table - 1)\<rparr>) p;
          d2 \<leftarrow> dictFreeUnlinkedEntry T d1 (Ptr e);
          d3 \<leftarrow> dictShrinkIfNeeded_auto T g d2;
          Some (dictResumeRehashing d3) })"


subsection \<open>Emptying\<close>

fun dictClear_entries ::
  "('k, 'v) dictType \<Rightarrow> nat \<Rightarrow> ('k, 'v) dictEntry list \<Rightarrow> ('k, 'v) dict \<Rightarrow> ('k, 'v) dict option" where
  "dictClear_entries T htidx [] d = Some d"
| "dictClear_entries T htidx (he # es) d = do {
     d' \<leftarrow> dictFreeUnlinkedEntry T d (Ptr he);
     dictClear_entries T htidx es (d'\<lparr>ht_used := (ht_used d')(htidx := ht_used d' htidx - 1)\<rparr>) }"

text \<open>The loop over the buckets from number \<open>i\<close> on.\<close>

fun dictClear_loop ::
  "('k, 'v) dictType \<Rightarrow> nat \<Rightarrow> bool \<Rightarrow> nat \<Rightarrow> ('k, 'v) dictEntry list list \<Rightarrow> ('k, 'v) dict \<Rightarrow> ('k, 'v) dict option" where
  "dictClear_loop T htidx callback i [] d = Some d"
| "dictClear_loop T htidx callback i (b # bs) d =
     (if ht_used d htidx > 0 then do {
        d' \<leftarrow> dictClear_entries T htidx (chain b)
          (log_event (callback \<and> i mod 65536 = 0) EmptyCallback d);
        dictClear_loop T htidx callback (Suc i) bs d' }
      else Some d)"

definition dictClear ::
  "('k, 'v) dictType \<Rightarrow> ('k, 'v) dict \<Rightarrow> nat \<Rightarrow> bool \<Rightarrow> ('k, 'v) dict option" where
  "dictClear T d htidx callback = do {
     d' \<leftarrow> dictClear_loop T htidx callback 0 (ht_table d htidx) d;
     Some (dictReset d' htidx) }"

definition dictEmpty :: "('k, 'v) dictType \<Rightarrow> ('k, 'v) dict \<Rightarrow> bool \<Rightarrow> ('k, 'v) dict option" where
  "dictEmpty T d callback = do {
     d1 \<leftarrow> dictClear T (log_event (dictIsRehashing d \<and> rehashingCompleted T) RehashingCompleted d) 0 callback;
     d2 \<leftarrow> dictClear T d1 1 callback;
     Some (d2\<lparr>rehashidx := - 1, pauserehash := 0, pauseAutoResize := 0\<rparr>) }"

text \<open>What a release leaves is the record of the callbacks.\<close>

definition dictRelease ::
  "('k, 'v) dictType \<Rightarrow> ('k, 'v) dict \<Rightarrow> ('k, 'v) dict_event list option" where
  "dictRelease T d = do {
     let d0 = log_event (onDictRelease T) OnDictRelease
       (log_event (dictIsRehashing d \<and> rehashingCompleted T) RehashingCompleted d);
     d1 \<leftarrow> dictClear T d0 0 False;
     d2 \<leftarrow> dictClear T d1 1 False;
     Some (d_trace d2) }"

definition dictRehashingInfo :: "('k, 'v) dict \<Rightarrow> (nat \<times> nat) option" where
  "dictRehashingInfo d = do {
     assertC (dictIsRehashing d);
     Some (DICTHT_SIZE (ht_size_exp d 0), DICTHT_SIZE (ht_size_exp d 1)) }"

text \<open>Entries take 24 bytes and bucket pointers 8.\<close>

definition dictMemUsage :: "('k, 'v) dict \<Rightarrow> nat" where
  "dictMemUsage d = (dictSize d * 24 + dictBuckets d * 8) mod 18446744073709551616"

end
