(* ===== verification/Dict_Correct.thy ===== *)
theory Dict_Correct
  imports Dict "HOL-Library.Multiset"
begin

text \<open>
  The correctness of the hash table: what a consistent dictionary is, that the rehashing
  and resizing steps keep its content, and that lookup, insertion and removal are those of a map, for every type of keys
  whose hash function and comparison agree with a notion of content.
\<close>


subsection \<open>Buckets and tables\<close>

text \<open>
  \<open>H\<close> gives the hash value of a key as a function of its content \<open>kid\<close>, and \<open>sk\<close> says that a key
  pointer has the form in which keys are stored.
\<close>

definition entry_ok :: "('k, 'v) dictType \<Rightarrow> ('k \<Rightarrow> bool) \<Rightarrow> ('k, 'v) dictEntry \<Rightarrow> bool" where
  "entry_ok T sk e \<longleftrightarrow> sk (dictGetKey e) \<and> (no_value T \<and> keys_are_odd T \<longrightarrow> key_lsb T (dictGetKey e)) \<and>
     entryHasValue e = (\<not> no_value T)"

definition bucket_ok ::
  "('k, 'v) dictType \<Rightarrow> ('i \<Rightarrow> 64 word) \<Rightarrow> ('k \<Rightarrow> 'i) \<Rightarrow> ('k \<Rightarrow> bool) \<Rightarrow> nat \<Rightarrow> nat \<Rightarrow>
     ('k, 'v) dictEntry list \<Rightarrow> bool" where
  "bucket_ok T H kid sk n j b \<longleftrightarrow> chain b = b \<and>
     (\<forall>e\<in>set b. entry_ok T sk e \<and> unat (H (kid (dictGetKey e))) mod n = j)"

definition table_ok ::
  "('k, 'v) dictType \<Rightarrow> ('i \<Rightarrow> 64 word) \<Rightarrow> ('k \<Rightarrow> 'i) \<Rightarrow> ('k \<Rightarrow> bool) \<Rightarrow> int \<Rightarrow>
     ('k, 'v) dictEntry list list \<Rightarrow> nat \<Rightarrow> bool" where
  "table_ok T H kid sk e tb u \<longleftrightarrow>
     (e = - 1 \<and> tb = [] \<and> u = 0) \<or>
     (0 \<le> e \<and> e \<le> 60 \<and> length tb = 2 ^ nat e \<and> u = length (concat tb) \<and>
      (\<forall>j < length tb. bucket_ok T H kid sk (length tb) j (tb ! j)))"

text \<open>What an entry contributes to the map.\<close>

definition entry_kv :: "('k \<Rightarrow> 'i) \<Rightarrow> ('k, 'v) dictEntry \<Rightarrow> 'i \<times> 'v option" where
  "entry_kv kid e = (kid (dictGetKey e), dictGetVal e)"

definition dict_entries :: "('k, 'v) dict \<Rightarrow> ('k, 'v) dictEntry list" where
  "dict_entries d = concat (ht_table d 0) @ concat (ht_table d 1)"

definition dict_map :: "('k \<Rightarrow> 'i) \<Rightarrow> ('k, 'v) dict \<Rightarrow> 'i \<rightharpoonup> 'v option" where
  "dict_map kid d = map_of (map (entry_kv kid) (dict_entries d))"

text \<open>
  The invariant: both tables are consistent, no content occurs twice, and the second table exists exactly
  during rehashing, when the first one is empty below \<open>rehashidx\<close>.
\<close>

definition dict_ok ::
  "('k, 'v) dictType \<Rightarrow> ('i \<Rightarrow> 64 word) \<Rightarrow> ('k \<Rightarrow> 'i) \<Rightarrow> ('k \<Rightarrow> bool) \<Rightarrow> ('k, 'v) dict \<Rightarrow> bool" where
  "dict_ok T H kid sk d \<longleftrightarrow>
     table_ok T H kid sk (ht_size_exp d 0) (ht_table d 0) (ht_used d 0) \<and>
     table_ok T H kid sk (ht_size_exp d 1) (ht_table d 1) (ht_used d 1) \<and>
     distinct (map (kid \<circ> dictGetKey) (dict_entries d)) \<and>
     (if rehashidx d = - 1 then ht_size_exp d 1 = - 1
      else 0 \<le> rehashidx d \<and> rehashidx d \<le> int (length (ht_table d 0)) \<and>
           ht_size_exp d 0 \<noteq> - 1 \<and> ht_size_exp d 1 \<noteq> - 1 \<and> ht_size_exp d 0 \<noteq> ht_size_exp d 1 \<and>
           (\<forall>j < nat (rehashidx d). ht_table d 0 ! j = []))"

lemma dict_idx_mod: "0 \<le> e \<Longrightarrow> e \<le> 63 \<Longrightarrow> dict_idx h e = unat h mod 2 ^ nat e"
proof -
  assume "0 \<le> e" "e \<le> 63"
  then have "DICTHT_SIZE_MASK e = mask (nat e)"
    by (simp add: DICTHT_SIZE_MASK_def mask_eq_exp_minus_1 push_bit_eq_mult)
  then show ?thesis
    by (simp only: dict_idx_def flip: take_bit_eq_mask) (simp only: unsigned_take_bit_eq, simp only: take_bit_eq_mod)
qed

lemma unat_of_nat_idx: "idx < 2 ^ nat e \<Longrightarrow> 0 \<le> e \<Longrightarrow> e \<le> 63 \<Longrightarrow> unat (of_nat idx :: 64 word) = idx"
proof -
  assume a: "idx < 2 ^ nat e" "0 \<le> e" "e \<le> 63"
  have "(2::nat) ^ nat e \<le> 2 ^ 63" using a by (intro power_increasing) auto
  with a show ?thesis by (simp add: unat_of_nat take_bit_eq_mod)
qed

lemma mset_concat_update:
  "j < length tb \<Longrightarrow> mset (concat (tb[j := b])) + mset (tb ! j) = mset (concat tb) + mset b"
  by (induction tb arbitrary: j) (auto split: nat.splits)

lemma length_concat_update:
  "j < length tb \<Longrightarrow> length (concat (tb[j := b])) + length (tb ! j) = length (concat tb) + length b"
  using mset_concat_update [of j tb b] by (metis size_mset size_union)

lemma mset_kv_update:
  "j < length tb \<Longrightarrow> mset (map f (concat (tb[j := b]))) + mset (map f (tb ! j)) =
     mset (map f (concat tb)) + mset (map f b)"
  using mset_concat_update [of j tb b] by (metis image_mset_union mset_map)

lemma nth_concat_subset: "j < length tb \<Longrightarrow> set (tb ! j) \<subseteq> set (concat tb)"
  using nth_mem by fastforce

lemma chain_Cons_iff: "chain (e # es) = e # es \<longleftrightarrow> (if entryIsKey e then es = [] else chain es = es)"
  by auto

lemma chain_remove_at: "chain b = b \<Longrightarrow> chain (remove_at j b) = remove_at j b"
proof (induction b arbitrary: j)
  case (Cons e es)
  then show ?case
    by (cases j) (auto simp: remove_at_def chain_Cons_iff simp del: chain.simps(2) split: if_splits)
qed (simp add: remove_at_def)

lemma chain_list_update: "chain b = b \<Longrightarrow> j < length b \<Longrightarrow> entryIsKey e = entryIsKey (b ! j) \<Longrightarrow>
    chain (b[j := e]) = b[j := e]"
proof (induction b arbitrary: j)
  case (Cons x es)
  then show ?case by (cases j) (auto simp: chain_Cons_iff simp del: chain.simps(2) split: if_splits)
qed simp

lemma chain_nth_key: "chain b = b \<Longrightarrow> Suc j < length b \<Longrightarrow> \<not> entryIsKey (b ! j)"
proof (induction b arbitrary: j)
  case (Cons e es)
  then show ?case
    by (cases j) (auto simp: chain_Cons_iff simp del: chain.simps(2) split: if_splits)
qed simp

lemma mset_remove_at: "j < length b \<Longrightarrow> add_mset (b ! j) (mset (remove_at j b)) = mset b"
  by (simp add: remove_at_def) (metis id_take_nth_drop mset.simps(2) mset_append union_mset_add_mset_right)

lemma set_remove_at: "set (remove_at j b) \<subseteq> set b"
  by (auto simp: remove_at_def dest: in_set_takeD in_set_dropD)

lemma length_remove_at: "j < length b \<Longrightarrow> Suc (length (remove_at j b)) = length b"
  by (simp add: remove_at_def)

lemma table_ok_update:
  assumes "table_ok T H kid sk e tb u" "j < length tb" "bucket_ok T H kid sk (length tb) j b"
  shows "table_ok T H kid sk e (tb[j := b]) (u + length b - length (tb ! j))"
proof -
  from length_concat_update [OF assms(2), of b]
  have "length (concat (tb[j := b])) = length (concat tb) + length b - length (tb ! j)" by linarith
  with assms show ?thesis by (auto simp: table_ok_def nth_list_update)
qed

lemma table_ok_push:
  assumes "table_ok T H kid sk e tb u" "j < length tb" "entry_ok T sk x"
    "unat (H (kid (dictGetKey x))) mod length tb = j" "chain (x # tb ! j) = x # tb ! j"
  shows "table_ok T H kid sk e (tb[j := x # tb ! j]) (u + 1)"
proof -
  have "bucket_ok T H kid sk (length tb) j (x # tb ! j)"
    using assms by (auto simp: bucket_ok_def table_ok_def simp del: chain.simps)
  from table_ok_update [OF assms(1,2) this] show ?thesis by simp
qed

lemma table_ok_bucket:
  "table_ok T H kid sk e tb u \<Longrightarrow> j < length tb \<Longrightarrow> bucket_ok T H kid sk (length tb) j (tb ! j)"
  by (auto simp: table_ok_def)

lemma table_ok_length: "table_ok T H kid sk e tb u \<Longrightarrow> e \<noteq> - 1 \<Longrightarrow> length tb = 2 ^ nat e \<and> 0 \<le> e \<and> e \<le> 60"
  by (auto simp: table_ok_def)

lemma table_ok_used: "table_ok T H kid sk e tb u \<Longrightarrow> u = length (concat tb)"
  by (auto simp: table_ok_def)

lemma table_ok_size: "table_ok T H kid sk e tb u \<Longrightarrow> DICTHT_SIZE e = length tb"
  by (auto simp: table_ok_def DICTHT_SIZE_def)

lemma table_ok_idx: "table_ok T H kid sk e tb u \<Longrightarrow> e \<noteq> - 1 \<Longrightarrow> dict_idx h e = unat h mod length tb \<and> dict_idx h e < length tb"
  using table_ok_length [of T H kid sk e tb u] by (auto simp: dict_idx_mod)

lemma table_ok_absent: "table_ok T H kid sk (- 1) tb u \<Longrightarrow> tb = [] \<and> u = 0"
  by (auto simp: table_ok_def)

lemma table_ok_entry:
  assumes "table_ok T H kid sk e tb u" "x \<in> set (concat tb)"
  shows "entry_ok T sk x \<and> (let j = unat (H (kid (dictGetKey x))) mod length tb in j < length tb \<and> x \<in> set (tb ! j))"
proof -
  from assms(2) obtain j where j: "j < length tb" "x \<in> set (tb ! j)" by (metis UN_iff in_set_conv_nth set_concat)
  with table_ok_bucket [OF assms(1) j(1)] show ?thesis by (auto simp: bucket_ok_def Let_def)
qed

lemma table_ok_empty: "0 \<le> e \<Longrightarrow> e \<le> 60 \<Longrightarrow> table_ok T H kid sk e (replicate (2 ^ nat e) []) 0"
  by (auto simp: table_ok_def bucket_ok_def)


subsection \<open>Moving a bucket\<close>

lemma rehash_entry_ok:
  assumes "entry_ok T sk de" "chain dest = dest"
  shows "\<exists>de'. rehash_entry T de dest = Some de' \<and> entry_ok T sk de' \<and> entry_kv kid de' = entry_kv kid de \<and>
    chain (de' # dest) = de' # dest"
  using assms by (cases de) (auto simp: rehash_entry_def entry_ok_def entry_kv_def)

declare One_nat_def [simp del]

text \<open>A step that keeps the content and the modes of a dictionary.\<close>

definition dict_keeps :: "('k \<Rightarrow> 'i) \<Rightarrow> ('k, 'v) dict \<Rightarrow> ('k, 'v) dict \<Rightarrow> bool" where
  "dict_keeps kid d d' \<longleftrightarrow>
     mset (map (entry_kv kid) (dict_entries d')) = mset (map (entry_kv kid) (dict_entries d)) \<and>
     useStoredKeyApi d' = useStoredKeyApi d \<and> pauserehash d' = pauserehash d \<and>
     pauseAutoResize d' = pauseAutoResize d \<and> (ht_table d 0 \<noteq> [] \<longrightarrow> ht_table d' 0 \<noteq> [])"

lemma dict_keeps_refl [simp]: "dict_keeps kid d d"
  by (simp add: dict_keeps_def)

lemma dict_keeps_trans [trans]: "dict_keeps kid d d' \<Longrightarrow> dict_keeps kid d' d'' \<Longrightarrow> dict_keeps kid d d''"
  by (simp add: dict_keeps_def)

lemma map_kids: "map (kid \<circ> dictGetKey) xs = map fst (map (entry_kv kid) xs)"
  by (simp add: entry_kv_def)

lemma dict_keeps_distinct:
  "dict_keeps kid d d' \<Longrightarrow> distinct (map (kid \<circ> dictGetKey) (dict_entries d)) \<Longrightarrow>
     distinct (map (kid \<circ> dictGetKey) (dict_entries d'))"
  unfolding map_kids dict_keeps_def by (metis mset_eq_imp_distinct_iff mset_map)

lemma map_of_mset_cong:
  assumes "mset xs = mset ys" "distinct (map fst xs)"
  shows "map_of xs = map_of ys"
proof -
  have "distinct (map fst ys)" using assms by (metis mset_eq_imp_distinct_iff mset_map)
  then show ?thesis using assms by (metis map_of_inject_set mset_eq_setD)
qed

lemma dict_keeps_map:
  "dict_keeps kid d d' \<Longrightarrow> distinct (map (kid \<circ> dictGetKey) (dict_entries d)) \<Longrightarrow> dict_map kid d' = dict_map kid d"
  unfolding dict_keeps_def dict_map_def map_kids by (metis map_of_mset_cong)



text \<open>
  What a dictionary relies on in a \<open>dictType\<close>: a hash value depends only on the content of the
  key, for keys in lookup form and in stored form, and the comparison functions decide equality of
  contents. A type without values has no destructor for them.
\<close>

locale dict_keys =
  fixes T :: "('k, 'v) dictType"
    and H :: "'i \<Rightarrow> 64 word"
    and kid :: "'k \<Rightarrow> 'i"
    and lk :: "'k \<Rightarrow> bool"
    and sk :: "'k \<Rightarrow> bool"
  assumes hash_lookup: "lk k \<Longrightarrow> dictHashKey T k False = H (kid k)"
    and hash_stored: "sk k \<Longrightarrow> dictHashKey T k True = H (kid k)"
    and cmp_lookup: "lk a \<Longrightarrow> sk b \<Longrightarrow> dictGetKeyCmpFunc T False a b = (kid a = kid b)"
    and cmp_stored: "sk a \<Longrightarrow> sk b \<Longrightarrow> dictGetKeyCmpFunc T True a b = (kid a = kid b)"
    and no_value_destructor: "no_value T \<Longrightarrow> \<not> valDestructor T"
begin

abbreviation tok where "tok \<equiv> table_ok T H kid sk"
abbreviation dok where "dok \<equiv> dict_ok T H kid sk"

lemma rehash_target:
  assumes "sk (dictGetKey de)" "unat (H (kid (dictGetKey de))) mod 2 ^ nat e0 = idx"
    "0 \<le> e0" "e0 \<le> 60" "0 \<le> e1" "e1 \<le> 60"
  shows "(if e1 > e0 then dict_idx (dictHashKey T (dictGetKey de) True) e1 else dict_idx (of_nat idx) e1)
    = unat (H (kid (dictGetKey de))) mod 2 ^ nat e1"
proof (cases "e1 > e0")
  case True
  then show ?thesis using assms by (simp add: hash_stored dict_idx_mod)
next
  case False
  then have "(2::nat) ^ nat e1 dvd 2 ^ nat e0" using assms by (intro le_imp_power_dvd) auto
  moreover have "idx < 2 ^ nat e0" using assms(2) by auto
  then have "unat (of_nat idx :: 64 word) = idx" using assms unat_of_nat_idx [of idx e0] by simp
  ultimately show ?thesis using False assms by (auto simp: dict_idx_mod mod_mod_cancel)
qed

lemma rehashEntries_loop_step:
  assumes "tok (ht_size_exp d 1) (ht_table d 1) (ht_used d 1)" "ht_size_exp d 1 \<noteq> - 1"
    "0 \<le> ht_size_exp d 0" "ht_size_exp d 0 \<le> 60" "entry_ok T sk de"
    "unat (H (kid (dictGetKey de))) mod 2 ^ nat (ht_size_exp d 0) = idx"
  shows "\<exists>t1. rehashEntries_loop T idx (de # es) d = rehashEntries_loop T idx es
        (d\<lparr>ht_table := (ht_table d)(1 := t1),
           ht_used := (ht_used d)(0 := ht_used d 0 - 1, 1 := ht_used d 1 + 1)\<rparr>) \<and>
      tok (ht_size_exp d 1) t1 (ht_used d 1 + 1) \<and>
      mset (map (entry_kv kid) (concat t1)) =
        add_mset (entry_kv kid de) (mset (map (entry_kv kid) (concat (ht_table d 1))))"
proof -
  define t where "t = ht_table d 1"
  define h where "h = unat (H (kid (dictGetKey de))) mod 2 ^ nat (ht_size_exp d 1)"
  have len: "length t = 2 ^ nat (ht_size_exp d 1)" "0 \<le> ht_size_exp d 1" "ht_size_exp d 1 \<le> 60"
    using table_ok_length [OF assms(1,2)] by (simp_all add: t_def)
  have h: "h < length t" by (simp add: h_def len)
  have tgt: "(if ht_size_exp d 1 > ht_size_exp d 0 then dict_idx (dictHashKey T (dictGetKey de) True) (ht_size_exp d 1)
      else dict_idx (of_nat idx) (ht_size_exp d 1)) = h"
    using rehash_target [of de "ht_size_exp d 0" idx "ht_size_exp d 1"] assms len
    by (simp add: h_def entry_ok_def)
  have ch: "chain (t ! h) = t ! h" using table_ok_bucket [OF assms(1), of h] h by (simp add: t_def bucket_ok_def)
  obtain de' where de': "rehash_entry T de (t ! h) = Some de'" "entry_ok T sk de'"
    "entry_kv kid de' = entry_kv kid de" "chain (de' # t ! h) = de' # t ! h"
    using rehash_entry_ok [OF assms(5) ch, of kid] by auto
  have key: "kid (dictGetKey de') = kid (dictGetKey de)" using de'(3) by (simp add: entry_kv_def)
  show ?thesis
  proof (intro exI conjI)
    show "rehashEntries_loop T idx (de # es) d = rehashEntries_loop T idx es
        (d\<lparr>ht_table := (ht_table d)(1 := t[h := de' # t ! h]),
           ht_used := (ht_used d)(0 := ht_used d 0 - 1, 1 := ht_used d 1 + 1)\<rparr>)"
      using h by (simp only: rehashEntries_loop.simps Let_def tgt)
        (simp add: t_def [symmetric] rd_def wr_def de'(1))
    show "tok (ht_size_exp d 1) (t[h := de' # t ! h]) (ht_used d 1 + 1)"
      using table_ok_push [OF assms(1), of h de'] h de' by (simp add: t_def [symmetric] key h_def len)
    show "mset (map (entry_kv kid) (concat (t[h := de' # t ! h]))) =
        add_mset (entry_kv kid de) (mset (map (entry_kv kid) (concat (ht_table d 1))))"
      using mset_kv_update [OF h, of "entry_kv kid" "de' # t ! h"] by (simp add: de'(3) t_def del: mset_map)
  qed
qed

lemma rehashEntries_loop_ok:
  assumes "tok (ht_size_exp d 1) (ht_table d 1) (ht_used d 1)" "ht_size_exp d 1 \<noteq> - 1"
    "0 \<le> ht_size_exp d 0" "ht_size_exp d 0 \<le> 60"
    "\<forall>e\<in>set es. entry_ok T sk e \<and> unat (H (kid (dictGetKey e))) mod 2 ^ nat (ht_size_exp d 0) = idx"
  shows "\<exists>t1. rehashEntries_loop T idx es d = Some (d\<lparr>ht_table := (ht_table d)(1 := t1),
      ht_used := (ht_used d)(0 := ht_used d 0 - length es, 1 := ht_used d 1 + length es)\<rparr>) \<and>
    tok (ht_size_exp d 1) t1 (ht_used d 1 + length es) \<and>
    mset (map (entry_kv kid) (concat t1)) =
      mset (map (entry_kv kid) es) + mset (map (entry_kv kid) (concat (ht_table d 1)))"
  using assms
proof (induction es arbitrary: d)
  case Nil
  then show ?case by (intro exI [of _ "ht_table d 1"]) simp
next
  case (Cons de es)
  then obtain t where t: "rehashEntries_loop T idx (de # es) d = rehashEntries_loop T idx es
        (d\<lparr>ht_table := (ht_table d)(1 := t),
           ht_used := (ht_used d)(0 := ht_used d 0 - 1, 1 := ht_used d 1 + 1)\<rparr>)" (is "_ = rehashEntries_loop T idx es ?d")
      "tok (ht_size_exp d 1) t (ht_used d 1 + 1)"
      "mset (map (entry_kv kid) (concat t)) =
        add_mset (entry_kv kid de) (mset (map (entry_kv kid) (concat (ht_table d 1))))"
    using rehashEntries_loop_step [of d de idx es] by auto
  have "\<exists>t1. rehashEntries_loop T idx es ?d = Some (?d\<lparr>ht_table := (ht_table ?d)(1 := t1),
      ht_used := (ht_used ?d)(0 := ht_used ?d 0 - length es, 1 := ht_used ?d 1 + length es)\<rparr>) \<and>
    tok (ht_size_exp ?d 1) t1 (ht_used ?d 1 + length es) \<and>
    mset (map (entry_kv kid) (concat t1)) =
      mset (map (entry_kv kid) es) + mset (map (entry_kv kid) (concat (ht_table ?d 1)))"
    using Cons.prems(2-5) t(2) by (intro Cons.IH) simp_all
  then obtain t1 where t1: "rehashEntries_loop T idx es ?d = Some (?d\<lparr>ht_table := (ht_table ?d)(1 := t1),
      ht_used := (ht_used ?d)(0 := ht_used ?d 0 - length es, 1 := ht_used ?d 1 + length es)\<rparr>)"
    "tok (ht_size_exp ?d 1) t1 (ht_used ?d 1 + length es)"
    "mset (map (entry_kv kid) (concat t1)) =
      mset (map (entry_kv kid) es) + mset (map (entry_kv kid) (concat (ht_table ?d 1)))"
    by blast
  show ?case
  proof (intro exI conjI)
    show "rehashEntries_loop T idx (de # es) d = Some (d\<lparr>ht_table := (ht_table d)(1 := t1),
      ht_used := (ht_used d)(0 := ht_used d 0 - length (de # es), 1 := ht_used d 1 + length (de # es))\<rparr>)"
      unfolding t(1) t1(1) by (simp add: fun_upd_twist One_nat_def)
    show "tok (ht_size_exp d 1) t1 (ht_used d 1 + length (de # es))" using t1(2) by (simp add: One_nat_def)
    show "mset (map (entry_kv kid) (concat t1)) =
      mset (map (entry_kv kid) (de # es)) + mset (map (entry_kv kid) (concat (ht_table d 1)))"
      using t1(3) t(3) by (simp del: mset_map)
  qed
qed

lemma dict_okD:
  assumes "dok d"
  shows "tok (ht_size_exp d 0) (ht_table d 0) (ht_used d 0)"
    "tok (ht_size_exp d 1) (ht_table d 1) (ht_used d 1)"
    "distinct (map (kid \<circ> dictGetKey) (dict_entries d))"
    "rehashidx d = - 1 \<Longrightarrow> ht_size_exp d 1 = - 1"
    "rehashidx d \<noteq> - 1 \<Longrightarrow> 0 \<le> rehashidx d \<and> rehashidx d \<le> int (length (ht_table d 0)) \<and>
      ht_size_exp d 0 \<noteq> - 1 \<and> ht_size_exp d 1 \<noteq> - 1 \<and> ht_size_exp d 0 \<noteq> ht_size_exp d 1 \<and>
      (\<forall>j < nat (rehashidx d). ht_table d 0 ! j = [])"
  using assms by (auto simp: dict_ok_def split: if_splits)

lemma rehashEntriesInBucketAtIndex_ok:
  assumes ok: "dok d" and re: "dictIsRehashing d" and idx: "idx < length (ht_table d 0)"
  shows "\<exists>d'. rehashEntriesInBucketAtIndex T d idx = Some d' \<and> dok d' \<and> dict_keeps kid d d' \<and>
    rehashidx d' = rehashidx d \<and> ht_size_exp d' = ht_size_exp d \<and> ht_table d' 0 = (ht_table d 0)[idx := []]"
proof -
  note D = dict_okD [OF ok]
  note D5 = D(5) [OF re [unfolded dictIsRehashing_def]]
  let ?b = "ht_table d 0 ! idx" and ?t0 = "ht_table d 0"
  have len: "length ?t0 = 2 ^ nat (ht_size_exp d 0)" "0 \<le> ht_size_exp d 0" "ht_size_exp d 0 \<le> 60"
    using table_ok_length [OF D(1)] D5 by simp_all
  have b: "bucket_ok T H kid sk (length ?t0) idx ?b" by (rule table_ok_bucket [OF D(1) idx])
  obtain t1 where t1: "rehashEntries_loop T idx ?b d = Some (d\<lparr>ht_table := (ht_table d)(1 := t1),
      ht_used := (ht_used d)(0 := ht_used d 0 - length ?b, 1 := ht_used d 1 + length ?b)\<rparr>)"
    "tok (ht_size_exp d 1) t1 (ht_used d 1 + length ?b)"
    "mset (map (entry_kv kid) (concat t1)) =
      mset (map (entry_kv kid) ?b) + mset (map (entry_kv kid) (concat (ht_table d 1)))"
    using rehashEntries_loop_ok [OF D(2), of ?b idx] D5 b len unfolding bucket_ok_def by auto
  define d' where "d' = d\<lparr>ht_table := (ht_table d)(0 := ?t0[idx := []], 1 := t1),
      ht_used := (ht_used d)(0 := ht_used d 0 - length ?b, 1 := ht_used d 1 + length ?b)\<rparr>"
  have res: "rehashEntriesInBucketAtIndex T d idx = Some d'"
    using b idx t1(1) by (simp add: rehashEntriesInBucketAtIndex_def bucket_ok_def rd_def wr_def d'_def fun_upd_twist)
  have t0': "tok (ht_size_exp d 0) (?t0[idx := []]) (ht_used d 0 - length ?b)"
    using table_ok_update [OF D(1) idx, of "[]"] by (simp add: bucket_ok_def)
  have ms: "mset (map (entry_kv kid) (dict_entries d')) = mset (map (entry_kv kid) (dict_entries d))"
    using mset_kv_update [OF idx, of "entry_kv kid" "[]"] t1(3) by (simp add: dict_entries_def d'_def del: mset_map)
  have keeps: "dict_keeps kid d d'" using ms by (simp add: dict_keeps_def d'_def)
  have "\<forall>j < nat (rehashidx d). (?t0[idx := []]) ! j = []"
    using D5 idx by (metis nth_list_update_eq nth_list_update_neq)
  then have "dok d'"
    unfolding dict_ok_def
    using t0' t1(2) D5 dict_keeps_distinct [OF keeps D(3)]
    by (auto simp: d'_def dictIsRehashing_def)
  then show ?thesis using res keeps by (simp add: d'_def)
qed

end


subsection \<open>Rehashing keeps the content\<close>

lemma dictRehash_skip_ok:
  "idx \<le> k \<Longrightarrow> k < length tb \<Longrightarrow> tb ! k \<noteq> [] \<Longrightarrow>
   \<exists>idx' ev' limit. dictRehash_skip tb idx ev = Some (idx', ev', limit) \<and> idx \<le> idx' \<and> idx' \<le> k \<and>
     (\<forall>j. idx \<le> j \<longrightarrow> j < idx' \<longrightarrow> tb ! j = [])"
proof (induction tb idx ev rule: dictRehash_skip.induct)
  case (1 tb idx ev)
  show ?case
  proof (cases "tb ! idx \<noteq> [] \<or> ev - 1 = 0")
    case True
    have "tb ! idx = [] \<Longrightarrow> idx < k" using 1(2,4) by (cases "idx = k") auto
    then show ?thesis using True 1(2-4)
      by (subst dictRehash_skip.simps) (auto simp: One_nat_def less_Suc_eq_le Suc_le_eq dest: le_antisym)
  next
    case False
    with 1(2-4) have "idx < k" by (cases "idx = k") auto
    with False 1 obtain idx' ev' limit where "dictRehash_skip tb (idx + 1) (ev - 1) = Some (idx', ev', limit)"
      "idx + 1 \<le> idx'" "idx' \<le> k" "\<forall>j. idx + 1 \<le> j \<longrightarrow> j < idx' \<longrightarrow> tb ! j = []" by auto
    then show ?thesis using False 1(2-4) by (subst dictRehash_skip.simps) (auto simp: One_nat_def Suc_le_eq dest: le_neq_implies_less)
  qed
qed

context dict_keys
begin

lemma dictCheckRehashingCompleted_ok:
  assumes ok: "dok d" and re: "dictIsRehashing d"
  shows "dok (fst (dictCheckRehashingCompleted T d))" "dict_keeps kid d (fst (dictCheckRehashingCompleted T d))"
    "rehashidx (fst (dictCheckRehashingCompleted T d)) = - 1 \<or>
     ht_size_exp (fst (dictCheckRehashingCompleted T d)) = ht_size_exp d"
proof -
  note D = dict_okD [OF ok]
  note D5 = D(5) [OF re [unfolded dictIsRehashing_def]]
  have t0: "ht_used d 0 = 0 \<Longrightarrow> concat (ht_table d 0) = []" using table_ok_used [OF D(1)] by simp
  have t1: "ht_table d 1 \<noteq> []" using table_ok_length [OF D(2)] D5 by auto
  show "dok (fst (dictCheckRehashingCompleted T d))"
    using ok t0 D(2,3) D5
    by (auto simp: dictCheckRehashingCompleted_def Let_def dict_ok_def dictReset_def log_event_def
      dict_entries_def table_ok_def [of _ _ _ _ "- 1"])
  show "dict_keeps kid d (fst (dictCheckRehashingCompleted T d))"
    using t0 t1 by (auto simp: dictCheckRehashingCompleted_def Let_def dict_keeps_def dictReset_def log_event_def
      dict_entries_def)
  show "rehashidx (fst (dictCheckRehashingCompleted T d)) = - 1 \<or>
     ht_size_exp (fst (dictCheckRehashingCompleted T d)) = ht_size_exp d"
    by (auto simp: dictCheckRehashingCompleted_def Let_def)
qed

lemma nonempty_bucket:
  assumes ok: "dok d" and re: "dictIsRehashing d" and u: "ht_used d 0 \<noteq> 0"
  obtains k where "nat (rehashidx d) \<le> k" "k < length (ht_table d 0)" "ht_table d 0 ! k \<noteq> []"
proof -
  note D = dict_okD [OF ok]
  note D5 = D(5) [OF re [unfolded dictIsRehashing_def]]
  from u table_ok_used [OF D(1)] obtain b where "b \<in> set (ht_table d 0)" "b \<noteq> []" by auto
  then obtain k where k: "k < length (ht_table d 0)" "ht_table d 0 ! k \<noteq> []" by (metis in_set_conv_nth)
  with D5 have "nat (rehashidx d) \<le> k" by (meson not_le)
  with k that show thesis by blast
qed

lemma dict_ok_rehashidx:
  assumes "dok d" "dictIsRehashing d" "rehashidx d \<le> int i" "i \<le> length (ht_table d 0)"
    "\<forall>j. nat (rehashidx d) \<le> j \<longrightarrow> j < i \<longrightarrow> ht_table d 0 ! j = []"
  shows "dok (d\<lparr>rehashidx := int i\<rparr>)" "dict_keeps kid d (d\<lparr>rehashidx := int i\<rparr>)"
proof -
  note D5 = dict_okD(5) [OF assms(1) assms(2) [unfolded dictIsRehashing_def]]
  have "\<forall>j < i. ht_table d 0 ! j = []" using D5 assms(5) by (metis not_le)
  then show "dok (d\<lparr>rehashidx := int i\<rparr>)"
    using assms(1,4) D5 by (auto simp: dict_ok_def dict_entries_def)
  show "dict_keeps kid d (d\<lparr>rehashidx := int i\<rparr>)" by (simp add: dict_keeps_def dict_entries_def)
qed

lemma rehash_one_bucket:
  assumes ok: "dok d" and re: "dictIsRehashing d" and i: "rehashidx d = int i" "i < length (ht_table d 0)"
  shows "\<exists>d'. rehashEntriesInBucketAtIndex T d i = Some d' \<and> dok (d'\<lparr>rehashidx := rehashidx d' + 1\<rparr>) \<and>
    dict_keeps kid d (d'\<lparr>rehashidx := rehashidx d' + 1\<rparr>) \<and> rehashidx d' = rehashidx d \<and>
    ht_size_exp d' = ht_size_exp d"
proof -
  obtain d' where d': "rehashEntriesInBucketAtIndex T d i = Some d'" "dok d'" "dict_keeps kid d d'"
    "rehashidx d' = rehashidx d" "ht_size_exp d' = ht_size_exp d" "ht_table d' 0 = (ht_table d 0)[i := []]"
    using rehashEntriesInBucketAtIndex_ok [OF ok re i(2)] by auto
  have "dictIsRehashing d'" using re d'(4) by (simp add: dictIsRehashing_def)
  from dict_ok_rehashidx [OF d'(2) this, of "Suc i"] d' i
  have "dok (d'\<lparr>rehashidx := rehashidx d' + 1\<rparr>)" "dict_keeps kid d' (d'\<lparr>rehashidx := rehashidx d' + 1\<rparr>)"
    by (auto simp: less_Suc_eq_le add.commute)
  with d' dict_keeps_trans [OF d'(3)] show ?thesis by auto
qed

lemma dictRehash_loop_ok:
  assumes "dok d" "dictIsRehashing d"
  shows "\<exists>d' limit. dictRehash_loop T n ev d = Some (d', limit) \<and> dok d' \<and> dict_keeps kid d d' \<and>
    dictIsRehashing d' \<and> ht_size_exp d' = ht_size_exp d"
  using assms
proof (induction n arbitrary: ev d)
  case (Suc n)
  show ?case
  proof (cases "ht_used d 0 = 0")
    case False
    note D = dict_okD [OF Suc.prems(1)]
    note D5 = D(5) [OF Suc.prems(2) [unfolded dictIsRehashing_def]]
    obtain k where k: "nat (rehashidx d) \<le> k" "k < length (ht_table d 0)" "ht_table d 0 ! k \<noteq> []"
      by (rule nonempty_bucket [OF Suc.prems False])
    obtain i ev' limit where i: "dictRehash_skip (ht_table d 0) (nat (rehashidx d)) ev = Some (i, ev', limit)"
      "nat (rehashidx d) \<le> i" "i \<le> k" "\<forall>j. nat (rehashidx d) \<le> j \<longrightarrow> j < i \<longrightarrow> ht_table d 0 ! j = []"
      using dictRehash_skip_ok [OF k, of ev] by auto
    let ?d = "d\<lparr>rehashidx := int i\<rparr>"
    have d1: "dok ?d" "dict_keeps kid d ?d" "dictIsRehashing ?d"
      using dict_ok_rehashidx [OF Suc.prems, of i] i k D5 by (auto simp: dictIsRehashing_def)
    have a: "DICTHT_SIZE (ht_size_exp d 0) > nat (rehashidx d)" using table_ok_size [OF D(1)] k by simp
    show ?thesis
    proof (cases limit)
      case True
      then show ?thesis using False a i(1) d1 by auto
    next
      case nl: False
      have "rehashidx ?d = int i" "i < length (ht_table ?d 0)" using i k by auto
      from rehash_one_bucket [OF d1(1,3) this] obtain d' where d':
        "rehashEntriesInBucketAtIndex T ?d i = Some d'" "dok (d'\<lparr>rehashidx := rehashidx d' + 1\<rparr>)"
        "dict_keeps kid ?d (d'\<lparr>rehashidx := rehashidx d' + 1\<rparr>)" "rehashidx d' = int i" "ht_size_exp d' = ht_size_exp d"
        by auto
      have "dictIsRehashing (d'\<lparr>rehashidx := rehashidx d' + 1\<rparr>)" by (simp add: dictIsRehashing_def d'(4))
      from Suc.IH [OF d'(2) this, of ev'] obtain d'' lim where
        "dictRehash_loop T n ev' (d'\<lparr>rehashidx := rehashidx d' + 1\<rparr>) = Some (d'', lim)" "dok d''"
        "dict_keeps kid (d'\<lparr>rehashidx := rehashidx d' + 1\<rparr>) d''" "dictIsRehashing d''" "ht_size_exp d'' = ht_size_exp d"
        using d'(5) by auto
      then show ?thesis
        using False a i(1) nl d'(1) dict_keeps_trans [OF d1(2) dict_keeps_trans [OF d'(3)]] by simp
    qed
  qed (use Suc.prems in auto)
qed auto

abbreviation rehash_step where
  "rehash_step d d' \<equiv> dok d' \<and> dict_keeps kid d d' \<and> (rehashidx d' = - 1 \<or> ht_size_exp d' = ht_size_exp d)"

lemma dictRehash_ok:
  assumes "dok d" "int n * 10 \<le> INT32_MAX"
  shows "\<exists>d' more. dictRehash T g d n = Some (d', more) \<and> rehash_step d d'"
proof (cases "rehash_avoided g d")
  case True
  then show ?thesis using assms by (auto simp: dictRehash_def)
next
  case False
  then have re: "dictIsRehashing d" by (auto simp: rehash_avoided_def Let_def)
  obtain d' limit where d': "dictRehash_loop T n (int n * 10) d = Some (d', limit)" "dok d'" "dict_keeps kid d d'"
    "dictIsRehashing d'" "ht_size_exp d' = ht_size_exp d"
    using dictRehash_loop_ok [OF assms(1) re] by blast
  note C = dictCheckRehashingCompleted_ok [OF d'(2,4)]
  show ?thesis
    using False assms d' C(1,3) dict_keeps_trans [OF d'(3) C(2)]
    by (cases limit; cases "dictCheckRehashingCompleted T d'") (auto simp: dictRehash_def)
qed

lemma dictRehashStep_ok:
  assumes "dok d"
  shows "\<exists>d'. dictRehashStep T g d = Some d' \<and> rehash_step d d'"
  using assms dictRehash_ok [of d 1 g] by (auto simp: dictRehashStep_def)

lemma dictBucketRehash_ok:
  assumes "dok d" "idx < length (ht_table d 0)"
  shows "\<exists>d' b. dictBucketRehash T g d idx = Some (d', b) \<and> rehash_step d d'"
proof (cases "pauserehash d \<noteq> 0 \<or> rehash_avoided g d")
  case True
  then show ?thesis using assms by (auto simp: dictBucketRehash_def)
next
  case False
  then have re: "dictIsRehashing d" by (auto simp: rehash_avoided_def Let_def)
  obtain d' where d': "rehashEntriesInBucketAtIndex T d idx = Some d'" "dok d'" "dict_keeps kid d d'"
    "rehashidx d' = rehashidx d" "ht_size_exp d' = ht_size_exp d"
    using rehashEntriesInBucketAtIndex_ok [OF assms(1) re assms(2)] by auto
  then have "dictIsRehashing d'" using re by (simp add: dictIsRehashing_def)
  note C = dictCheckRehashingCompleted_ok [OF d'(2) this]
  show ?thesis using False d'(1,5) C(1,3) dict_keeps_trans [OF d'(3) C(2)] by (auto simp: dictBucketRehash_def)
qed

lemma access_rehash_ok:
  assumes "dok d" "idx = dict_idx h (ht_size_exp d 0)"
  shows "\<exists>d'. access_rehash T g d idx = Some d' \<and> rehash_step d d'"
proof (cases "dictIsRehashing d")
  case True
  note D = dict_okD [OF assms(1)]
  note D5 = D(5) [OF True [unfolded dictIsRehashing_def]]
  have idx: "idx < length (ht_table d 0)" using table_ok_idx [OF D(1)] D5 assms(2) by blast
  show ?thesis
    using True dictBucketRehash_ok [OF assms(1) idx, of g] dictRehashStep_ok [OF assms(1), of g] idx
    by (auto simp: access_rehash_def rd_def)
qed (use assms in \<open>simp add: access_rehash_def\<close>)

end


subsection \<open>Resizing keeps the content\<close>

declare bit_length.simps [simp del]

lemma Ex_bool [simp]: "Ex Not" "\<exists>r. r"
  by (auto intro: exI [of Not False])

lemma bit_length_bounds: "n < 2 ^ bit_length n \<and> (0 < n \<longrightarrow> 2 ^ bit_length n \<le> 2 * n)"
proof (induction n rule: bit_length.induct)
  case (1 n)
  show ?case
  proof (cases "n = 0")
    case False
    with 1 have IH: "n div 2 < 2 ^ bit_length (n div 2)" "0 < n div 2 \<longrightarrow> 2 ^ bit_length (n div 2) \<le> 2 * (n div 2)" by auto
    have u: "bit_length n = Suc (bit_length (n div 2))" using False by (subst bit_length.simps) simp
    have "2 ^ bit_length n \<le> 2 * n"
    proof (cases "n div 2 = 0")
      case True
      then show ?thesis using False by (simp add: u bit_length.simps [of 0])
    qed (use IH u in auto)
    then show ?thesis using IH(1) False u by auto
  qed (simp add: bit_length.simps [of 0])
qed

lemma dictNextExp_bounds:
  "2 \<le> dictNextExp sz" "dictNextExp sz \<le> 63" "DICTHT_SIZE (dictNextExp sz) \<le> max 4 (2 * sz)"
proof -
  have "2 \<le> dictNextExp sz \<and> dictNextExp sz \<le> 63 \<and> DICTHT_SIZE (dictNextExp sz) \<le> max 4 (2 * sz)"
  proof (cases "4 < sz \<and> sz < 9223372036854775807")
    case True
    let ?b = "bit_length (sz - 1)"
    from bit_length_bounds [of "sz - 1"] True have b: "sz - 1 < 2 ^ ?b" "2 ^ ?b \<le> 2 * (sz - 1)" by auto
    have "(2::nat) ^ ?b < 18446744073709551616" using b(2) True by linarith
    then have "(2::nat) ^ ?b < 2 ^ 64" by simp
    then have b64: "?b < 64" by (rule power_less_imp_less_exp [rotated]) simp
    have "4 < (2::nat) ^ ?b" using b(1) True by linarith
    then have "(2::nat) ^ 2 < 2 ^ ?b" by simp
    then have "2 < ?b" by (rule power_less_imp_less_exp [rotated]) simp
    then show ?thesis using True b64 b(2) by (simp add: dictNextExp_def builtin_clzl_def DICTHT_SIZE_def)
  qed (auto simp: dictNextExp_def DICTHT_SIZE_def)
  then show "2 \<le> dictNextExp sz" "dictNextExp sz \<le> 63" "DICTHT_SIZE (dictNextExp sz) \<le> max 4 (2 * sz)" by auto
qed

lemma exp_no_overflow:
  assumes "2 \<le> e" "e \<le> 63" "\<not> DICTHT_SIZE e * 8 mod 18446744073709551616 < DICTHT_SIZE e"
  shows "e \<le> 60"
proof (rule ccontr)
  assume "\<not> e \<le> 60"
  with assms have "e = 61 \<or> e = 62 \<or> e = 63" by linarith
  with assms(3) show False by (auto simp: DICTHT_SIZE_def)
qed

definition alloc_upto :: "dict_env \<Rightarrow> nat \<Rightarrow> bool" where
  "alloc_upto g L \<longleftrightarrow> (\<forall>n \<le> L. zcalloc_ok g n)"

lemma alloc_upto_mono: "alloc_upto g L \<Longrightarrow> K \<le> L \<Longrightarrow> alloc_upto g K"
  by (auto simp: alloc_upto_def)

lemma dict_size_alloc: "alloc_upto g (16 * sz + 32) \<Longrightarrow> zcalloc_ok g (DICTHT_SIZE (dictNextExp sz) * 8)"
  using dictNextExp_bounds(3) [of sz] by (auto simp: alloc_upto_def max_def split: if_splits)

context dict_keys
begin

text \<open>What a resize may do: nothing, or start a rehash, or replace an empty first table.\<close>

abbreviation resize_step where
  "resize_step d d' \<equiv> dok d' \<and> dict_keeps kid d d' \<and> (d' = d \<or> rehashidx d' \<le> 0)"

lemma dict_ok_start_rehash:
  assumes ok: "dok d" and nre: "rehashidx d = - 1" and e: "0 \<le> e" "e \<le> 60" "e \<noteq> ht_size_exp d 0"
    and ne: "ht_table d 0 \<noteq> []"
  shows "dok (d\<lparr>ht_size_exp := (ht_size_exp d)(1 := e), ht_used := (ht_used d)(1 := 0),
    ht_table := (ht_table d)(1 := replicate (DICTHT_SIZE e) []), rehashidx := 0, d_trace := tr\<rparr>)"
proof -
  note D = dict_okD [OF ok]
  have "ht_table d 1 = []" using D(2) D(4) [OF nre] by (auto simp: table_ok_def)
  moreover have "ht_size_exp d 0 \<noteq> - 1" using D(1) ne by (auto simp: table_ok_def)
  moreover have "DICTHT_SIZE e = 2 ^ nat e" using e by (simp add: DICTHT_SIZE_def)
  ultimately show ?thesis
    unfolding dict_ok_def using D(1,3) e table_ok_empty [OF e(1,2), of T H kid sk]
    by (simp add: dict_entries_def)
qed

lemma dict_ok_replace_empty:
  assumes ok: "dok d" and nre: "rehashidx d = - 1" and e: "0 \<le> e" "e \<le> 60" and u: "ht_used d 0 = 0"
  shows "dok (d\<lparr>ht_size_exp := (ht_size_exp d)(0 := e, 1 := - 1), ht_used := (ht_used d)(0 := 0, 1 := 0),
    ht_table := (ht_table d)(0 := replicate (DICTHT_SIZE e) [], 1 := []), rehashidx := - 1, d_trace := tr\<rparr>)"
    and "dict_entries d = []"
proof -
  note D = dict_okD [OF ok]
  have "DICTHT_SIZE e = 2 ^ nat e" using e by (simp add: DICTHT_SIZE_def)
  then show "dok (d\<lparr>ht_size_exp := (ht_size_exp d)(0 := e, 1 := - 1), ht_used := (ht_used d)(0 := 0, 1 := 0),
    ht_table := (ht_table d)(0 := replicate (DICTHT_SIZE e) [], 1 := []), rehashidx := - 1, d_trace := tr\<rparr>)"
    unfolding dict_ok_def using table_ok_empty [OF e, of T H kid sk]
    by (simp add: dict_entries_def table_ok_def [of _ _ _ _ "- 1"])
  show "dict_entries d = []"
    using table_ok_used [OF D(1)] table_ok_used [OF D(2)] u D(2) D(4) [OF nre]
    by (auto simp: dict_entries_def table_ok_def)
qed

lemma dictResize_performed:
  assumes "\<not> dictIsRehashing d" "\<not> (n < sz \<or> n * 8 mod 18446744073709551616 < n \<or> e = ht_size_exp d 0)"
    "zcalloc_ok g (n * 8)" "e = dictNextExp sz" "n = DICTHT_SIZE e"
  shows "\<exists>tr. dictResize T g d sz mayfail = Some
    (if ht_table d 0 = [] \<or> ht_used d 0 = 0
     then d\<lparr>ht_size_exp := (ht_size_exp d)(0 := e, 1 := - 1), ht_used := (ht_used d)(0 := 0, 1 := 0),
       ht_table := (ht_table d)(0 := replicate n [], 1 := []), rehashidx := - 1, d_trace := tr\<rparr>
     else d\<lparr>ht_size_exp := (ht_size_exp d)(1 := e), ht_used := (ht_used d)(1 := 0),
       ht_table := (ht_table d)(1 := replicate n []), rehashidx := 0, d_trace := tr\<rparr>, True, False)"
proof (cases "ht_table d 0 = [] \<or> ht_used d 0 = 0")
  case True
  let ?tr = "d_trace d @ (if rehashingStarted T then [RehashingStarted] else []) @
    (if rehashingCompleted T then [RehashingCompleted] else [])"
  show ?thesis
    using assms True
    by (intro exI [of _ ?tr]) (auto simp: dictResize_def Let_def log_event_def dictReset_def
      fun_eq_iff intro!: dict.equality)
next
  case False
  let ?tr = "d_trace d @ (if rehashingStarted T then [RehashingStarted] else [])"
  show ?thesis
    using assms False
    by (intro exI [of _ ?tr]) (auto simp: dictResize_def Let_def log_event_def intro!: dict.equality)
qed

lemma dictResize_ok:
  assumes ok: "dok d" and nre: "\<not> dictIsRehashing d" and al: "mayfail \<or> alloc_upto g (16 * sz + 32)"
  shows "\<exists>d' r mf. dictResize T g d sz mayfail = Some (d', r, mf) \<and> resize_step d d' \<and> (r \<longrightarrow> ht_table d' 0 \<noteq> [])"
proof -
  let ?e = "dictNextExp sz" and ?n = "DICTHT_SIZE (dictNextExp sz)"
  have i: "rehashidx d = - 1" using nre by (simp add: dictIsRehashing_def)
  have al': "zcalloc_ok g (?n * 8) \<or> mayfail" using al dict_size_alloc by auto
  show ?thesis
  proof (cases "?n < sz \<or> ?n * 8 mod 18446744073709551616 < ?n \<or> ?e = ht_size_exp d 0 \<or> \<not> zcalloc_ok g (?n * 8)")
    case True
    then show ?thesis using ok nre al' by (auto simp: dictResize_def Let_def)
  next
    case False
    then obtain tr where tr: "dictResize T g d sz mayfail = Some
      (if ht_table d 0 = [] \<or> ht_used d 0 = 0
       then d\<lparr>ht_size_exp := (ht_size_exp d)(0 := ?e, 1 := - 1), ht_used := (ht_used d)(0 := 0, 1 := 0),
         ht_table := (ht_table d)(0 := replicate ?n [], 1 := []), rehashidx := - 1, d_trace := tr\<rparr>
       else d\<lparr>ht_size_exp := (ht_size_exp d)(1 := ?e), ht_used := (ht_used d)(1 := 0),
         ht_table := (ht_table d)(1 := replicate ?n []), rehashidx := 0, d_trace := tr\<rparr>, True, False)"
      using dictResize_performed [OF nre, of ?n sz ?e g mayfail] by blast
    have e: "0 \<le> ?e" "?e \<le> 60" using exp_no_overflow [of ?e] dictNextExp_bounds [of sz] False by auto
    have n0: "0 < ?n" using e by (simp add: DICTHT_SIZE_def)
    show ?thesis
    proof (cases "ht_table d 0 = [] \<or> ht_used d 0 = 0")
      case True
      then have u: "ht_used d 0 = 0" using table_ok_used [OF dict_okD(1) [OF ok]] by auto
      show ?thesis
        using tr True n0 dict_ok_replace_empty(1) [OF ok i e u, of tr] dict_ok_replace_empty(2) [OF ok i e u]
        by (auto simp: dict_keeps_def dict_entries_def)
    next
      case False2: False
      have "ht_table d 1 = []" using dict_okD(2,4) [OF ok] i by (auto simp: table_ok_def)
      then show ?thesis
        using tr False False2 n0 dict_ok_start_rehash [OF ok i e, of tr]
        by (auto simp: dict_keeps_def dict_entries_def)
    qed
  qed
qed

lemma dictExpand_generic_ok:
  assumes "dok d" "mayfail \<or> alloc_upto g (16 * sz + 32)"
  shows "\<exists>d' r mf. dictExpand_generic T g d sz mayfail = Some (d', r, mf) \<and> resize_step d d' \<and> (r \<longrightarrow> ht_table d' 0 \<noteq> [])"
  using assms dictResize_ok [of d mayfail g sz] by (auto simp: dictExpand_generic_def)

lemma dictExpand_ok:
  assumes "dok d" "alloc_upto g (16 * sz + 32)"
  shows "\<exists>d' r. dictExpand T g d sz = Some (d', r) \<and> resize_step d d' \<and> (r \<longrightarrow> ht_table d' 0 \<noteq> [])"
  using assms dictExpand_generic_ok [of d False g sz] by (auto simp: dictExpand_def)

lemma dictTryExpand_ok:
  assumes "dok d"
  shows "\<exists>d' r. dictTryExpand T g d sz = Some (d', r) \<and> resize_step d d'"
  using assms dictExpand_generic_ok [of d True g sz] by (auto simp: dictTryExpand_def)

lemma dictShrink_ok:
  assumes "dok d" "alloc_upto g (16 * sz + 32)"
  shows "\<exists>d' r. dictShrink T g d sz = Some (d', r) \<and> resize_step d d'"
  using assms dictResize_ok [of d False g sz] by (auto simp: dictShrink_def)

lemma dictExpand_first:
  assumes "dok d" "ht_table d 0 = []" "alloc_upto g 96"
  shows "\<exists>d'. dictExpand T g d DICT_HT_INITIAL_SIZE = Some (d', True)"
proof -
  have "dictNextExp 4 = 2" "DICTHT_SIZE 2 = 4" by (simp_all add: dictNextExp_def DICTHT_SIZE_def)
  moreover have "ht_size_exp d 0 = - 1" "ht_used d 0 = 0" "rehashidx d = - 1"
    using dict_okD(1,5) [OF assms(1)] assms(2) by (auto simp: table_ok_def)
  moreover have "zcalloc_ok g 32" using assms(3) by (simp add: alloc_upto_def)
  ultimately show ?thesis
    by (simp add: dictExpand_def dictExpand_generic_def dictResize_def Let_def dictIsRehashing_def DICTHT_SIZE_def
      log_event_def assms(2))
qed

lemma dictExpandIfNeeded_auto_ok:
  assumes ok: "dok d" and al: "alloc_upto g (16 * ht_used d 0 + 96)"
  shows "\<exists>d'. dictExpandIfNeeded_auto T g d = Some d' \<and> resize_step d d' \<and>
    (ht_table d 0 \<noteq> [] \<or> pauseAutoResize d \<le> 0 \<longrightarrow> ht_table d' 0 \<noteq> [])"
proof (cases "pauseAutoResize d > 0 \<or> dictIsRehashing d")
  case True
  have "dictIsRehashing d \<Longrightarrow> ht_table d 0 \<noteq> []"
    using dict_okD(1,5) [OF ok] by (auto simp: dictIsRehashing_def table_ok_def)
  then show ?thesis using True ok by (auto simp: dictExpandIfNeeded_auto_def dictExpandIfNeeded_def)
next
  case False
  have s: "DICTHT_SIZE (ht_size_exp d 0) = length (ht_table d 0)" by (rule table_ok_size [OF dict_okD(1) [OF ok]])
  show ?thesis
  proof (cases "ht_table d 0 = []")
    case True
    have "alloc_upto g 96" by (rule alloc_upto_mono [OF al]) simp
    from dictExpand_first [OF ok True this] dictExpand_ok [OF ok, of g 4] this
    obtain d' where "dictExpand T g d 4 = Some (d', True)" "resize_step d d'" "ht_table d' 0 \<noteq> []" by auto
    then show ?thesis
      using False s True by (auto simp: dictExpandIfNeeded_auto_def dictExpandIfNeeded_def)
  next
    case ne: False
    have "alloc_upto g (16 * (ht_used d 0 + 1) + 32)" by (rule alloc_upto_mono [OF al]) simp
    from dictExpand_ok [OF ok this] obtain d' r where
      "dictExpand T g d (ht_used d 0 + 1) = Some (d', r)" "resize_step d d'" by blast
    moreover have "ht_table d' 0 \<noteq> []" using calculation ne by (simp add: dict_keeps_def)
    ultimately show ?thesis
      using False s ne ok by (auto simp: dictExpandIfNeeded_auto_def dictExpandIfNeeded_def)
  qed
qed

lemma dictShrinkIfNeeded_auto_ok:
  assumes ok: "dok d" and al: "alloc_upto g (16 * ht_used d 0 + 96)"
  shows "\<exists>d'. dictShrinkIfNeeded_auto T g d = Some d' \<and> resize_step d d'"
proof -
  have "alloc_upto g (16 * ht_used d 0 + 32)" by (rule alloc_upto_mono [OF al]) simp
  from dictShrink_ok [OF ok this] show ?thesis
    using ok by (auto simp: dictShrinkIfNeeded_auto_def dictShrinkIfNeeded_def)
qed

end


subsection \<open>Lookup\<close>

lemma chain_find_NULL: "chain b = b \<Longrightarrow> chain_find P b = NULL \<Longrightarrow> e \<in> set b \<Longrightarrow> \<not> P (dictGetKey e)"
  by (induction b) (auto split: if_splits nullable.splits)

lemma chain_find_Ptr: "chain_find P b = Ptr j \<Longrightarrow> j < length b \<and> P (dictGetKey (b ! j))"
  by (induction b arbitrary: j) (auto split: if_splits nullable.splits)

text \<open>The location holds an entry with the content \<open>x\<close>.\<close>

definition loc_ok :: "('k \<Rightarrow> 'i) \<Rightarrow> ('k, 'v) dict \<Rightarrow> entry_loc \<Rightarrow> 'i \<Rightarrow> bool" where
  "loc_ok kid d p x \<longleftrightarrow> (case p of (t, i, j) \<Rightarrow> t \<le> 1 \<and> i < length (ht_table d t) \<and>
     j < length (ht_table d t ! i) \<and> kid (dictGetKey (ht_table d t ! i ! j)) = x)"

definition search_result :: "('k \<Rightarrow> 'i) \<Rightarrow> ('k, 'v) dict \<Rightarrow> 'i \<Rightarrow> entry_loc nullable \<Rightarrow> bool" where
  "search_result kid d x r \<longleftrightarrow> (case r of NULL \<Rightarrow> dict_map kid d x = None | Ptr p \<Rightarrow> loc_ok kid d p x)"

lemma dict_map_None: "dict_map kid d x = None \<longleftrightarrow> (\<forall>e\<in>set (dict_entries d). kid (dictGetKey e) \<noteq> x)"
  by (force simp: dict_map_def map_of_eq_None_iff entry_kv_def)

lemma loc_ok_entry:
  assumes "loc_ok kid d p x" "distinct (map (kid \<circ> dictGetKey) (dict_entries d))"
  shows "\<exists>e. entry_at d p = Some e \<and> e \<in> set (dict_entries d) \<and> kid (dictGetKey e) = x \<and>
    dict_map kid d x = Some (dictGetVal e)"
proof -
  obtain t i j where p: "p = (t, i, j)" by (cases p) auto
  let ?e = "ht_table d t ! i ! j"
  have l: "t \<le> 1" "i < length (ht_table d t)" "j < length (ht_table d t ! i)" "kid (dictGetKey ?e) = x"
    using assms(1) by (auto simp: loc_ok_def p)
  have "?e \<in> set (concat (ht_table d t))" by (rule subsetD [OF nth_concat_subset [OF l(2)] nth_mem [OF l(3)]])
  moreover have "t = 0 \<or> t = 1" using l(1) by auto
  ultimately have e: "?e \<in> set (dict_entries d)" by (auto simp: dict_entries_def)
  then have "(x, dictGetVal ?e) \<in> set (map (entry_kv kid) (dict_entries d))"
    using l(4) by (force simp: entry_kv_def)
  then have "dict_map kid d x = Some (dictGetVal ?e)"
    using assms(2) unfolding map_kids by (simp add: dict_map_def)
  with e l show ?thesis by (simp add: entry_at_def p rd_def)
qed

context dict_keys
begin

text \<open>The form of a key argument under the current mode.\<close>

abbreviation form where "form b k \<equiv> (if b then sk k else lk k)"

lemma key_matches_iff:
  "form (useStoredKeyApi d) key \<Longrightarrow> sk k \<Longrightarrow> key_matches T d key k \<longleftrightarrow> kid key = kid k"
  by (auto simp: key_matches_def cmp_lookup cmp_stored split: if_splits)

lemma form_hash: "form b key \<Longrightarrow> dictHashKey T key b = H (kid key)"
  by (auto simp: hash_lookup hash_stored split: if_splits)

lemma dict_probe_ok:
  assumes tb: "tok (ht_size_exp d t) (ht_table d t) (ht_used d t)" "ht_size_exp d t \<noteq> - 1" and t: "t \<le> 1"
    and key: "form (useStoredKeyApi d) key" and h: "h = H (kid key)"
  shows "\<exists>r. dict_probe (key_matches T d key) d h t = Some r \<and>
    (case r of NULL \<Rightarrow> \<forall>e\<in>set (concat (ht_table d t)). kid (dictGetKey e) \<noteq> kid key
     | Ptr p \<Rightarrow> loc_ok kid d p (kid key))"
proof -
  let ?tb = "ht_table d t" and ?i = "dict_idx h (ht_size_exp d t)"
  have i: "?i = unat h mod length ?tb" "?i < length ?tb" using table_ok_idx [OF tb] by blast+
  note b = table_ok_bucket [OF tb(1) i(2)]
  have pr: "dict_probe (key_matches T d key) d h t =
    Some (case chain_find (key_matches T d key) (?tb ! ?i) of NULL \<Rightarrow> NULL | Ptr j \<Rightarrow> Ptr (t, ?i, j))"
    using i(2) by (simp add: dict_probe_def Let_def rd_def)
  have sk: "sk (dictGetKey e)" if "e \<in> set (?tb ! ?i)" for e using b that by (auto simp: bucket_ok_def entry_ok_def)
  show ?thesis
  proof (cases "chain_find (key_matches T d key) (?tb ! ?i)")
    case NULL
    have "kid (dictGetKey e) \<noteq> kid key" if e: "e \<in> set (concat ?tb)" for e
    proof
      assume k: "kid (dictGetKey e) = kid key"
      then have "e \<in> set (?tb ! ?i)" using table_ok_entry [OF tb(1) e] i h by (simp add: Let_def)
      then show False
        using chain_find_NULL [OF _ NULL, of e] b k sk [of e] key_matches_iff [OF key, of "dictGetKey e"]
        by (simp add: bucket_ok_def)
    qed
    then show ?thesis using pr NULL by auto
  next
    case (Ptr j)
    from chain_find_Ptr [OF Ptr] sk key_matches_iff [OF key]
    have "j < length (?tb ! ?i)" "kid (dictGetKey (?tb ! ?i ! j)) = kid key" by auto
    then show ?thesis using pr Ptr i t by (auto simp: loc_ok_def)
  qed
qed

lemma dict_search_ok:
  assumes ok: "dok d" and ne: "ht_table d 0 \<noteq> []" and key: "form (useStoredKeyApi d) key"
    and h: "h = H (kid key)" and idx: "rehashidx d \<le> 0 \<or> idx = dict_idx h (ht_size_exp d 0)"
  shows "\<exists>r. dict_search (key_matches T d key) d h idx = Some r \<and> search_result kid d (kid key) r"
proof -
  note D = dict_okD [OF ok]
  have e0: "ht_size_exp d 0 \<noteq> - 1" using D(1) ne by (auto simp: table_ok_def)
  note P0 = dict_probe_ok [OF D(1) e0 _ key h, simplified]
  have P1: "dictIsRehashing d \<Longrightarrow> \<exists>r. dict_probe (key_matches T d key) d h 1 = Some r \<and>
    (case r of NULL \<Rightarrow> \<forall>e\<in>set (concat (ht_table d 1)). kid (dictGetKey e) \<noteq> kid key
     | Ptr p \<Rightarrow> loc_ok kid d p (kid key))"
    by (rule dict_probe_ok [OF D(2) _ _ key h]) (use D(5) in \<open>auto simp: dictIsRehashing_def\<close>)
  have skip: "kid (dictGetKey e) \<noteq> kid key" if lt: "int idx < rehashidx d" and e: "e \<in> set (concat (ht_table d 0))" for e
  proof
    assume "kid (dictGetKey e) = kid key"
    then have "e \<in> set (ht_table d 0 ! dict_idx h (ht_size_exp d 0))"
      using table_ok_entry [OF D(1) e] table_ok_idx [OF D(1) e0, of h] h by (simp add: Let_def)
    moreover have "idx = dict_idx h (ht_size_exp d 0)" "idx < nat (rehashidx d)" using lt idx by auto
    ultimately show False using D(5) lt by auto
  qed
  have t1: "\<not> dictIsRehashing d \<Longrightarrow> ht_table d 1 = []" using D(2,4) by (auto simp: dictIsRehashing_def table_ok_def)
  show ?thesis
  proof (cases "int idx < rehashidx d")
    case True
    then have "dictIsRehashing d" by (auto simp: dictIsRehashing_def)
    from P1 [OF this] obtain r where r: "dict_probe (key_matches T d key) d h 1 = Some r"
      "case r of NULL \<Rightarrow> \<forall>e\<in>set (concat (ht_table d 1)). kid (dictGetKey e) \<noteq> kid key
       | Ptr p \<Rightarrow> loc_ok kid d p (kid key)" by blast
    then show ?thesis using True skip
      by (cases r) (auto simp: dict_search_def search_result_def dict_map_None dict_entries_def)
  next
    case False
    from P0 obtain r0 where r0: "dict_probe (key_matches T d key) d h 0 = Some r0"
      "case r0 of NULL \<Rightarrow> \<forall>e\<in>set (concat (ht_table d 0)). kid (dictGetKey e) \<noteq> kid key
       | Ptr p \<Rightarrow> loc_ok kid d p (kid key)" by auto
    show ?thesis
    proof (cases r0)
      case NULL
      then show ?thesis using r0 False P1 t1
        by (cases "dictIsRehashing d")
          (auto simp: dict_search_def search_result_def dict_map_None dict_entries_def split: nullable.splits)
    next
      case (Ptr p)
      then show ?thesis using r0 False by (simp add: dict_search_def search_result_def)
    qed
  qed
qed

lemma dict_size_card:
  assumes "dok d"
  shows "dictSize d = length (dict_entries d)" "dictSize d = card (dom (dict_map kid d))"
proof -
  note D = dict_okD [OF assms]
  show a: "dictSize d = length (dict_entries d)"
    using table_ok_used [OF D(1)] table_ok_used [OF D(2)] by (simp add: dictSize_def dict_entries_def)
  have "dom (dict_map kid d) = set (map (kid \<circ> dictGetKey) (dict_entries d))"
    by (simp add: dict_map_def dom_map_of_conv_image_fst entry_kv_def image_image)
  then show "dictSize d = card (dom (dict_map kid d))" using distinct_card [OF D(3)] a by simp
qed

lemma dict_size_table0:
  assumes "dok d" "dictSize d \<noteq> 0"
  shows "ht_table d 0 \<noteq> []"
  using assms(2) dict_okD [OF assms(1)]
  by (cases "rehashidx d = - 1") (auto simp: dictSize_def table_ok_def split: if_splits)

lemma dictFind_ok:
  assumes ok: "dok d" and key: "form (useStoredKeyApi d) key"
  shows "\<exists>d' r. dictFind T g d key = Some (d', r) \<and> dok d' \<and> dict_keeps kid d d' \<and>
    search_result kid d' (kid key) r"
proof (cases "dictSize d = 0")
  case True
  then have "dict_map kid d (kid key) = None"
    using dict_size_card(1) [OF ok] by (simp add: dict_map_def)
  then show ?thesis using True ok by (auto simp: dictFind_def search_result_def)
next
  case False
  let ?h = "dictHashKey T key (useStoredKeyApi d)"
  obtain d' where d': "access_rehash T g d (dict_idx ?h (ht_size_exp d 0)) = Some d'" "rehash_step d d'"
    using access_rehash_ok [OF ok refl, of g ?h] by blast
  have "ht_table d' 0 \<noteq> []" using dict_size_table0 [OF ok False] d'(2) by (simp add: dict_keeps_def)
  moreover have u: "useStoredKeyApi d' = useStoredKeyApi d" using d'(2) by (simp add: dict_keeps_def)
  ultimately obtain r where "dict_search (key_matches T d' key) d' ?h (dict_idx ?h (ht_size_exp d 0)) = Some r"
    "search_result kid d' (kid key) r"
    using dict_search_ok [of d' key ?h "dict_idx ?h (ht_size_exp d 0)"] d'(2) key form_hash [OF key] by auto
  then show ?thesis using d' False by (auto simp: dictFind_def Let_def)
qed

end


subsection \<open>Changing one bucket\<close>

lemma map_of_mset_insert:
  assumes "mset ys = add_mset (x, v) (mset xs)" "x \<notin> fst ` set xs" "distinct (map fst xs)"
  shows "distinct (map fst ys)" "map_of ys = (map_of xs)(x \<mapsto> v)"
proof -
  have m: "mset ((x, v) # xs) = mset ys" using assms(1) by simp
  have d: "distinct (map fst ((x, v) # xs))" using assms(2,3) by simp
  show "distinct (map fst ys)" using d m by (metis mset_eq_imp_distinct_iff mset_map)
  show "map_of ys = (map_of xs)(x \<mapsto> v)" using map_of_mset_cong [OF m d] by simp
qed

lemma map_of_mset_remove:
  assumes "add_mset (x, v) (mset ys) = mset xs" "distinct (map fst xs)"
  shows "distinct (map fst ys)" "map_of ys = (map_of xs)(x := None)" "x \<notin> fst ` set ys"
proof -
  have m: "mset ((x, v) # ys) = mset xs" using assms(1) by simp
  then have d: "distinct (map fst ((x, v) # ys))" using assms(2) by (metis mset_eq_imp_distinct_iff mset_map)
  then show "distinct (map fst ys)" and x: "x \<notin> fst ` set ys" by simp_all
  have "map_of xs = (map_of ys)(x \<mapsto> v)" using map_of_mset_cong [OF m d] by simp
  then show "map_of ys = (map_of xs)(x := None)" using x by (auto simp: map_of_eq_None_iff fun_eq_iff)
qed

lemma mset_swap:
  fixes A B O' E' :: "'a multiset"
  assumes "A + O' = E' + B" "B + {#p#} = O' + {#q#}"
  shows "add_mset p A = add_mset q E'"
proof -
  have "add_mset p A + O' = E' + (B + {#p#})" using assms(1) by simp
  also have "\<dots> = add_mset q E' + O'" unfolding assms(2) by simp
  finally show ?thesis by (simp only: add_right_cancel)
qed

lemma map_of_mset_replace:
  assumes "add_mset (x, v) (mset ys) = add_mset (x, v') (mset xs)" "(x, v) \<in> set xs" "distinct (map fst xs)"
  shows "distinct (map fst ys)" "map_of ys = (map_of xs)(x \<mapsto> v')"
proof -
  let ?zs = "remove1 (x, v) xs"
  have zs: "add_mset (x, v) (mset ?zs) = mset xs" using assms(2) by simp
  note R = map_of_mset_remove [OF zs assms(3)]
  have "add_mset (x, v) (mset ys) = add_mset (x, v) (add_mset (x, v') (mset ?zs))"
    unfolding assms(1) zs [symmetric] by (simp only: add_mset_commute)
  then have ys: "mset ys = add_mset (x, v') (mset ?zs)" by (simp only: add_mset_add_mset_same_iff)
  show "distinct (map fst ys)" "map_of ys = (map_of xs)(x \<mapsto> v')"
    using map_of_mset_insert [OF ys R(3,1)] R(2) by simp_all
qed

text \<open>\<open>d'\<close> differs from \<open>d\<close> in one bucket, the counter of its table and what does not concern the content.\<close>

definition bucket_update ::
  "('k, 'v) dict \<Rightarrow> ('k, 'v) dict \<Rightarrow> nat \<Rightarrow> nat \<Rightarrow> ('k, 'v) dictEntry list \<Rightarrow> bool" where
  "bucket_update d d' t i b \<longleftrightarrow> t \<le> 1 \<and> i < length (ht_table d t) \<and>
     ht_table d' = (ht_table d)(t := (ht_table d t)[i := b]) \<and>
     ht_used d' = (ht_used d)(t := ht_used d t + length b - length (ht_table d t ! i)) \<and>
     ht_size_exp d' = ht_size_exp d \<and> rehashidx d' = rehashidx d"

lemma bucket_update_mset:
  assumes "bucket_update d d' t i b"
  shows "mset (map (entry_kv kid) (dict_entries d')) + mset (map (entry_kv kid) (ht_table d t ! i)) =
    mset (map (entry_kv kid) (dict_entries d)) + mset (map (entry_kv kid) b)"
proof -
  have i: "i < length (ht_table d t)" and t: "t = 0 \<or> t = 1" using assms by (auto simp: bucket_update_def)
  from mset_kv_update [OF i, of "entry_kv kid" b] t assms show ?thesis
    by (elim disjE) (auto simp: dict_entries_def bucket_update_def ac_simps simp del: mset_map)
qed

lemma dict_entries_cong: "ht_table d' = ht_table d \<Longrightarrow> dict_entries d' = dict_entries d"
  by (simp add: dict_entries_def)

context dict_keys
begin

lemma bucket_update_ok:
  assumes ok: "dok d" and upd: "bucket_update d d' t i b"
    and b: "bucket_ok T H kid sk (length (ht_table d t)) i b"
    and re: "t = 0 \<Longrightarrow> dictIsRehashing d \<Longrightarrow> ht_table d 0 ! i \<noteq> []"
    and ds: "distinct (map (kid \<circ> dictGetKey) (dict_entries d'))"
  shows "dok d'"
proof -
  note D = dict_okD [OF ok]
  have i: "i < length (ht_table d t)" and t: "t = 0 \<or> t = 1" using upd by (auto simp: bucket_update_def)
  have "tok (ht_size_exp d t) (ht_table d t) (ht_used d t)" using D(1,2) t by auto
  from table_ok_update [OF this i b]
  have tok: "tok (ht_size_exp d t) ((ht_table d t)[i := b]) (ht_used d t + length b - length (ht_table d t ! i))" .
  show ?thesis
  proof (cases "t = 0")
    case True
    have "nat (rehashidx d) \<le> i" if "rehashidx d \<noteq> - 1" using re True that D(5) by (metis dictIsRehashing_def not_le)
    then show ?thesis
      using tok D ds upd True by (auto simp: dict_ok_def bucket_update_def)
  next
    case False
    with t have "t = 1" by simp
    with tok D ds upd show ?thesis by (auto simp: dict_ok_def bucket_update_def)
  qed
qed

lemma loc_bucket:
  assumes "dok d" "loc_ok kid d (t, i, j) x"
  shows "bucket_ok T H kid sk (length (ht_table d t)) i (ht_table d t ! i)" "ht_table d t ! i \<noteq> []"
proof -
  have i: "i < length (ht_table d t)" and t: "t = 0 \<or> t = 1" and j: "j < length (ht_table d t ! i)"
    using assms(2) by (auto simp: loc_ok_def)
  have "tok (ht_size_exp d t) (ht_table d t) (ht_used d t)" using dict_okD(1,2) [OF assms(1)] t by auto
  then show "bucket_ok T H kid sk (length (ht_table d t)) i (ht_table d t ! i)" using i by (rule table_ok_bucket)
  show "ht_table d t ! i \<noteq> []" using j by auto
qed

lemma loc_table0:
  assumes "dok d" "loc_ok kid d p x"
  shows "ht_table d 0 \<noteq> []"
proof (rule dict_size_table0 [OF assms(1)])
  show "dictSize d \<noteq> 0"
    using loc_ok_entry [OF assms(2) dict_okD(3) [OF assms(1)]] dict_size_card(1) [OF assms(1)] by auto
qed

lemma dictSetVal_ok:
  assumes ok: "dok d" and loc: "loc_ok kid d p x" and nv: "\<not> no_value T"
  shows "\<exists>d'. dictSetVal T d p v = Some d' \<and> dok d' \<and>
    dict_map kid d' = (dict_map kid d)(x \<mapsto> Some (case valDup T of NULL \<Rightarrow> v | Ptr f \<Rightarrow> f v)) \<and>
    ht_table d' 0 \<noteq> [] \<and> useStoredKeyApi d' = useStoredKeyApi d \<and> pauseAutoResize d' = pauseAutoResize d"
proof -
  obtain t i j where p: "p = (t, i, j)" by (cases p) auto
  let ?tb = "ht_table d t" and ?b = "ht_table d t ! i" and ?e = "ht_table d t ! i ! j"
  let ?v = "Some (case valDup T of NULL \<Rightarrow> v | Ptr f \<Rightarrow> f v)"
  let ?e' = "Normal (dictGetKey ?e) ?v"
  have l: "t \<le> 1" "i < length ?tb" "j < length ?b" "kid (dictGetKey ?e) = x" using loc by (auto simp: loc_ok_def p)
  note B = loc_bucket [OF ok loc [unfolded p]]
  have e: "entry_ok T sk ?e" "unat (H (kid (dictGetKey ?e))) mod length ?tb = i"
    using B(1) l(3) nth_mem [OF l(3)] by (auto simp: bucket_ok_def)
  have hv: "entryHasValue ?e" using e nv by (simp add: entry_ok_def)
  define d' where "d' = d\<lparr>ht_table := (ht_table d)(t := ?tb[i := ?b[j := ?e']])\<rparr>"
  have res: "dictSetVal T d p v = Some d'"
    using l hv by (simp add: dictSetVal_def p entry_at_def set_entry_def rd_def wr_def d'_def)
  have upd: "bucket_update d d' t i (?b[j := ?e'])" using l by (simp add: bucket_update_def d'_def)
  have "entry_kv kid ?e \<in># mset (map (entry_kv kid) ?b)" using nth_mem [OF l(3)] by (simp del: nth_mem)
  moreover have "entry_kv kid ?e = (x, dictGetVal ?e)" "entry_kv kid ?e' = (x, ?v)" using l(4) by (simp_all add: entry_kv_def)
  ultimately have ms: "mset (map (entry_kv kid) (?b[j := ?e'])) + {#(x, dictGetVal ?e)#} =
      mset (map (entry_kv kid) ?b) + {#(x, ?v)#}"
    using l(3) by (simp add: map_update mset_update del: mset_map)
  note rep = mset_swap [OF bucket_update_mset [OF upd, of kid] ms]
  have "entry_at d p = Some ?e" using l by (simp add: entry_at_def p rd_def)
  with loc_ok_entry [OF loc dict_okD(3) [OF ok]]
  have "(x, dictGetVal ?e) \<in> set (map (entry_kv kid) (dict_entries d))" by (force simp: entry_kv_def)
  note R = map_of_mset_replace [OF rep this dict_okD(3) [OF ok, unfolded map_kids]]
  have "bucket_ok T H kid sk (length ?tb) i (?b[j := ?e'])"
    using B(1) l(3) e nv hv chain_list_update [of ?b j ?e']
    by (cases ?e) (auto simp: bucket_ok_def entry_ok_def dest!: set_update_subset_insert [THEN subsetD])
  then have "dok d'" using bucket_update_ok [OF ok upd] R(1) B(2) unfolding map_kids by blast
  moreover have "ht_table d' 0 \<noteq> []" using loc_table0 [OF ok loc] by (simp add: d'_def)
  ultimately show ?thesis using res R(2) by (simp add: dict_map_def d'_def)
qed
end


subsection \<open>Insertion and removal\<close>

text \<open>A key that may be added: what is stored has the stored form and the same content.\<close>

definition stored_key :: "('k, 'v) dictType \<Rightarrow> 'k \<Rightarrow> 'k" where
  "stored_key T key = (case keyDup T of NULL \<Rightarrow> key | Ptr f \<Rightarrow> f key)"

definition key_addable :: "('k, 'v) dictType \<Rightarrow> ('k \<Rightarrow> 'i) \<Rightarrow> ('k \<Rightarrow> bool) \<Rightarrow> 'k \<Rightarrow> bool" where
  "key_addable T kid sk key \<longleftrightarrow> sk (stored_key T key) \<and> kid (stored_key T key) = kid key \<and>
     (no_value T \<and> keys_are_odd T \<longrightarrow> key_lsb T (stored_key T key))"

definition stored_val :: "('k, 'v) dictType \<Rightarrow> 'v \<Rightarrow> 'v" where
  "stored_val T v = (case valDup T of NULL \<Rightarrow> v | Ptr f \<Rightarrow> f v)"

text \<open>The modes that an operation on the content leaves alone.\<close>

definition same_modes :: "('k, 'v) dict \<Rightarrow> ('k, 'v) dict \<Rightarrow> bool" where
  "same_modes d d' \<longleftrightarrow> useStoredKeyApi d' = useStoredKeyApi d \<and> pauseAutoResize d' = pauseAutoResize d"

lemma same_modes_trans: "same_modes d d' \<Longrightarrow> same_modes d' d'' \<Longrightarrow> same_modes d d''"
  by (simp add: same_modes_def)

lemma dict_keeps_modes: "dict_keeps kid d d' \<Longrightarrow> same_modes d d'"
  by (simp add: dict_keeps_def same_modes_def)

lemma dict_idx_mask: "dict_idx h e \<le> unat (DICTHT_SIZE_MASK e)"
  unfolding dict_idx_def word_le_nat_alt [symmetric] by (simp add: word_and_le1)

context dict_keys
begin

lemma dictInsertAtPosition_ok:
  assumes ok: "dok d" and ne: "ht_table d 0 \<noteq> []" and k: "sk k" "no_value T \<and> keys_are_odd T \<longrightarrow> key_lsb T k"
    and x: "kid k = x" "dict_map kid d x = None"
    and t: "t = (if dictIsRehashing d then 1 else 0)" and i: "i = dict_idx (H x) (ht_size_exp d t)"
  shows "\<exists>d'. dictInsertAtPosition T d k (t, i) = Some (d', (t, i, 0)) \<and> dok d' \<and>
    dict_map kid d' = (dict_map kid d)(x \<mapsto> None) \<and> loc_ok kid d' (t, i, 0) x \<and> same_modes d d'"
proof -
  note D = dict_okD [OF ok]
  have e: "ht_size_exp d t \<noteq> - 1" using D(1,5) ne t by (auto simp: dictIsRehashing_def table_ok_def)
  have tok: "tok (ht_size_exp d t) (ht_table d t) (ht_used d t)" using D(1,2) t by auto
  have il: "i < length (ht_table d t)" "i = unat (H x) mod length (ht_table d t)"
    using table_ok_idx [OF tok e, of "H x"] i by blast+
  let ?b = "ht_table d t ! i"
  define en :: "('k, 'v) dictEntry" where "en = (if no_value T then if keys_are_odd T \<and> ?b = [] then KeyPtr k else NoValue k else Normal k None)"
  have en: "dictGetKey en = k" "dictGetVal en = None" "entry_ok T sk en" "chain ?b = ?b \<Longrightarrow> chain (en # ?b) = en # ?b"
    using k by (auto simp: en_def entry_ok_def)
  define d' where "d' = d\<lparr>ht_table := (ht_table d)(t := (ht_table d t)[i := en # ?b]),
    ht_used := (ht_used d)(t := ht_used d t + 1)\<rparr>"
  have upd: "bucket_update d d' t i (en # ?b)" using t il by (auto simp: bucket_update_def d'_def)
  have ms: "mset (map (entry_kv kid) (dict_entries d')) = add_mset (x, None) (mset (map (entry_kv kid) (dict_entries d)))"
    using bucket_update_mset [OF upd, of kid] en(1,2) x by (simp add: entry_kv_def)
  have "x \<notin> fst ` set (map (entry_kv kid) (dict_entries d))"
    using x(2) by (simp add: dict_map_def map_of_eq_None_iff)
  note M = map_of_mset_insert [OF ms this D(3) [unfolded map_kids]]
  have "bucket_ok T H kid sk (length (ht_table d t)) i (en # ?b)"
    using table_ok_bucket [OF tok il(1)] en il(2) x(1) by (auto simp: bucket_ok_def simp del: chain.simps)
  then have "dok d'" using bucket_update_ok [OF ok upd] M(1) t unfolding map_kids by auto
  moreover have "dictInsertAtPosition T d k (t, i) = Some (d', (t, i, 0))"
    using il(1) k(2) dict_idx_mask [of "H x" "ht_size_exp d t"]
    by (auto simp: dictInsertAtPosition_def Let_def t [symmetric] i [symmetric] rd_def wr_def d'_def en_def)
  moreover have "loc_ok kid d' (t, i, 0) x" using il en(1) x(1) t by (auto simp: loc_ok_def d'_def)
  ultimately show ?thesis using M(2) by (simp add: dict_map_def d'_def same_modes_def)
qed

lemma dictFindPositionForInsert_ok:
  assumes ok: "dok d" and ne: "ht_table d 0 \<noteq> [] \<or> pauseAutoResize d \<le> 0" and key: "form (useStoredKeyApi d) key"
    and al: "alloc_upto g (16 * dictSize d + 96)"
  shows "\<exists>d' ex pos. dictFindPositionForInsert T g d key = Some (d', ex, pos) \<and> dok d' \<and> dict_keeps kid d d' \<and>
    ht_table d' 0 \<noteq> [] \<and> search_result kid d' (kid key) ex \<and>
    (ex = NULL \<longrightarrow> (let t = (if dictIsRehashing d' then 1 else 0) in
       pos = Ptr (t, dict_idx (H (kid key)) (ht_size_exp d' t)))) \<and> (ex \<noteq> NULL \<longrightarrow> pos = NULL)"
proof -
  let ?h = "dictHashKey T key (useStoredKeyApi d)" and ?idx = "dict_idx (dictHashKey T key (useStoredKeyApi d)) (ht_size_exp d 0)"
  obtain d1 where d1: "access_rehash T g d ?idx = Some d1" "rehash_step d d1"
    using access_rehash_ok [OF ok refl, of g ?h] by blast
  have "dictSize d1 = dictSize d"
    using d1(2) dict_size_card(1) ok by (metis dict_keeps_def size_mset length_map)
  then have "alloc_upto g (16 * ht_used d1 0 + 96)" using al by (auto simp: dictSize_def elim: alloc_upto_mono)
  then obtain d2 where d2: "dictExpandIfNeeded_auto T g d1 = Some d2" "resize_step d1 d2"
    "ht_table d1 0 \<noteq> [] \<or> pauseAutoResize d1 \<le> 0 \<longrightarrow> ht_table d2 0 \<noteq> []"
    using dictExpandIfNeeded_auto_ok [of d1 g] d1(2) by blast
  have k2: "dict_keeps kid d d2" using d1(2) d2(2) dict_keeps_trans by blast
  have ne2: "ht_table d2 0 \<noteq> []" using d2(3) d1(2) ne by (auto simp: dict_keeps_def)
  have "rehashidx d2 \<le> 0 \<or> ?idx = dict_idx ?h (ht_size_exp d2 0)" using d1(2) d2(2) by auto
  moreover have "useStoredKeyApi d2 = useStoredKeyApi d" using k2 by (simp add: dict_keeps_def)
  ultimately obtain r where "dict_search (key_matches T d2 key) d2 ?h ?idx = Some r" "search_result kid d2 (kid key) r"
    using dict_search_ok [of d2 key ?h ?idx] d2(2) key form_hash [OF key] ne2 by auto
  then show ?thesis using d1(1) d2(1,2) k2 ne2 form_hash [OF key]
    by (cases r) (auto simp: dictFindPositionForInsert_def Let_def)
qed

lemma dictAddRaw_ok:
  assumes ok: "dok d" and ne: "ht_table d 0 \<noteq> [] \<or> pauseAutoResize d \<le> 0" and key: "form (useStoredKeyApi d) key"
    and ad: "key_addable T kid sk key" and al: "alloc_upto g (16 * dictSize d + 96)"
  shows "\<exists>d' en ex. dictAddRaw T g d key = Some (d', en, ex) \<and> dok d' \<and> ht_table d' 0 \<noteq> [] \<and> same_modes d d' \<and>
    (if kid key \<in> dom (dict_map kid d)
     then en = NULL \<and> dict_map kid d' = dict_map kid d \<and> (\<exists>p. ex = Ptr p \<and> loc_ok kid d' p (kid key))
     else dict_map kid d' = (dict_map kid d)(kid key \<mapsto> None) \<and> (\<exists>p. en = Ptr p \<and> loc_ok kid d' p (kid key)))"
proof -
  obtain d1 ex pos where d1: "dictFindPositionForInsert T g d key = Some (d1, ex, pos)" "dok d1" "dict_keeps kid d d1"
    "ht_table d1 0 \<noteq> []" "search_result kid d1 (kid key) ex"
    "ex = NULL \<longrightarrow> (let t = (if dictIsRehashing d1 then 1 else 0) in
       pos = Ptr (t, dict_idx (H (kid key)) (ht_size_exp d1 t)))" "ex \<noteq> NULL \<longrightarrow> pos = NULL"
    using dictFindPositionForInsert_ok [OF ok ne key al] by blast
  have m: "dict_map kid d1 = dict_map kid d" by (rule dict_keeps_map [OF d1(3) dict_okD(3) [OF ok]])
  show ?thesis
  proof (cases ex)
    case (Ptr p)
    then have "kid key \<in> dom (dict_map kid d1)"
      using d1(5) loc_ok_entry [OF _ dict_okD(3) [OF d1(2)], of p "kid key"] by (auto simp: search_result_def)
    then show ?thesis using d1 Ptr m dict_keeps_modes [OF d1(3)]
      by (cases p) (auto simp: dictAddRaw_def search_result_def)
  next
    case NULL
    let ?t = "if dictIsRehashing d1 then 1 else 0"
    have x: "dict_map kid d1 (kid key) = None" using d1(5) NULL by (simp add: search_result_def)
    obtain d2 where "dictInsertAtPosition T d1 (stored_key T key) (?t, dict_idx (H (kid key)) (ht_size_exp d1 ?t)) =
        Some (d2, (?t, dict_idx (H (kid key)) (ht_size_exp d1 ?t), 0))" "dok d2"
      "dict_map kid d2 = (dict_map kid d1)(kid key \<mapsto> None)"
      "loc_ok kid d2 (?t, dict_idx (H (kid key)) (ht_size_exp d1 ?t), 0) (kid key)" "same_modes d1 d2"
      using dictInsertAtPosition_ok [OF d1(2,4) _ _ _ x refl refl, of "stored_key T key"] ad
      unfolding key_addable_def by blast
    then show ?thesis
      using d1 NULL m x same_modes_trans [OF dict_keeps_modes [OF d1(3)]] loc_table0
      by (auto simp: dictAddRaw_def stored_key_def [symmetric] Let_def)
  qed
qed

lemma dictAdd_ok:
  assumes "dok d" "ht_table d 0 \<noteq> [] \<or> pauseAutoResize d \<le> 0" "form (useStoredKeyApi d) key"
    "key_addable T kid sk key" "alloc_upto g (16 * dictSize d + 96)"
  shows "\<exists>d'. dictAdd T g d key v = Some (d', kid key \<notin> dom (dict_map kid d)) \<and> dok d' \<and> ht_table d' 0 \<noteq> [] \<and>
    same_modes d d' \<and> dict_map kid d' = (if kid key \<in> dom (dict_map kid d) then dict_map kid d
      else (dict_map kid d)(kid key \<mapsto> (if no_value T then None else Some (stored_val T v))))"
proof -
  obtain d' en ex where d': "dictAddRaw T g d key = Some (d', en, ex)" "dok d'" "ht_table d' 0 \<noteq> []" "same_modes d d'"
    "if kid key \<in> dom (dict_map kid d)
     then en = NULL \<and> dict_map kid d' = dict_map kid d \<and> (\<exists>p. ex = Ptr p \<and> loc_ok kid d' p (kid key))
     else dict_map kid d' = (dict_map kid d)(kid key \<mapsto> None) \<and> (\<exists>p. en = Ptr p \<and> loc_ok kid d' p (kid key))"
    using dictAddRaw_ok [OF assms] by blast
  show ?thesis
  proof (cases "kid key \<in> dom (dict_map kid d) \<or> no_value T")
    case True
    then show ?thesis using d' by (auto simp: dictAdd_def split: if_splits)
  next
    case False
    with d'(5) obtain p where p: "en = Ptr p" "loc_ok kid d' p (kid key)" "dict_map kid d' = (dict_map kid d)(kid key \<mapsto> None)" by auto
    obtain d'' where "dictSetVal T d' p v = Some d''" "dok d''" "ht_table d'' 0 \<noteq> []"
      "dict_map kid d'' = (dict_map kid d')(kid key \<mapsto> Some (stored_val T v))" "same_modes d' d''"
      using dictSetVal_ok [OF d'(2) p(2), of v] False by (auto simp: stored_val_def same_modes_def)
    then show ?thesis using d'(1) p False same_modes_trans [OF d'(4)] by (simp add: dictAdd_def)
  qed
qed

lemma dict_ok_trace [simp]: "dok (log_event b ev d) = dok d" "dict_map kid (log_event b ev d) = dict_map kid d"
  "ht_table (log_event b ev d) = ht_table d" "same_modes d' (log_event b ev d) = same_modes d' d"
  by (auto simp: log_event_def dict_ok_def dict_map_def dict_entries_def same_modes_def)

lemma dictReplace_ok:
  assumes "dok d" "ht_table d 0 \<noteq> [] \<or> pauseAutoResize d \<le> 0" "form (useStoredKeyApi d) key"
    "key_addable T kid sk key" "alloc_upto g (16 * dictSize d + 96)" and nv: "\<not> no_value T"
    and set: "dict_map kid d (kid key) \<noteq> Some None"
  shows "\<exists>d'. dictReplace T g d key v = Some (d', kid key \<notin> dom (dict_map kid d)) \<and> dok d' \<and> ht_table d' 0 \<noteq> [] \<and>
    same_modes d d' \<and> dict_map kid d' = (dict_map kid d)(kid key \<mapsto> Some (stored_val T v))"
proof -
  obtain d' en ex where d': "dictAddRaw T g d key = Some (d', en, ex)" "dok d'" "ht_table d' 0 \<noteq> []" "same_modes d d'"
    "if kid key \<in> dom (dict_map kid d)
     then en = NULL \<and> dict_map kid d' = dict_map kid d \<and> (\<exists>p. ex = Ptr p \<and> loc_ok kid d' p (kid key))
     else dict_map kid d' = (dict_map kid d)(kid key \<mapsto> None) \<and> (\<exists>p. en = Ptr p \<and> loc_ok kid d' p (kid key))"
    using dictAddRaw_ok [OF assms(1-5)] by blast
  then obtain p where p: "loc_ok kid d' p (kid key)" "kid key \<in> dom (dict_map kid d) \<Longrightarrow> en = NULL \<and> ex = Ptr p"
    "kid key \<notin> dom (dict_map kid d) \<Longrightarrow> en = Ptr p"
    by (auto split: if_splits)
  obtain d'' where d'': "dictSetVal T d' p v = Some d''" "dok d''" "ht_table d'' 0 \<noteq> []"
    "dict_map kid d'' = (dict_map kid d')(kid key \<mapsto> Some (stored_val T v))" "same_modes d' d''"
    using dictSetVal_ok [OF d'(2) p(1) nv, of v] by (auto simp: stored_val_def same_modes_def)
  obtain e where e: "entry_at d' p = Some e" "dict_map kid d' (kid key) = Some (dictGetVal e)"
    using loc_ok_entry [OF p(1) dict_okD(3) [OF d'(2)]] by blast
  show ?thesis
  proof (cases "kid key \<in> dom (dict_map kid d)")
    case True
    then obtain ov where "dictGetVal e = Some ov" using e(2) d'(5) set by auto
    then show ?thesis
      using d' p(2) [OF True] d'' e(1) True same_modes_trans [OF d'(4) d''(5)] by (simp add: dictReplace_def)
  next
    case False
    then show ?thesis using d' p(3) [OF False] d'' same_modes_trans [OF d'(4) d''(5)] by (simp add: dictReplace_def)
  qed
qed
end


subsection \<open>Freeing entries\<close>

lemma log_event_trace: "log_event b ev d = d\<lparr>d_trace := d_trace d @ (if b then [ev] else [])\<rparr>"
  by (simp add: log_event_def)

lemma trace_self: "\<exists>tr. d = d\<lparr>d_trace := tr\<rparr>"
  by (rule exI [of _ "d_trace d"]) simp

lemma dictFreeUnlinkedEntry_trace:
  assumes "valDestructor T \<longrightarrow> dictGetVal e \<noteq> None"
  shows "\<exists>tr. dictFreeUnlinkedEntry T d (Ptr e) = Some (d\<lparr>d_trace := tr\<rparr>)"
  using assms by (auto simp: dictFreeUnlinkedEntry_def dictFreeKey_def dictFreeVal_def log_event_trace trace_self)

lemma dictClear_entries_ok:
  assumes "\<forall>e\<in>set es. valDestructor T \<longrightarrow> dictGetVal e \<noteq> None"
  shows "\<exists>u tr. dictClear_entries T h es d = Some (d\<lparr>ht_used := (ht_used d)(h := u), d_trace := tr\<rparr>)"
  using assms
proof (induction es arbitrary: d)
  case Nil
  have "d = d\<lparr>ht_used := (ht_used d)(h := ht_used d h), d_trace := d_trace d\<rparr>" by simp
  then show ?case unfolding dictClear_entries.simps by blast
next
  case (Cons e es)
  from Cons.prems obtain tr where tr: "dictFreeUnlinkedEntry T d (Ptr e) = Some (d\<lparr>d_trace := tr\<rparr>)"
    using dictFreeUnlinkedEntry_trace [of T e d] by auto
  let ?d = "d\<lparr>d_trace := tr, ht_used := (ht_used d)(h := ht_used d h - 1)\<rparr>"
  have "\<forall>e\<in>set es. valDestructor T \<longrightarrow> dictGetVal e \<noteq> None" using Cons.prems by simp
  from Cons.IH [OF this, of ?d] obtain u tr' where u: "dictClear_entries T h es ?d = Some (?d\<lparr>ht_used := (ht_used ?d)(h := u), d_trace := tr'\<rparr>)" by blast
  have "dictClear_entries T h (e # es) d = Some (d\<lparr>ht_used := (ht_used d)(h := u), d_trace := tr'\<rparr>)"
    using tr u by simp
  then show ?case by blast
qed

lemma dictClear_loop_ok:
  assumes "\<forall>b\<in>set bs. \<forall>e\<in>set b. valDestructor T \<longrightarrow> dictGetVal e \<noteq> None"
  shows "\<exists>u tr. dictClear_loop T h cb i bs d = Some (d\<lparr>ht_used := (ht_used d)(h := u), d_trace := tr\<rparr>)"
  using assms
proof (induction bs arbitrary: i d)
  case Nil
  have "d = d\<lparr>ht_used := (ht_used d)(h := ht_used d h), d_trace := d_trace d\<rparr>" by simp
  then show ?case unfolding dictClear_loop.simps by blast
next
  case (Cons b bs)
  show ?case
  proof (cases "ht_used d h > 0")
    case True
    let ?d0 = "log_event (cb \<and> i mod 65536 = 0) EmptyCallback d"
    have "set (chain b) \<subseteq> set b" by (induction b rule: chain.induct) auto
    then have "\<forall>e\<in>set (chain b). valDestructor T \<longrightarrow> dictGetVal e \<noteq> None" using Cons.prems by auto
    from dictClear_entries_ok [OF this, of h ?d0]
    obtain u tr where e: "dictClear_entries T h (chain b) ?d0 = Some (?d0\<lparr>ht_used := (ht_used ?d0)(h := u), d_trace := tr\<rparr>)" by blast
    let ?d = "d\<lparr>ht_used := (ht_used d)(h := u), d_trace := tr\<rparr>"
    have "\<forall>b\<in>set bs. \<forall>e\<in>set b. valDestructor T \<longrightarrow> dictGetVal e \<noteq> None" using Cons.prems by simp
    from Cons.IH [OF this, of "Suc i" ?d]
    obtain u' tr' where u': "dictClear_loop T h cb (Suc i) bs ?d = Some (?d\<lparr>ht_used := (ht_used ?d)(h := u'), d_trace := tr'\<rparr>)" by blast
    have "dictClear_loop T h cb i (b # bs) d = Some (d\<lparr>ht_used := (ht_used d)(h := u'), d_trace := tr'\<rparr>)"
      using True e u' by (simp add: log_event_trace)
    then show ?thesis by blast
  next
    case False
    have "d = d\<lparr>ht_used := (ht_used d)(h := ht_used d h), d_trace := d_trace d\<rparr>" by simp
    moreover have "dictClear_loop T h cb i (b # bs) d = Some d" using False by simp
    ultimately show ?thesis by metis
  qed
qed

lemma dictClear_ok:
  assumes "\<forall>e\<in>set (concat (ht_table d h)). valDestructor T \<longrightarrow> dictGetVal e \<noteq> None"
  shows "\<exists>tr. dictClear T d h cb = Some (dictReset (d\<lparr>d_trace := tr\<rparr>) h)"
proof -
  have "\<forall>b\<in>set (ht_table d h). \<forall>e\<in>set b. valDestructor T \<longrightarrow> dictGetVal e \<noteq> None" using assms by auto
  from dictClear_loop_ok [OF this, of h cb 0 d] obtain u tr where
    "dictClear_loop T h cb 0 (ht_table d h) d = Some (d\<lparr>ht_used := (ht_used d)(h := u), d_trace := tr\<rparr>)" by blast
  then have "dictClear T d h cb = Some (dictReset (d\<lparr>d_trace := tr\<rparr>) h)"
    by (simp add: dictClear_def dictReset_def)
  then show ?thesis by blast
qed

lemma dictEmpty_ok:
  assumes "\<forall>e\<in>set (dict_entries d). valDestructor T \<longrightarrow> dictGetVal e \<noteq> None"
  shows "\<exists>d'. dictEmpty T d cb = Some d' \<and> dict_ok T H kid sk d' \<and> dict_map kid d' = Map.empty \<and>
    pauseAutoResize d' = 0 \<and> useStoredKeyApi d' = useStoredKeyApi d"
proof -
  let ?d0 = "log_event (dictIsRehashing d \<and> rehashingCompleted T) RehashingCompleted d"
  obtain tr where c0: "dictClear T ?d0 0 cb = Some (dictReset (?d0\<lparr>d_trace := tr\<rparr>) 0)" (is "_ = Some ?d1")
    using dictClear_ok [of ?d0 0 T cb] assms by (auto simp: dict_entries_def log_event_trace)
  obtain tr' where c1: "dictClear T ?d1 1 cb = Some (dictReset (?d1\<lparr>d_trace := tr'\<rparr>) 1)"
    using dictClear_ok [of ?d1 1 T cb] assms by (auto simp: dict_entries_def log_event_trace dictReset_def)
  show ?thesis using c0 c1
    by (simp add: dictEmpty_def dict_ok_def dict_map_def dict_entries_def dictReset_def table_ok_def log_event_trace)
qed

lemma dictCreate_ok:
  "dict_ok T H kid sk (dictCreate mem)" "dict_map kid (dictCreate mem) = Map.empty"
  "pauseAutoResize (dictCreate mem) = 0" "useStoredKeyApi (dictCreate mem) = False"
  by (simp_all add: dictCreate_def dictInit_def dictReset_def dict_ok_def dict_map_def dict_entries_def table_ok_def)


subsection \<open>Removal\<close>

context dict_keys
begin

lemma unlink_entry_ok:
  assumes ok: "dok d" and loc: "loc_ok kid d p x"
    and d0: "ht_table d0 = ht_table d" "ht_size_exp d0 = ht_size_exp d" "rehashidx d0 = rehashidx d"
  shows "\<exists>d' e. unlink_entry d0 p = Some (d', e) \<and> entry_at d p = Some e \<and>
    d' = d0\<lparr>ht_table := ht_table d'\<rparr> \<and> (ht_table d 0 \<noteq> [] \<longrightarrow> ht_table d' 0 \<noteq> []) \<and>
    (\<forall>d''. ht_table d'' = ht_table d' \<longrightarrow> ht_used d'' = (ht_used d)(fst p := ht_used d (fst p) - 1) \<longrightarrow>
       ht_size_exp d'' = ht_size_exp d \<longrightarrow> rehashidx d'' = rehashidx d \<longrightarrow>
       dok d'' \<and> dict_map kid d'' = (dict_map kid d)(x := None))"
proof -
  obtain t i j where p: "p = (t, i, j)" by (cases p) auto
  let ?tb = "ht_table d t" and ?b = "ht_table d t ! i" and ?e = "ht_table d t ! i ! j"
  have l: "t \<le> 1" "i < length ?tb" "j < length ?b" "kid (dictGetKey ?e) = x" using loc by (auto simp: loc_ok_def p)
  note B = loc_bucket [OF ok loc [unfolded p]]
  have ch: "chain ?b = ?b" using B(1) by (simp add: bucket_ok_def)
  define d' where "d' = d0\<lparr>ht_table := (ht_table d)(t := ?tb[i := remove_at j ?b])\<rparr>"
  have nk: "j = 0 \<or> \<not> entryIsKey (?b ! (j - 1))" using chain_nth_key [OF ch, of "j - 1"] l(3) by auto
  have "unlink_entry d0 p = Some (d', ?e)"
    using l d0(1) nk by (auto simp: unlink_entry_def p rd_def wr_def d'_def)
  moreover have "entry_at d p = Some ?e" using l by (simp add: entry_at_def p rd_def)
  moreover have "dok d'' \<and> dict_map kid d'' = (dict_map kid d)(x := None)"
    if d'': "ht_table d'' = ht_table d'" "ht_used d'' = (ht_used d)(fst p := ht_used d (fst p) - 1)"
      "ht_size_exp d'' = ht_size_exp d" "rehashidx d'' = rehashidx d" for d''
  proof -
    have "ht_used d t - 1 = ht_used d t + length (remove_at j ?b) - length ?b"
      using length_remove_at [OF l(3)] by linarith
    then have upd: "bucket_update d d'' t i (remove_at j ?b)"
      using l d'' by (simp add: bucket_update_def d'_def p)
    have bm: "mset (map (entry_kv kid) ?b) = add_mset (x, dictGetVal ?e) (mset (map (entry_kv kid) (remove_at j ?b)))"
      using l(4) by (simp add: mset_remove_at [OF l(3), symmetric] entry_kv_def)
    have ms: "add_mset (x, dictGetVal ?e) (mset (map (entry_kv kid) (dict_entries d''))) = mset (map (entry_kv kid) (dict_entries d))"
      using bucket_update_mset [OF upd, of kid] unfolding bm by (simp del: mset_map)
    note M = map_of_mset_remove [OF ms dict_okD(3) [OF ok, unfolded map_kids]]
    have "bucket_ok T H kid sk (length ?tb) i (remove_at j ?b)"
      using B(1) chain_remove_at [OF ch] set_remove_at [of j ?b] by (auto simp: bucket_ok_def)
    then have "dok d''" using bucket_update_ok [OF ok upd] M(1) B(2) unfolding map_kids by blast
    then show ?thesis using M(2) by (simp add: dict_map_def)
  qed
  ultimately show ?thesis by (auto simp: d'_def)
qed

end

text \<open>Every value has been set, in a dictionary that has values.\<close>

definition vals_set :: "('k, 'v) dictType \<Rightarrow> ('i \<rightharpoonup> 'v option) \<Rightarrow> bool" where
  "vals_set T m \<longleftrightarrow> (\<not> no_value T \<longrightarrow> (\<forall>x. m x \<noteq> Some None))"

context dict_keys
begin

lemma vals_set_entry:
  assumes "dok d" "vals_set T (dict_map kid d)" "e \<in> set (dict_entries d)" "valDestructor T"
  shows "dictGetVal e \<noteq> None"
proof -
  have "(kid (dictGetKey e), dictGetVal e) \<in> set (map (entry_kv kid) (dict_entries d))"
    using assms(3) by (force simp: entry_kv_def)
  then have "dict_map kid d (kid (dictGetKey e)) = Some (dictGetVal e)"
    using dict_okD(3) [OF assms(1)] unfolding map_kids by (simp add: dict_map_def)
  then show ?thesis using assms(2,4) no_value_destructor unfolding vals_set_def by metis
qed

text \<open>Removing the entry at a location, with or without freeing it, and shrinking the table.\<close>

lemma remove_entry_ok:
  assumes ok: "dok d" and loc: "loc_ok kid d p x" and vs: "vals_set T (dict_map kid d)"
    and al: "alloc_upto g (16 * dictSize d + 96)"
  shows "\<exists>d2 he d3 d4. unlink_entry d p = Some (d2, he) \<and>
    (if \<not> nofree then dictFreeUnlinkedEntry T d2 (Ptr he) else Some d2) = Some d3 \<and>
    dictShrinkIfNeeded_auto T g (d3\<lparr>ht_used := (ht_used d3)(fst p := ht_used d3 (fst p) - 1)\<rparr>) = Some d4 \<and>
    dok d4 \<and> dict_map kid d4 = (dict_map kid d)(x := None) \<and> same_modes d d4 \<and>
    (ht_table d 0 \<noteq> [] \<longrightarrow> ht_table d4 0 \<noteq> [])"
proof -
  obtain d2 he where d2: "unlink_entry d p = Some (d2, he)" "entry_at d p = Some he" "d2 = d\<lparr>ht_table := ht_table d2\<rparr>"
    "ht_table d 0 \<noteq> [] \<longrightarrow> ht_table d2 0 \<noteq> []"
    "\<And>d''. ht_table d'' = ht_table d2 \<Longrightarrow> ht_used d'' = (ht_used d)(fst p := ht_used d (fst p) - 1) \<Longrightarrow>
       ht_size_exp d'' = ht_size_exp d \<Longrightarrow> rehashidx d'' = rehashidx d \<Longrightarrow>
       dok d'' \<and> dict_map kid d'' = (dict_map kid d)(x := None)"
    using unlink_entry_ok [OF ok loc refl refl refl] by blast
  have he: "valDestructor T \<longrightarrow> dictGetVal he \<noteq> None"
    using loc_ok_entry [OF loc dict_okD(3) [OF ok]] d2(2) vals_set_entry [OF ok vs] by auto
  obtain tr where d3: "(if \<not> nofree then dictFreeUnlinkedEntry T d2 (Ptr he) else Some d2) = Some (d2\<lparr>d_trace := tr\<rparr>)"
    (is "_ = Some ?d3")
    using dictFreeUnlinkedEntry_trace [OF he, of d2] trace_self [of d2] by (cases nofree) auto
  let ?d = "?d3\<lparr>ht_used := (ht_used ?d3)(fst p := ht_used ?d3 (fst p) - 1)\<rparr>"
  have f: "ht_used d2 = ht_used d" "ht_size_exp d2 = ht_size_exp d" "rehashidx d2 = rehashidx d"
    "same_modes d d2" by (subst d2(3), simp add: same_modes_def)+
  have ok': "dok ?d" "dict_map kid ?d = (dict_map kid d)(x := None)" using d2(5) [of ?d] f by auto
  have "ht_used ?d 0 \<le> dictSize d" using f by (auto simp: dictSize_def)
  then have "alloc_upto g (16 * ht_used ?d 0 + 96)" by (intro alloc_upto_mono [OF al]) simp
  from dictShrinkIfNeeded_auto_ok [OF ok'(1) this] obtain d4 where
    d4: "dictShrinkIfNeeded_auto T g ?d = Some d4" "dok d4" "dict_keeps kid ?d d4" by blast
  have "dict_map kid d4 = dict_map kid ?d" by (rule dict_keeps_map [OF d4(3) dict_okD(3) [OF ok'(1)]])
  moreover have "same_modes d d4" using f(4) dict_keeps_modes [OF d4(3)] by (simp add: same_modes_def)
  moreover have "ht_table d 0 \<noteq> [] \<longrightarrow> ht_table d4 0 \<noteq> []" using d2(4) d4(3) by (simp add: dict_keeps_def)
  ultimately show ?thesis using d2(1) d3 d4(1,2) ok'(2) by simp
qed

lemma dictGenericDelete_ok:
  assumes ok: "dok d" and key: "form (useStoredKeyApi d) key" and vs: "vals_set T (dict_map kid d)"
    and al: "alloc_upto g (16 * dictSize d + 96)"
  shows "\<exists>d' r. dictGenericDelete T g d key nofree = Some (d', r) \<and> dok d' \<and>
    dict_map kid d' = (dict_map kid d)(kid key := None) \<and> (r = NULL) = (kid key \<notin> dom (dict_map kid d)) \<and>
    (\<forall>e. r = Ptr e \<longrightarrow> (valDestructor T \<longrightarrow> dictGetVal e \<noteq> None)) \<and>
    same_modes d d' \<and> (ht_table d 0 \<noteq> [] \<longrightarrow> ht_table d' 0 \<noteq> [])"
proof (cases "dictSize d = 0")
  case True
  then have "dict_map kid d = Map.empty" using dict_size_card(1) [OF ok] by (simp add: dict_map_def)
  then show ?thesis using True ok by (simp add: dictGenericDelete_def same_modes_def)
next
  case False
  let ?h = "dictHashKey T key (useStoredKeyApi d)" and ?idx = "dict_idx (dictHashKey T key (useStoredKeyApi d)) (ht_size_exp d 0)"
  obtain d1 where d1: "access_rehash T g d ?idx = Some d1" "rehash_step d d1"
    using access_rehash_ok [OF ok refl, of g ?h] by blast
  have m: "dict_map kid d1 = dict_map kid d" using d1(2) dict_keeps_map [OF _ dict_okD(3) [OF ok]] by blast
  have sz: "dictSize d1 = dictSize d" using dict_size_card(2) ok d1(2) m by metis
  have ne: "ht_table d1 0 \<noteq> []" using dict_size_table0 [OF ok False] d1(2) by (simp add: dict_keeps_def)
  have u: "useStoredKeyApi d1 = useStoredKeyApi d" "same_modes d d1" using d1(2) dict_keeps_modes by (auto simp: dict_keeps_def)
  obtain r where r: "dict_search (key_matches T d1 key) d1 ?h ?idx = Some r" "search_result kid d1 (kid key) r"
    using dict_search_ok [of d1 key ?h ?idx] d1(2) key form_hash [OF key] ne u by auto
  show ?thesis
  proof (cases r)
    case NULL
    then show ?thesis using d1 r False m ne u(2)
      by (auto simp: dictGenericDelete_def Let_def search_result_def fun_upd_idem)
  next
    case (Ptr p)
    then have loc: "loc_ok kid d1 p (kid key)" using r(2) by (simp add: search_result_def)
    obtain d2 he d3 d4 where rm: "unlink_entry d1 p = Some (d2, he)"
      "(if \<not> nofree then dictFreeUnlinkedEntry T d2 (Ptr he) else Some d2) = Some d3"
      "dictShrinkIfNeeded_auto T g (d3\<lparr>ht_used := (ht_used d3)(fst p := ht_used d3 (fst p) - 1)\<rparr>) = Some d4"
      "dok d4" "dict_map kid d4 = (dict_map kid d1)(kid key := None)" "same_modes d1 d4" "ht_table d4 0 \<noteq> []"
      using remove_entry_ok [of d1 p "kid key" g nofree] d1(2) loc vs al m sz ne by metis
    obtain e where e: "entry_at d1 p = Some e" "e \<in> set (dict_entries d1)" "dict_map kid d1 (kid key) = Some (dictGetVal e)"
      using loc_ok_entry [OF loc dict_okD(3)] d1(2) by blast
    have "he = e" using unlink_entry_ok [OF _ loc refl refl refl] d1(2) rm(1) e(1) by auto
    then show ?thesis
      using d1 r(1) Ptr False rm m e vals_set_entry [of d1 e] vs same_modes_trans [OF u(2)]
      by (auto simp: dictGenericDelete_def Let_def)
  qed
qed

end

lemma dict_pause_simps [simp]:
  "dict_ok T H kid sk (d\<lparr>pauserehash := n\<rparr>) = dict_ok T H kid sk d" "dict_map kid (d\<lparr>pauserehash := n\<rparr>) = dict_map kid d"
  "dict_ok T H kid sk (d\<lparr>pauseAutoResize := i\<rparr>) = dict_ok T H kid sk d" "dict_map kid (d\<lparr>pauseAutoResize := i\<rparr>) = dict_map kid d"
  "dict_ok T H kid sk (d\<lparr>useStoredKeyApi := b\<rparr>) = dict_ok T H kid sk d" "dict_map kid (d\<lparr>useStoredKeyApi := b\<rparr>) = dict_map kid d"
  "loc_ok kid (d\<lparr>pauserehash := n\<rparr>) p x = loc_ok kid d p x"
  by (simp_all add: dict_ok_def dict_map_def dict_entries_def loc_ok_def)

context dict_keys
begin

lemma dictTwoPhaseUnlinkFind_ok:
  assumes ok: "dok d" and key: "form (useStoredKeyApi d) key"
  shows "\<exists>d' r. dictTwoPhaseUnlinkFind T g d key = Some (d', r) \<and> dok d' \<and> dict_map kid d' = dict_map kid d \<and>
    same_modes d d' \<and> (ht_table d 0 \<noteq> [] \<longrightarrow> ht_table d' 0 \<noteq> []) \<and> search_result kid d' (kid key) r"
proof (cases "dictSize d = 0")
  case True
  then have "dict_map kid d = Map.empty" using dict_size_card(1) [OF ok] by (simp add: dict_map_def)
  then show ?thesis using True ok by (simp add: dictTwoPhaseUnlinkFind_def same_modes_def search_result_def)
next
  case False
  obtain d1 where d1: "(if dictIsRehashing d then dictRehashStep T g d else Some d) = Some d1" "dok d1" "dict_keeps kid d d1"
    using dictRehashStep_ok [OF ok, of g] ok by (cases "dictIsRehashing d") auto
  have m: "dict_map kid d1 = dict_map kid d" by (rule dict_keeps_map [OF d1(3) dict_okD(3) [OF ok]])
  have ne: "ht_table d1 0 \<noteq> []" using dict_size_table0 [OF ok False] d1(3) by (simp add: dict_keeps_def)
  have u: "useStoredKeyApi d1 = useStoredKeyApi d" using d1(3) by (simp add: dict_keeps_def)
  let ?h = "dictHashKey T key (useStoredKeyApi d1)"
  obtain r where "dict_search (key_matches T d1 key) d1 ?h (dict_idx ?h (ht_size_exp d1 0)) = Some r" "search_result kid d1 (kid key) r"
    using dict_search_ok [of d1 key ?h "dict_idx ?h (ht_size_exp d1 0)"] d1(2) key form_hash [OF key] ne u by auto
  then show ?thesis using d1 m ne False dict_keeps_modes [OF d1(3)]
    by (cases r) (auto simp: dictTwoPhaseUnlinkFind_def Let_def dictPauseRehashing_def search_result_def same_modes_def)
qed

lemma dictTwoPhaseUnlinkFree_ok:
  assumes ok: "dok d" and loc: "loc_ok kid d p x" and vs: "vals_set T (dict_map kid d)"
    and al: "alloc_upto g (16 * dictSize d + 96)"
  shows "\<exists>d'. dictTwoPhaseUnlinkFree T g d (Ptr p) = Some d' \<and> dok d' \<and>
    dict_map kid d' = (dict_map kid d)(x := None) \<and> same_modes d d' \<and> ht_table d' 0 \<noteq> []"
proof -
  let ?d0 = "d\<lparr>ht_used := (ht_used d)(fst p := ht_used d (fst p) - 1)\<rparr>"
  have ne: "ht_table d 0 \<noteq> []" by (rule loc_table0 [OF ok loc])
  have "\<exists>d1 e. unlink_entry ?d0 p = Some (d1, e) \<and> entry_at d p = Some e \<and>
    d1 = ?d0\<lparr>ht_table := ht_table d1\<rparr> \<and> (ht_table d 0 \<noteq> [] \<longrightarrow> ht_table d1 0 \<noteq> []) \<and>
    (\<forall>d''. ht_table d'' = ht_table d1 \<longrightarrow> ht_used d'' = (ht_used d)(fst p := ht_used d (fst p) - 1) \<longrightarrow>
       ht_size_exp d'' = ht_size_exp d \<longrightarrow> rehashidx d'' = rehashidx d \<longrightarrow>
       dok d'' \<and> dict_map kid d'' = (dict_map kid d)(x := None))"
    by (rule unlink_entry_ok [OF ok loc]) simp_all
  then obtain d1 e where d1: "unlink_entry ?d0 p = Some (d1, e)" "entry_at d p = Some e" "d1 = ?d0\<lparr>ht_table := ht_table d1\<rparr>"
    "ht_table d1 0 \<noteq> []"
    "\<And>d''. ht_table d'' = ht_table d1 \<Longrightarrow> ht_used d'' = (ht_used d)(fst p := ht_used d (fst p) - 1) \<Longrightarrow>
       ht_size_exp d'' = ht_size_exp d \<Longrightarrow> rehashidx d'' = rehashidx d \<Longrightarrow>
       dok d'' \<and> dict_map kid d'' = (dict_map kid d)(x := None)"
    using ne by blast
  have e: "valDestructor T \<longrightarrow> dictGetVal e \<noteq> None"
    using loc_ok_entry [OF loc dict_okD(3) [OF ok]] d1(2) vals_set_entry [OF ok vs] by auto
  obtain tr where d2: "dictFreeUnlinkedEntry T d1 (Ptr e) = Some (d1\<lparr>d_trace := tr\<rparr>)" (is "_ = Some ?d2")
    using dictFreeUnlinkedEntry_trace [OF e, of d1] by blast
  have f: "ht_used d1 = ht_used ?d0" "ht_size_exp d1 = ht_size_exp d" "rehashidx d1 = rehashidx d" "same_modes d d1"
    by (subst d1(3), simp add: same_modes_def)+
  have ok': "dok ?d2" "dict_map kid ?d2 = (dict_map kid d)(x := None)" using d1(5) [of ?d2] f by auto
  have "ht_used ?d2 0 \<le> dictSize d" using f by (auto simp: dictSize_def)
  then have "alloc_upto g (16 * ht_used ?d2 0 + 96)" by (intro alloc_upto_mono [OF al]) simp
  from dictShrinkIfNeeded_auto_ok [OF ok'(1) this] obtain d3 where
    d3: "dictShrinkIfNeeded_auto T g ?d2 = Some d3" "dok d3" "dict_keeps kid ?d2 d3" by blast
  have "dict_map kid d3 = dict_map kid ?d2" by (rule dict_keeps_map [OF d3(3) dict_okD(3) [OF ok'(1)]])
  moreover have "same_modes d d3" using f(4) dict_keeps_modes [OF d3(3)] by (simp add: same_modes_def)
  moreover have "ht_table d3 0 \<noteq> []" using d1(4) d3(3) by (simp add: dict_keeps_def)
  ultimately show ?thesis using d1(1) d2 d3(1,2) ok'(2)
    by (simp add: dictTwoPhaseUnlinkFree_def Let_def dictResumeRehashing_def same_modes_def)
qed

end

end
