(* ===== verification/Dict_Map.thy ===== *)
theory Dict_Map
  imports Dict_Correct
begin

text \<open>
  Every sequence of dictionary operations, with resizing and incremental rehashing happening on
  the way, observes exactly the answers of a finite map.
\<close>

subsection \<open>Sequences of operations\<close>

text \<open>
  The unlinking operations come with the release of the entry they return, and the two-phase removal with its
  second phase.
\<close>

datatype ('k, 'v) dict_op =
  OpAdd 'k 'v | OpReplace 'k 'v | OpDelete 'k | OpUnlink 'k | OpTwoPhase 'k
  | OpFind 'k | OpFetch 'k | OpSize
  | OpExpand nat | OpTryExpand nat | OpShrink nat | OpRehash nat
  | OpPause | OpResume | OpPauseResize | OpResumeResize
  | OpStoredApi bool | OpSetResize dictResizeEnable | OpEmpty bool

datatype 'v dict_ans = ABool bool | AVal "'v nullable" | ASize nat | ADone

fun dict_step ::
  "('k, 'v) dictType \<Rightarrow> dict_env \<times> ('k, 'v) dict \<Rightarrow> ('k, 'v) dict_op \<Rightarrow>
     ((dict_env \<times> ('k, 'v) dict) \<times> 'v dict_ans) option" where
  "dict_step T (g, d) (OpAdd k v) = do { (d', r) \<leftarrow> dictAdd T g d k v; Some ((g, d'), ABool r) }"
| "dict_step T (g, d) (OpReplace k v) = do { (d', r) \<leftarrow> dictReplace T g d k v; Some ((g, d'), ABool r) }"
| "dict_step T (g, d) (OpDelete k) = do { (d', r) \<leftarrow> dictDelete T g d k; Some ((g, d'), ABool r) }"
| "dict_step T (g, d) (OpUnlink k) = do {
     (d', he) \<leftarrow> dictUnlink T g d k;
     d'' \<leftarrow> dictFreeUnlinkedEntry T d' he;
     Some ((g, d''), ABool (he \<noteq> NULL)) }"
| "dict_step T (g, d) (OpTwoPhase k) = do {
     (d', he) \<leftarrow> dictTwoPhaseUnlinkFind T g d k;
     d'' \<leftarrow> dictTwoPhaseUnlinkFree T g d' he;
     Some ((g, d''), ABool (he \<noteq> NULL)) }"
| "dict_step T (g, d) (OpFind k) = do { (d', r) \<leftarrow> dictFind T g d k; Some ((g, d'), ABool (r \<noteq> NULL)) }"
| "dict_step T (g, d) (OpFetch k) = do { (d', r) \<leftarrow> dictFetchValue T g d k; Some ((g, d'), AVal r) }"
| "dict_step T (g, d) OpSize = Some ((g, d), ASize (dictSize d))"
| "dict_step T (g, d) (OpExpand n) = do { (d', _) \<leftarrow> dictExpand T g d n; Some ((g, d'), ADone) }"
| "dict_step T (g, d) (OpTryExpand n) = do { (d', _) \<leftarrow> dictTryExpand T g d n; Some ((g, d'), ADone) }"
| "dict_step T (g, d) (OpShrink n) = do { (d', _) \<leftarrow> dictShrink T g d n; Some ((g, d'), ADone) }"
| "dict_step T (g, d) (OpRehash n) = do { (d', _) \<leftarrow> dictRehash T g d n; Some ((g, d'), ADone) }"
| "dict_step T (g, d) OpPause = Some ((g, dictPauseRehashing d), ADone)"
| "dict_step T (g, d) OpResume = Some ((g, dictResumeRehashing d), ADone)"
| "dict_step T (g, d) OpPauseResize = Some ((g, dictPauseAutoResize d), ADone)"
| "dict_step T (g, d) OpResumeResize = Some ((g, dictResumeAutoResize d), ADone)"
| "dict_step T (g, d) (OpStoredApi b) = Some ((g, dictUseStoredKeyApi d b), ADone)"
| "dict_step T (g, d) (OpSetResize e) = Some ((g\<lparr>dict_can_resize := e\<rparr>, d), ADone)"
| "dict_step T (g, d) (OpEmpty cb) = do { d' \<leftarrow> dictEmpty T d cb; Some ((g, d'), ADone) }"

fun run_dict_ops ::
  "('k, 'v) dictType \<Rightarrow> dict_env \<times> ('k, 'v) dict \<Rightarrow> ('k, 'v) dict_op list \<Rightarrow>
     ((dict_env \<times> ('k, 'v) dict) \<times> 'v dict_ans list) option" where
  "run_dict_ops T s [] = Some (s, [])"
| "run_dict_ops T s (op # ops) = do {
     (s', a) \<leftarrow> dict_step T s op;
     (s'', as) \<leftarrow> run_dict_ops T s' ops;
     Some (s'', a # as) }"

text \<open>
  The specification: a map from contents to values, the form in which keys are given, and whether the
  dictionary surely has a table.
\<close>

record ('i, 'v) map_state =
  ms_map :: "'i \<rightharpoonup> 'v option"
  ms_stored :: bool
  ms_table :: bool

definition add_value :: "('k, 'v) dictType \<Rightarrow> 'v \<Rightarrow> 'v option" where
  "add_value T v = (if no_value T then None else Some (stored_val T v))"

fun map_step ::
  "('k, 'v) dictType \<Rightarrow> ('k \<Rightarrow> 'i) \<Rightarrow> ('i, 'v) map_state \<Rightarrow> ('k, 'v) dict_op \<Rightarrow> ('i, 'v) map_state \<times> 'v dict_ans" where
  "map_step T kid s (OpAdd k v) =
     (if kid k \<in> dom (ms_map s) then (s\<lparr>ms_table := True\<rparr>, ABool False)
      else (s\<lparr>ms_map := (ms_map s)(kid k \<mapsto> add_value T v), ms_table := True\<rparr>, ABool True))"
| "map_step T kid s (OpReplace k v) =
     (s\<lparr>ms_map := (ms_map s)(kid k \<mapsto> Some (stored_val T v)), ms_table := True\<rparr>, ABool (kid k \<notin> dom (ms_map s)))"
| "map_step T kid s (OpDelete k) = (s\<lparr>ms_map := (ms_map s)(kid k := None)\<rparr>, ABool (kid k \<in> dom (ms_map s)))"
| "map_step T kid s (OpUnlink k) = (s\<lparr>ms_map := (ms_map s)(kid k := None)\<rparr>, ABool (kid k \<in> dom (ms_map s)))"
| "map_step T kid s (OpTwoPhase k) = (s\<lparr>ms_map := (ms_map s)(kid k := None)\<rparr>, ABool (kid k \<in> dom (ms_map s)))"
| "map_step T kid s (OpFind k) = (s, ABool (kid k \<in> dom (ms_map s)))"
| "map_step T kid s (OpFetch k) =
     (s, AVal (case ms_map s (kid k) of Some (Some v) \<Rightarrow> Ptr v | _ \<Rightarrow> NULL))"
| "map_step T kid s OpSize = (s, ASize (card (dom (ms_map s))))"
| "map_step T kid s (OpStoredApi b) = (s\<lparr>ms_stored := b\<rparr>, ADone)"
| "map_step T kid s (OpEmpty cb) = (s\<lparr>ms_map := Map.empty, ms_table := False\<rparr>, ADone)"
| "map_step T kid s op = (s, ADone)"

fun map_run ::
  "('k, 'v) dictType \<Rightarrow> ('k \<Rightarrow> 'i) \<Rightarrow> ('i, 'v) map_state \<Rightarrow> ('k, 'v) dict_op list \<Rightarrow> ('i, 'v) map_state \<times> 'v dict_ans list" where
  "map_run T kid s [] = (s, [])"
| "map_run T kid s (op # ops) =
     (case map_step T kid s op of (s', a) \<Rightarrow> case map_run T kid s' ops of (s'', as) \<Rightarrow> (s'', a # as))"

text \<open>
  What a caller must respect: keys in the announced form, no access to values that the type does not have, sizes within the
  memory, and no automatic resizing paused before there is a table.
\<close>

definition key_form :: "('k \<Rightarrow> bool) \<Rightarrow> ('k \<Rightarrow> bool) \<Rightarrow> bool \<Rightarrow> 'k \<Rightarrow> bool" where
  "key_form lk sk b k = (if b then sk k else lk k)"

fun valid_op ::
  "('k, 'v) dictType \<Rightarrow> ('k \<Rightarrow> 'i) \<Rightarrow> ('k \<Rightarrow> bool) \<Rightarrow> ('k \<Rightarrow> bool) \<Rightarrow> nat \<Rightarrow> ('i, 'v) map_state \<Rightarrow>
     ('k, 'v) dict_op \<Rightarrow> bool" where
  "valid_op T kid lk sk N s (OpAdd k v) \<longleftrightarrow> key_form lk sk (ms_stored s) k \<and> key_addable T kid sk k"
| "valid_op T kid lk sk N s (OpReplace k v) \<longleftrightarrow>
     key_form lk sk (ms_stored s) k \<and> key_addable T kid sk k \<and> \<not> no_value T"
| "valid_op T kid lk sk N s (OpDelete k) \<longleftrightarrow> key_form lk sk (ms_stored s) k"
| "valid_op T kid lk sk N s (OpUnlink k) \<longleftrightarrow> key_form lk sk (ms_stored s) k"
| "valid_op T kid lk sk N s (OpTwoPhase k) \<longleftrightarrow> key_form lk sk (ms_stored s) k"
| "valid_op T kid lk sk N s (OpFind k) \<longleftrightarrow> key_form lk sk (ms_stored s) k"
| "valid_op T kid lk sk N s (OpFetch k) \<longleftrightarrow> key_form lk sk (ms_stored s) k \<and> \<not> no_value T"
| "valid_op T kid lk sk N s (OpExpand n) \<longleftrightarrow> n \<le> N"
| "valid_op T kid lk sk N s (OpShrink n) \<longleftrightarrow> n \<le> N"
| "valid_op T kid lk sk N s (OpRehash n) \<longleftrightarrow> int n * 10 \<le> INT32_MAX"
| "valid_op T kid lk sk N s OpPauseResize \<longleftrightarrow> ms_table s"
| "valid_op T kid lk sk N s OpResumeResize \<longleftrightarrow> ms_table s"
| "valid_op T kid lk sk N s op \<longleftrightarrow> True"

fun valid_ops ::
  "('k, 'v) dictType \<Rightarrow> ('k \<Rightarrow> 'i) \<Rightarrow> ('k \<Rightarrow> bool) \<Rightarrow> ('k \<Rightarrow> bool) \<Rightarrow> nat \<Rightarrow> ('i, 'v) map_state \<Rightarrow>
     ('k, 'v) dict_op list \<Rightarrow> bool" where
  "valid_ops T kid lk sk N s [] \<longleftrightarrow> True"
| "valid_ops T kid lk sk N s (op # ops) \<longleftrightarrow>
     valid_op T kid lk sk N s op \<and> valid_ops T kid lk sk N (fst (map_step T kid s op)) ops"

definition map_init :: "('i, 'v) map_state" where
  "map_init = \<lparr>ms_map = Map.empty, ms_stored = False, ms_table = False\<rparr>"

text \<open>The relation between a dictionary with its environment and the specification.\<close>

definition dict_rel ::
  "('k, 'v) dictType \<Rightarrow> ('i \<Rightarrow> 64 word) \<Rightarrow> ('k \<Rightarrow> 'i) \<Rightarrow> ('k \<Rightarrow> bool) \<Rightarrow> nat \<Rightarrow>
     dict_env \<times> ('k, 'v) dict \<Rightarrow> ('i, 'v) map_state \<Rightarrow> bool" where
  "dict_rel T H kid sk N gd s \<longleftrightarrow> (case gd of (g, d) \<Rightarrow>
     dict_ok T H kid sk d \<and> dict_map kid d = ms_map s \<and> useStoredKeyApi d = ms_stored s \<and>
     (ms_table s \<longrightarrow> ht_table d 0 \<noteq> []) \<and> (ht_table d 0 \<noteq> [] \<or> pauseAutoResize d \<le> 0) \<and>
     alloc_upto g (16 * N + 96) \<and> vals_set T (ms_map s))"

context dict_keys
begin

abbreviation drel where "drel \<equiv> dict_rel T H kid sk"
abbreviation step_refines where
  "step_refines N gd s op \<equiv> \<exists>gd'. dict_step T gd op = Some (gd', snd (map_step T kid s op)) \<and>
     drel N gd' (fst (map_step T kid s op))"

lemma dict_relD:
  assumes "drel N (g, d) s"
  shows "dok d" "dict_map kid d = ms_map s" "useStoredKeyApi d = ms_stored s" "ms_table s \<longrightarrow> ht_table d 0 \<noteq> []"
    "ht_table d 0 \<noteq> [] \<or> pauseAutoResize d \<le> 0" "alloc_upto g (16 * N + 96)" "vals_set T (ms_map s)"
  using assms by (auto simp: dict_rel_def)

lemma dict_rel_alloc: "drel N (g, d) s \<Longrightarrow> card (dom (ms_map s)) \<le> N \<Longrightarrow> alloc_upto g (16 * dictSize d + 96)"
  using dict_size_card(2) [of d] by (auto simp: dict_rel_def elim!: alloc_upto_mono)

text \<open>A step that keeps the content is the identity of the specification.\<close>

lemma dict_rel_keeps: "drel N (g, d) s \<Longrightarrow> dok d' \<Longrightarrow> dict_keeps kid d d' \<Longrightarrow> drel N (g, d') s"
  using dict_keeps_map [of kid d d'] dict_okD(3) [of d] by (auto simp: dict_rel_def dict_keeps_def)

lemma dict_rel_modes:
  assumes "drel N (g, d) s" "dok d'" "same_modes d d'" "ht_table d 0 \<noteq> [] \<longrightarrow> ht_table d' 0 \<noteq> []"
    "dict_map kid d' = (ms_map s)(x := None)"
  shows "drel N (g, d') (s\<lparr>ms_map := (ms_map s)(x := None)\<rparr>)"
  using assms by (auto simp: dict_rel_def same_modes_def vals_set_def)

lemma step_add:
  assumes R: "drel N (g, d) s" and v: "valid_op T kid lk sk N s (OpAdd k v)" and c: "card (dom (ms_map s)) \<le> N"
  shows "step_refines N (g, d) s (OpAdd k v)"
proof -
  let ?m = "if kid k \<in> dom (ms_map s) then ms_map s else (ms_map s)(kid k \<mapsto> add_value T v)"
  have "form (useStoredKeyApi d) k" "key_addable T kid sk k" using v dict_relD(3) [OF R] by (simp_all add: key_form_def)
  from dictAdd_ok [OF dict_relD(1,5) [OF R] this dict_rel_alloc [OF R c], of v]
  obtain d' where "dictAdd T g d k v = Some (d', kid k \<notin> dom (ms_map s))" "dok d'" "ht_table d' 0 \<noteq> []"
    "same_modes d d'" "dict_map kid d' = ?m"
    unfolding dict_relD(2) [OF R] add_value_def [symmetric] by blast
  moreover have "vals_set T ?m" using dict_relD(7) [OF R] by (auto simp: vals_set_def add_value_def)
  ultimately show ?thesis
    using dict_relD(3,6) [OF R] by (cases "kid k \<in> dom (ms_map s)") (simp_all add: dict_rel_def same_modes_def)
qed

lemma step_replace:
  assumes R: "drel N (g, d) s" and v: "valid_op T kid lk sk N s (OpReplace k v)" and c: "card (dom (ms_map s)) \<le> N"
  shows "step_refines N (g, d) s (OpReplace k v)"
proof -
  have "form (useStoredKeyApi d) k" "key_addable T kid sk k" "\<not> no_value T"
    using v dict_relD(3) [OF R] by (simp_all add: key_form_def)
  moreover from this have "dict_map kid d (kid k) \<noteq> Some None"
    using dict_relD(2,7) [OF R] by (simp add: vals_set_def)
  ultimately obtain d' where "dictReplace T g d k v = Some (d', kid k \<notin> dom (ms_map s))" "dok d'" "ht_table d' 0 \<noteq> []"
    "same_modes d d'" "dict_map kid d' = (ms_map s)(kid k \<mapsto> Some (stored_val T v))"
    using dictReplace_ok [OF dict_relD(1,5) [OF R] _ _ dict_rel_alloc [OF R c], of k v]
    unfolding dict_relD(2) [OF R] by blast
  then show ?thesis using dict_relD(3,6,7) [OF R] by (simp add: dict_rel_def same_modes_def vals_set_def)
qed

lemma step_delete:
  assumes R: "drel N (g, d) s" and v: "valid_op T kid lk sk N s (OpDelete k)" and c: "card (dom (ms_map s)) \<le> N"
  shows "step_refines N (g, d) s (OpDelete k)" "step_refines N (g, d) s (OpUnlink k)"
proof -
  have D: "\<exists>d' r. dictGenericDelete T g d k nofree = Some (d', r) \<and> dok d' \<and>
    dict_map kid d' = (ms_map s)(kid k := None) \<and> (r = NULL) = (kid k \<notin> dom (ms_map s)) \<and>
    (\<forall>e. r = Ptr e \<longrightarrow> (valDestructor T \<longrightarrow> dictGetVal e \<noteq> None)) \<and>
    same_modes d d' \<and> (ht_table d 0 \<noteq> [] \<longrightarrow> ht_table d' 0 \<noteq> [])" for nofree
    using dictGenericDelete_ok [OF dict_relD(1) [OF R], of k g nofree] dict_rel_alloc [OF R c] v dict_relD [OF R]
    by (auto simp: key_form_def)
  from D [of False] obtain d' r where "dictGenericDelete T g d k False = Some (d', r)" "dok d'"
    "dict_map kid d' = (ms_map s)(kid k := None)" "(r = NULL) = (kid k \<notin> dom (ms_map s))" "same_modes d d'"
    "ht_table d 0 \<noteq> [] \<longrightarrow> ht_table d' 0 \<noteq> []" by blast
  then show "step_refines N (g, d) s (OpDelete k)"
    using dict_rel_modes [OF R] by (auto simp: dictDelete_def)
  from D [of True] obtain d' r where d': "dictGenericDelete T g d k True = Some (d', r)" "dok d'"
    "dict_map kid d' = (ms_map s)(kid k := None)" "(r = NULL) = (kid k \<notin> dom (ms_map s))" "same_modes d d'"
    "ht_table d 0 \<noteq> [] \<longrightarrow> ht_table d' 0 \<noteq> []" "\<forall>e. r = Ptr e \<longrightarrow> (valDestructor T \<longrightarrow> dictGetVal e \<noteq> None)" by blast
  have "\<exists>tr. dictFreeUnlinkedEntry T d' r = Some (d'\<lparr>d_trace := tr\<rparr>)"
    using d'(7) dictFreeUnlinkedEntry_trace [of T _ d'] trace_self [of d']
    by (cases r) (auto simp: dictFreeUnlinkedEntry_def)
  then obtain tr where "dictFreeUnlinkedEntry T d' r = Some (d'\<lparr>d_trace := tr\<rparr>)" by blast
  moreover have "drel N (g, d'\<lparr>d_trace := tr\<rparr>) (s\<lparr>ms_map := (ms_map s)(kid k := None)\<rparr>)"
    by (rule dict_rel_modes [OF R]) (use d' in \<open>auto simp: dict_ok_def dict_map_def dict_entries_def same_modes_def\<close>)
  ultimately show "step_refines N (g, d) s (OpUnlink k)" using d' by (auto simp: dictUnlink_def)
qed

lemma step_two_phase:
  assumes R: "drel N (g, d) s" and v: "valid_op T kid lk sk N s (OpTwoPhase k)" and c: "card (dom (ms_map s)) \<le> N"
  shows "step_refines N (g, d) s (OpTwoPhase k)"
proof -
  obtain d' r where d': "dictTwoPhaseUnlinkFind T g d k = Some (d', r)" "dok d'" "dict_map kid d' = ms_map s"
    "same_modes d d'" "ht_table d 0 \<noteq> [] \<longrightarrow> ht_table d' 0 \<noteq> []" "search_result kid d' (kid k) r"
    using dictTwoPhaseUnlinkFind_ok [OF dict_relD(1) [OF R], of k g] v dict_relD [OF R] by (auto simp: key_form_def)
  show ?thesis
  proof (cases r)
    case NULL
    then have "ms_map s (kid k) = None" using d'(3,6) by (simp add: search_result_def)
    then show ?thesis
      using dict_rel_modes [OF R d'(2,4,5), of "kid k"] d'(1,3) NULL by (auto simp: dictTwoPhaseUnlinkFree_def fun_upd_idem)
  next
    case (Ptr p)
    then have loc: "loc_ok kid d' p (kid k)" using d'(6) by (simp add: search_result_def)
    have "dictSize d' = dictSize d" using dict_size_card(2) d'(2,3) dict_relD(1,2) [OF R] by simp
    then obtain d'' where "dictTwoPhaseUnlinkFree T g d' (Ptr p) = Some d''" "dok d''"
      "dict_map kid d'' = (dict_map kid d')(kid k := None)" "same_modes d' d''" "ht_table d'' 0 \<noteq> []"
      using dictTwoPhaseUnlinkFree_ok [OF d'(2) loc, of g] dict_rel_alloc [OF R c] dict_relD(7) [OF R] d'(3) by auto
    moreover have "kid k \<in> dom (ms_map s)" using loc_ok_entry [OF loc dict_okD(3) [OF d'(2)]] d'(3) by auto
    ultimately show ?thesis
      using dict_rel_modes [OF R, of d'' "kid k"] d' Ptr same_modes_trans [OF d'(4)] by auto
  qed
qed

lemma step_find:
  assumes R: "drel N (g, d) s" and v: "valid_op T kid lk sk N s (OpFind k)"
  shows "step_refines N (g, d) s (OpFind k)" "\<not> no_value T \<Longrightarrow> step_refines N (g, d) s (OpFetch k)"
proof -
  obtain d' r where d': "dictFind T g d k = Some (d', r)" "dok d'" "dict_keeps kid d d'" "search_result kid d' (kid k) r"
    using dictFind_ok [OF dict_relD(1) [OF R], of k g] v dict_relD [OF R] by (auto simp: key_form_def)
  have m: "dict_map kid d' = ms_map s" using dict_keeps_map [OF d'(3) dict_okD(3)] dict_relD(1,2) [OF R] by simp
  have E: "\<exists>e. entry_at d' p = Some e \<and> ms_map s (kid k) = Some (dictGetVal e)" if "r = Ptr p" for p
    using loc_ok_entry [OF _ dict_okD(3) [OF d'(2)], of p "kid k"] d'(4) that m by (auto simp: search_result_def)
  show "step_refines N (g, d) s (OpFind k)"
    using d' m E dict_rel_keeps [OF R d'(2,3)] by (cases r) (fastforce simp: search_result_def)+
  assume nv: "\<not> no_value T"
  show "step_refines N (g, d) s (OpFetch k)"
  proof (cases r)
    case NULL
    then show ?thesis using d' m dict_rel_keeps [OF R d'(2,3)] by (simp add: dictFetchValue_def search_result_def)
  next
    case (Ptr p)
    then obtain e where e: "entry_at d' p = Some e" "ms_map s (kid k) = Some (dictGetVal e)" using E by blast
    then obtain x where "dictGetVal e = Some x" using dict_relD(7) [OF R] nv by (metis vals_set_def not_None_eq)
    then show ?thesis using d' e Ptr dict_rel_keeps [OF R d'(2,3)] by (simp add: dictFetchValue_def)
  qed
qed

lemma step_resize:
  assumes R: "drel N (g, d) s"
  shows "n \<le> N \<Longrightarrow> step_refines N (g, d) s (OpExpand n)" "step_refines N (g, d) s (OpTryExpand n)"
    "n \<le> N \<Longrightarrow> step_refines N (g, d) s (OpShrink n)" "int n * 10 \<le> INT32_MAX \<Longrightarrow> step_refines N (g, d) s (OpRehash n)"
proof -
  have al: "n \<le> N \<Longrightarrow> alloc_upto g (16 * n + 32)" using dict_relD(6) [OF R] by (auto elim: alloc_upto_mono)
  note ok = dict_relD(1) [OF R]
  show "n \<le> N \<Longrightarrow> step_refines N (g, d) s (OpExpand n)"
    using dictExpand_ok [OF ok al] dict_rel_keeps [OF R] by fastforce
  show "step_refines N (g, d) s (OpTryExpand n)"
    using dictTryExpand_ok [OF ok, of g n] dict_rel_keeps [OF R] by fastforce
  show "n \<le> N \<Longrightarrow> step_refines N (g, d) s (OpShrink n)"
    using dictShrink_ok [OF ok al] dict_rel_keeps [OF R] by fastforce
  show "int n * 10 \<le> INT32_MAX \<Longrightarrow> step_refines N (g, d) s (OpRehash n)"
    using dictRehash_ok [OF ok, of n g] dict_rel_keeps [OF R] by fastforce
qed

lemma step_empty:
  assumes R: "drel N (g, d) s"
  shows "step_refines N (g, d) s (OpEmpty cb)"
proof -
  have "\<forall>e\<in>set (dict_entries d). valDestructor T \<longrightarrow> dictGetVal e \<noteq> None"
    using vals_set_entry [OF dict_relD(1) [OF R]] dict_relD(2,7) [OF R] by auto
  from dictEmpty_ok [OF this, of cb H kid sk] show ?thesis
    using dict_relD [OF R] by (auto simp: dict_rel_def vals_set_def)
qed

lemma dict_step_refines:
  assumes "drel N (g, d) s" "valid_op T kid lk sk N s op" "card (dom (ms_map s)) \<le> N"
  shows "step_refines N (g, d) s op"
proof (cases op)
  case (OpFind k)
  then show ?thesis using step_find(1) [OF assms(1)] assms(2) by simp
next
  case (OpFetch k)
  then show ?thesis using step_find(2) [OF assms(1), of k] assms(2) by simp
next
  case (OpUnlink k)
  then show ?thesis using step_delete(2) [OF assms(1) _ assms(3), of k] assms(2) by simp
next
  case OpSize
  then show ?thesis using assms(1) dict_size_card(2) by (auto simp: dict_rel_def)
next
  case OpPauseResize
  then show ?thesis using assms by (auto simp: dict_rel_def dictPauseAutoResize_def)
next
  case OpResumeResize
  then show ?thesis using assms by (auto simp: dict_rel_def dictResumeAutoResize_def)
qed (use assms step_add step_replace step_delete(1) step_two_phase step_resize step_empty in
    \<open>auto simp: dict_rel_def dictPauseRehashing_def dictResumeRehashing_def dictUseStoredKeyApi_def alloc_upto_def\<close>)

lemma card_map_step: "finite (dom (ms_map s)) \<Longrightarrow>
  finite (dom (ms_map (fst (map_step T kid s op)))) \<and> card (dom (ms_map (fst (map_step T kid s op)))) \<le> Suc (card (dom (ms_map s)))"
  by (cases op) (auto simp: card_insert_if intro: le_SucI card_Diff1_le)

lemma dict_run_refines:
  assumes "drel N gd s" "valid_ops T kid lk sk N s ops" "card (dom (ms_map s)) + length ops \<le> N"
  shows "\<exists>gd'. run_dict_ops T gd ops = Some (gd', snd (map_run T kid s ops)) \<and> drel N gd' (fst (map_run T kid s ops))"
  using assms
proof (induction ops arbitrary: gd s)
  case (Cons op ops)
  obtain g d where gd: "gd = (g, d)" by (cases gd)
  obtain gd' where gd': "dict_step T gd op = Some (gd', snd (map_step T kid s op))" "drel N gd' (fst (map_step T kid s op))"
    using dict_step_refines [of N g d s op] Cons.prems by (auto simp: gd)
  have "finite (dom (ms_map s))" using Cons.prems(1) dom_map_of_conv_image_fst
    by (metis dict_map_def dict_relD(2) finite_dom_map_of gd)
  from card_map_step [OF this, of op] have "card (dom (ms_map (fst (map_step T kid s op)))) + length ops \<le> N"
    using Cons.prems(3) by simp
  from Cons.IH [OF gd'(2) _ this] Cons.prems(2) show ?case
    using gd'(1) by (auto split: prod.splits)
qed simp

end

text \<open>
  Pausing automatic resizing before there is a table makes an insertion dereference the NULL table.
\<close>

lemma dictAdd_paused_without_table:
  "pauseAutoResize d > 0 \<Longrightarrow> rehashidx d = - 1 \<Longrightarrow> ht_table d 0 = [] \<Longrightarrow> dictAdd T g d k v = None"
  by (simp add: dictAdd_def dictAddRaw_def dictFindPositionForInsert_def access_rehash_def dictIsRehashing_def
    dictExpandIfNeeded_auto_def dict_search_def dict_probe_def Let_def)

end
