(* ===== verification/Siphash.thy ===== *)
theory Siphash
  imports Redis_Prelude
begin

text \<open>
  The keyed hash of \<open>siphash.c\<close> (one compression round and two finalisation rounds) and its
  case-insensitive variant. The eight bytes of a block are combined as the portable macro does; on the
  processors that allow unaligned access the code reads the same number from memory. The main
  result is that the variant hashes the text in lower case.
\<close>

definition siptlw :: "byte \<Rightarrow> byte" where
  "siptlw c = (if 65 \<le> c \<and> c \<le> 90 then c + (97 - 65) else c)"

definition ROTL :: "64 word \<Rightarrow> nat \<Rightarrow> 64 word" where
  "ROTL x b = push_bit b x OR drop_bit (64 - b) x"

definition U8TO64_LE :: "buf \<Rightarrow> 64 word" where
  "U8TO64_LE p =
     ucast (p ! 0) OR push_bit 8 (ucast (p ! 1)) OR push_bit 16 (ucast (p ! 2)) OR
     push_bit 24 (ucast (p ! 3)) OR push_bit 32 (ucast (p ! 4)) OR push_bit 40 (ucast (p ! 5)) OR
     push_bit 48 (ucast (p ! 6)) OR push_bit 56 (ucast (p ! 7))"

definition U8TO64_LE_NOCASE :: "buf \<Rightarrow> 64 word" where
  "U8TO64_LE_NOCASE p =
     ucast (siptlw (p ! 0)) OR push_bit 8 (ucast (siptlw (p ! 1))) OR
     push_bit 16 (ucast (siptlw (p ! 2))) OR push_bit 24 (ucast (siptlw (p ! 3))) OR
     push_bit 32 (ucast (siptlw (p ! 4))) OR push_bit 40 (ucast (siptlw (p ! 5))) OR
     push_bit 48 (ucast (siptlw (p ! 6))) OR push_bit 56 (ucast (siptlw (p ! 7)))"

type_synonym sip_state = "64 word \<times> 64 word \<times> 64 word \<times> 64 word"

definition SIPROUND :: "sip_state \<Rightarrow> sip_state" where
  "SIPROUND s = (case s of (v0, v1, v2, v3) \<Rightarrow>
     let v0 = v0 + v1;
         v1 = ROTL v1 13;
         v1 = v1 XOR v0;
         v0 = ROTL v0 32;
         v2 = v2 + v3;
         v3 = ROTL v3 16;
         v3 = v3 XOR v2;
         v0 = v0 + v3;
         v3 = ROTL v3 21;
         v3 = v3 XOR v0;
         v2 = v2 + v1;
         v1 = ROTL v1 17;
         v1 = v1 XOR v2;
         v2 = ROTL v2 32
     in (v0, v1, v2, v3))"

text \<open>One block of the message.\<close>

definition sip_block :: "64 word \<Rightarrow> sip_state \<Rightarrow> sip_state" where
  "sip_block m s = (case s of (v0, v1, v2, v3) \<Rightarrow>
     case SIPROUND (v0, v1, v2, v3 XOR m) of (v0, v1, v2, v3) \<Rightarrow> (v0 XOR m, v1, v2, v3))"

text \<open>The key \<open>k\<close> has sixteen bytes.\<close>

definition sip_init :: "buf \<Rightarrow> sip_state" where
  "sip_init k =
     (let k0 = U8TO64_LE k; k1 = U8TO64_LE (drop 8 k) in
      (0x736f6d6570736575 XOR k0, 0x646f72616e646f6d XOR k1,
       0x6c7967656e657261 XOR k0, 0x7465646279746573 XOR k1))"

definition sip_finish :: "64 word \<Rightarrow> sip_state \<Rightarrow> 64 word" where
  "sip_finish b s = (case sip_block b s of (v0, v1, v2, v3) \<Rightarrow>
     case SIPROUND (SIPROUND (v0, v1, v2 XOR 0xff, v3)) of (v0, v1, v2, v3) \<Rightarrow>
       v0 XOR v1 XOR v2 XOR v3)"

text \<open>The loop over the whole blocks; it returns the state and the remaining bytes.\<close>

fun siphash_loop :: "sip_state \<Rightarrow> buf \<Rightarrow> sip_state \<times> buf" where
  "siphash_loop s p =
     (if length p < 8 then (s, p) else siphash_loop (sip_block (U8TO64_LE p) s) (drop 8 p))"

fun siphash_nocase_loop :: "sip_state \<Rightarrow> buf \<Rightarrow> sip_state \<times> buf" where
  "siphash_nocase_loop s p =
     (if length p < 8 then (s, p) else siphash_nocase_loop (sip_block (U8TO64_LE_NOCASE p) s) (drop 8 p))"

declare siphash_loop.simps [simp del] siphash_nocase_loop.simps [simp del]

text \<open>The switch on the number of remaining bytes, from its case down.\<close>

fun siphash_tail :: "nat \<Rightarrow> buf \<Rightarrow> 64 word \<Rightarrow> 64 word" where
  "siphash_tail 0 p b = b"
| "siphash_tail (Suc n) p b = siphash_tail n p (b OR push_bit (8 * n) (ucast (p ! n)))"

fun siphash_nocase_tail :: "nat \<Rightarrow> buf \<Rightarrow> 64 word \<Rightarrow> 64 word" where
  "siphash_nocase_tail 0 p b = b"
| "siphash_nocase_tail (Suc n) p b = siphash_nocase_tail n p (b OR push_bit (8 * n) (ucast (siptlw (p ! n))))"

definition siphash :: "buf \<Rightarrow> buf \<Rightarrow> 64 word" where
  "siphash s k =
     (case siphash_loop (sip_init k) s of (v, p) \<Rightarrow>
        sip_finish (siphash_tail (length s mod 8) p (push_bit 56 (of_nat (length s)))) v)"

definition siphash_nocase :: "buf \<Rightarrow> buf \<Rightarrow> 64 word" where
  "siphash_nocase s k =
     (case siphash_nocase_loop (sip_init k) s of (v, p) \<Rightarrow>
        sip_finish (siphash_nocase_tail (length s mod 8) p (push_bit 56 (of_nat (length s)))) v)"


subsection \<open>The variant without case\<close>

lemma U8TO64_LE_NOCASE_map: "8 \<le> length p \<Longrightarrow> U8TO64_LE_NOCASE p = U8TO64_LE (map siptlw p)"
proof -
  assume "8 \<le> length p"
  then have "map siptlw p ! i = siptlw (p ! i)" if "i < 8" for i using that by simp
  then show ?thesis by (simp add: U8TO64_LE_NOCASE_def U8TO64_LE_def)
qed

lemma siphash_nocase_loop_map:
  "siphash_loop s (map siptlw p) = map_prod id (map siptlw) (siphash_nocase_loop s p)"
proof (induction s p rule: siphash_nocase_loop.induct)
  case (1 s p)
  show ?case
  proof (cases "length p < 8")
    case True
    then show ?thesis by (simp add: siphash_loop.simps siphash_nocase_loop.simps)
  next
    case False
    then have "siphash_loop s (map siptlw p) =
        siphash_loop (sip_block (U8TO64_LE_NOCASE p) s) (map siptlw (drop 8 p))"
      by (simp add: siphash_loop.simps [of s] U8TO64_LE_NOCASE_map drop_map)
    also have "\<dots> = map_prod id (map siptlw) (siphash_nocase_loop s p)"
      by (simp only: 1 [OF False] siphash_nocase_loop.simps [of s p] False if_False)
    finally show ?thesis .
  qed
qed

lemma siphash_nocase_loop_rest: "length (snd (siphash_nocase_loop s p)) = length p mod 8"
proof (induction s p rule: siphash_nocase_loop.induct)
  case (1 s p)
  then show ?case by (subst siphash_nocase_loop.simps) (auto simp: le_mod_geq)
qed

lemma siphash_nocase_tail_map:
  "n \<le> length p \<Longrightarrow> siphash_nocase_tail n p b = siphash_tail n (map siptlw p) b"
  by (induction n arbitrary: b) auto

theorem siphash_nocase_lower: "siphash_nocase s k = siphash (map siptlw s) k"
  using siphash_nocase_loop_map [of "sip_init k" s] siphash_nocase_loop_rest [of "sip_init k" s]
  by (auto simp: siphash_nocase_def siphash_def siphash_nocase_tail_map split: prod.splits)

end
