(* ===== verification/Dict_Types.thy ===== *)
theory Dict_Types
  imports Dict_Map Siphash
begin

text \<open>
  The dictionary types that the server uses for its sets, hashes and command tables
  (\<open>server.c\<close>): the keys are strings, given here by their bytes. Each satisfies the contract that the
  hash table relies on, for the keys on which hash function and comparison agree; outside they do not.
\<close>

subsection \<open>Hash functions and comparisons\<close>

text \<open>\<open>seed\<close> is the static \<open>dict_hash_function_seed\<close>.\<close>

definition dictGenHashFunction :: "buf \<Rightarrow> buf \<Rightarrow> 64 word" where
  "dictGenHashFunction seed key = siphash key seed"

definition dictGenCaseHashFunction :: "buf \<Rightarrow> buf \<Rightarrow> 64 word" where
  "dictGenCaseHashFunction seed key = siphash_nocase key seed"

definition dictSdsHash :: "buf \<Rightarrow> buf \<Rightarrow> 64 word" where
  "dictSdsHash seed key = dictGenHashFunction seed key"

definition dictSdsCaseHash :: "buf \<Rightarrow> buf \<Rightarrow> 64 word" where
  "dictSdsCaseHash seed key = dictGenCaseHashFunction seed key"

text \<open>
  The lengths are kept in variables of type \<open>int\<close>. A negative one becomes a huge number of bytes to
  compare, and the comparison reads outside the strings.
\<close>

definition int_of_size :: "nat \<Rightarrow> int" where
  "int_of_size n = to_signed 4 (n mod 4294967296)"

definition dictSdsKeyCompare :: "buf \<Rightarrow> buf \<Rightarrow> bool option" where
  "dictSdsKeyCompare key1 key2 =
     (let l1 = int_of_size (length key1); l2 = int_of_size (length key2) in
      if l1 \<noteq> l2 then Some False
      else do {
        a \<leftarrow> rd_range key1 0 (nat (l1 mod 18446744073709551616));
        b \<leftarrow> rd_range key2 0 (nat (l1 mod 18446744073709551616));
        Some (a = b) })"

text \<open>\<open>strcasecmp\<close> stops at the first NUL byte.\<close>

definition dictSdsKeyCaseCompare :: "buf \<Rightarrow> buf \<Rightarrow> bool" where
  "dictSdsKeyCaseCompare key1 key2 \<longleftrightarrow>
     map tolower (takeWhile (\<lambda>c. c \<noteq> 0) key1) = map tolower (takeWhile (\<lambda>c. c \<noteq> 0) key2)"


subsection \<open>Types\<close>

text \<open>String pointers are odd; a comparison that faults does not report equality.\<close>

definition setDictType :: "buf \<Rightarrow> (buf, 'v) dictType" where
  "setDictType seed = \<lparr>hashFunction = dictSdsHash seed, keyDup = NULL, valDup = NULL,
     keyCompare = Ptr (\<lambda>a b. dictSdsKeyCompare a b = Some True), keyDestructor = True,
     valDestructor = False, resizeAllowed = NULL, rehashingStarted = False, rehashingCompleted = False,
     onDictRelease = False, no_value = True, keys_are_odd = True, storedHashFunction = NULL,
     storedKeyCompare = NULL, key_lsb = (\<lambda>_. True)\<rparr>"

definition hashDictType :: "buf \<Rightarrow> (buf, 'v) dictType" where
  "hashDictType seed = \<lparr>hashFunction = dictSdsHash seed, keyDup = NULL, valDup = NULL,
     keyCompare = Ptr (\<lambda>a b. dictSdsKeyCompare a b = Some True), keyDestructor = True,
     valDestructor = True, resizeAllowed = NULL, rehashingStarted = False, rehashingCompleted = False,
     onDictRelease = False, no_value = False, keys_are_odd = False, storedHashFunction = NULL,
     storedKeyCompare = NULL, key_lsb = (\<lambda>_. True)\<rparr>"

text \<open>\<open>dictResizeAllowed\<close> depends on the configuration and the memory in use.\<close>

definition dbDictType :: "(nat \<Rightarrow> nat \<times> nat \<Rightarrow> bool) \<Rightarrow> buf \<Rightarrow> (buf, 'v) dictType" where
  "dbDictType dictResizeAllowed seed = (hashDictType seed)\<lparr>resizeAllowed := Ptr dictResizeAllowed\<rparr>"

definition commandTableDictType :: "buf \<Rightarrow> (buf, 'v) dictType" where
  "commandTableDictType seed = \<lparr>hashFunction = dictSdsCaseHash seed, keyDup = NULL, valDup = NULL,
     keyCompare = Ptr dictSdsKeyCaseCompare, keyDestructor = True,
     valDestructor = False, resizeAllowed = NULL, rehashingStarted = False, rehashingCompleted = False,
     onDictRelease = False, no_value = False, keys_are_odd = False, storedHashFunction = NULL,
     storedKeyCompare = NULL, key_lsb = (\<lambda>_. True)\<rparr>"


subsection \<open>The contract\<close>

definition short_key :: "buf \<Rightarrow> bool" where
  "short_key k \<longleftrightarrow> length k < 2147483648"

definition nul_free :: "buf \<Rightarrow> bool" where
  "nul_free k \<longleftrightarrow> 0 \<notin> set k"

lemma dictSdsKeyCompare_short:
  assumes "short_key a" "short_key b"
  shows "dictSdsKeyCompare a b = Some (a = b)"
proof -
  have i: "int_of_size (length x) = int (length x)" if "short_key x" for x
    using that by (simp add: short_key_def int_of_size_def to_signed_def)
  have m: "int (length x) mod 18446744073709551616 = int (length x)" if "short_key x" for x
    using that by (simp add: short_key_def)
  show ?thesis using assms by (auto simp: dictSdsKeyCompare_def Let_def i m rd_range_def)
qed

lemma tolower_siptlw: "tolower = siptlw"
  by (rule ext) (simp add: tolower_def siptlw_def)

lemma dictSdsKeyCaseCompare_nul_free:
  "nul_free a \<Longrightarrow> nul_free b \<Longrightarrow> dictSdsKeyCaseCompare a b \<longleftrightarrow> map siptlw a = map siptlw b"
proof -
  assume "nul_free a" "nul_free b"
  then have "takeWhile (\<lambda>c. c \<noteq> 0) a = a" "takeWhile (\<lambda>c. c \<noteq> 0) b = b"
    by (auto simp: nul_free_def takeWhile_eq_all_conv)
  then show ?thesis unfolding dictSdsKeyCaseCompare_def tolower_siptlw by (simp only:)
qed

lemmas dict_type_defs = setDictType_def hashDictType_def dbDictType_def commandTableDictType_def
  dictHashKey_def dictGetKeyCmpFunc_def dictSdsHash_def dictGenHashFunction_def
  dictSdsCaseHash_def dictGenCaseHashFunction_def

interpretation set_type: dict_keys "setDictType seed" "\<lambda>k. siphash k seed" id short_key short_key
  for seed :: buf
  by unfold_locales (auto simp: dict_type_defs dictSdsKeyCompare_short)

interpretation hash_type: dict_keys "hashDictType seed" "\<lambda>k. siphash k seed" id short_key short_key
  for seed :: buf
  by unfold_locales (auto simp: dict_type_defs dictSdsKeyCompare_short)

interpretation db_type: dict_keys "dbDictType allowed seed" "\<lambda>k. siphash k seed" id short_key short_key
  for allowed seed
  by unfold_locales (auto simp: dict_type_defs dictSdsKeyCompare_short)

interpretation command_type:
  dict_keys "commandTableDictType seed" "\<lambda>k. siphash k seed" "map siptlw" nul_free nul_free
  for seed :: buf
  by unfold_locales (auto simp: dict_type_defs siphash_nocase_lower dictSdsKeyCaseCompare_nul_free)

text \<open>
  Beyond these keys the contract fails: lengths that agree modulo 2^32 are taken for equal, and a NUL
  byte ends the comparison of command names but not their hash.
\<close>

lemma dictSdsKeyCompare_truncated:
  assumes "length a = length b + 4294967296" "take (length b) a = b" "short_key b"
  shows "dictSdsKeyCompare a b = Some True \<and> a \<noteq> b"
proof -
  have "int_of_size (length a) = int (length b)" "int_of_size (length b) = int (length b)"
    using assms(1,3) by (simp_all add: short_key_def int_of_size_def to_signed_def)
  moreover have "int (length b) mod 18446744073709551616 = int (length b)" using assms(3) by (simp add: short_key_def)
  ultimately show ?thesis using assms by (auto simp: dictSdsKeyCompare_def Let_def rd_range_def)
qed

lemma neg_mod: "- M \<le> x \<Longrightarrow> x < 0 \<Longrightarrow> x mod M = x + M" for x M :: int
  using mod_pos_pos_trivial [of "x + M" M] by simp

lemma dictSdsKeyCompare_out_of_bounds:
  assumes "2147483648 \<le> length a" "length a < 4294967296" "length b = length a"
  shows "dictSdsKeyCompare a b = None"
proof -
  have i: "int_of_size (length a) = int (length a) - 4294967296"
    using assms(1,2) by (simp add: int_of_size_def to_signed_def)
  have n: "nat ((int (length a) - 4294967296) mod 18446744073709551616) > length a"
    using neg_mod [of 18446744073709551616 "int (length a) - 4294967296"] assms(1,2) by simp
  show ?thesis unfolding dictSdsKeyCompare_def Let_def assms(3) i rd_range_def using n by simp
qed

lemma dictSdsKeyCaseCompare_nul: "nul_free a \<Longrightarrow> dictSdsKeyCaseCompare (a @ 0 # b) a"
proof -
  assume "nul_free a"
  then have "takeWhile (\<lambda>c. c \<noteq> 0) (a @ 0 # b) = a" "takeWhile (\<lambda>c. c \<noteq> 0) a = a"
    by (auto simp: nul_free_def takeWhile_append takeWhile_eq_all_conv)
  then show ?thesis unfolding dictSdsKeyCaseCompare_def by (simp only:)
qed


subsection \<open>Dictionaries are maps\<close>

text \<open>
  C38. For every type of keys whose hash function and comparison agree with a notion of content, any
  valid sequence of operations on a new dictionary runs without a fault and observes exactly the answers of a finite
  map: additions, replacements, the three forms of removal, lookups and sizes, mixed with expansions, shrinking,
  rehashing steps, pauses, changes of the resize policy, switches to stored keys and emptying. In the end the dictionary satisfies
  its invariant and holds the content of the map. The memory must allow a table for the number of
  operations.
\<close>

theorem dict_ops_refine_map:
  assumes "dict_keys T H kid lk sk" "alloc_upto g (16 * N + 96)" "length ops \<le> N"
    "valid_ops T kid lk sk N map_init ops"
  shows "\<exists>g' d'. run_dict_ops T (g, dictCreate mem) ops = Some ((g', d'), snd (map_run T kid map_init ops)) \<and>
    dict_ok T H kid sk d' \<and> dict_map kid d' = ms_map (fst (map_run T kid map_init ops))"
proof -
  have "dict_rel T H kid sk N (g, dictCreate mem) map_init"
    using assms(2) by (simp add: dict_rel_def map_init_def vals_set_def dictCreate_ok)
  moreover have "card (dom (ms_map map_init)) + length ops \<le> N" using assms(3) by (simp add: map_init_def)
  ultimately obtain gd where "run_dict_ops T (g, dictCreate mem) ops = Some (gd, snd (map_run T kid map_init ops))"
    "dict_rel T H kid sk N gd (fst (map_run T kid map_init ops))"
    using dict_keys.dict_run_refines [OF assms(1) _ assms(4)] by blast
  then show ?thesis by (cases gd) (auto simp: dict_rel_def)
qed

definition some_memory :: "('k, 'v) dict" where
  "some_memory = \<lparr>ht_table = (\<lambda>_. []), ht_used = (\<lambda>_. 0), rehashidx = 0, pauserehash = 0,
     useStoredKeyApi = False, ht_size_exp = (\<lambda>_. 0), pauseAutoResize = 0, d_trace = []\<rparr>"

theorem dict_ops_refine_map_witness:
  "\<exists>g' d'. run_dict_ops (hashDictType (replicate 16 7) :: (buf, buf) dictType)
      (\<lparr>dict_can_resize = DICT_RESIZE_ENABLE, zcalloc_ok = (\<lambda>n. n \<le> 512)\<rparr>, dictCreate some_memory)
      [OpAdd [97] [1], OpAdd [98] [2], OpAdd [97] [3], OpExpand 16, OpFetch [97], OpReplace [97] [4], OpDelete [98],
       OpFind [98], OpFetch [97], OpRehash 1, OpSize] =
    Some ((g', d'), [ABool True, ABool True, ABool False, ADone, AVal (Ptr [1]), ABool False, ABool True,
      ABool False, AVal (Ptr [4]), ADone, ASize 1])"
proof -
  let ?T = "hashDictType (replicate 16 7) :: (buf, buf) dictType"
  let ?ops = "[OpAdd [97] [1], OpAdd [98] [2], OpAdd [97] [3], OpExpand 16, OpFetch [97], OpReplace [97] [4], OpDelete [98],
       OpFind [98], OpFetch [97], OpRehash 1, OpSize] :: (buf, buf) dict_op list"
  have a: "dict_keys ?T (\<lambda>k. siphash k (replicate 16 7)) id short_key short_key"
    by (rule hash_type.dict_keys_axioms)
  have b: "alloc_upto \<lparr>dict_can_resize = DICT_RESIZE_ENABLE, zcalloc_ok = (\<lambda>n. n \<le> 512)\<rparr> (16 * 16 + 96)"
    by (simp add: alloc_upto_def)
  have c: "length ?ops \<le> 16" by simp
  have d: "valid_ops ?T id short_key short_key 16 map_init ?ops"
    by (simp add: map_init_def key_form_def key_addable_def stored_key_def short_key_def hashDictType_def)
  have e: "snd (map_run ?T id map_init ?ops) = [ABool True, ABool True, ABool False, ADone, AVal (Ptr [1]),
      ABool False, ABool True, ABool False, AVal (Ptr [4]), ADone, ASize 1]"
    by (simp add: map_init_def add_value_def stored_val_def hashDictType_def card_insert_if)
  from dict_ops_refine_map [OF a b c d, of some_memory] show ?thesis unfolding e by blast
qed

end
