(* ===== verification/Dict_Scan.thy ===== *)
theory Dict_Scan
  imports Dict_Types
begin

text \<open>
  The cursor iteration of \<open>dict.c\<close> (\<open>rev\<close>, \<open>dictScan\<close>): a scan that starts with cursor 0 and returns to it
  has reported every key that was present all the time, however the dictionary was resized and rehashed
  between the calls. The argument is the one of the comment on \<open>dictScan\<close>: read with its bits reversed,
  the cursor only grows, and a call reports every key whose reversed hash value lies between the old and the
  new cursor.
\<close>

subsection \<open>Reversing bits\<close>

text \<open>Reversing the bits of a word; \<open>s\<close> is halved before every round.\<close>

function rev_loop :: "nat \<Rightarrow> 64 word \<Rightarrow> 64 word \<Rightarrow> 64 word" where
  "rev_loop s m v =
     (let s = s div 2 in
      if s > 0 then
        (let m = m XOR push_bit s m in
         rev_loop s m ((drop_bit s v AND m) OR (push_bit s v AND NOT m)))
      else v)"
  by pat_completeness auto
termination by (relation "measure (\<lambda>(s, m, v). s)") auto

declare rev_loop.simps [simp del]

definition rev_ulong :: "64 word \<Rightarrow> 64 word" where
  "rev_ulong v = rev_loop 64 (NOT 0) v"

definition rev_round :: "nat \<Rightarrow> 64 word \<Rightarrow> 64 word \<Rightarrow> 64 word" where
  "rev_round s m v = (drop_bit s v AND m) OR (push_bit s v AND NOT m)"

definition rev_swap :: "nat \<Rightarrow> nat \<Rightarrow> nat" where
  "rev_swap s i = (if even (i div s) then i + s else i - s)"

lemma rev_masks:
  "NOT 0 XOR push_bit 32 (NOT 0) = (0xFFFFFFFF :: 64 word)"
  "0xFFFFFFFF XOR push_bit 16 0xFFFFFFFF = (0xFFFF0000FFFF :: 64 word)"
  "0xFFFF0000FFFF XOR push_bit 8 0xFFFF0000FFFF = (0xFF00FF00FF00FF :: 64 word)"
  "0xFF00FF00FF00FF XOR push_bit 4 0xFF00FF00FF00FF = (0xF0F0F0F0F0F0F0F :: 64 word)"
  "0xF0F0F0F0F0F0F0F XOR push_bit 2 0xF0F0F0F0F0F0F0F = (0x3333333333333333 :: 64 word)"
  "0x3333333333333333 XOR push_bit 1 0x3333333333333333 = (0x5555555555555555 :: 64 word)"
  by (simp_all add: mask_eq_exp_minus_1)

lemma rev_ulong_rounds:
  "rev_ulong v = rev_round 1 0x5555555555555555 (rev_round 2 0x3333333333333333
    (rev_round 4 0xF0F0F0F0F0F0F0F (rev_round 8 0xFF00FF00FF00FF
    (rev_round 16 0xFFFF0000FFFF (rev_round 32 0xFFFFFFFF v)))))"
proof -
  have st: "rev_loop (2 * s) m w = rev_loop s (m XOR push_bit s m) (rev_round s (m XOR push_bit s m) w)" if "0 < s" for s m w
    using that by (subst rev_loop.simps) (simp add: Let_def rev_round_def)
  have e: "rev_loop 1 m w = w" for m w by (subst rev_loop.simps) simp
  note s1 = st [of 32 "NOT 0", unfolded rev_masks] and s2 = st [of 16 "0xFFFFFFFF", unfolded rev_masks]
    and s3 = st [of 8 "0xFFFF0000FFFF", unfolded rev_masks] and s4 = st [of 4 "0xFF00FF00FF00FF", unfolded rev_masks]
    and s5 = st [of 2 "0xF0F0F0F0F0F0F0F", unfolded rev_masks] and s6 = st [of 1 "0x3333333333333333", unfolded rev_masks]
  have n: "2 * 32 = (64 :: nat)" "2 * 16 = (32 :: nat)" "2 * 8 = (16 :: nat)" "2 * 4 = (8 :: nat)" "2 * 2 = (4 :: nat)"
    "2 * 1 = (2 :: nat)" by simp_all
  show ?thesis
    unfolding rev_ulong_def
    by (simp only: s1 [unfolded n] s2 [unfolded n] s3 [unfolded n] s4 [unfolded n] s5 [unfolded n] s6 [unfolded n] e
      zero_less_numeral zero_less_one)
qed

lemma bit_rev_round:
  assumes "i < 64" "\<forall>j \<in> {..<64}. bit m j = even (j div s)"
  shows "bit (rev_round s m v) i = bit v (rev_swap s i)"
proof -
  have "bit (rev_round s m v) i \<longleftrightarrow> (bit v (i + s) \<and> bit m i) \<or> (s \<le> i \<and> bit v (i - s) \<and> \<not> bit m i)"
    using assms(1) by (auto simp: rev_round_def bit_simps add.commute)
  moreover have "odd (i div s) \<Longrightarrow> s \<le> i" by (cases "i < s") auto
  ultimately show ?thesis using assms by (auto simp: rev_swap_def)
qed

lemma rev_mask_bits:
  "\<forall>j \<in> {..<64}. bit (0xFFFFFFFF :: 64 word) j = even (j div 32)"
  "\<forall>j \<in> {..<64}. bit (0xFFFF0000FFFF :: 64 word) j = even (j div 16)"
  "\<forall>j \<in> {..<64}. bit (0xFF00FF00FF00FF :: 64 word) j = even (j div 8)"
  "\<forall>j \<in> {..<64}. bit (0xF0F0F0F0F0F0F0F :: 64 word) j = even (j div 4)"
  "\<forall>j \<in> {..<64}. bit (0x3333333333333333 :: 64 word) j = even (j div 2)"
  "\<forall>j \<in> {..<64}. bit (0x5555555555555555 :: 64 word) j = even (j div 1)"
  by (simp_all add: lessThan_nat_numeral lessThan_Suc)

lemma rev_swap_bound:
  assumes "i < 64"
  shows "rev_swap 1 i < 64" "rev_swap 2 i < 64" "rev_swap 4 i < 64" "rev_swap 8 i < 64" "rev_swap 16 i < 64"
proof -
  have "\<forall>i \<in> {..<64}. rev_swap 1 i < 64 \<and> rev_swap 2 i < 64 \<and> rev_swap 4 i < 64 \<and> rev_swap 8 i < 64 \<and> rev_swap 16 i < 64"
    by (simp add: lessThan_nat_numeral lessThan_Suc rev_swap_def)
  from bspec [OF this, of i] assms
  show "rev_swap 1 i < 64" "rev_swap 2 i < 64" "rev_swap 4 i < 64" "rev_swap 8 i < 64" "rev_swap 16 i < 64"
    by simp_all
qed

lemma rev_swap_xor:
  assumes "i < 64"
  shows "rev_swap 1 i = i XOR 1" "rev_swap 2 i = i XOR 2" "rev_swap 4 i = i XOR 4" "rev_swap 8 i = i XOR 8"
    "rev_swap 16 i = i XOR 16" "rev_swap 32 i = i XOR 32" "i XOR 63 = 63 - i"
proof -
  have "\<forall>i \<in> {..<64}. rev_swap 1 i = i XOR 1 \<and> rev_swap 2 i = i XOR 2 \<and> rev_swap 4 i = i XOR 4 \<and>
    rev_swap 8 i = i XOR 8 \<and> rev_swap 16 i = i XOR 16 \<and> rev_swap 32 i = i XOR 32 \<and> i XOR 63 = 63 - i"
    by (simp add: lessThan_nat_numeral lessThan_Suc rev_swap_def)
  from bspec [OF this, of i] assms
  show "rev_swap 1 i = i XOR 1" "rev_swap 2 i = i XOR 2" "rev_swap 4 i = i XOR 4" "rev_swap 8 i = i XOR 8"
    "rev_swap 16 i = i XOR 16" "rev_swap 32 i = i XOR 32" "i XOR 63 = 63 - i"
    by simp_all
qed

lemma rev_swap_all:
  assumes "i < 64"
  shows "rev_swap 32 (rev_swap 16 (rev_swap 8 (rev_swap 4 (rev_swap 2 (rev_swap 1 i))))) = 63 - i"
proof -
  note b1 = rev_swap_bound(1) [OF assms] note b2 = rev_swap_bound(2) [OF b1] note b3 = rev_swap_bound(3) [OF b2]
  note b4 = rev_swap_bound(4) [OF b3] note b5 = rev_swap_bound(5) [OF b4]
  have "rev_swap 32 (rev_swap 16 (rev_swap 8 (rev_swap 4 (rev_swap 2 (rev_swap 1 i))))) =
      i XOR 1 XOR 2 XOR 4 XOR 8 XOR 16 XOR 32"
    unfolding rev_swap_xor(6) [OF b5] unfolding rev_swap_xor(5) [OF b4] unfolding rev_swap_xor(4) [OF b3]
    unfolding rev_swap_xor(3) [OF b2] unfolding rev_swap_xor(2) [OF b1] unfolding rev_swap_xor(1) [OF assms]
    by (simp only: xor.assoc)
  also have "\<dots> = i XOR 63" by (simp add: xor.assoc)
  also have "\<dots> = 63 - i" by (rule rev_swap_xor(7) [OF assms])
  finally show ?thesis .
qed

lemma bit_rev_ulong:
  assumes "i < 64"
  shows "bit (rev_ulong v) i = bit v (63 - i)"
proof -
  note b1 = rev_swap_bound(1) [OF assms] note b2 = rev_swap_bound(2) [OF b1] note b3 = rev_swap_bound(3) [OF b2]
  note b4 = rev_swap_bound(4) [OF b3] note b5 = rev_swap_bound(5) [OF b4]
  show ?thesis
    unfolding rev_ulong_rounds bit_rev_round [OF assms rev_mask_bits(6)] bit_rev_round [OF b1 rev_mask_bits(5)]
      bit_rev_round [OF b2 rev_mask_bits(4)] bit_rev_round [OF b3 rev_mask_bits(3)]
      bit_rev_round [OF b4 rev_mask_bits(2)] bit_rev_round [OF b5 rev_mask_bits(1)] rev_swap_all [OF assms] ..
qed

lemma rev_rev_ulong [simp]: "rev_ulong (rev_ulong v) = v"
  by (rule bit_word_eqI) (simp add: bit_rev_ulong)

lemma rev_ulong_or: "rev_ulong (a OR b) = rev_ulong a OR rev_ulong b"
  by (rule bit_word_eqI) (simp add: bit_rev_ulong bit_or_iff)

lemma rev_ulong_0 [simp]: "rev_ulong 0 = 0"
  by (rule bit_word_eqI) (simp add: bit_rev_ulong)

lemma rev_ulong_eq_0_iff [simp]: "rev_ulong v = 0 \<longleftrightarrow> v = 0"
  by (metis rev_rev_ulong rev_ulong_0)

text \<open>The mask of the low \<open>e\<close> bits reversed is the mask of the high ones.\<close>

lemma rev_ulong_not_mask: "e \<le> 64 \<Longrightarrow> rev_ulong (NOT (mask e)) = mask (64 - e)"
  by (rule bit_word_eqI) (auto simp: bit_rev_ulong bit_simps)


subsection \<open>The scan\<close>

lemma unat_less_64: "unat w < 2 ^ 64" for w :: "64 word"
  using unsigned_less [of w] by simp

lemma unat_plus_1: "x + 1 \<noteq> 0 \<Longrightarrow> unat (x + 1) = unat x + 1" for x :: "'a :: len word"
  using unatSuc [of x] by (simp add: add.commute)

text \<open>Incrementing the reversed cursor on the bits of a mask.\<close>

definition scan_next :: "64 word \<Rightarrow> 64 word \<Rightarrow> 64 word" where
  "scan_next m v =
     (let v = v OR NOT m;
          v = rev_ulong v;
          v = v + 1
      in rev_ulong v)"

lemma scan_next_grows: "scan_next m v \<noteq> 0 \<Longrightarrow> rev_ulong v < rev_ulong (scan_next m v)"
proof -
  assume nz: "scan_next m v \<noteq> 0"
  let ?x = "rev_ulong (v OR NOT m)"
  have "?x + 1 \<noteq> 0" using nz by (simp add: scan_next_def)
  then have "?x < ?x + 1" by (simp add: word_less_nat_alt unat_plus_1)
  moreover have "rev_ulong v \<le> ?x" by (simp add: rev_ulong_or le_word_or2)
  ultimately show "rev_ulong v < rev_ulong (scan_next m v)" by (simp add: scan_next_def)
qed

text \<open>The loop over the buckets of the larger table that expand a bucket of the smaller one.\<close>

function dictScan_expand ::
  "('k, 'v) dictEntry list list \<Rightarrow> 64 word \<Rightarrow> 64 word \<Rightarrow> 64 word \<Rightarrow>
     (64 word \<times> ('k, 'v) dictEntry list) option" where
  "dictScan_expand tb m0 m1 v =
     (case rd tb (unat (v AND m1)) of
        None \<Rightarrow> None
      | Some b \<Rightarrow>
          if scan_next m1 v AND (m0 XOR m1) \<noteq> 0
          then map_option (map_prod id (\<lambda>es. chain b @ es)) (dictScan_expand tb m0 m1 (scan_next m1 v))
          else Some (scan_next m1 v, chain b))"
  by pat_completeness auto
termination
proof (relation "measure (\<lambda>(tb, m0, m1, v). 2 ^ 64 - unat (rev_ulong v))", goal_cases)
  case (2 tb m0 m1 v b)
  then have "scan_next m1 v \<noteq> 0" by auto
  then have "unat (rev_ulong v) < unat (rev_ulong (scan_next m1 v))" using scan_next_grows by (simp add: word_less_nat_alt)
  moreover have "unat (rev_ulong (scan_next m1 v)) < 2 ^ 64" by (rule unat_less_64)
  ultimately show ?case by simp
qed simp

declare dictScan_expand.simps [simp del]

text \<open>
  One call with cursor \<open>v\<close>: the dictionary, the next cursor and the entries given to the callback, in
  order. The callback does not change the dictionary.
\<close>

definition dictScan ::
  "('k, 'v) dict \<Rightarrow> 64 word \<Rightarrow> (('k, 'v) dict \<times> 64 word \<times> ('k, 'v) dictEntry list) option" where
  "dictScan d v =
     (if dictSize d = 0 then Some (d, 0, [])
      else do {
        let d = dictPauseRehashing d;
        (v', es) \<leftarrow>
          (if \<not> dictIsRehashing d then do {
             let m0 = DICTHT_SIZE_MASK (ht_size_exp d 0);
             b \<leftarrow> rd (ht_table d 0) (unat (v AND m0));
             Some (scan_next m0 v, chain b) }
           else do {
             let (htidx0, htidx1) =
               (if DICTHT_SIZE (ht_size_exp d 0) > DICTHT_SIZE (ht_size_exp d 1) then (1, 0) else (0, 1));
             let m0 = DICTHT_SIZE_MASK (ht_size_exp d htidx0);
             let m1 = DICTHT_SIZE_MASK (ht_size_exp d htidx1);
             b \<leftarrow> rd (ht_table d htidx0) (unat (v AND m0));
             (v', es) \<leftarrow> dictScan_expand (ht_table d htidx1) m0 m1 v;
             Some (v', chain b @ es) });
        Some (dictResumeRehashing d, v', es) })"


subsection \<open>Cursors as numbers\<close>

definition scan_pos :: "64 word \<Rightarrow> nat" where
  "scan_pos v = unat (rev_ulong v)"

text \<open>A cursor that has returned to 0 is at the end.\<close>

definition scan_end :: "64 word \<Rightarrow> nat" where
  "scan_end v = (if v = 0 then 2 ^ 64 else scan_pos v)"

lemma scan_pos_bound: "scan_pos v < 2 ^ 64"
  unfolding scan_pos_def by (rule unat_less_64)

lemma or_mask_nat: "x OR mask n = (x div 2 ^ n) * 2 ^ n + (2 ^ n - 1 :: nat)"
proof -
  have "x OR mask n = push_bit n (drop_bit n x) OR mask n"
    by (rule bit_eqI) (auto simp: bit_simps)
  also have "\<dots> = push_bit n (drop_bit n x) + mask n"
    by (rule disjunctive_add [symmetric]) (auto simp: bit_simps)
  finally show ?thesis by (simp add: push_bit_eq_mult drop_bit_eq_div mask_eq_exp_minus_1)
qed

lemma unat_mask_64: "unat (mask n :: 64 word) = mask (min 64 n)"
  by (rule bit_eqI) (auto simp: bit_simps)

lemma unat_minus_1_64: "unat (- 1 :: 64 word) = mask 64"
  by (rule bit_eqI) (auto simp: bit_simps)

lemma scan_next_end:
  assumes "e \<le> 63"
  shows "scan_end (scan_next (mask e) v) = (scan_pos v div 2 ^ (64 - e) + 1) * 2 ^ (64 - e)"
proof -
  let ?x = "rev_ulong (v OR NOT (mask e))" and ?w = "2 ^ (64 - e) :: nat"
  have "?x = rev_ulong v OR mask (64 - e)" using assms by (simp add: rev_ulong_or rev_ulong_not_mask)
  then have "unat ?x = scan_pos v OR mask (64 - e)"
    by (simp add: scan_pos_def unsigned_or_eq unat_mask_64)
  then have x: "unat ?x + 1 = (scan_pos v div ?w + 1) * ?w" by (simp add: or_mask_nat)
  have n: "scan_next (mask e) v = rev_ulong (?x + 1)" by (simp add: scan_next_def)
  show ?thesis
  proof (cases "?x + 1 = 0")
    case True
    then have "?x = - 1" by (simp add: eq_neg_iff_add_eq_0)
    then have "unat ?x = mask 64" by (simp only: unat_minus_1_64)
    then have "unat ?x + 1 = 2 ^ 64" by (simp add: mask_eq_exp_minus_1)
    then show ?thesis using True n x by (simp add: scan_end_def)
  next
    case False
    then have "unat (?x + 1) = unat ?x + 1" by (rule unat_plus_1)
    then show ?thesis using False n x by (simp add: scan_end_def scan_pos_def)
  qed
qed

lemma DICTHT_SIZE_MASK_mask: "0 \<le> e \<Longrightarrow> DICTHT_SIZE_MASK e = mask (nat e)"
  by (simp add: DICTHT_SIZE_MASK_def mask_eq_exp_minus_1 push_bit_eq_mult)

lemma scan_idx: "unat (v AND DICTHT_SIZE_MASK e) = dict_idx v e"
  by (simp add: dict_idx_def)

text \<open>Two words have the same low bits when their positions have the same high bits.\<close>

lemma scan_pos_div_eq:
  assumes "e \<le> 63" "scan_pos v div 2 ^ (64 - e) = scan_pos h div 2 ^ (64 - e)"
  shows "unat v mod 2 ^ e = unat h mod 2 ^ e"
proof -
  have *: "drop_bit (64 - e) (scan_pos v) = drop_bit (64 - e) (scan_pos h)"
    using assms(2) by (simp add: drop_bit_eq_div)
  have "bit v i = bit h i" if "i < e" for i
  proof -
    have "bit (drop_bit (64 - e) (scan_pos v)) (e - 1 - i) = bit (drop_bit (64 - e) (scan_pos h)) (e - 1 - i)"
      by (simp only: *)
    moreover have "64 - e + (e - 1 - i) = 63 - i" "63 - (63 - i) = i" "63 - i < 64" using that assms(1) by auto
    ultimately show ?thesis by (simp add: scan_pos_def bit_simps bit_rev_ulong)
  qed
  then have "take_bit e (unat v) = take_bit e (unat h)" by (intro bit_eqI) (auto simp: bit_simps)
  then show ?thesis by (simp add: take_bit_eq_mod)
qed

lemma between_div_eq: "(p :: nat) \<le> x \<Longrightarrow> x < (p div w + 1) * w \<Longrightarrow> x div w = p div w"
  by (metis Suc_eq_plus1 div_le_mono le_antisym less_Suc_eq_le less_mult_imp_div_less)

lemma scan_pos_dvd: "2 ^ (64 - e) dvd scan_pos v \<longleftrightarrow> (\<forall>i. e \<le> i \<longrightarrow> i < 64 \<longrightarrow> \<not> bit v i)" if "e \<le> 64"
proof -
  have "2 ^ (64 - e) dvd scan_pos v \<longleftrightarrow> (\<forall>j < 64 - e. \<not> bit (scan_pos v) j)"
    by (auto simp: take_bit_eq_0_iff [symmetric] bit_eq_iff bit_take_bit_iff)
  also have "\<dots> \<longleftrightarrow> (\<forall>j < 64 - e. \<not> bit v (63 - j))"
    by (auto simp: scan_pos_def bit_simps bit_rev_ulong)
  also have "\<dots> \<longleftrightarrow> (\<forall>i. e \<le> i \<longrightarrow> i < 64 \<longrightarrow> \<not> bit v i)"
  proof safe
    fix i assume a: "\<forall>j<64 - e. \<not> bit v (63 - j)" "e \<le> i" "i < 64" "bit v i"
    then have "63 - i < 64 - e" "63 - (63 - i) = i" by auto
    with a show False by metis
  next
    fix j assume a: "\<forall>i. e \<le> i \<longrightarrow> i < 64 \<longrightarrow> \<not> bit v i" "j < 64 - e" "bit v (63 - j)"
    then have "e \<le> 63 - j" "63 - j < 64" by auto
    with a show False by blast
  qed
  finally show ?thesis .
qed

lemma scan_end_dvd:
  assumes "e \<le> 64"
  shows "2 ^ (64 - e) dvd scan_end v \<longleftrightarrow> (\<forall>i. e \<le> i \<longrightarrow> i < 64 \<longrightarrow> \<not> bit v i)"
proof (cases "v = 0")
  case True
  have "(2::nat) ^ (64 - e) dvd 2 ^ 64" by (rule le_imp_power_dvd) simp
  then show ?thesis using True by (simp add: scan_end_def)
next
  case False
  then show ?thesis using scan_pos_dvd [OF assms] by (simp add: scan_end_def)
qed

lemma next_multiple:
  fixes q k w :: nat
  assumes "0 < w" "0 < k"
  shows "if k * w dvd (q + 1) * w then (q + 1) * w = (q div k + 1) * (k * w)
    else (q + 1) * w div (k * w) = q div k"
proof -
  have d: "k * w dvd (q + 1) * w \<longleftrightarrow> (q + 1) mod k = 0"
    using assms by (simp add: mod_eq_0_iff_dvd del: mult_Suc)
  have e: "(q + 1) * w div (k * w) = (q + 1) div k" using assms by (simp del: mult_Suc)
  show ?thesis
  proof (cases "(q + 1) mod k = 0")
    case True
    then have "(q + 1) div k = q div k + 1" using assms by (simp add: div_Suc)
    moreover have "(q + 1) = (q + 1) div k * k" using True by (metis add.right_neutral div_mult_mod_eq)
    ultimately have "q + 1 = (q div k + 1) * k" by metis
    then have "(q + 1) * w = (q div k + 1) * (k * w)" by (metis mult.assoc)
    then show ?thesis using True d by simp
  next
    case False
    then show ?thesis using d e assms by (simp add: div_Suc)
  qed
qed

text \<open>The loop condition of the scan says that the cursor is inside a bucket of the smaller table.\<close>

lemma scan_expand_cond:
  assumes "a \<le> b" "b \<le> 63" "2 ^ (64 - b) dvd scan_end n"
  shows "n AND (mask a XOR mask b) = 0 \<longleftrightarrow> 2 ^ (64 - a) dvd scan_end n"
proof -
  have b: "\<not> bit n i" if "b \<le> i" "i < 64" for i using assms scan_end_dvd [of b n] that by simp
  have "n AND (mask a XOR mask b) = 0 \<longleftrightarrow> (\<forall>i < 64. bit n i \<longrightarrow> (i < a) = (i < b))"
    by (auto simp: bit_eq_iff bit_simps)
  also have "\<dots> \<longleftrightarrow> (\<forall>i. a \<le> i \<longrightarrow> i < 64 \<longrightarrow> \<not> bit n i)"
    using b assms(1) by (meson less_le_trans not_le)
  finally show ?thesis using scan_end_dvd [of a n] assms by simp
qed


subsection \<open>What one call reports\<close>

text \<open>The position of an entry in the order of the scan.\<close>

definition entry_pos :: "('i \<Rightarrow> 64 word) \<Rightarrow> ('k \<Rightarrow> 'i) \<Rightarrow> ('k, 'v) dictEntry \<Rightarrow> nat" where
  "entry_pos H kid e = scan_pos (H (kid (dictGetKey e)))"

definition scan_exp :: "('k, 'v) dict \<Rightarrow> nat" where
  "scan_exp d = nat (if dictIsRehashing d then min (ht_size_exp d 0) (ht_size_exp d 1) else ht_size_exp d 0)"

lemma bucket_in_range:
  assumes tb: "table_ok T H kid sk e tb u" "e \<noteq> - 1" and x: "x \<in> set (concat tb)"
    and p: "scan_pos v \<le> entry_pos H kid x" "entry_pos H kid x < (scan_pos v div 2 ^ (64 - nat e) + 1) * 2 ^ (64 - nat e)"
  shows "x \<in> set (tb ! dict_idx v e)"
proof -
  let ?h = "H (kid (dictGetKey x))"
  note L = table_ok_length [OF tb]
  have "scan_pos ?h div 2 ^ (64 - nat e) = scan_pos v div 2 ^ (64 - nat e)"
    using between_div_eq [OF p] by (simp add: entry_pos_def)
  then have "unat v mod 2 ^ nat e = unat ?h mod 2 ^ nat e" using L by (intro scan_pos_div_eq) auto
  then show ?thesis using table_ok_entry [OF tb(1) x] L by (simp add: dict_idx_mod Let_def)
qed

lemma dictScan_expand_ok:
  fixes tb :: "('k, 'v) dictEntry list list"
  assumes tb: "table_ok T H kid sk e1 tb u" "e1 \<noteq> - 1" and e0: "0 \<le> e0" "e0 \<le> e1"
  shows "\<exists>v' es. dictScan_expand tb (mask (nat e0)) (mask (nat e1)) v = Some (v', es) \<and> set es \<subseteq> set (concat tb) \<and>
    scan_end v' = (scan_pos v div 2 ^ (64 - nat e0) + 1) * 2 ^ (64 - nat e0) \<and>
    (\<forall>x\<in>set (concat tb). scan_pos v \<le> entry_pos H kid x \<longrightarrow> entry_pos H kid x < scan_end v' \<longrightarrow> x \<in> set es)"
proof (induction "2 ^ 64 - scan_pos v" arbitrary: v rule: less_induct)
  case less
  let ?m0 = "mask (nat e0) :: 64 word" and ?m1 = "mask (nat e1) :: 64 word"
  let ?n = "scan_next ?m1 v" and ?w = "2 ^ (64 - nat e1) :: nat" and ?k = "2 ^ (nat e1 - nat e0) :: nat"
  let ?W = "2 ^ (64 - nat e0) :: nat" and ?q = "scan_pos v div 2 ^ (64 - nat e1)" and ?b = "tb ! dict_idx v e1"
  note L = table_ok_length [OF tb]
  have i: "dict_idx v e1 < length tb" using table_ok_idx [OF tb] by blast
  have m1: "unat (v AND ?m1) = dict_idx v e1" using L by (simp add: dict_idx_def DICTHT_SIZE_MASK_mask)
  have ch: "chain ?b = ?b" using table_ok_bucket [OF tb(1) i] by (simp add: bucket_ok_def)
  have sub: "set ?b \<subseteq> set (concat tb)" by (rule nth_concat_subset [OF i])
  have "64 - nat e0 = (nat e1 - nat e0) + (64 - nat e1)" using L e0 by auto
  then have W: "?W = ?k * ?w" by (simp only: power_add)
  have en: "scan_end ?n = (?q + 1) * ?w" using L by (intro scan_next_end) auto
  have rng: "x \<in> set ?b" if "x \<in> set (concat tb)" "scan_pos v \<le> entry_pos H kid x" "entry_pos H kid x < scan_end ?n" for x
    using bucket_in_range [OF tb that(1,2)] that(3) en by simp
  have "?w dvd scan_end ?n" by (simp add: en)
  then have cond: "?n AND (?m0 XOR ?m1) = 0 \<longleftrightarrow> ?W dvd scan_end ?n"
    using L e0 by (intro scan_expand_cond) auto
  have qk: "?q div ?k = scan_pos v div ?W" by (simp add: W div_mult2_eq [symmetric] mult.commute)
  note N = next_multiple [of ?w ?k ?q, unfolded W [symmetric] en [symmetric] qk, simplified]
  have step: "dictScan_expand tb ?m0 ?m1 v =
      (if ?n AND (?m0 XOR ?m1) \<noteq> 0 then map_option (map_prod id (\<lambda>es. ?b @ es)) (dictScan_expand tb ?m0 ?m1 ?n)
       else Some (?n, ?b))"
    using i by (subst dictScan_expand.simps) (simp add: m1 rd_def ch)
  show ?case
  proof (cases "?n AND (?m0 XOR ?m1) = 0")
    case True
    then show ?thesis using step N cond sub rng by auto
  next
    case False
    then have nz: "?n \<noteq> 0" by auto
    then have pe: "scan_pos ?n = scan_end ?n" by (simp add: scan_end_def)
    have "scan_pos v < scan_pos ?n" using scan_next_grows [OF nz] by (simp add: scan_pos_def word_less_nat_alt)
    then have "2 ^ 64 - scan_pos ?n < 2 ^ 64 - scan_pos v" using scan_pos_bound [of ?n] by linarith
    from less [OF this] obtain v' es where r: "dictScan_expand tb ?m0 ?m1 ?n = Some (v', es)" "set es \<subseteq> set (concat tb)"
      "scan_end v' = (scan_pos ?n div ?W + 1) * ?W"
      "\<forall>x\<in>set (concat tb). scan_pos ?n \<le> entry_pos H kid x \<longrightarrow> entry_pos H kid x < scan_end v' \<longrightarrow> x \<in> set es" by blast
    have "scan_pos ?n div ?W = scan_pos v div ?W" using N cond False pe by simp
    moreover have "x \<in> set (?b @ es)" if "x \<in> set (concat tb)" "scan_pos v \<le> entry_pos H kid x" "entry_pos H kid x < scan_end v'" for x
      using rng [OF that(1,2)] r(4) that pe by (cases "entry_pos H kid x < scan_end ?n") auto
    ultimately show ?thesis using step False r sub by auto
  qed
qed

declare One_nat_def [simp del]

lemma pause_resume: "pauserehash d < 32768 \<Longrightarrow> dictResumeRehashing (dictPauseRehashing d) = d"
  by (cases "pauserehash d = 32767") (simp_all add: dictResumeRehashing_def dictPauseRehashing_def)

lemma dict_pause_fields [simp]:
  "ht_table (dictPauseRehashing d) = ht_table d" "ht_size_exp (dictPauseRehashing d) = ht_size_exp d"
  "dictIsRehashing (dictPauseRehashing d) = dictIsRehashing d"
  by (simp_all add: dictPauseRehashing_def dictIsRehashing_def)

text \<open>
  The contract of one call: it reports entries of the dictionary, among them all whose position lies between
  the old and the new cursor, and the new cursor is the next boundary of a bucket of the smaller table.
\<close>

definition scan_step_ok ::
  "('i \<Rightarrow> 64 word) \<Rightarrow> ('k \<Rightarrow> 'i) \<Rightarrow> ('k, 'v) dict \<Rightarrow> 64 word \<Rightarrow> 64 word \<Rightarrow> ('k, 'v) dictEntry list \<Rightarrow> bool" where
  "scan_step_ok H kid d v v' es \<longleftrightarrow> set es \<subseteq> set (dict_entries d) \<and>
     (\<forall>x\<in>set (dict_entries d). scan_pos v \<le> entry_pos H kid x \<longrightarrow> entry_pos H kid x < scan_end v' \<longrightarrow> x \<in> set es) \<and>
     (v' = 0 \<or> scan_end v' = (scan_pos v div 2 ^ (64 - scan_exp d) + 1) * 2 ^ (64 - scan_exp d))"

context dict_keys
begin

lemma dictScan_one_table:
  assumes ok: "dok d" and ne: "ht_size_exp d 0 \<noteq> - 1" and nre: "\<not> dictIsRehashing d"
  defines "m0 \<equiv> DICTHT_SIZE_MASK (ht_size_exp d 0)"
  shows "\<exists>b. rd (ht_table d 0) (unat (v AND m0)) = Some b \<and> scan_step_ok H kid d v (scan_next m0 v) (chain b)"
proof -
  note D = dict_okD [OF ok]
  note L = table_ok_length [OF D(1) ne]
  let ?i = "dict_idx v (ht_size_exp d 0)"
  have i: "?i < length (ht_table d 0)" using table_ok_idx [OF D(1) ne] by blast
  have ch: "chain (ht_table d 0 ! ?i) = ht_table d 0 ! ?i" using table_ok_bucket [OF D(1) i] by (simp add: bucket_ok_def)
  have t1: "ht_table d 1 = []" using D(2,4) nre by (auto simp: dictIsRehashing_def table_ok_def)
  have m: "m0 = mask (nat (ht_size_exp d 0))" using L by (simp add: m0_def DICTHT_SIZE_MASK_mask)
  have en: "scan_end (scan_next m0 v) = (scan_pos v div 2 ^ (64 - scan_exp d) + 1) * 2 ^ (64 - scan_exp d)"
    using L nre unfolding m scan_exp_def by (subst scan_next_end) auto
  have "scan_step_ok H kid d v (scan_next m0 v) (ht_table d 0 ! ?i)"
    unfolding scan_step_ok_def
  proof (intro conjI ballI impI disjI2)
    show "set (ht_table d 0 ! ?i) \<subseteq> set (dict_entries d)" using nth_concat_subset [OF i] by (auto simp: dict_entries_def)
    fix x assume "x \<in> set (dict_entries d)" "scan_pos v \<le> entry_pos H kid x" "entry_pos H kid x < scan_end (scan_next m0 v)"
    then show "x \<in> set (ht_table d 0 ! ?i)"
      using bucket_in_range [OF D(1) ne, of x v] en nre by (simp add: dict_entries_def t1 scan_exp_def)
  qed (rule en)
  then show ?thesis using i ch by (simp add: m0_def scan_idx rd_def)
qed

lemma dictScan_two_tables:
  assumes ok: "dok d" and re: "dictIsRehashing d" and t: "(s, l) = (0, 1) \<or> (s, l) = (1, 0)" "ht_size_exp d s < ht_size_exp d l"
  defines "m0 \<equiv> DICTHT_SIZE_MASK (ht_size_exp d s)" and "m1 \<equiv> DICTHT_SIZE_MASK (ht_size_exp d l)"
  shows "\<exists>b v' es. rd (ht_table d s) (unat (v AND m0)) = Some b \<and>
    dictScan_expand (ht_table d l) m0 m1 v = Some (v', es) \<and> scan_step_ok H kid d v v' (chain b @ es)"
proof -
  note D = dict_okD [OF ok]
  note D5 = D(5) [OF re [unfolded dictIsRehashing_def]]
  have ts: "tok (ht_size_exp d s) (ht_table d s) (ht_used d s)" "ht_size_exp d s \<noteq> - 1" using t D D5 by auto
  have tl: "tok (ht_size_exp d l) (ht_table d l) (ht_used d l)" "ht_size_exp d l \<noteq> - 1" using t D D5 by auto
  note L = table_ok_length [OF ts] table_ok_length [OF tl]
  let ?i = "dict_idx v (ht_size_exp d s)" and ?W = "2 ^ (64 - scan_exp d) :: nat"
  have i: "?i < length (ht_table d s)" using table_ok_idx [OF ts] by blast
  have ch: "chain (ht_table d s ! ?i) = ht_table d s ! ?i" using table_ok_bucket [OF ts(1) i] by (simp add: bucket_ok_def)
  have se: "scan_exp d = nat (ht_size_exp d s)" using t re by (auto simp: scan_exp_def)
  have m: "m0 = mask (nat (ht_size_exp d s))" "m1 = mask (nat (ht_size_exp d l))"
    using L by (simp_all add: m0_def m1_def DICTHT_SIZE_MASK_mask)
  have all: "set (dict_entries d) = set (concat (ht_table d s)) \<union> set (concat (ht_table d l))"
    using t(1) by (auto simp: dict_entries_def)
  obtain v' es where e: "dictScan_expand (ht_table d l) m0 m1 v = Some (v', es)" "set es \<subseteq> set (concat (ht_table d l))"
    "scan_end v' = (scan_pos v div ?W + 1) * ?W"
    "\<forall>x\<in>set (concat (ht_table d l)). scan_pos v \<le> entry_pos H kid x \<longrightarrow> entry_pos H kid x < scan_end v' \<longrightarrow> x \<in> set es"
    using dictScan_expand_ok [OF tl, of "ht_size_exp d s" v] L t(2) unfolding m se by auto
  have "scan_step_ok H kid d v v' (ht_table d s ! ?i @ es)"
    unfolding scan_step_ok_def
  proof (intro conjI ballI impI disjI2)
    show "set (ht_table d s ! ?i @ es) \<subseteq> set (dict_entries d)" using nth_concat_subset [OF i] e(2) by (auto simp: all)
    fix x assume x: "x \<in> set (dict_entries d)" "scan_pos v \<le> entry_pos H kid x" "entry_pos H kid x < scan_end v'"
    then show "x \<in> set (ht_table d s ! ?i @ es)"
      using bucket_in_range [OF ts, of x v] e(3,4) unfolding all se by auto
  qed (rule e(3))
  then show ?thesis using i ch e(1) by (simp add: m0_def scan_idx rd_def)
qed

lemma dictScan_ok:
  assumes ok: "dok d" and p: "pauserehash d < 32768"
  shows "\<exists>v' es. dictScan d v = Some (d, v', es) \<and> scan_step_ok H kid d v v' es"
proof (cases "dictSize d = 0")
  case True
  then have "dict_entries d = []" using dict_size_card(1) [OF ok] by simp
  then show ?thesis using True by (simp add: dictScan_def scan_step_ok_def)
next
  case False
  note D = dict_okD [OF ok]
  note P = pause_resume [OF p]
  show ?thesis
  proof (cases "dictIsRehashing d")
    case nre: False
    have "ht_size_exp d 0 \<noteq> - 1" using dict_size_table0 [OF ok False] D(1) by (auto simp: table_ok_def)
    from dictScan_one_table [OF ok this nre, of v] show ?thesis
      using False nre P by (auto simp: dictScan_def Let_def)
  next
    case True
    note D5 = D(5) [OF True [unfolded dictIsRehashing_def]]
    have s: "DICTHT_SIZE (ht_size_exp d 0) > DICTHT_SIZE (ht_size_exp d 1) \<longleftrightarrow> ht_size_exp d 1 < ht_size_exp d 0"
      using table_ok_length [OF D(1)] table_ok_length [OF D(2)] D5 by (auto simp: DICTHT_SIZE_def)
    show ?thesis
    proof (cases "ht_size_exp d 1 < ht_size_exp d 0")
      case lt: True
      from dictScan_two_tables [OF ok True _ lt, of v] show ?thesis
        using False True P s lt by (auto simp: dictScan_def Let_def)
    next
      case ge: False
      with D5 have lt: "ht_size_exp d 0 < ht_size_exp d 1" by auto
      from dictScan_two_tables [OF ok True _ lt, of v] show ?thesis
        using False True P s ge by (auto simp: dictScan_def Let_def)
    qed
  qed
qed

end


subsection \<open>A whole iteration\<close>

text \<open>
  The loop of a caller: start with a cursor, continue with the one returned until it is 0. The
  states are those in which the dictionary is found at the successive calls. The result is the number of calls, whether
  the iteration ended, and the entries reported.
\<close>

fun scan_session ::
  "('k, 'v) dict list \<Rightarrow> 64 word \<Rightarrow> (nat \<times> bool \<times> ('k, 'v) dictEntry list) option" where
  "scan_session [] v = Some (0, False, [])"
| "scan_session (d # ds) v = do {
     (d', v', es) \<leftarrow> dictScan d v;
     if v' = 0 then Some (1, True, es)
     else do { (n, fin, es') \<leftarrow> scan_session ds v'; Some (n + 1, fin, es @ es') } }"

lemma next_boundary:
  fixes p w u :: nat
  assumes "u dvd w" "u dvd p" "0 < w"
  shows "u dvd (p div w + 1) * w" "p + u \<le> (p div w + 1) * w"
proof -
  show d: "u dvd (p div w + 1) * w" using assms(1) by (rule dvd_mult)
  have "p < (p div w + 1) * w" using assms(3) dividend_less_div_times [of w p] by (simp add: add.commute distrib_right)
  moreover from this have "u dvd (p div w + 1) * w - p" using d assms(2) by (intro dvd_diff_nat)
  ultimately have "u \<le> (p div w + 1) * w - p" by (intro dvd_imp_le) auto
  then show "p + u \<le> (p div w + 1) * w" using \<open>p < _\<close> by linarith
qed

lemma dict_map_dom_entry: "x \<in> dom (dict_map kid d) \<longleftrightarrow> (\<exists>e\<in>set (dict_entries d). kid (dictGetKey e) = x)"
  using dict_map_None [of kid d x] by auto

context dict_keys
begin

lemma scan_session_ok:
  assumes "\<forall>d\<in>set ds. dok d \<and> pauserehash d < 32768 \<and> scan_exp d \<le> E" "E \<le> 64"
    "2 ^ (64 - E) dvd scan_pos v" "2 ^ 64 \<le> scan_pos v + length ds * 2 ^ (64 - E)"
  shows "\<exists>n es. scan_session ds v = Some (n, True, es) \<and> n \<le> length ds \<and>
    (\<forall>e\<in>set es. \<exists>d\<in>set (take n ds). e \<in> set (dict_entries d)) \<and>
    (\<forall>x. scan_pos v \<le> scan_pos (H x) \<longrightarrow> (\<forall>d\<in>set (take n ds). x \<in> dom (dict_map kid d)) \<longrightarrow>
       x \<in> (kid \<circ> dictGetKey) ` set es)"
  using assms
proof (induction ds arbitrary: v)
  case Nil
  then show ?case using scan_pos_bound [of v] by simp
next
  case (Cons d ds)
  obtain v' es where s: "dictScan d v = Some (d, v', es)" "scan_step_ok H kid d v v' es"
    using dictScan_ok [of d v] Cons.prems(1) by auto
  have here: "x \<in> (kid \<circ> dictGetKey) ` set es"
    if x: "x \<in> dom (dict_map kid d)" and "scan_pos v \<le> scan_pos (H x)" "scan_pos (H x) < scan_end v'" for x
    using x that(2,3) s(2) unfolding dict_map_dom_entry scan_step_ok_def entry_pos_def by force
  have sub: "set es \<subseteq> set (dict_entries d)" using s(2) by (simp add: scan_step_ok_def)
  show ?case
  proof (cases "v' = 0")
    case True
    then have "scan_end v' = 2 ^ 64" by (simp add: scan_end_def)
    then show ?thesis using s(1) True sub here scan_pos_bound by (intro exI [of _ 1] exI [of _ es]) (auto simp: One_nat_def)
  next
    case False
    let ?w = "2 ^ (64 - scan_exp d) :: nat" and ?u = "2 ^ (64 - E) :: nat"
    have en: "scan_pos v' = (scan_pos v div ?w + 1) * ?w" "scan_end v' = scan_pos v'"
      using s(2) False by (auto simp: scan_step_ok_def scan_end_def)
    have "?u dvd ?w" using Cons.prems(1) by (intro le_imp_power_dvd) auto
    note B = next_boundary [OF this Cons.prems(3)]
    have l: "2 ^ 64 \<le> scan_pos v' + length ds * ?u" using B(2) Cons.prems(4) unfolding en(1) [symmetric] by simp
    have d: "?u dvd scan_pos v'" using B(1) unfolding en(1) [symmetric] by simp
    have "\<forall>d\<in>set ds. dok d \<and> pauserehash d < 32768 \<and> scan_exp d \<le> E" using Cons.prems(1) by simp
    from Cons.IH [OF this Cons.prems(2) d l] obtain n es' where r: "scan_session ds v' = Some (n, True, es')" "n \<le> length ds"
      "\<forall>e\<in>set es'. \<exists>d\<in>set (take n ds). e \<in> set (dict_entries d)"
      "\<forall>x. scan_pos v' \<le> scan_pos (H x) \<longrightarrow> (\<forall>d\<in>set (take n ds). x \<in> dom (dict_map kid d)) \<longrightarrow>
         x \<in> (kid \<circ> dictGetKey) ` set es'" by blast
    have "scan_session (d # ds) v = Some (n + 1, True, es @ es')" using s(1) False r(1) by simp
    moreover have "x \<in> (kid \<circ> dictGetKey) ` set (es @ es')"
      if "scan_pos v \<le> scan_pos (H x)" "\<forall>d\<in>set (take (n + 1) (d # ds)). x \<in> dom (dict_map kid d)" for x
      using that here [of x] r(4) [rule_format, of x] en(2) by (cases "scan_pos (H x) < scan_pos v'") (auto simp: One_nat_def image_Un)
    ultimately show ?thesis using r(2,3) sub
      by (intro exI [of _ "n + 1"] exI [of _ "es @ es'"]) (auto simp: One_nat_def)
  qed
qed

end

text \<open>
  C39. An iteration with \<open>dictScan\<close> terminates and is complete. Let every state in which the dictionary is found
  satisfy the invariant, with at most 2^E buckets in its smaller table; the content and the tables may change in
  any way between the calls. Then no call faults, after at most 2^E calls the cursor is 0 again, only entries of the
  dictionary have been reported, and every key that was present at all these calls has been reported.
\<close>

theorem dictScan_complete:
  assumes "dict_keys T H kid lk sk"
    "\<forall>d\<in>set ds. dict_ok T H kid sk d \<and> pauserehash d < 32768 \<and> scan_exp d \<le> E" "E \<le> 60" "length ds = 2 ^ E"
  shows "\<exists>n es. scan_session ds 0 = Some (n, True, es) \<and> n \<le> 2 ^ E \<and>
    (\<forall>e\<in>set es. \<exists>d\<in>set (take n ds). e \<in> set (dict_entries d)) \<and>
    (\<forall>x. (\<forall>d\<in>set (take n ds). x \<in> dom (dict_map kid d)) \<longrightarrow> x \<in> (kid \<circ> dictGetKey) ` set es)"
proof -
  have "length ds * 2 ^ (64 - E) = 2 ^ 64" using assms(3,4) by (simp flip: power_add)
  then have "\<exists>n es. scan_session ds 0 = Some (n, True, es) \<and> n \<le> length ds \<and>
    (\<forall>e\<in>set es. \<exists>d\<in>set (take n ds). e \<in> set (dict_entries d)) \<and>
    (\<forall>x. scan_pos 0 \<le> scan_pos (H x) \<longrightarrow> (\<forall>d\<in>set (take n ds). x \<in> dom (dict_map kid d)) \<longrightarrow>
       x \<in> (kid \<circ> dictGetKey) ` set es)"
    using assms(2,3) by (intro dict_keys.scan_session_ok [OF assms(1), where E = E]) (simp_all add: scan_pos_def)
  then show ?thesis by (simp add: assms(4) scan_pos_def)
qed

text \<open>A type of number keys, and a dictionary that starts to grow from four to eight buckets during the iteration.\<close>

definition numDictType :: "(nat, nat) dictType" where
  "numDictType = \<lparr>hashFunction = of_nat, keyDup = NULL, valDup = NULL, keyCompare = NULL, keyDestructor = False,
     valDestructor = False, resizeAllowed = NULL, rehashingStarted = False, rehashingCompleted = False,
     onDictRelease = False, no_value = False, keys_are_odd = False, storedHashFunction = NULL,
     storedKeyCompare = NULL, key_lsb = odd\<rparr>"

definition scan_state_1 :: "(nat, nat) dict" where
  "scan_state_1 = \<lparr>ht_table = (\<lambda>_. [])(0 := [[], [Normal 5 (Some 0), Normal 1 (Some 0)], [Normal 2 (Some 0)], []]),
     ht_used = (\<lambda>_. 0)(0 := 3), rehashidx = - 1, pauserehash = 0, useStoredKeyApi = False,
     ht_size_exp = (\<lambda>_. - 1)(0 := 2), pauseAutoResize = 0, d_trace = []\<rparr>"

definition scan_state_2 :: "(nat, nat) dict" where
  "scan_state_2 = \<lparr>ht_table = (\<lambda>_. [])(0 := [[], [], [Normal 2 (Some 0)], []],
       1 := [[], [Normal 1 (Some 0)], [], [], [], [Normal 5 (Some 0)], [], []]),
     ht_used = (\<lambda>_. 0)(0 := 1, 1 := 2), rehashidx = 2, pauserehash = 0, useStoredKeyApi = False,
     ht_size_exp = (\<lambda>_. - 1)(0 := 2, 1 := 3), pauseAutoResize = 0, d_trace = []\<rparr>"

lemma numDictType_keys: "dict_keys numDictType of_nat id (\<lambda>_. True) (\<lambda>_. True)"
  by unfold_locales (simp_all add: numDictType_def dictHashKey_def dictGetKeyCmpFunc_def dictDefaultCompare_def)

lemma all_nth_enumerate: "(\<forall>j<length tb. P j (tb ! j)) \<longleftrightarrow> list_all (\<lambda>(j, b). P j b) (enumerate 0 tb)"
  by (auto simp: list_all_length nth_enumerate_eq)

lemma all_less_2: "(\<forall>j < 2 :: nat. P j) \<longleftrightarrow> P 0 \<and> P 1"
  by (auto simp: less_2_cases_iff One_nat_def)

lemma scan_state_1_ok:
  "dict_ok numDictType of_nat id (\<lambda>_. True) scan_state_1" "pauserehash scan_state_1 < 32768" "scan_exp scan_state_1 \<le> 2"
  "x \<in> {1, 2, 5} \<Longrightarrow> x \<in> dom (dict_map id scan_state_1)"
proof -
  show "dict_ok numDictType of_nat id (\<lambda>_. True) scan_state_1"
    unfolding dict_ok_def table_ok_def all_nth_enumerate [of _ "\<lambda>j. bucket_ok _ _ _ _ _ j"]
    by (simp add: bucket_ok_def entry_ok_def dict_entries_def numDictType_def scan_state_1_def One_nat_def)
qed (auto simp: scan_state_1_def scan_exp_def dictIsRehashing_def dict_map_dom_entry dict_entries_def)

lemma scan_state_2_ok:
  "dict_ok numDictType of_nat id (\<lambda>_. True) scan_state_2" "pauserehash scan_state_2 < 32768" "scan_exp scan_state_2 \<le> 2"
  "x \<in> {1, 2, 5} \<Longrightarrow> x \<in> dom (dict_map id scan_state_2)"
proof -
  show "dict_ok numDictType of_nat id (\<lambda>_. True) scan_state_2"
    unfolding dict_ok_def table_ok_def all_nth_enumerate [of _ "\<lambda>j. bucket_ok _ _ _ _ _ j"]
    by (simp add: bucket_ok_def entry_ok_def dict_entries_def numDictType_def scan_state_2_def all_less_2 One_nat_def)
qed (auto simp: scan_state_2_def scan_exp_def dictIsRehashing_def dict_map_dom_entry dict_entries_def)

theorem dictScan_complete_witness:
  "\<exists>n es. scan_session [scan_state_1, scan_state_2, scan_state_2, scan_state_2] 0 = Some (n, True, es) \<and> n \<le> 4 \<and>
     {1, 2, 5} \<subseteq> dictGetKey ` set es"
proof -
  let ?ds = "[scan_state_1, scan_state_2, scan_state_2, scan_state_2]"
  have "\<forall>d\<in>set ?ds. dict_ok numDictType of_nat id (\<lambda>_. True) d \<and> pauserehash d < 32768 \<and> scan_exp d \<le> 2"
    using scan_state_1_ok(1-3) scan_state_2_ok(1-3) by simp
  from dictScan_complete [OF numDictType_keys this] obtain n es where r:
    "scan_session ?ds 0 = Some (n, True, es)" "n \<le> 2 ^ 2"
    "\<forall>x. (\<forall>d\<in>set (take n ?ds). x \<in> dom (dict_map id d)) \<longrightarrow> x \<in> (id \<circ> dictGetKey) ` set es" by auto
  have "\<forall>d\<in>set (take n ?ds). x \<in> dom (dict_map id d)" if "x \<in> {1, 2, 5}" for x
    using scan_state_1_ok(4) [OF that] scan_state_2_ok(4) [OF that] by (auto dest!: in_set_takeD)
  then have "{1, 2, 5} \<subseteq> dictGetKey ` set es" using r(3) by auto
  then show ?thesis using r(1,2) by auto
qed

end
