(* ===== verification/Spec2Isabelle.thy ===== *)
theory Spec2Isabelle
  imports Util_Num Endianconv Intset Listpack_Bulk Glob Util_Str Adlist Rdb_String Sds Dict_Scan
begin

text \<open>
  \<^bold>\<open>A verification development for the data layer of Redis 7.4.2\<close>, the server that the repository
  bundles under \<open>src/.local/redis/redis-7.4.2\<close>. File names below are relative to its \<open>src\<close> directory.

  \<^bold>\<open>The program.\<close> Redis keeps its data set in memory in compact byte-level structures, saves it to a
  file or sends it to a replica in the RDB format, and talks to clients in strings. The development
  covers the code in which every byte and every width counts: conversions between integers and text,
  byte order, strings, the linked list, the packed integer set, the packed list, the compressor, the
  glob matcher, the streams, and the part of the RDB format that stores strings. The parts build on each other
  the way the code does: RDB strings are written through streams and use the compressor and the integer
  conversions; packed lists use the integer conversions; strings use them for formatting.

  \<^bold>\<open>Conventions.\<close> A C function is a HOL function of the same name. A computation that may fault has an
  option type, and \<open>None\<close> stands for an access outside a block, a failed \<open>assert\<close>, an abort for lack of
  memory or undefined arithmetic; \<open>do\<close> blocks follow the statements. A block is the list of its bytes, a pointer
  into it an offset (or the rest of the list for a C string), a pointer that may be NULL a value of type
  \<open>nullable\<close>. Unsigned arithmetic that may wrap is written with its modulus or on words. Loops are recursive functions with termination
  proofs; only \<open>stringmatchlen_impl\<close> has fuel, the nesting limit 1000 that the code itself has (1001 is enough because the code
  stops there). What is not code of the repository is a parameter: the allocator, uninitialised
  memory, results of \<open>rand\<close>, and the answers of the operating system on connections and pipes.

  \<^bold>\<open>Theories.\<close>

  \<^item> \<open>Redis_Prelude\<close>: blocks, faults, nullable pointers, widths, little-endian numbers.

  \<^item> \<open>Util_Num\<close>, \<open>Util_Str\<close> (\<open>util.c\<close>, \<open>util.h\<close>): \<open>ll2string\<close>, \<open>string2ll\<close>, \<open>string2ull\<close>, \<open>memtoull\<close>, the
    hexadecimal parser and the byte-set functions; printing and parsing are shown to be inverse, the
    accepted texts are characterised exactly, and overflow and missing range checks are made explicit.

  \<^item> \<open>Endianconv\<close> (\<open>endianconv.c\<close>): reversal of bytes in place and by value.

  \<^item> \<open>Records\<close>, \<open>Set_Interface\<close>, \<open>Intset\<close> (\<open>intset.c\<close>): fixed-width records in a block; the contract of a
    bounded set as a locale; the sorted integer array, shown to be a set under every sequence of
    operations, with search, upgrade, integrity check and the overflow of the tail move.

  \<^item> \<open>Listpack_Encoding\<close>, \<open>Listpack\<close>, \<open>Listpack_Correct\<close>, \<open>Seq_Interface\<close>, \<open>Listpack_Seq\<close>,
    \<open>Listpack_Bulk\<close> (\<open>listpack.c\<close>): the entry encodings with round trips; the operations on one block; what a block
    represents and that every operation is the list operation; the contract of a sequence as a
    locale and its interpretation; ranges, batches, merging, search and validation of arbitrary bytes.

  \<^item> \<open>Glob\<close> (\<open>util.c\<close>): \<open>stringmatchlen\<close> against a reference semantics of patterns.

  \<^item> \<open>Lzf\<close> (\<open>lzf_c.c\<close>, \<open>lzf_d.c\<close>): compression for any initial hash table, and that decompression inverts it and
    is safe on arbitrary input.

  \<^item> \<open>Adlist\<close> (\<open>adlist.c\<close>): the doubly linked list on a heap of nodes; refinement, the invariant of the links and of
    the freed values, and the error path of copying.

  \<^item> \<open>Sds\<close> (\<open>sds.c\<close>, \<open>sds.h\<close>): strings with their five header formats, shown to hold the
    prescribed bytes after every sequence of operations; quoting and splitting of arguments; splitting and joining.

  \<^item> \<open>Rio\<close> (\<open>rio.c\<close>, \<open>rio.h\<close>): streams over a buffer, a connection and a pipe; locales state what a source and a
    sink promise, and each backend interprets them.

  \<^item> \<open>Rdb_String\<close> (\<open>rdb.c\<close>): lengths, integers and strings of the RDB format; round trips
    through a buffer and through pipe and connection, and loading of arbitrary bytes.

  \<^bold>\<open>Bounds.\<close> Hypotheses bound sizes where the code's integer types do: 64-bit lengths, the 32-bit
  listpack header, \<open>int\<close> slots of \<open>sdssplitlen\<close>. The allocator of the string theorems grants requests up to a
  limit that the theorems relate to the lengths involved.

  \<^bold>\<open>Not modelled.\<close> The server loop, networking, clustering, replication state, commands, modules, scripting and persistence of
  whole data sets (\<open>server.c\<close>, \<open>networking.c\<close>, \<open>cluster_legacy.c\<close>, \<open>replication.c\<close>, \<open>module.c\<close>, the \<open>t_*.c\<close> command files
  and others) act on process-wide state, sockets, clocks and child processes; the larger containers
  (\<open>quicklist.c\<close>, \<open>rax.c\<close>, \<open>ziplist.c\<close>, the skip list of \<open>t_zset.c\<close>, \<open>t_stream.c\<close>) are left for
  further theories; floating-point conversions would need the C library's \<open>strtod\<close> and the bundled \<open>fpconv\<close>; the bundled
  third-party libraries (jemalloc, Lua, hiredis, linenoise, hdr_histogram) are developed elsewhere. The web
  application in the rest of the repository (TypeScript services and pages) works in floating point on
  results of external services and is not part of this development.
\<close>

end
